(* ===== verification/Prelude.thy ===== *)
theory Prelude
  imports Complex_Main "HOL-Library.AList" "HOL-Library.Word"
begin

text \<open>
  The part of the JavaScript run time that the modelled packages share: numbers, dynamically typed
  values, strings, and \<open>Map\<close> objects.

  \<^item> A number is a finite value, one of the two infinities or \<open>NaN\<close>. Finite values are
    rationals: every finite double is one, and the sums and differences the modelled code forms are
    of integers below \<open>2 ^ 53\<close>, where binary64 arithmetic is exact. The sign of zero is not kept.
  \<^item> A value of unknown type is a \<open>jsval\<close>. Objects are lists of own enumerable data properties in
    insertion order; functions are opaque names, so two different functions stay different.
  \<^item> A string is a list of code units below 256. Every protocol field, field name and identifier
    the code accepts is ASCII, and the code units above 127 stand for the ones it rejects or escapes.
  \<^item> A \<open>Map\<close> is an association list in insertion order: \<open>AList.update\<close> keeps the position of a key
    that is present and appends a new one, as \<open>Map.prototype.set\<close> does.
\<close>

named_theorems js_simps \<open>evaluation rules of the JavaScript run time\<close>

section \<open>Numbers\<close>

datatype jsnum = Fin rat | PosInf | NegInf | NaN

text \<open>The relational operators: every comparison with \<open>NaN\<close> is false.\<close>

fun num_le :: "jsnum \<Rightarrow> jsnum \<Rightarrow> bool" where
  "num_le NaN _ = False"
| "num_le _ NaN = False"
| "num_le NegInf _ = True"
| "num_le _ PosInf = True"
| "num_le (Fin a) (Fin b) = (a \<le> b)"
| "num_le _ _ = False"

fun is_finite :: "jsnum \<Rightarrow> bool" where
  "is_finite (Fin _) = True"
| "is_finite _ = False"

definition MAX_SAFE_INTEGER :: int where
  "MAX_SAFE_INTEGER = 9007199254740991"

text \<open>\<open>Number.isSafeInteger\<close>, with the integer it recognises.\<close>

fun safe_int :: "jsnum \<Rightarrow> int option" where
  "safe_int (Fin q) =
     (if of_int \<lfloor>q\<rfloor> = q \<and> \<bar>\<lfloor>q\<rfloor>\<bar> \<le> MAX_SAFE_INTEGER then Some \<lfloor>q\<rfloor> else None)"
| "safe_int _ = None"

definition is_safe :: "int \<Rightarrow> bool" where
  "is_safe n \<longleftrightarrow> \<bar>n\<bar> \<le> MAX_SAFE_INTEGER"

abbreviation of_integer :: "int \<Rightarrow> jsnum" where
  "of_integer n \<equiv> Fin (of_int n)"

lemma safe_int_of_integer [simp, js_simps]:
  "safe_int (of_integer n) = (if is_safe n then Some n else None)"
  by (simp add: is_safe_def)

lemma safe_int_SomeD: "safe_int x = Some n \<Longrightarrow> x = of_integer n \<and> is_safe n"
  by (cases x) (auto simp: is_safe_def split: if_splits)

lemma num_le_Fin [js_simps]: "num_le (Fin a) (Fin b) \<longleftrightarrow> a \<le> b"
  by simp

lemma num_le_trans: "num_le a b \<Longrightarrow> num_le b c \<Longrightarrow> num_le a c"
  by (cases a; cases b; cases c) auto

text \<open>
  A total order of the numbers, with \<open>NaN\<close> below all others: on numbers that are not \<open>NaN\<close> it is the
  relational operator.
\<close>

instantiation jsnum :: linorder
begin

fun less_eq_jsnum :: "jsnum \<Rightarrow> jsnum \<Rightarrow> bool" where
  "less_eq_jsnum NaN _ = True"
| "less_eq_jsnum _ NaN = False"
| "less_eq_jsnum NegInf _ = True"
| "less_eq_jsnum _ NegInf = False"
| "less_eq_jsnum _ PosInf = True"
| "less_eq_jsnum PosInf _ = False"
| "less_eq_jsnum (Fin a) (Fin b) = (a \<le> b)"

definition less_jsnum :: "jsnum \<Rightarrow> jsnum \<Rightarrow> bool" where
  "less_jsnum a b \<longleftrightarrow> a \<le> b \<and> \<not> b \<le> (a :: jsnum)"

instance
proof
  fix a b c :: jsnum
  show "a < b \<longleftrightarrow> a \<le> b \<and> \<not> b \<le> a" by (simp add: less_jsnum_def)
  show "a \<le> a" by (cases a) simp_all
  show "a \<le> b \<Longrightarrow> b \<le> c \<Longrightarrow> a \<le> c" by (cases a; cases b; cases c) simp_all
  show "a \<le> b \<Longrightarrow> b \<le> a \<Longrightarrow> a = b" by (cases a; cases b) simp_all
  show "a \<le> b \<or> b \<le> a" by (cases a; cases b) auto
qed

end

lemma num_le_finite: "is_finite a \<Longrightarrow> num_le a b \<longleftrightarrow> a \<le> b"
  by (cases a; cases b) simp_all

section \<open>Values\<close>

type_synonym bytes = "8 word list"

datatype jsval =
    JUndef
  | JNull
  | JBool bool
  | JNum jsnum
  | JStr string
  | JArr "jsval list"
  | JObj "(string \<times> jsval) list"
  | JBytes bytes
  | JFun nat

abbreviation jint :: "int \<Rightarrow> jsval" where
  "jint n \<equiv> JNum (of_integer n)"

text \<open>The value of an own property, \<open>undefined\<close> where there is none.\<close>

fun jprop :: "jsval \<Rightarrow> string \<Rightarrow> jsval" where
  "jprop (JObj ps) k = (case map_of ps k of Some v \<Rightarrow> v | None \<Rightarrow> JUndef)"
| "jprop _ _ = JUndef"

fun has_own :: "jsval \<Rightarrow> string \<Rightarrow> bool" where
  "has_own (JObj ps) k = (k \<in> set (map fst ps))"
| "has_own _ _ = False"

fun is_str :: "jsval \<Rightarrow> bool" where
  "is_str (JStr _) = True"
| "is_str _ = False"

fun as_safe :: "jsval \<Rightarrow> int option" where
  "as_safe (JNum x) = safe_int x"
| "as_safe _ = None"

text \<open>The operator \<open>a ?? b\<close>.\<close>

definition nullish :: "jsval \<Rightarrow> jsval \<Rightarrow> jsval" where
  "nullish a b = (if a = JUndef \<or> a = JNull then b else a)"

lemma nullish_simps [simp]:
  "nullish JUndef b = b"
  "nullish JNull b = b"
  "nullish (JStr s) b = JStr s"
  "nullish (JNum x) b = JNum x"
  by (simp_all add: nullish_def)

lemma as_safe_jint [simp, js_simps]: "as_safe (jint n) = (if is_safe n then Some n else None)"
  by (simp add: is_safe_def)

lemma as_safe_SomeD: "as_safe v = Some n \<Longrightarrow> v = jint n \<and> is_safe n"
  by (cases v) (auto dest: safe_int_SomeD simp del: safe_int.simps)

declare safe_int.simps [simp del]

lemma safe_int_other [simp]: "safe_int NaN = None" "safe_int PosInf = None" "safe_int NegInf = None"
  by (simp_all add: safe_int.simps)

lemma safe_int_literal [simp, js_simps]:
  "safe_int (Fin (numeral n)) = (if is_safe (numeral n) then Some (numeral n) else None)"
  "safe_int (Fin 0) = Some 0" "safe_int (Fin 1) = Some 1"
  using safe_int_of_integer [of "numeral n"] safe_int_of_integer [of 0] safe_int_of_integer [of 1]
  by (simp_all add: is_safe_def MAX_SAFE_INTEGER_def)

section \<open>Strings\<close>

definition starts_with :: "string \<Rightarrow> string \<Rightarrow> bool" where
  "starts_with s p \<longleftrightarrow> take (length p) s = p"

lemma starts_with_iff: "starts_with s p \<longleftrightarrow> (\<exists>r. s = p @ r)"
  unfolding starts_with_def by (metis append_eq_conv_conj append_take_drop_id)

lemma starts_with_append [simp]: "starts_with (p @ r) p"
  by (simp add: starts_with_def)

text \<open>\<open>s.split(c)\<close> for a separator of one code unit: never empty.\<close>

fun split_on :: "char \<Rightarrow> string \<Rightarrow> string list" where
  "split_on c [] = [[]]"
| "split_on c (x # xs) =
     (if x = c then [] # split_on c xs
      else (x # hd (split_on c xs)) # tl (split_on c xs))"

fun join_with :: "char \<Rightarrow> string list \<Rightarrow> string" where
  "join_with c [] = []"
| "join_with c [s] = s"
| "join_with c (s # t # ss) = s @ c # join_with c (t # ss)"

lemma split_on_ne [simp]: "split_on c s \<noteq> []"
  by (induction s) auto

lemma join_split: "join_with c (split_on c s) = s"
proof (induction s)
  case (Cons x xs)
  obtain a as where "split_on c xs = a # as"
    by (cases "split_on c xs") auto
  with Cons show ?case
    by (cases as) auto
qed simp

text \<open>One recursive call per character, for evaluation.\<close>

lemma split_on_code [code]:
  "split_on c [] = [[]]"
  "split_on c (x # xs) = (case split_on c xs of [] \<Rightarrow> [] | p # ps \<Rightarrow> if x = c then [] # p # ps else (x # p) # ps)"
proof -
  show "split_on c (x # xs) = (case split_on c xs of [] \<Rightarrow> [] | p # ps \<Rightarrow> if x = c then [] # p # ps else (x # p) # ps)"
    using split_on_ne [of c xs] by (cases "split_on c xs") simp_all
qed simp

lemma split_on_notin: "p \<in> set (split_on c s) \<Longrightarrow> c \<notin> set p"
proof (induction s arbitrary: p)
  case (Cons x xs)
  then show ?case
    by (cases "split_on c xs") (auto split: if_splits)
qed simp

text \<open>White space of \<open>String.prototype.trim\<close> and of the class \<open>\s\<close>, within the modelled code units.\<close>

definition is_ws :: "char \<Rightarrow> bool" where
  "is_ws c \<longleftrightarrow> of_char c \<in> {9::nat, 10, 11, 12, 13, 32, 160}"

definition js_trim :: "string \<Rightarrow> string" where
  "js_trim s = rev (dropWhile is_ws (rev (dropWhile is_ws s)))"

definition char_between :: "nat \<Rightarrow> nat \<Rightarrow> char \<Rightarrow> bool" where
  "char_between lo hi c \<longleftrightarrow> lo \<le> of_char c \<and> of_char c \<le> hi"

definition is_digit :: "char \<Rightarrow> bool" where
  "is_digit = char_between 48 57"

definition is_upper :: "char \<Rightarrow> bool" where
  "is_upper = char_between 65 90"

definition is_lower :: "char \<Rightarrow> bool" where
  "is_lower = char_between 97 122"

definition to_lower :: "char \<Rightarrow> char" where
  "to_lower c = (if is_upper c then char_of (of_char c + 32 :: nat) else c)"

definition to_upper :: "char \<Rightarrow> char" where
  "to_upper c = (if is_lower c then char_of (of_char c - 32 :: nat) else c)"

text \<open>The class \<open>[A-Za-z0-9_-]\<close>, the base64url alphabet.\<close>

definition is_b64url :: "char \<Rightarrow> bool" where
  "is_b64url c \<longleftrightarrow> is_upper c \<or> is_lower c \<or> is_digit c \<or> c = CHR ''_'' \<or> c = CHR ''-''"

text \<open>A natural number in decimal.\<close>

fun digits :: "nat \<Rightarrow> string" where
  "digits n = (if n < 10 then [char_of (48 + n)] else digits (n div 10) @ [char_of (48 + n mod 10)])"

declare digits.simps [simp del]

section \<open>Maps\<close>

type_synonym ('k, 'v) jsmap = "('k \<times> 'v) list"

abbreviation mget :: "('k, 'v) jsmap \<Rightarrow> 'k \<Rightarrow> 'v option" where
  "mget m k \<equiv> map_of m k"

abbreviation mput :: "'k \<Rightarrow> 'v \<Rightarrow> ('k, 'v) jsmap \<Rightarrow> ('k, 'v) jsmap" where
  "mput k v m \<equiv> AList.update k v m"

abbreviation mdel :: "'k \<Rightarrow> ('k, 'v) jsmap \<Rightarrow> ('k, 'v) jsmap" where
  "mdel k m \<equiv> AList.delete k m"

definition wf_map :: "('k, 'v) jsmap \<Rightarrow> bool" where
  "wf_map m \<longleftrightarrow> distinct (map fst m)"

lemma wf_map_Nil [simp, intro]: "wf_map []"
  by (simp add: wf_map_def)

lemma wf_map_mput [simp, intro]: "wf_map m \<Longrightarrow> wf_map (mput k v m)"
  by (simp add: wf_map_def distinct_update)

lemma wf_map_mdel [simp, intro]: "wf_map m \<Longrightarrow> wf_map (mdel k m)"
  by (simp add: wf_map_def distinct_delete)

lemma mget_mput [simp]: "mget (mput k v m) = (mget m)(k \<mapsto> v)"
  by (simp add: update_conv' fun_eq_iff)

lemma mget_mdel [simp]: "mget (mdel k m) = (mget m)(k := None)"
  by (simp add: delete_conv' fun_eq_iff)

lemma mget_filter:
  "wf_map m \<Longrightarrow> mget (filter P m) k = (case mget m k of None \<Rightarrow> None | Some v \<Rightarrow> if P (k, v) then Some v else None)"
  by (induction m) (auto simp: wf_map_def split: option.splits dest: map_of_SomeD, force+)

lemma wf_map_filter [simp, intro]: "wf_map m \<Longrightarrow> wf_map (filter P m)"
  by (simp add: wf_map_def distinct_map_filter)

lemma mem_mget: "wf_map m \<Longrightarrow> (k, v) \<in> set m \<longleftrightarrow> mget m k = Some v"
  by (auto simp: wf_map_def)

lemma size_mput_new: "mget m k = None \<Longrightarrow> length (mput k v m) = Suc (length m)"
  by (induction m) (auto split: if_splits)

lemma size_mput_old: "mget m k = Some w \<Longrightarrow> length (mput k v m) = length m"
  by (induction m) (auto split: if_splits)

lemma mdel_absent: "mget m k = None \<Longrightarrow> mdel k m = m"
  by (induction m) (auto split: if_splits)

lemma size_mdel: "wf_map m \<Longrightarrow> mget m k = Some v \<Longrightarrow> Suc (length (mdel k m)) = length m"
proof (induction m)
  case (Cons x m)
  show ?case
  proof (cases "fst x = k")
    case True
    with Cons.prems have "mget m k = None"
      by (auto simp: wf_map_def map_of_eq_None_iff)
    with True show ?thesis
      by (cases x) (simp add: mdel_absent)
  next
    case False
    with Cons show ?thesis
      by (cases x) (auto simp: wf_map_def)
  qed
qed simp

section \<open>Results\<close>

text \<open>A function that throws returns \<open>Inl\<close> of the error.\<close>

definition is_ok :: "'e + 'a \<Rightarrow> bool" where
  "is_ok r \<longleftrightarrow> (\<exists>x. r = Inr x)"

lemma is_ok_simps [simp]: "is_ok (Inr x)" "\<not> is_ok (Inl e)"
  by (simp_all add: is_ok_def)

definition guard :: "'e \<Rightarrow> bool \<Rightarrow> 'e + unit" where
  "guard e b = (if b then Inr () else Inl e)"

definition andthen :: "'e + 'a \<Rightarrow> ('a \<Rightarrow> 'e + 'b) \<Rightarrow> 'e + 'b" where
  "andthen r f = (case r of Inl e \<Rightarrow> Inl e | Inr x \<Rightarrow> f x)"

lemma andthen_simps [simp]: "andthen (Inl e) f = Inl e" "andthen (Inr x) f = f x"
  by (simp_all add: andthen_def)

lemma andthen_Inr: "andthen r f = Inr y \<longleftrightarrow> (\<exists>x. r = Inr x \<and> f x = Inr y)"
  by (cases r) auto

text \<open>A chain of checks succeeds: one conjunct per check.\<close>

lemma case_option_Inr: "(case x of None \<Rightarrow> Inl e | Some y \<Rightarrow> f y) = Inr z \<longleftrightarrow> (\<exists>y. x = Some y \<and> f y = Inr z)"
  by (cases x) auto

lemma if_Inl_Inr: "(if b then Inl e else r) = Inr z \<longleftrightarrow> \<not> b \<and> r = Inr z"
  by simp

lemma ex_unit: "(\<exists>x :: unit. P x) \<longleftrightarrow> P ()"
  by (metis (full_types) old.unit.exhaust)

lemmas chain_Inr = andthen_Inr case_option_Inr if_Inl_Inr ex_unit

lemma guard_Inr [simp]: "guard e b = Inr u \<longleftrightarrow> b"
  by (simp add: guard_def)

lemma guard_True [simp]: "guard e True = Inr ()"
  by (simp add: guard_def)

section \<open>Runs\<close>

text \<open>A sequence of calls on one shared object: they serialise in call order.\<close>

fun run_calls :: "('a \<Rightarrow> 's \<Rightarrow> 's \<times> 'o) \<Rightarrow> 'a list \<Rightarrow> 's \<Rightarrow> 's \<times> 'o list" where
  "run_calls step [] s = (s, [])"
| "run_calls step (a # as) s =
     (let (s1, out) = step a s; (s2, outs) = run_calls step as s1 in (s2, out # outs))"

lemma run_calls_Cons [simp]:
  "fst (run_calls step (a # as) s) = fst (run_calls step as (fst (step a s)))"
  "snd (run_calls step (a # as) s) = snd (step a s) # snd (run_calls step as (fst (step a s)))"
  by (simp_all add: split_def Let_def)

declare run_calls.simps(2) [simp del]

lemma length_run_calls [simp]: "length (snd (run_calls step as s)) = length as"
  by (induction as arbitrary: s) simp_all

lemma run_calls_invariant:
  "ok s \<Longrightarrow> (\<And>a s. ok s \<Longrightarrow> ok (fst (step a s))) \<Longrightarrow> ok (fst (run_calls step as s))"
  by (induction as arbitrary: s) simp_all

lemma run_calls_append:
  "fst (run_calls step (as @ bs) s) = fst (run_calls step bs (fst (run_calls step as s)))"
  by (induction as arbitrary: s) simp_all

text \<open>The state after the first \<open>n\<close> calls.\<close>

definition state_after :: "('a \<Rightarrow> 's \<Rightarrow> 's \<times> 'o) \<Rightarrow> 'a list \<Rightarrow> 's \<Rightarrow> nat \<Rightarrow> 's" where
  "state_after step as s n = fst (run_calls step (take n as) s)"

lemma state_after_0 [simp]: "state_after step as s 0 = s"
  by (simp add: state_after_def)

lemma state_after_Suc:
  "n < length as \<Longrightarrow> state_after step as s (Suc n) = fst (step (as ! n) (state_after step as s n))"
  by (simp add: state_after_def take_Suc_conv_app_nth run_calls_append)

lemma state_after_invariant:
  "ok s \<Longrightarrow> (\<And>a s. ok s \<Longrightarrow> ok (fst (step a s))) \<Longrightarrow> ok (state_after step as s n)"
  unfolding state_after_def by (rule run_calls_invariant) auto

end
