(* ===== verification/AttestTypes.thy ===== *)
theory AttestTypes
  imports Prelude
begin

text \<open>
  Constants, errors and records of the request-attestation protocol: packages/express-request-attestation,
  shared/types.ts and the error codes of server-types.ts. Messages are not kept: the middleware never
  echoes them, and every failure is known by its class and code.
\<close>

definition PROTOCOL_VERSION :: int where "PROTOCOL_VERSION = 1"
definition MAC_INPUT_LABEL :: string where "MAC_INPUT_LABEL = ''wtt-request-signature''"
definition REPLAY_KEY_PREFIX :: string where "REPLAY_KEY_PREFIX = ''att:v1:''"
definition KEY_BYTES_LENGTH :: nat where "KEY_BYTES_LENGTH = 32"
definition MAC_BYTES_LENGTH :: nat where "MAC_BYTES_LENGTH = 32"
definition MAX_KEY_ID_LENGTH :: nat where "MAX_KEY_ID_LENGTH = 64"
definition MAX_REPLAY_NAMESPACE_LENGTH :: nat where "MAX_REPLAY_NAMESPACE_LENGTH = 128"
definition MAX_ENCODED_TRANSACTION_ID_BYTES :: nat where "MAX_ENCODED_TRANSACTION_ID_BYTES = 1024"
definition MAX_REQUEST_TARGET_BYTES :: nat where "MAX_REQUEST_TARGET_BYTES = 8192"
definition MAX_CONTENT_TYPE_BYTES :: nat where "MAX_CONTENT_TYPE_BYTES = 256"
definition MAX_PUBLIC_ORIGIN_BYTES :: nat where "MAX_PUBLIC_ORIGIN_BYTES = 512"
definition MIN_REPLAY_KEY_BYTES :: nat where "MIN_REPLAY_KEY_BYTES = 1"
definition MAX_REPLAY_KEY_BYTES :: nat where "MAX_REPLAY_KEY_BYTES = 256"
definition MAX_HEADER_NAME_BYTES :: nat where "MAX_HEADER_NAME_BYTES = 128"
definition DEFAULT_MAX_AGE_MS :: int where "DEFAULT_MAX_AGE_MS = 30000"
definition MIN_MAX_AGE_MS :: int where "MIN_MAX_AGE_MS = 1000"
definition MAX_MAX_AGE_MS :: int where "MAX_MAX_AGE_MS = 120000"
definition DEFAULT_CLOCK_SKEW_MS :: int where "DEFAULT_CLOCK_SKEW_MS = 5000"
definition MIN_CLOCK_SKEW_MS :: int where "MIN_CLOCK_SKEW_MS = 0"
definition MAX_CLOCK_SKEW_MS :: int where "MAX_CLOCK_SKEW_MS = 30000"
definition DEFAULT_CLUSTER_CLOCK_GUARD_MS :: int where "DEFAULT_CLUSTER_CLOCK_GUARD_MS = 5000"
definition MIN_CLUSTER_CLOCK_GUARD_MS :: int where "MIN_CLUSTER_CLOCK_GUARD_MS = 0"
definition MAX_CLUSTER_CLOCK_GUARD_MS :: int where "MAX_CLUSTER_CLOCK_GUARD_MS = 30000"
definition GLOBAL_MAX_RETENTION_MS :: int where "GLOBAL_MAX_RETENTION_MS = 240000"

lemmas attest_consts =
  PROTOCOL_VERSION_def MAC_INPUT_LABEL_def REPLAY_KEY_PREFIX_def KEY_BYTES_LENGTH_def
  MAC_BYTES_LENGTH_def MAX_KEY_ID_LENGTH_def MAX_REPLAY_NAMESPACE_LENGTH_def
  MAX_ENCODED_TRANSACTION_ID_BYTES_def MAX_REQUEST_TARGET_BYTES_def MAX_CONTENT_TYPE_BYTES_def
  MAX_PUBLIC_ORIGIN_BYTES_def MIN_REPLAY_KEY_BYTES_def MAX_REPLAY_KEY_BYTES_def
  MAX_HEADER_NAME_BYTES_def DEFAULT_MAX_AGE_MS_def MIN_MAX_AGE_MS_def MAX_MAX_AGE_MS_def
  DEFAULT_CLOCK_SKEW_MS_def MIN_CLOCK_SKEW_MS_def MAX_CLOCK_SKEW_MS_def
  DEFAULT_CLUSTER_CLOCK_GUARD_MS_def MIN_CLUSTER_CLOCK_GUARD_MS_def
  MAX_CLUSTER_CLOCK_GUARD_MS_def GLOBAL_MAX_RETENTION_MS_def

datatype attest_code =
    ATTESTATION_MISSING
  | ATTESTATION_MALFORMED
  | ATTESTATION_STALE_KEY
  | ATTESTATION_EXPIRED
  | ATTESTATION_FUTURE
  | ATTESTATION_INVALID_SIGNATURE
  | ATTESTATION_REPLAY
  | ATTESTATION_BODY_TOO_LARGE
  | ATTESTATION_UNSUPPORTED_ENCODING
  | ATTESTATION_BODY_CAPTURE_REQUIRED
  | ATTESTATION_INTERNAL_ERROR
  | ATTESTATION_KEYS_UNAVAILABLE
  | ATTESTATION_REPLAY_UNAVAILABLE

text \<open>The HTTP status of each code, the table \<open>ERROR_DETAILS\<close>.\<close>

fun error_status :: "attest_code \<Rightarrow> nat" where
  "error_status ATTESTATION_BODY_TOO_LARGE = 413"
| "error_status ATTESTATION_UNSUPPORTED_ENCODING = 415"
| "error_status ATTESTATION_BODY_CAPTURE_REQUIRED = 500"
| "error_status ATTESTATION_INTERNAL_ERROR = 500"
| "error_status ATTESTATION_KEYS_UNAVAILABLE = 503"
| "error_status ATTESTATION_REPLAY_UNAVAILABLE = 503"
| "error_status _ = 403"

text \<open>
  What the modelled functions throw. \<open>TypeFault\<close> is a read of a property of \<open>undefined\<close>, which no
  reachable state of the stores leads to.
\<close>

datatype attest_error = ProtocolError | AttestationError attest_code | CapacityError | TypeFault

record time_policy =
  maxAgeMs :: int
  clockSkewMs :: int
  clusterClockGuardMs :: int

datatype timing_decision = Valid | Future | Expired | StaleKey

record proof_timing =
  decision :: timing_decision
  timeDeadlineMs :: "int option"
  proofDeadlineMs :: "int option"
  retainUntilMs :: "int option"

datatype retention_admission = Admissible | RetentionExpired | Overlong

record transaction_id =
  tid_keyId :: string
  tid_timestampMs :: int
  tid_nonceHex :: string
  tid_mac :: string

record mac_fields =
  mf_replayNamespace :: string
  mf_publicOrigin :: string
  mf_keyId :: string
  mf_timestampMs :: int
  mf_nonceHex :: string
  mf_method :: string
  mf_requestTarget :: string
  mf_contentType :: string
  mf_bodyHashHex :: string

record key_entry =
  ke_keyId :: string
  ke_key :: bytes
  ke_acceptFrom :: int
  ke_acceptUntil :: int

record key_snapshot =
  currentKeyId :: string
  ks_keys :: "key_entry list"

text \<open>\<open>assertTimestampMs(name, value)\<close>: a non-negative safe integer.\<close>

definition assertTimestampMs :: "jsval \<Rightarrow> attest_error + int" where
  "assertTimestampMs v =
     (case as_safe v of None \<Rightarrow> Inl ProtocolError | Some n \<Rightarrow> if n < 0 then Inl ProtocolError else Inr n)"

lemma assertTimestampMs_jint [simp]:
  "assertTimestampMs (jint n) = (if is_safe n \<and> 0 \<le> n then Inr n else Inl ProtocolError)"
  by (simp add: assertTimestampMs_def)

lemma assertTimestampMs_InrD: "assertTimestampMs v = Inr n \<Longrightarrow> v = jint n \<and> is_safe n \<and> 0 \<le> n"
  by (auto simp: assertTimestampMs_def dest: as_safe_SomeD split: option.splits if_splits)

definition timestamp_ok :: "int \<Rightarrow> bool" where
  "timestamp_ok n \<longleftrightarrow> is_safe n \<and> 0 \<le> n"

lemma assertTimestampMs_eq_Inr: "assertTimestampMs v = Inr n \<longleftrightarrow> v = jint n \<and> timestamp_ok n"
  by (auto simp: timestamp_ok_def dest: assertTimestampMs_InrD)

end
