(* ===== verification/AttestTime.thy ===== *)
theory AttestTime
  imports AttestTypes
begin

text \<open>
  Proof timing and replay retention, shared/time-policy.ts of packages/express-request-attestation.
  Timestamps that reach the arithmetic are safe integers, so a binary64 sum of up to three of them
  is a safe integer exactly when the integer sum is, and then they agree.
\<close>

section \<open>Policy\<close>

definition assertPolicyField :: "jsval \<Rightarrow> int \<Rightarrow> int \<Rightarrow> attest_error + int" where
  "assertPolicyField v lo hi =
     (case as_safe v of
        None \<Rightarrow> Inl ProtocolError
      | Some n \<Rightarrow> if n < lo \<or> n > hi then Inl ProtocolError else Inr n)"

definition policy_option_keys :: "string list" where
  "policy_option_keys = [''maxAgeMs'', ''clockSkewMs'', ''clusterClockGuardMs'']"

text \<open>An omitted argument is the empty object.\<close>

definition resolveTimePolicy :: "jsval \<Rightarrow> attest_error + time_policy" where
  "resolveTimePolicy options =
     (case (if options = JUndef then JObj [] else options) of
        JObj ps \<Rightarrow>
          (if \<exists>k \<in> set (map fst ps). k \<notin> set policy_option_keys then Inl ProtocolError
           else
             andthen (assertPolicyField (nullish (jprop options ''maxAgeMs'') (jint DEFAULT_MAX_AGE_MS))
                 MIN_MAX_AGE_MS MAX_MAX_AGE_MS) (\<lambda>age.
             andthen (assertPolicyField (nullish (jprop options ''clockSkewMs'') (jint DEFAULT_CLOCK_SKEW_MS))
                 MIN_CLOCK_SKEW_MS MAX_CLOCK_SKEW_MS) (\<lambda>skew.
             andthen (assertPolicyField
                 (nullish (jprop options ''clusterClockGuardMs'') (jint DEFAULT_CLUSTER_CLOCK_GUARD_MS))
                 MIN_CLUSTER_CLOCK_GUARD_MS MAX_CLUSTER_CLOCK_GUARD_MS) (\<lambda>g.
             Inr \<lparr>maxAgeMs = age, clockSkewMs = skew, clusterClockGuardMs = g\<rparr>))))
      | _ \<Rightarrow> Inl ProtocolError)"

definition policy_ok :: "time_policy \<Rightarrow> bool" where
  "policy_ok p \<longleftrightarrow>
     MIN_MAX_AGE_MS \<le> maxAgeMs p \<and> maxAgeMs p \<le> MAX_MAX_AGE_MS \<and>
     MIN_CLOCK_SKEW_MS \<le> clockSkewMs p \<and> clockSkewMs p \<le> MAX_CLOCK_SKEW_MS \<and>
     MIN_CLUSTER_CLOCK_GUARD_MS \<le> clusterClockGuardMs p \<and>
     clusterClockGuardMs p \<le> MAX_CLUSTER_CLOCK_GUARD_MS"

section \<open>Timing of one proof\<close>

definition safeAdd :: "int \<Rightarrow> int \<Rightarrow> int option" where
  "safeAdd a b = (if is_safe (a + b) then Some (a + b) else None)"

definition safeAdd3 :: "int \<Rightarrow> int \<Rightarrow> int \<Rightarrow> int option" where
  "safeAdd3 a b c = (if is_safe (a + b + c) then Some (a + b + c) else None)"

text \<open>The deadlines the code reports with a decision: capped by the key's window.\<close>

definition bounded_timing :: "timing_decision \<Rightarrow> int option \<Rightarrow> int \<Rightarrow> time_policy \<Rightarrow> proof_timing" where
  "bounded_timing d td acceptUntil p =
     (let pd = (case td of None \<Rightarrow> acceptUntil | Some t \<Rightarrow> min t acceptUntil)
      in \<lparr>decision = d, timeDeadlineMs = td, proofDeadlineMs = Some pd,
          retainUntilMs = safeAdd pd (clusterClockGuardMs p)\<rparr>)"

definition evaluateProofTiming ::
  "jsval \<Rightarrow> jsval \<Rightarrow> jsval \<Rightarrow> jsval \<Rightarrow> time_policy \<Rightarrow> attest_error + proof_timing" where
  "evaluateProofTiming timestampMs nowMs acceptFrom acceptUntil p =
     andthen (assertTimestampMs timestampMs) (\<lambda>ts.
     andthen (assertTimestampMs nowMs) (\<lambda>now.
     andthen (assertTimestampMs acceptFrom) (\<lambda>from.
     andthen (assertTimestampMs acceptUntil) (\<lambda>until.
     if from \<ge> until then Inl ProtocolError
     else
       (let td = safeAdd3 ts (maxAgeMs p) (clockSkewMs p) in
        Inr
         (if \<not> (from \<le> now \<and> now < until) then bounded_timing StaleKey td until p
          else if ts > now + clockSkewMs p then bounded_timing Future td until p
          else
            (case td of
               None \<Rightarrow>
                 \<lparr>decision = Expired, timeDeadlineMs = None, proofDeadlineMs = None, retainUntilMs = None\<rparr>
             | Some t \<Rightarrow>
                 (if now \<ge> min t until then bounded_timing Expired td until p
                  else bounded_timing Valid td until p))))))))"

section \<open>Retention\<close>

definition maxVerifierRemainingMs :: "time_policy \<Rightarrow> int" where
  "maxVerifierRemainingMs p = maxAgeMs p + 2 * clockSkewMs p + clusterClockGuardMs p"

definition maxStoreAdmissionMs :: "time_policy \<Rightarrow> int" where
  "maxStoreAdmissionMs p =
     min GLOBAL_MAX_RETENTION_MS (maxAgeMs p + 2 * clockSkewMs p + 2 * clusterClockGuardMs p)"

definition checkRetentionAdmissible :: "jsval \<Rightarrow> jsval \<Rightarrow> time_policy \<Rightarrow> attest_error + retention_admission" where
  "checkRetentionAdmissible retainUntil nowMs p =
     andthen (assertTimestampMs retainUntil) (\<lambda>until.
     andthen (assertTimestampMs nowMs) (\<lambda>now.
     Inr
      (if until \<le> now then RetentionExpired
       else if \<not> is_safe (until - now) then Overlong
       else if until - now > GLOBAL_MAX_RETENTION_MS then Overlong
       else if until - now > maxStoreAdmissionMs p then Overlong
       else Admissible)))"

section \<open>Lemmas\<close>

lemma assertPolicyField_Inr:
  "assertPolicyField v lo hi = Inr n \<Longrightarrow> lo \<le> n \<and> n \<le> hi"
  by (auto simp: assertPolicyField_def split: option.splits if_splits)

lemma resolveTimePolicy_policy_ok: "resolveTimePolicy opts = Inr p \<Longrightarrow> policy_ok p"
  by (auto simp: resolveTimePolicy_def policy_ok_def andthen_Inr dest!: assertPolicyField_Inr
      split: jsval.splits if_splits)

text \<open>What a valid decision means, in the arithmetic of the verifier.\<close>

definition accepted_at :: "int \<Rightarrow> int \<Rightarrow> int \<Rightarrow> int \<Rightarrow> time_policy \<Rightarrow> bool" where
  "accepted_at ts now from until p \<longleftrightarrow>
     from \<le> now \<and> now < until \<and> ts \<le> now + clockSkewMs p \<and>
     now < ts + maxAgeMs p + clockSkewMs p"

lemmas timing_simps = evaluateProofTiming_def andthen_Inr assertTimestampMs_eq_Inr Let_def
  bounded_timing_def safeAdd_def safeAdd3_def

lemma evaluate_valid:
  assumes "evaluateProofTiming (jint ts) (jint now) (jint from) (jint until) p = Inr t"
    and "decision t = Valid"
  shows "accepted_at ts now from until p"
    and "timeDeadlineMs t = Some (ts + maxAgeMs p + clockSkewMs p)"
    and "proofDeadlineMs t = Some (min (ts + maxAgeMs p + clockSkewMs p) until)"
    and "retainUntilMs t =
      safeAdd (min (ts + maxAgeMs p + clockSkewMs p) until) (clusterClockGuardMs p)"
  using assms by (auto simp: timing_simps accepted_at_def split: if_splits option.splits)

section \<open>Properties\<close>

text \<open>The timing decision is exact: on well-formed inputs it is \<open>valid\<close> just when the key is inside its
  window, the proof is not from the future and its age is inside the policy; a key outside its window is
  stale before anything else is looked at, and no valid proof comes without a deadline.\<close>

lemma timing_decision_exact:
  assumes "timestamp_ok ts" "timestamp_ok now" "timestamp_ok from" "timestamp_ok until" "from < until"
  shows "\<exists>t. evaluateProofTiming (jint ts) (jint now) (jint from) (jint until) p = Inr t \<and>
    (decision t = StaleKey \<longleftrightarrow> \<not> (from \<le> now \<and> now < until)) \<and>
    (decision t = Future \<longleftrightarrow> from \<le> now \<and> now < until \<and> now + clockSkewMs p < ts) \<and>
    (decision t = Valid \<longleftrightarrow> accepted_at ts now from until p \<and> is_safe (ts + maxAgeMs p + clockSkewMs p)) \<and>
    (decision t = Valid \<longrightarrow> proofDeadlineMs t = Some (min (ts + maxAgeMs p + clockSkewMs p) until))"
  using assms
  by (auto simp: evaluateProofTiming_def timestamp_ok_def bounded_timing_def safeAdd3_def accepted_at_def Let_def)

lemma timing_decision_exact_witness:
  "\<exists>t. evaluateProofTiming (jint 50000) (jint 60000) (jint 1000) (jint 70000)
      \<lparr>maxAgeMs = 30000, clockSkewMs = 5000, clusterClockGuardMs = 5000\<rparr> = Inr t \<and>
    (decision t = Valid \<longrightarrow> proofDeadlineMs t = Some (min (50000 + 30000 + 5000) 70000))"
  using timing_decision_exact [of 50000 60000 1000 70000 "\<lparr>maxAgeMs = 30000, clockSkewMs = 5000, clusterClockGuardMs = 5000\<rparr>"]
  by (auto simp: timestamp_ok_def is_safe_def MAX_SAFE_INTEGER_def)

end
