(* ===== verification/JsText.thy ===== *)
theory JsText
  imports Prelude
begin

text \<open>
  The texts of the run time that several packages read or write: \<open>JSON.stringify\<close> of a string and the
  string part of \<open>JSON.parse\<close>, the decimal digits of an integer, and \<open>Number(s)\<close>.
\<close>

section \<open>Strings in JSON\<close>

definition hex_digit :: "nat \<Rightarrow> char" where
  "hex_digit n = ''0123456789abcdef'' ! n"

text \<open>\<open>QuoteJSONString\<close>: short escapes, \<open>\u00XX\<close> for the other controls, everything else as it is.\<close>

definition json_escape :: "char \<Rightarrow> string" where
  "json_escape c =
     (if c = CHR 0x22 then [CHR 0x5C, CHR 0x22]
      else if c = CHR 0x5C then [CHR 0x5C, CHR 0x5C]
      else if c = CHR 0x08 then [CHR 0x5C, CHR ''b'']
      else if c = CHR 0x0C then [CHR 0x5C, CHR ''f'']
      else if c = CHR 0x0A then [CHR 0x5C, CHR ''n'']
      else if c = CHR 0x0D then [CHR 0x5C, CHR ''r'']
      else if c = CHR 0x09 then [CHR 0x5C, CHR ''t'']
      else if of_char c < (32::nat) then
        [CHR 0x5C, CHR ''u'', CHR ''0'', CHR ''0'', hex_digit (of_char c div 16), hex_digit (of_char c mod 16)]
      else [c])"

definition json_quote :: "string \<Rightarrow> string" where
  "json_quote s = CHR 0x22 # concat (map json_escape s) @ [CHR 0x22]"

text \<open>Reading a string back, after its opening quote.\<close>

definition hex_value :: "char \<Rightarrow> nat option" where
  "hex_value c =
     (if is_digit c then Some (of_char c - 48)
      else if char_between 97 102 c then Some (of_char c - 87)
      else if char_between 65 70 c then Some (of_char c - 55)
      else None)"

definition simple_escape :: "char \<Rightarrow> char option" where
  "simple_escape e =
     map_of [(CHR 0x22, CHR 0x22), (CHR 0x5C, CHR 0x5C), (CHR ''/'', CHR ''/''), (CHR ''b'', CHR 0x08),
             (CHR ''f'', CHR 0x0C), (CHR ''n'', CHR 0x0A), (CHR ''r'', CHR 0x0D), (CHR ''t'', CHR 0x09)] e"

definition hex4 :: "char \<Rightarrow> char \<Rightarrow> char \<Rightarrow> char \<Rightarrow> char option" where
  "hex4 a b c d =
     (case (hex_value a, hex_value b, hex_value c, hex_value d) of
        (Some w, Some x, Some y, Some z) \<Rightarrow>
          (let n = ((w * 16 + x) * 16 + y) * 16 + z in if n < 256 then Some (char_of n) else None)
      | _ \<Rightarrow> None)"

fun parse_string :: "string \<Rightarrow> (string \<times> string) option" where
  "parse_string [] = None"
| "parse_string (c # cs) =
     (if c = CHR 0x22 then Some ([], cs)
      else if c = CHR 0x5C then
        (case cs of
           [] \<Rightarrow> None
         | e # es \<Rightarrow>
             (case simple_escape e of
                Some x \<Rightarrow> map_option (apfst ((#) x)) (parse_string es)
              | None \<Rightarrow>
                  if e = CHR ''u'' then
                    (case es of
                       h1 # h2 # h3 # h4 # r \<Rightarrow>
                         (case hex4 h1 h2 h3 h4 of
                            Some x \<Rightarrow> map_option (apfst ((#) x)) (parse_string r)
                          | None \<Rightarrow> None)
                     | _ \<Rightarrow> None)
                  else None))
      else if of_char c < (32::nat) then None
      else map_option (apfst ((#) c)) (parse_string cs))"

definition digit_value :: "char \<Rightarrow> nat" where
  "digit_value c = of_char c - 48"

definition decimal :: "string \<Rightarrow> nat" where
  "decimal ds = foldl (\<lambda>n c. n * 10 + digit_value c) 0 ds"

declare parse_string.simps [simp del]

lemma parse_string_shorter: "parse_string s = Some (t, r) \<Longrightarrow> length r < length s"
proof (induction s arbitrary: t r rule: length_induct)
  case (1 s)
  then have IH: "\<And>u t r. parse_string u = Some (t, r) \<Longrightarrow> length u < length s \<Longrightarrow> length r < length u"
    by blast
  show ?case
  proof (cases s)
    case (Cons c cs)
    with "1.prems" show ?thesis
      unfolding Cons parse_string.simps(2)
      by (auto simp: Cons split: if_splits list.splits option.splits dest!: IH)
  qed (use "1.prems" in \<open>simp add: parse_string.simps\<close>)
qed

section \<open>Numbers in text\<close>

text \<open>
  \<open>Number(s)\<close> for a trimmed string, up to the rounding to binary64: only whether the value is zero or a
  safe integer is used, which the rounding changes for nothing but values that round to zero.
\<close>

definition decimal_literal :: "string \<Rightarrow> rat option" where
  "decimal_literal s =
     (let m = takeWhile (\<lambda>c. c \<noteq> CHR ''e'' \<and> c \<noteq> CHR ''E'') s; x = drop (length m) s;
          ip = takeWhile (\<lambda>c. c \<noteq> CHR ''.'') m; fp = drop (Suc (length ip)) m;
          neg = x \<noteq> [] \<and> tl x \<noteq> [] \<and> hd (tl x) = CHR ''-'';
          ex = (if x = [] then []
                else if tl x \<noteq> [] \<and> (hd (tl x) = CHR ''-'' \<or> hd (tl x) = CHR ''+'') then tl (tl x) else tl x);
          man = (of_nat (decimal ip) + of_nat (decimal fp) / 10 ^ length fp :: rat);
          q = (if neg then man / 10 ^ decimal ex else man * 10 ^ decimal ex)
      in if list_all is_digit ip \<and> list_all is_digit fp \<and> (ip \<noteq> [] \<or> fp \<noteq> []) \<and>
            list_all is_digit ex \<and> (x \<noteq> [] \<longrightarrow> ex \<noteq> [])
         then Some (if q * 2 ^ 1075 \<le> 1 then 0 else q) else None)"

definition radix_value :: "nat \<Rightarrow> string \<Rightarrow> nat option" where
  "radix_value b ds =
     (if ds \<noteq> [] \<and> list_all (\<lambda>c. case hex_value c of Some d \<Rightarrow> d < b | None \<Rightarrow> False) ds
      then Some (foldl (\<lambda>n c. n * b + the (hex_value c)) 0 ds) else None)"

definition js_number :: "string \<Rightarrow> jsnum" where
  "js_number s =
     (let body = (if s \<noteq> [] \<and> (hd s = CHR ''+'' \<or> hd s = CHR ''-'') then tl s else s);
          minus = s \<noteq> [] \<and> hd s = CHR ''-'';
          radix = (if length s > 2 \<and> hd s = CHR ''0'' then map_of [(CHR ''x'', 16), (CHR ''X'', 16),
                (CHR ''o'', 8), (CHR ''O'', 8), (CHR ''b'', 2), (CHR ''B'', 2)] (s ! 1) else None)
      in if s = [] then Fin 0
         else
           (case radix of
              Some b \<Rightarrow> (case radix_value b (drop 2 s) of Some n \<Rightarrow> Fin (of_nat n) | None \<Rightarrow> NaN)
            | None \<Rightarrow>
                (if body = ''Infinity'' then (if minus then NegInf else PosInf)
                 else (case decimal_literal body of Some q \<Rightarrow> Fin (if minus then - q else q) | None \<Rightarrow> NaN))))"

section \<open>Reading what was written\<close>

lemma hex_digit_value: "n < 16 \<Longrightarrow> hex_value (hex_digit n) = Some n"
proof -
  have "\<forall>n \<in> set [0..<16]. hex_value (hex_digit n) = Some n"
    by code_simp
  then show "n < 16 \<Longrightarrow> ?thesis" by simp
qed

lemma hex_digit_plain: "n < 16 \<Longrightarrow> hex_digit n \<noteq> CHR 0x22 \<and> hex_digit n \<noteq> CHR 0x5C"
proof -
  have "\<forall>n \<in> set [0..<16]. hex_digit n \<noteq> CHR 0x22 \<and> hex_digit n \<noteq> CHR 0x5C"
    by code_simp
  then show "n < 16 \<Longrightarrow> ?thesis" by simp
qed

lemma hex4_control: "n < 32 \<Longrightarrow> hex4 CHR ''0'' CHR ''0'' (hex_digit (n div 16)) (hex_digit (n mod 16)) = Some (char_of n)"
proof -
  assume n: "n < 32"
  have z: "hex_value CHR ''0'' = Some 0" by code_simp
  have "n div 16 < 16" "n mod 16 < 16" using n by auto
  then show ?thesis using n by (simp add: hex4_def z hex_digit_value)
qed

lemma parse_escape: "parse_string (json_escape c @ r) = map_option (apfst ((#) c)) (parse_string r)"
proof -
  have e: "simple_escape CHR ''u'' = None" "simple_escape CHR 0x22 = Some CHR 0x22"
    "simple_escape CHR 0x5C = Some CHR 0x5C" "simple_escape CHR ''b'' = Some CHR 0x08"
    "simple_escape CHR ''f'' = Some CHR 0x0C" "simple_escape CHR ''n'' = Some CHR 0x0A"
    "simple_escape CHR ''r'' = Some CHR 0x0D" "simple_escape CHR ''t'' = Some CHR 0x09"
    by (simp_all add: simple_escape_def)
  show ?thesis
  proof (cases "c \<in> {CHR 0x22, CHR 0x5C, CHR 0x08, CHR 0x0C, CHR 0x0A, CHR 0x0D, CHR 0x09}")
    case True
    then show ?thesis
      by (elim insertE; simp add: json_escape_def e parse_string.simps(2))
  next
    case False
    show ?thesis
    proof (cases "of_char c < (32::nat)")
      case True
      with False show ?thesis
        by (simp add: json_escape_def e parse_string.simps(2) hex4_control)
    next
      case big: False
      with False show ?thesis
        by (simp add: json_escape_def parse_string.simps(2) [of c r])
    qed
  qed
qed

lemma parse_quoted: "parse_string (concat (map json_escape s) @ CHR 0x22 # r) = Some (s, r)"
  by (induction s) (simp_all add: parse_escape parse_string.simps(2))

lemma is_digit_char: "n < 10 \<Longrightarrow> is_digit (char_of (48 + n))" for n :: nat
  by (simp add: is_digit_def char_between_def)

lemma digits_all: "list_all is_digit (digits n)"
proof (induction n rule: digits.induct)
  case (1 n)
  then show ?case
    by (subst digits.simps) (auto simp: is_digit_char)
qed

lemma digits_ne [simp]: "digits n \<noteq> []"
  by (subst digits.simps) simp

lemma decimal_snoc: "decimal (ds @ [c]) = decimal ds * 10 + digit_value c"
  by (simp add: decimal_def)

lemma digit_value_char: "n < 10 \<Longrightarrow> digit_value (char_of (48 + n)) = n"
  by (simp add: digit_value_def)

lemma decimal_digits: "decimal (digits n) = n"
proof (induction n rule: digits.induct)
  case (1 n)
  show ?case
  proof (cases "n < 10")
    case True
    then show ?thesis by (subst digits.simps) (simp add: decimal_def digit_value_char)
  next
    case False
    with "1.IH" show ?thesis by (subst digits.simps) (simp add: decimal_snoc digit_value_char)
  qed
qed

lemma digits_lead: "hd (digits n) = CHR ''0'' \<Longrightarrow> n = 0"
proof (induction n rule: digits.induct)
  case (1 n)
  show ?case
  proof (cases "n < 10")
    case True
    have "(of_char (char_of (48 + n) :: char) :: nat) = of_char CHR ''0'' \<Longrightarrow> n = 0"
      using True by simp
    with "1.prems" True show ?thesis by (subst (asm) digits.simps) auto
  next
    case False
    with "1.prems" have "hd (digits (n div 10)) = CHR ''0''" by (subst (asm) digits.simps) simp
    with "1.IH" False have "n div 10 = 0" by blast
    with False show ?thesis by auto
  qed
qed

lemma digits_lead_tl: "hd (digits n) = CHR ''0'' \<Longrightarrow> tl (digits n) = []"
  by (drule digits_lead) (simp add: digits.simps [of 0])


lemma digits_inj: "digits m = digits n \<longleftrightarrow> m = n"
  by (metis decimal_digits)

end
