(* ===== verification/AttestCodec.thy ===== *)
theory AttestCodec
  imports AttestTypes JsText
begin

text \<open>
  The wire codec of the request-attestation protocol: shared/canonical.ts (UTF-8, base64url, canonical
  JSON arrays) and shared/codec.ts (field validators, request targets, the MAC input, the
  transaction-ID envelope).

  \<open>JSON.stringify\<close> and \<open>JSON.parse\<close> are modelled for flat arrays of strings and safe integers, the
  only arrays the protocol frames; a text with any other element, which the field validators of
  \<open>decodeTransactionId\<close> reject, is rejected by the parser here. The WHATWG URL parser is not code of
  the repository: \<open>validatePublicOrigin\<close> takes it as an argument.
\<close>

unbundle bit_operations_syntax

section \<open>UTF-8\<close>

definition byte :: "nat \<Rightarrow> 8 word" where
  "byte n = of_nat n"

definition utf8_char :: "char \<Rightarrow> bytes" where
  "utf8_char c =
     (let n = of_char c in
      if n < 128 then [byte n] else [byte (192 + n div 64), byte (128 + n mod 64)])"

definition utf8Encode :: "string \<Rightarrow> bytes" where
  "utf8Encode s = concat (map utf8_char s)"

definition utf8ByteLength :: "string \<Rightarrow> nat" where
  "utf8ByteLength s = length (utf8Encode s)"

text \<open>The fatal decoder: \<open>None\<close> for an invalid sequence or a code point outside the model.\<close>

fun utf8_decode_bytes :: "bytes \<Rightarrow> string option" where
  "utf8_decode_bytes [] = Some []"
| "utf8_decode_bytes (b # bs) =
     (if unat b < 128 then map_option ((#) (char_of (unat b))) (utf8_decode_bytes bs)
      else if unat b = 194 \<or> unat b = 195 then
        (case bs of
           [] \<Rightarrow> None
         | c # cs \<Rightarrow>
             if 128 \<le> unat c \<and> unat c < 192
             then map_option ((#) (char_of ((unat b - 192) * 64 + (unat c - 128)))) (utf8_decode_bytes cs)
             else None)
      else None)"

definition utf8Decode :: "bytes \<Rightarrow> attest_error + string" where
  "utf8Decode bs = (case utf8_decode_bytes bs of None \<Rightarrow> Inl ProtocolError | Some s \<Rightarrow> Inr s)"

section \<open>Base64url\<close>

definition BASE64URL_ALPHABET :: string where
  "BASE64URL_ALPHABET = ''ABCDEFGHIJKLMNOPQRSTUVWXYZabcdefghijklmnopqrstuvwxyz0123456789-_''"

text \<open>The table is built by a loop over the alphabet.\<close>

definition BASE64URL_DECODE_TABLE :: "(char \<times> nat) list" where
  "BASE64URL_DECODE_TABLE = zip BASE64URL_ALPHABET [0..<64]"

definition b64_digit :: "32 word \<Rightarrow> char" where
  "b64_digit w = BASE64URL_ALPHABET ! unat w"

definition triplet :: "8 word \<Rightarrow> 8 word \<Rightarrow> 8 word \<Rightarrow> 32 word" where
  "triplet a b c = push_bit 16 (ucast a) OR push_bit 8 (ucast b) OR ucast c"

definition sextet :: "nat \<Rightarrow> 32 word \<Rightarrow> char" where
  "sextet n t = b64_digit (drop_bit n t AND 63)"

fun base64urlEncode :: "bytes \<Rightarrow> string" where
  "base64urlEncode [] = []"
| "base64urlEncode [a] = (let t = triplet a 0 0 in [sextet 18 t, sextet 12 t])"
| "base64urlEncode [a, b] = (let t = triplet a b 0 in [sextet 18 t, sextet 12 t, sextet 6 t])"
| "base64urlEncode (a # b # c # rest) =
     (let t = triplet a b c
      in sextet 18 t # sextet 12 t # sextet 6 t # sextet 0 t # base64urlEncode rest)"

text \<open>
  The decoding loop: the 32-bit accumulator is shifted left for each character and never masked, so
  its high bits wrap away; \<open>bits\<close> counts the low bits not yet put out.
\<close>

fun b64_loop :: "nat list \<Rightarrow> 32 word \<Rightarrow> nat \<Rightarrow> bytes \<times> 32 word \<times> nat" where
  "b64_loop [] buffer bits = ([], buffer, bits)"
| "b64_loop (v # vs) buffer bits =
     (let buffer = push_bit 6 buffer OR of_nat v; bits = bits + 6
      in if bits \<ge> 8
         then (let bits = bits - 8;
                   (out, r) = b64_loop vs buffer bits
               in (ucast (signed_drop_bit bits buffer AND 255) # out, r))
         else b64_loop vs buffer bits)"

definition base64urlDecode :: "string \<Rightarrow> attest_error + bytes" where
  "base64urlDecode input =
     (if input = [] then Inl ProtocolError
      else if \<not> list_all (\<lambda>c. map_of BASE64URL_DECODE_TABLE c \<noteq> None) input then Inl ProtocolError
      else if length input mod 4 = 1 then Inl ProtocolError
      else
        (let (out, buffer, bits) =
               b64_loop (map (\<lambda>c. the (map_of BASE64URL_DECODE_TABLE c)) input) 0 0
         in if bits > 0 \<and> buffer AND (push_bit bits 1 - 1) \<noteq> 0 then Inl ProtocolError
            else if base64urlEncode out \<noteq> input then Inl ProtocolError
            else Inr out))"

section \<open>Canonical JSON arrays\<close>

definition json_int :: "int \<Rightarrow> string" where
  "json_int n = (if n < 0 then CHR ''-'' # digits (nat (- n)) else digits (nat n))"

datatype json_elem = JInt int | JText string

fun json_elem_text :: "json_elem \<Rightarrow> string" where
  "json_elem_text (JInt n) = json_int n"
| "json_elem_text (JText s) = json_quote s"

definition json_array :: "json_elem list \<Rightarrow> string" where
  "json_array es = CHR ''['' # join_with CHR '','' (map json_elem_text es) @ [CHR '']'']"

definition canonicalJsonBytes :: "json_elem list \<Rightarrow> bytes" where
  "canonicalJsonBytes es = utf8Encode (json_array es)"

text \<open>Reading a flat array back. The parser takes no white space: such a text is not canonical.\<close>

definition parse_digits :: "string \<Rightarrow> (nat \<times> string) option" where
  "parse_digits s =
     (let ds = takeWhile is_digit s
      in if ds = [] \<or> (hd ds = CHR ''0'' \<and> tl ds \<noteq> []) then None
         else Some (decimal ds, dropWhile is_digit s))"

definition parse_int :: "string \<Rightarrow> (int \<times> string) option" where
  "parse_int s =
     (case (if s \<noteq> [] \<and> hd s = CHR ''-'' then map_option (apfst (\<lambda>n. - int n)) (parse_digits (tl s))
            else map_option (apfst int) (parse_digits s)) of
        None \<Rightarrow> None
      | Some (n, r) \<Rightarrow> if is_safe n then Some (n, r) else None)"

definition parse_elem :: "string \<Rightarrow> (json_elem \<times> string) option" where
  "parse_elem s =
     (if s \<noteq> [] \<and> hd s = CHR 0x22 then map_option (apfst JText) (parse_string (tl s))
      else map_option (apfst JInt) (parse_int s))"

lemma parse_digits_shorter: "parse_digits s = Some (n, r) \<Longrightarrow> length r < length s"
proof -
  assume a: "parse_digits s = Some (n, r)"
  then have "takeWhile is_digit s \<noteq> []" "r = dropWhile is_digit s"
    by (auto simp: parse_digits_def Let_def split: if_splits)
  then show ?thesis
    by (metis append_Nil length_append length_greater_0_conv less_add_same_cancel2 takeWhile_dropWhile_id)
qed

lemma parse_elem_shorter: "parse_elem s = Some (e, r) \<Longrightarrow> length r < length s"
  by (cases s) (auto simp: parse_elem_def parse_int_def split: if_splits option.splits
      dest!: parse_string_shorter parse_digits_shorter)

function parse_elems :: "string \<Rightarrow> json_elem list option" where
  "parse_elems s =
     (case parse_elem s of
        None \<Rightarrow> None
      | Some (e, r) \<Rightarrow>
          (case r of
             [] \<Rightarrow> None
           | c # cs \<Rightarrow>
               if c = CHR '','' then map_option ((#) e) (parse_elems cs)
               else if c = CHR '']'' \<and> cs = [] then Some [e]
               else None))"
  by pat_completeness auto
termination
  by (relation "measure length") (auto dest: parse_elem_shorter)

declare parse_elems.simps [simp del]

definition parse_array :: "string \<Rightarrow> json_elem list option" where
  "parse_array s =
     (if s = ''[]'' then Some []
      else if s \<noteq> [] \<and> hd s = CHR ''['' then parse_elems (tl s)
      else None)"

definition parseCanonicalJsonArray :: "string \<Rightarrow> nat option \<Rightarrow> attest_error + json_elem list" where
  "parseCanonicalJsonArray text expectedLength =
     (case parse_array text of
        None \<Rightarrow> Inl ProtocolError
      | Some parsed \<Rightarrow>
          if json_array parsed \<noteq> text then Inl ProtocolError
          else (case expectedLength of
                  Some n \<Rightarrow> if length parsed \<noteq> n then Inl ProtocolError else Inr parsed
                | None \<Rightarrow> Inr parsed))"

section \<open>Field validators\<close>

definition HTTP_TOKEN_CHAR :: "char \<Rightarrow> bool" where
  "HTTP_TOKEN_CHAR c \<longleftrightarrow>
     c \<in> set ''!#$%&*+-.^_`|~'' \<or> c = CHR 0x27 \<or> is_digit c \<or> is_upper c \<or> is_lower c"

definition is_http_token :: "string \<Rightarrow> bool" where
  "is_http_token s \<longleftrightarrow> s \<noteq> [] \<and> list_all HTTP_TOKEN_CHAR s"

definition is_lower_hex :: "char \<Rightarrow> bool" where
  "is_lower_hex c \<longleftrightarrow> is_digit c \<or> char_between 97 102 c"

definition assertEncodedTransactionIdBound :: "string \<Rightarrow> attest_error + unit" where
  "assertEncodedTransactionIdBound v = guard ProtocolError (\<not> length v > MAX_ENCODED_TRANSACTION_ID_BYTES)"

definition RESERVED_HEADER_NAMES :: "string list" where
  "RESERVED_HEADER_NAMES =
     [''authorization'', ''proxy-authenticate'', ''proxy-authorization'', ''www-authenticate'', ''cookie'',
      ''set-cookie'', ''host'', ''origin'', ''content-encoding'', ''content-length'', ''content-type'',
      ''transfer-encoding'', ''x-attestation-error'']"

definition isLoopbackHostname :: "string \<Rightarrow> bool" where
  "isLoopbackHostname h \<longleftrightarrow> h = ''localhost'' \<or> h = ''[::1]'' \<or> starts_with h ''127.''"

definition validate_text :: "(string \<Rightarrow> bool) \<Rightarrow> jsval \<Rightarrow> attest_error + string" where
  "validate_text P v = (case v of JStr s \<Rightarrow> if P s then Inr s else Inl ProtocolError | _ \<Rightarrow> Inl ProtocolError)"

definition validateKeyId :: "jsval \<Rightarrow> attest_error + string" where
  "validateKeyId =
     validate_text (\<lambda>s. 1 \<le> length s \<and> length s \<le> MAX_KEY_ID_LENGTH \<and> list_all is_b64url s)"

definition validateReplayNamespace :: "jsval \<Rightarrow> attest_error + string" where
  "validateReplayNamespace =
     validate_text (\<lambda>s. 1 \<le> length s \<and> length s \<le> MAX_REPLAY_NAMESPACE_LENGTH \<and> list_all is_b64url s)"

definition validateNonceHex :: "jsval \<Rightarrow> attest_error + string" where
  "validateNonceHex = validate_text (\<lambda>s. length s = 32 \<and> list_all is_lower_hex s)"

definition validateBodyHashHex :: "jsval \<Rightarrow> attest_error + string" where
  "validateBodyHashHex = validate_text (\<lambda>s. length s = 64 \<and> list_all is_lower_hex s)"

definition validateMac :: "jsval \<Rightarrow> attest_error + string" where
  "validateMac v =
     (case v of
        JStr s \<Rightarrow>
          (if length s \<noteq> 43 then Inl ProtocolError
           else andthen (base64urlDecode s) (\<lambda>d.
             if length d \<noteq> MAC_BYTES_LENGTH then Inl ProtocolError else Inr s))
      | _ \<Rightarrow> Inl ProtocolError)"

definition validateKeyBytes :: "jsval \<Rightarrow> attest_error + bytes" where
  "validateKeyBytes v =
     (case v of JBytes b \<Rightarrow> if length b \<noteq> KEY_BYTES_LENGTH then Inl ProtocolError else Inr b
      | _ \<Rightarrow> Inl ProtocolError)"

text \<open>What the platform's URL parser returns, and its failure.\<close>

record url =
  protocol :: string
  username :: string
  password :: string
  host :: string
  hostname :: string

definition validatePublicOrigin :: "(string \<Rightarrow> url option) \<Rightarrow> jsval \<Rightarrow> attest_error + string" where
  "validatePublicOrigin parse_url v =
     (case v of
        JStr origin \<Rightarrow>
          (if length origin = 0 \<or> utf8ByteLength origin > MAX_PUBLIC_ORIGIN_BYTES then Inl ProtocolError
           else
             (case parse_url origin of
                None \<Rightarrow> Inl ProtocolError
              | Some u \<Rightarrow>
                  if protocol u \<noteq> ''https:'' \<and> protocol u \<noteq> ''http:'' then Inl ProtocolError
                  else if username u \<noteq> [] \<or> password u \<noteq> [] then Inl ProtocolError
                  else if origin \<noteq> protocol u @ ''//'' @ host u then Inl ProtocolError
                  else if protocol u = ''http:'' \<and> \<not> isLoopbackHostname (hostname u) then Inl ProtocolError
                  else Inr origin))
      | _ \<Rightarrow> Inl ProtocolError)"

definition normalizeMethod :: "jsval \<Rightarrow> attest_error + string" where
  "normalizeMethod v =
     (case v of JStr m \<Rightarrow> if is_http_token m then Inr (map to_upper m) else Inl ProtocolError
      | _ \<Rightarrow> Inl ProtocolError)"

definition is_ows :: "char \<Rightarrow> bool" where
  "is_ows c \<longleftrightarrow> c = CHR 0x20 \<or> c = CHR 0x09"

definition trim_ows :: "string \<Rightarrow> string" where
  "trim_ows s = rev (dropWhile is_ows (rev (dropWhile is_ows s)))"

definition normalizeContentType :: "jsval \<Rightarrow> attest_error + string" where
  "normalizeContentType v =
     (case v of
        JUndef \<Rightarrow> Inr []
      | JNull \<Rightarrow> Inr []
      | JStr s \<Rightarrow>
          (let t = trim_ows s
           in if list_ex (\<lambda>c. \<not> is_ows c \<and> (of_char c < (32::nat) \<or> of_char c = (127::nat))) t
              then Inl ProtocolError
              else if utf8ByteLength t > MAX_CONTENT_TYPE_BYTES then Inl ProtocolError
              else Inr t)
      | _ \<Rightarrow> Inl ProtocolError)"

section \<open>Request targets\<close>

definition is_hex :: "char \<Rightarrow> bool" where
  "is_hex c \<longleftrightarrow> hex_value c \<noteq> None"

fun valid_escapes :: "string \<Rightarrow> bool" where
  "valid_escapes [] = True"
| "valid_escapes (c # cs) =
     (if c \<noteq> CHR ''%'' then valid_escapes cs
      else (case cs of a # b # r \<Rightarrow> is_hex a \<and> is_hex b \<and> valid_escapes r | _ \<Rightarrow> False))"

fun percentDecodeSegment :: "string \<Rightarrow> string" where
  "percentDecodeSegment [] = []"
| "percentDecodeSegment (c # cs) =
     (case cs of
        a # b # r \<Rightarrow>
          (if c = CHR ''%'' \<and> is_hex a \<and> is_hex b
           then char_of (the (hex_value a) * 16 + the (hex_value b)) # percentDecodeSegment r
           else c # percentDecodeSegment cs)
      | _ \<Rightarrow> c # percentDecodeSegment cs)"

definition target_char_ok :: "char \<Rightarrow> bool" where
  "target_char_ok c \<longleftrightarrow>
     \<not> (of_char c \<le> (32::nat) \<or> of_char c = (127::nat)) \<and> c \<noteq> CHR ''#'' \<and> c \<noteq> CHR 0x5C"

definition dot_segment :: "string \<Rightarrow> bool" where
  "dot_segment seg \<longleftrightarrow> seg = ''.'' \<or> seg = ''..''"

definition segment_ok :: "string \<Rightarrow> bool" where
  "segment_ok seg \<longleftrightarrow> \<not> dot_segment seg \<and> \<not> dot_segment (map to_lower (percentDecodeSegment seg))"

definition target_path :: "string \<Rightarrow> string" where
  "target_path t = takeWhile (\<lambda>c. c \<noteq> CHR ''?'') t"

text \<open>\<open>queryIndex === target.length - 1\<close>: the only question mark is the last character.\<close>

definition lone_query :: "string \<Rightarrow> bool" where
  "lone_query t \<longleftrightarrow> CHR ''?'' \<in> set t \<and> length (target_path t) = length t - 1"

definition canonicalizeRequestTarget :: "jsval \<Rightarrow> attest_error + string" where
  "canonicalizeRequestTarget v =
     (case v of
        JStr t \<Rightarrow>
          (if t = [] then Inl ProtocolError
           else if utf8ByteLength t > MAX_REQUEST_TARGET_BYTES then Inl ProtocolError
           else if \<not> starts_with t ''/'' then Inl ProtocolError
           else if starts_with t ''//'' then Inl ProtocolError
           else if \<not> list_all target_char_ok t then Inl ProtocolError
           else if \<not> valid_escapes t then Inl ProtocolError
           else if \<not> list_all segment_ok (split_on CHR ''/'' (target_path t)) then Inl ProtocolError
           else if lone_query t then Inr (target_path t)
           else Inr t)
      | _ \<Rightarrow> Inl ProtocolError)"

section \<open>Headers and replay keys\<close>

definition validateHeaderName :: "jsval \<Rightarrow> attest_error + string" where
  "validateHeaderName v =
     (case v of
        JStr name \<Rightarrow>
          (if name = [] then Inl ProtocolError
           else if utf8ByteLength name > MAX_HEADER_NAME_BYTES then Inl ProtocolError
           else if \<not> is_http_token name then Inl ProtocolError
           else if map to_lower name \<in> set RESERVED_HEADER_NAMES then Inl ProtocolError
           else Inr name)
      | _ \<Rightarrow> Inl ProtocolError)"

text \<open>Exactly one header value: \<open>Inr None\<close> when there is none.\<close>

definition extractSingleHeaderValue :: "jsval \<Rightarrow> attest_error + string option" where
  "extractSingleHeaderValue raw =
     (if raw = JUndef then Inr None
      else
        (case filter (\<lambda>e. e \<noteq> JUndef) (case raw of JArr es \<Rightarrow> es | _ \<Rightarrow> [raw]) of
           [] \<Rightarrow> Inr None
         | v # vs \<Rightarrow>
             (if vs \<noteq> [] then Inl ProtocolError
              else
                (case v of
                   JStr value \<Rightarrow>
                     (if value = [] then Inr None
                      else andthen (assertEncodedTransactionIdBound value) (\<lambda>_.
                        if CHR '','' \<in> set value then Inl ProtocolError else Inr (Some value)))
                 | _ \<Rightarrow> Inr None))))"

definition validateReplayKey :: "jsval \<Rightarrow> attest_error + string" where
  "validateReplayKey =
     validate_text (\<lambda>s. \<not> (length s < MIN_REPLAY_KEY_BYTES \<or> length s > MAX_REPLAY_KEY_BYTES) \<and>
       list_all (char_between 32 126) s)"

section \<open>Frames\<close>

definition buildMacInputBytes :: "(string \<Rightarrow> url option) \<Rightarrow> mac_fields \<Rightarrow> attest_error + bytes" where
  "buildMacInputBytes parse_url f =
     andthen (validateReplayNamespace (JStr (mf_replayNamespace f))) (\<lambda>ns.
     andthen (validatePublicOrigin parse_url (JStr (mf_publicOrigin f))) (\<lambda>origin.
     andthen (validateKeyId (JStr (mf_keyId f))) (\<lambda>keyId.
     andthen (assertTimestampMs (jint (mf_timestampMs f))) (\<lambda>ts.
     andthen (validateNonceHex (JStr (mf_nonceHex f))) (\<lambda>nonce.
     andthen (normalizeMethod (JStr (mf_method f))) (\<lambda>m.
     andthen (canonicalizeRequestTarget (JStr (mf_requestTarget f))) (\<lambda>target.
     andthen (normalizeContentType (JStr (mf_contentType f))) (\<lambda>ct.
     andthen (validateBodyHashHex (JStr (mf_bodyHashHex f))) (\<lambda>body.
     Inr (canonicalJsonBytes
       [JText MAC_INPUT_LABEL, JInt PROTOCOL_VERSION, JText ns, JText origin, JText keyId, JInt ts,
        JText nonce, JText m, JText target, JText ct, JText body]))))))))))"

definition buildReplayKeyPreimageBytes ::
  "(string \<Rightarrow> url option) \<Rightarrow> string \<Rightarrow> string \<Rightarrow> string \<Rightarrow> attest_error + bytes" where
  "buildReplayKeyPreimageBytes parse_url replayNamespace publicOrigin nonceHex =
     andthen (validateReplayNamespace (JStr replayNamespace)) (\<lambda>ns.
     andthen (validatePublicOrigin parse_url (JStr publicOrigin)) (\<lambda>origin.
     andthen (validateNonceHex (JStr nonceHex)) (\<lambda>nonce.
     Inr (canonicalJsonBytes [JText ns, JText origin, JText nonce]))))"

definition encodeTransactionId :: "transaction_id \<Rightarrow> attest_error + string" where
  "encodeTransactionId f =
     andthen (validateKeyId (JStr (tid_keyId f))) (\<lambda>keyId.
     andthen (assertTimestampMs (jint (tid_timestampMs f))) (\<lambda>ts.
     andthen (validateNonceHex (JStr (tid_nonceHex f))) (\<lambda>nonce.
     andthen (validateMac (JStr (tid_mac f))) (\<lambda>mac.
     let encoded = base64urlEncode (canonicalJsonBytes
           [JInt PROTOCOL_VERSION, JText keyId, JInt ts, JText nonce, JText mac])
     in andthen (assertEncodedTransactionIdBound encoded) (\<lambda>_. Inr encoded)))))"

fun elem_val :: "json_elem \<Rightarrow> jsval" where
  "elem_val (JInt n) = jint n"
| "elem_val (JText s) = JStr s"

definition decodeTransactionId :: "jsval \<Rightarrow> attest_error + transaction_id" where
  "decodeTransactionId v =
     (case v of
        JStr headerValue \<Rightarrow>
          (if headerValue = [] then Inl ProtocolError
           else
             andthen (assertEncodedTransactionIdBound headerValue) (\<lambda>_.
             andthen (base64urlDecode headerValue) (\<lambda>bs.
             if take 3 bs = [0xef, 0xbb, 0xbf] then Inl ProtocolError
             else
               andthen (utf8Decode bs) (\<lambda>text.
               andthen (parseCanonicalJsonArray text (Some 5)) (\<lambda>envelope.
               case map elem_val envelope of
                 [version, keyId, timestampMs, nonceHex, mac] \<Rightarrow>
                   (if version \<noteq> jint PROTOCOL_VERSION then Inl ProtocolError
                    else
                      andthen (validateKeyId keyId) (\<lambda>k.
                      andthen (assertTimestampMs timestampMs) (\<lambda>t.
                      andthen (validateNonceHex nonceHex) (\<lambda>n.
                      andthen (validateMac mac) (\<lambda>m.
                      Inr \<lparr>tid_keyId = k, tid_timestampMs = t, tid_nonceHex = n, tid_mac = m\<rparr>)))))
               | _ \<Rightarrow> Inl ProtocolError)))))
      | _ \<Rightarrow> Inl ProtocolError)"

section \<open>UTF-8 round trip\<close>

lemma unat_byte: "n < 256 \<Longrightarrow> unat (byte n) = n"
  by (simp add: byte_def unat_of_nat)

lemma of_char_less: "of_char c < (256::nat)"
  using of_char_mod_256 [of c] by (metis mod_less_divisor zero_less_numeral)

lemma utf8_decode_char:
  "utf8_decode_bytes (utf8_char c @ bs) = map_option ((#) c) (utf8_decode_bytes bs)"
proof (cases "of_char c < (128::nat)")
  case True
  then show ?thesis by (simp add: utf8_char_def Let_def unat_byte)
next
  case False
  define n where "n = (of_char c :: nat)"
  have n: "n < 256" "128 \<le> n" using of_char_less False by (auto simp: n_def)
  then have d: "n div 64 = 2 \<or> n div 64 = 3" by auto
  have m: "n mod 64 < 64" by simp
  have "char_of n = c" by (simp add: n_def)
  moreover have "n div 64 * 64 + n mod 64 = n" by simp
  ultimately show ?thesis
    using d m n by (auto simp: utf8_char_def Let_def n_def [symmetric] unat_byte)
qed

lemma utf8_roundtrip [simp]: "utf8Decode (utf8Encode s) = Inr s"
proof -
  have "utf8_decode_bytes (utf8Encode s) = Some s"
    by (induction s) (simp_all add: utf8Encode_def utf8_decode_char)
  then show ?thesis by (simp add: utf8Decode_def)
qed

lemma utf8Encode_inj: "utf8Encode s = utf8Encode t \<longleftrightarrow> s = t"
  by (metis utf8_roundtrip sum.inject(2))

section \<open>Base64url round trip\<close>

text \<open>The two steps of the decoding loop, and the masks as bit masks.\<close>

definition b64_push :: "32 word \<Rightarrow> 32 word \<Rightarrow> 32 word" where
  "b64_push b v = push_bit 6 b OR v"

definition b64_out :: "nat \<Rightarrow> 32 word \<Rightarrow> 8 word" where
  "b64_out n b = ucast (signed_drop_bit n b AND 255)"

definition six_bits :: "nat \<Rightarrow> 32 word \<Rightarrow> 32 word" where
  "six_bits n t = drop_bit n t AND 63"

lemma word_masks: "(63 :: 32 word) = mask 6" "(255 :: 32 word) = mask 8"
  "push_bit n (1 :: 32 word) - 1 = mask n"
  by (simp_all add: mask_eq_exp_minus_1 push_bit_of_1)

lemma high_bits_clear: "8 \<le> n \<Longrightarrow> \<not> bit (w :: 8 word) n"
  by (auto dest: bit_imp_le_length)

lemma nat_diff_fold: "2 \<le> n \<Longrightarrow> Suc (Suc (n - 2)) = n" "6 \<le> n \<Longrightarrow> Suc (Suc (n - 6)) = n - 4" for n :: nat
  by auto

lemmas b64_bit_defs = b64_out_def b64_push_def six_bits_def triplet_def word_masks

lemma b64_group:
  defines "x \<equiv> \<lambda>n t. six_bits n t"
  shows "b64_out 4 (b64_push (b64_push B (x 18 (triplet a b c))) (x 12 (triplet a b c))) = a"
    and "b64_out 2 (b64_push (b64_push (b64_push B (x 18 (triplet a b c))) (x 12 (triplet a b c)))
      (x 6 (triplet a b c))) = b"
    and "b64_out 0 (b64_push (b64_push (b64_push (b64_push B (x 18 (triplet a b c)))
      (x 12 (triplet a b c))) (x 6 (triplet a b c))) (x 0 (triplet a b c))) = c"
  unfolding x_def b64_bit_defs
  by (rule bit_eqI; auto simp: bit_simps nat_diff_fold high_bits_clear)+

lemma b64_trailing:
  "b64_push (b64_push B (six_bits 18 (triplet a 0 0))) (six_bits 12 (triplet a 0 0)) AND
     (push_bit 4 1 - 1) = 0"
  "b64_push (b64_push (b64_push B (six_bits 18 (triplet a b 0))) (six_bits 12 (triplet a b 0)))
     (six_bits 6 (triplet a b 0)) AND (push_bit 2 1 - 1) = 0"
  unfolding b64_bit_defs
  by (rule bit_eqI; auto simp: bit_simps nat_diff_fold high_bits_clear)+

lemma alphabet: "length BASE64URL_ALPHABET = 64" "distinct BASE64URL_ALPHABET"
  by (simp_all add: BASE64URL_ALPHABET_def)

lemma table_digit: "unat w < 64 \<Longrightarrow> map_of BASE64URL_DECODE_TABLE (b64_digit w) = Some (unat w)"
  using map_of_zip_nth [of BASE64URL_ALPHABET "[0..<64]" "unat w"]
  by (simp add: BASE64URL_DECODE_TABLE_def b64_digit_def alphabet)

lemma six_bits_bound: "unat (six_bits n t) < 64"
proof -
  have "six_bits n t \<le> 63"
    unfolding six_bits_def by (rule word_and_le1)
  then show ?thesis by (simp add: word_le_nat_alt)
qed

lemma table_sextet: "map_of BASE64URL_DECODE_TABLE (sextet n t) = Some (unat (six_bits n t))"
  using table_digit [OF six_bits_bound] by (simp add: sextet_def six_bits_def)

lemma encode_chars: "list_all (\<lambda>c. map_of BASE64URL_DECODE_TABLE c \<noteq> None) (base64urlEncode bs)"
  by (induction bs rule: base64urlEncode.induct) (auto simp: Let_def table_sextet)

lemma encode_length: "length (base64urlEncode bs) mod 4 \<noteq> 1"
  by (induction bs rule: base64urlEncode.induct) (auto simp: Let_def)

lemma encode_eq_Nil [simp]: "base64urlEncode bs = [] \<longleftrightarrow> bs = []"
  by (cases bs rule: base64urlEncode.cases) (auto simp: Let_def)

lemma b64_step: "b64_loop (v # vs) B n =
    (if n + 6 \<ge> 8
     then (let (out, r) = b64_loop vs (b64_push B (of_nat v)) (n - 2)
           in (b64_out (n - 2) (b64_push B (of_nat v)) # out, r))
     else b64_loop vs (b64_push B (of_nat v)) (n + 6))"
  by (simp add: b64_push_def b64_out_def Let_def)

declare b64_loop.simps(2) [simp del]

lemma b64_loop_encode:
  "\<exists>B' k. b64_loop (map (\<lambda>c. the (map_of BASE64URL_DECODE_TABLE c)) (base64urlEncode bs)) B 0 = (bs, B', k) \<and>
     (k > 0 \<longrightarrow> B' AND (push_bit k 1 - 1) = 0)"
proof (induction bs arbitrary: B rule: base64urlEncode.induct)
  case (2 a)
  show ?case
    using b64_group(1) [of B a 0 0] b64_trailing(1) [of B a]
    by (simp add: Let_def table_sextet b64_step)
next
  case (3 a b)
  show ?case
    using b64_group(1,2) [of B a b 0] b64_trailing(2) [of B a b]
    by (simp add: Let_def table_sextet b64_step)
next
  case (4 a b c rest)
  show ?case
    using b64_group [of B a b c] "4.IH" [of "triplet a b c" "b64_push (b64_push (b64_push (b64_push B
      (six_bits 18 (triplet a b c))) (six_bits 12 (triplet a b c))) (six_bits 6 (triplet a b c)))
      (six_bits 0 (triplet a b c))"]
    by (auto simp: Let_def table_sextet b64_step)
qed simp

lemma base64url_roundtrip: "bs \<noteq> [] \<Longrightarrow> base64urlDecode (base64urlEncode bs) = Inr bs"
  using b64_loop_encode [of bs 0] encode_chars [of bs] encode_length [of bs]
  by (auto simp: base64urlDecode_def Let_def)

lemma base64url_canonical: "base64urlDecode s = Inr bs \<Longrightarrow> bs \<noteq> [] \<and> s = base64urlEncode bs"
  by (auto simp: base64urlDecode_def Let_def split: if_splits prod.splits)

section \<open>JSON round trip\<close>

lemma parse_digits_append:
  assumes "r = [] \<or> \<not> is_digit (hd r)"
  shows "parse_digits (digits n @ r) = Some (n, r)"
proof -
  have "takeWhile is_digit (digits n @ r) = digits n @ takeWhile is_digit r"
    "dropWhile is_digit (digits n @ r) = dropWhile is_digit r"
    using digits_all [of n] by (auto simp: list_all_iff takeWhile_append dropWhile_append)
  moreover have "takeWhile is_digit r = []" "dropWhile is_digit r = r"
    using assms by (cases r; simp)+
  ultimately show ?thesis
    by (auto simp: parse_digits_def Let_def decimal_digits digits_lead_tl)
qed

lemma hd_digits: "is_digit (hd (digits n @ r))"
  using digits_all [of n] by (cases "digits n") (auto simp: list_all_iff)

fun elem_safe :: "json_elem \<Rightarrow> bool" where
  "elem_safe (JInt n) = is_safe n"
| "elem_safe (JText _) = True"

lemma parse_elem_text:
  assumes "elem_safe e" "r = [] \<or> \<not> is_digit (hd r)"
  shows "parse_elem (json_elem_text e @ r) = Some (e, r)"
proof (cases e)
  case (JInt n)
  have quote: "\<not> is_digit CHR 0x22" "\<not> is_digit CHR ''-''" by code_simp+
  then have "hd (digits m @ r) \<noteq> CHR 0x22" "hd (digits m @ r) \<noteq> CHR ''-''" for m
    using hd_digits [of m r] by metis+
  then show ?thesis
    using JInt assms by (auto simp: parse_elem_def parse_int_def json_int_def parse_digits_append)
qed (simp add: parse_elem_def json_quote_def parse_quoted)

lemma parse_elems_text:
  "es \<noteq> [] \<Longrightarrow> list_all elem_safe es \<Longrightarrow>
   parse_elems (join_with CHR '','' (map json_elem_text es) @ '']'') = Some es"
proof (induction es)
  case (Cons e es)
  have sep: "\<not> is_digit CHR '',''" "\<not> is_digit CHR '']''" by code_simp+
  show ?case
  proof (cases es)
    case Nil
    with Cons.prems show ?thesis
      by (subst parse_elems.simps) (simp add: parse_elem_text sep)
  next
    case (Cons f fs)
    with Cons.prems Cons.IH show ?thesis
      by (subst parse_elems.simps) (simp add: parse_elem_text sep)
  qed
qed simp

lemma json_elem_text_ne: "json_elem_text e \<noteq> []"
  by (cases e) (auto simp: json_int_def json_quote_def)

lemma elems_text_ne: "es \<noteq> [] \<Longrightarrow> join_with c (map json_elem_text es) \<noteq> []"
  by (cases es; cases "tl es") (auto simp: json_elem_text_ne)

lemma parse_array_text: "list_all elem_safe es \<Longrightarrow> parse_array (json_array es) = Some es"
proof (cases "es = []")
  case False
  then obtain x xs where "join_with CHR '','' (map json_elem_text es) = x # xs"
    using elems_text_ne by (metis neq_Nil_conv)
  moreover assume "list_all elem_safe es"
  ultimately show ?thesis
    using parse_elems_text [OF False] by (simp add: parse_array_def json_array_def)
qed (simp add: parse_array_def json_array_def)

lemma json_array_inj:
  "list_all elem_safe es \<Longrightarrow> list_all elem_safe fs \<Longrightarrow> json_array es = json_array fs \<Longrightarrow> es = fs"
  by (metis option.inject parse_array_text)

lemma canonicalJsonBytes_inj:
  "list_all elem_safe es \<Longrightarrow> list_all elem_safe fs \<Longrightarrow>
   canonicalJsonBytes es = canonicalJsonBytes fs \<Longrightarrow> es = fs"
  by (simp add: canonicalJsonBytes_def utf8Encode_inj json_array_inj)

lemma parseCanonical_text:
  "list_all elem_safe es \<Longrightarrow> length es = n \<Longrightarrow> parseCanonicalJsonArray (json_array es) (Some n) = Inr es"
  by (simp add: parseCanonicalJsonArray_def parse_array_text)

section \<open>The transaction-ID envelope\<close>

lemma validate_text_Inr [simp]: "validate_text P v = Inr s \<longleftrightarrow> v = JStr s \<and> P s"
  by (auto simp: validate_text_def split: jsval.splits)

lemmas text_validators = validateKeyId_def validateReplayNamespace_def validateNonceHex_def
  validateBodyHashHex_def

definition mac_ok :: "string \<Rightarrow> bool" where
  "mac_ok s \<longleftrightarrow> validateMac (JStr s) = Inr s"

lemma validateMac_iff: "validateMac v = Inr s \<longleftrightarrow> v = JStr s \<and> mac_ok s"
  by (auto simp: mac_ok_def validateMac_def andthen_Inr split: jsval.splits if_splits)

lemma low_byte: "128 \<le> n \<Longrightarrow> n < 192 \<Longrightarrow> 128 + n mod 64 = n" for n :: nat
  by (simp add: le_mod_geq)

lemma utf8_decode_canonical: "utf8_decode_bytes bs = Some s \<Longrightarrow> utf8Encode s = bs"
proof (induction bs arbitrary: s rule: utf8_decode_bytes.induct)
  case 1
  then show ?case by (simp add: utf8Encode_def)
next
  case (2 b bs)
  consider (one) "unat b < 128" | (two) c cs where "unat b = 194 \<or> unat b = 195" "bs = c # cs"
    "128 \<le> unat c" "unat c < 192"
    using "2.prems" by (auto split: if_splits list.splits)
  then show ?case
  proof cases
    case one
    then obtain t where t: "utf8_decode_bytes bs = Some t" "s = char_of (unat b) # t"
      using "2.prems" by auto
    moreover have "utf8_char (char_of (unat b)) = [b]"
      using one by (simp add: utf8_char_def byte_def)
    ultimately show ?thesis using "2.IH"(1) one by (simp add: utf8Encode_def)
  next
    case two
    let ?n = "(unat b - 192) * 64 + (unat c - 128)"
    obtain t where t: "utf8_decode_bytes cs = Some t" "s = char_of ?n # t"
      using "2.prems" two by (auto split: if_splits)
    have n: "128 \<le> ?n" "?n < 256" "192 + ?n div 64 = unat b" "128 + ?n mod 64 = unat c"
      using two low_byte [of "unat c"] by auto
    have "utf8_char (char_of ?n) = [byte (192 + ?n div 64), byte (128 + ?n mod 64)]"
      using n(1,2) by (simp add: utf8_char_def Let_def)
    also have "\<dots> = [b, c]"
      unfolding n(3,4) by (simp add: byte_def)
    finally show ?thesis using "2.IH"(2)[OF _ two(1,2)] t two by (auto simp: utf8Encode_def)
  qed
qed

lemma utf8Decode_canonical: "utf8Decode bs = Inr s \<longleftrightarrow> bs = utf8Encode s"
proof
  assume "utf8Decode bs = Inr s"
  then show "bs = utf8Encode s"
    by (auto simp: utf8Decode_def dest: utf8_decode_canonical split: option.splits)
qed simp

lemma parseCanonical_InrD: "parseCanonicalJsonArray text (Some n) = Inr es \<Longrightarrow> text = json_array es \<and> length es = n"
  by (auto simp: parseCanonicalJsonArray_def split: option.splits if_splits)

lemma no_bom: "take 3 (canonicalJsonBytes es) \<noteq> [0xef, 0xbb, 0xbf]"
  by (simp add: canonicalJsonBytes_def utf8Encode_def json_array_def utf8_char_def byte_def)

definition envelope :: "transaction_id \<Rightarrow> json_elem list" where
  "envelope f = [JInt PROTOCOL_VERSION, JText (tid_keyId f), JInt (tid_timestampMs f),
     JText (tid_nonceHex f), JText (tid_mac f)]"

definition envelope_ok :: "transaction_id \<Rightarrow> bool" where
  "envelope_ok f \<longleftrightarrow> validateKeyId (JStr (tid_keyId f)) = Inr (tid_keyId f) \<and>
     timestamp_ok (tid_timestampMs f) \<and> validateNonceHex (JStr (tid_nonceHex f)) = Inr (tid_nonceHex f) \<and>
     mac_ok (tid_mac f)"

lemma encode_iff: "encodeTransactionId f = Inr s \<longleftrightarrow>
    envelope_ok f \<and> s = base64urlEncode (canonicalJsonBytes (envelope f)) \<and>
    length s \<le> MAX_ENCODED_TRANSACTION_ID_BYTES"
  by (auto simp: encodeTransactionId_def envelope_ok_def envelope_def andthen_Inr Let_def
      timestamp_ok_def assertEncodedTransactionIdBound_def text_validators validateMac_iff)

lemma decode_iff: "decodeTransactionId (JStr s) = Inr f \<longleftrightarrow>
    envelope_ok f \<and> s = base64urlEncode (canonicalJsonBytes (envelope f)) \<and>
    length s \<le> MAX_ENCODED_TRANSACTION_ID_BYTES"
proof
  assume d: "decodeTransactionId (JStr s) = Inr f"
  then obtain bs tx es where s: "length s \<le> MAX_ENCODED_TRANSACTION_ID_BYTES" "base64urlDecode s = Inr bs"
      "utf8Decode bs = Inr tx" "parseCanonicalJsonArray tx (Some 5) = Inr es"
    by (auto simp: decodeTransactionId_def andthen_Inr assertEncodedTransactionIdBound_def split: if_splits)
  have e: "s = base64urlEncode (canonicalJsonBytes es)"
    using s by (auto simp: canonicalJsonBytes_def utf8Decode_canonical dest!: base64url_canonical parseCanonical_InrD)
  obtain v k t n m where es: "es = [v, k, t, n, m]"
    using parseCanonical_InrD [OF s(4)] by (auto simp: length_Suc_conv numeral_eq_Suc)
  have "es = envelope f \<and> envelope_ok f"
    using d s es by (auto simp: decodeTransactionId_def andthen_Inr envelope_def envelope_ok_def
        assertTimestampMs_eq_Inr text_validators validateMac_iff split: if_splits elim!: elem_val.elims)
  with e s show "envelope_ok f \<and> s = base64urlEncode (canonicalJsonBytes (envelope f)) \<and>
      length s \<le> MAX_ENCODED_TRANSACTION_ID_BYTES" by blast
next
  assume f: "envelope_ok f \<and> s = base64urlEncode (canonicalJsonBytes (envelope f)) \<and>
    length s \<le> MAX_ENCODED_TRANSACTION_ID_BYTES"
  have ne: "canonicalJsonBytes (envelope f) \<noteq> []"
    by (simp add: canonicalJsonBytes_def utf8Encode_def json_array_def utf8_char_def Let_def)
  have safe: "list_all elem_safe (envelope f)" "length (envelope f) = 5"
    using f by (auto simp: envelope_def envelope_ok_def timestamp_ok_def is_safe_def PROTOCOL_VERSION_def
        MAX_SAFE_INTEGER_def)
  have "parseCanonicalJsonArray (json_array (envelope f)) (Some 5) = Inr (envelope f)"
    using parseCanonical_text [OF safe] .
  moreover have "length (base64urlEncode (canonicalJsonBytes (envelope f))) \<le> MAX_ENCODED_TRANSACTION_ID_BYTES"
    using f by metis
  ultimately show "decodeTransactionId (JStr s) = Inr f"
    using f ne no_bom [of "envelope f"] base64url_roundtrip [OF ne]
    by (cases f) (auto simp: decodeTransactionId_def assertEncodedTransactionIdBound_def envelope_ok_def
        canonicalJsonBytes_def envelope_def mac_ok_def timestamp_ok_def guard_def)
qed

section \<open>Request targets\<close>

lemma lone_query_split: "lone_query t \<Longrightarrow> t = target_path t @ ''?''"
proof -
  assume q: "lone_query t"
  then obtain p r where t: "t = p @ CHR ''?'' # r" "CHR ''?'' \<notin> set p"
    unfolding lone_query_def by (meson split_list_first)
  then have "target_path t = p"
    unfolding target_path_def by (auto simp: takeWhile_append)
  with q t show ?thesis by (simp add: lone_query_def)
qed

lemma target_path_path [simp]: "target_path (target_path t) = target_path t"
  by (simp add: target_path_def)

lemma query_notin_path: "CHR ''?'' \<notin> set (target_path t)"
  by (auto simp: target_path_def dest: set_takeWhileD)

lemma not_hex_query: "\<not> is_hex CHR ''?''"
  by code_simp

lemma valid_escapes_prefix: "valid_escapes (p @ ''?'') \<Longrightarrow> valid_escapes p"
proof (induction p rule: valid_escapes.induct)
  case (2 c cs)
  show ?case
  proof (cases "c = CHR ''%''")
    case True
    with "2.prems" obtain a b r where "cs = a # b # r"
      by (cases cs; cases "tl cs") (auto simp: not_hex_query)
    with True "2.prems" "2.IH"(2) show ?thesis by simp
  qed (use 2 in simp)
qed simp

lemma utf8ByteLength_append: "utf8ByteLength (s @ t) = utf8ByteLength s + utf8ByteLength t"
  by (simp add: utf8ByteLength_def utf8Encode_def)

definition target_ok :: "string \<Rightarrow> bool" where
  "target_ok t \<longleftrightarrow> utf8ByteLength t \<le> MAX_REQUEST_TARGET_BYTES \<and> starts_with t ''/'' \<and> \<not> starts_with t ''//'' \<and>
     list_all target_char_ok t \<and> valid_escapes t \<and>
     list_all segment_ok (split_on CHR ''/'' (target_path t)) \<and> \<not> lone_query t"

lemma target_ok_path:
  assumes "starts_with t ''/''" "\<not> starts_with t ''//''" "list_all target_char_ok t" "valid_escapes t"
    "list_all segment_ok (split_on CHR ''/'' (target_path t))" "utf8ByteLength t \<le> MAX_REQUEST_TARGET_BYTES"
    "lone_query t"
  shows "target_ok (target_path t)"
proof -
  have t: "t = target_path t @ ''?''"
    using assms(7) by (rule lone_query_split)
  have "starts_with (target_path t) ''/''"
    using assms(1) by (auto simp: starts_with_iff target_path_def)
  moreover have "\<not> starts_with (target_path t) ''//''"
    using assms(2) t by (metis append.assoc starts_with_iff)
  moreover have "list_all target_char_ok (target_path t)"
    using assms(3) t by (metis list_all_append)
  moreover have "valid_escapes (target_path t)"
    using assms(4) t valid_escapes_prefix by metis
  moreover have "utf8ByteLength (target_path t) \<le> MAX_REQUEST_TARGET_BYTES"
    using assms(6) t by (metis le_add1 order_trans utf8ByteLength_append)
  ultimately show ?thesis
    using assms(5) query_notin_path by (simp add: target_ok_def lone_query_def)
qed

lemma canonicalize_fixed: "target_ok t \<Longrightarrow> canonicalizeRequestTarget (JStr t) = Inr t"
  by (auto simp: target_ok_def canonicalizeRequestTarget_def starts_with_def)

lemma canonicalize_target_ok: "canonicalizeRequestTarget v = Inr t \<Longrightarrow> target_ok t"
  by (auto simp: canonicalizeRequestTarget_def target_ok_path split: jsval.splits if_splits)
     (auto simp: target_ok_def)

section \<open>Size of an envelope\<close>

lemma length_base64url: "length (base64urlEncode bs) = (4 * length bs + 2) div 3"
  by (induction bs rule: base64urlEncode.induct) (simp_all add: Let_def)

lemma sextet_char: "is_b64url (sextet n t)"
proof -
  have "list_all is_b64url BASE64URL_ALPHABET" by code_simp
  moreover have "sextet n t \<in> set BASE64URL_ALPHABET"
    using six_bits_bound [of n t] by (simp add: sextet_def b64_digit_def six_bits_def alphabet)
  ultimately show ?thesis by (simp add: list_all_iff)
qed

lemma base64url_chars: "list_all is_b64url (base64urlEncode bs)"
  by (induction bs rule: base64urlEncode.induct) (simp_all add: Let_def sextet_char)

lemma lower_hex_b64url: "is_lower_hex c \<Longrightarrow> is_b64url c"
  by (auto simp: is_lower_hex_def is_b64url_def is_lower_def char_between_def)

definition ascii_plain :: "char \<Rightarrow> bool" where
  "ascii_plain c \<longleftrightarrow> 32 \<le> (of_char c :: nat) \<and> (of_char c :: nat) < 128 \<and> c \<noteq> CHR 0x22 \<and> c \<noteq> CHR 0x5C"

lemma b64url_plain: "is_b64url c \<Longrightarrow> ascii_plain c"
proof -
  have "\<not> is_b64url CHR 0x22" "\<not> is_b64url CHR 0x5C" by code_simp+
  moreover assume "is_b64url c"
  ultimately show ?thesis
    by (auto simp: is_b64url_def is_upper_def is_lower_def is_digit_def char_between_def ascii_plain_def)
qed

lemma json_escape_plain: "ascii_plain c \<Longrightarrow> json_escape c = [c]"
  by (auto simp: json_escape_def ascii_plain_def)

lemma json_quote_plain: "list_all ascii_plain s \<Longrightarrow> json_quote s = CHR 0x22 # s @ [CHR 0x22]"
proof -
  have "list_all ascii_plain s \<Longrightarrow> concat (map json_escape s) = s"
    by (induction s) (simp_all add: json_escape_plain)
  then show "list_all ascii_plain s \<Longrightarrow> ?thesis" by (simp add: json_quote_def)
qed

lemma length_digits: "n < 10 ^ k \<Longrightarrow> 0 < k \<Longrightarrow> length (digits n) \<le> k"
proof (induction n arbitrary: k rule: digits.induct)
  case (1 n)
  show ?case
  proof (cases "n < 10")
    case False
    obtain j where k: "k = Suc j" using "1.prems" by (cases k) auto
    with "1.prems" False have "n div 10 < 10 ^ j" "0 < j" by (auto simp: less_mult_imp_div_less mult.commute) (cases j; simp)
    with "1.IH" [OF False] k False show ?thesis by (subst digits.simps) simp
  qed (use "1.prems" in \<open>subst digits.simps; simp\<close>)
qed

lemma utf8Encode_ascii: "list_all (\<lambda>c. of_char c < (128::nat)) s \<Longrightarrow> length (utf8Encode s) = length s"
  by (induction s) (simp_all add: utf8Encode_def utf8_char_def)

lemma envelope_fits:
  assumes "envelope_ok f"
  shows "length (base64urlEncode (canonicalJsonBytes (envelope f))) \<le> MAX_ENCODED_TRANSACTION_ID_BYTES"
proof -
  have key: "length (tid_keyId f) \<le> 64" "list_all is_b64url (tid_keyId f)"
    and nonce: "length (tid_nonceHex f) = 32" "list_all is_b64url (tid_nonceHex f)"
    using assms by (auto simp: envelope_ok_def validateKeyId_def validateNonceHex_def MAX_KEY_ID_LENGTH_def
        list_all_iff lower_hex_b64url)
  have mac: "length (tid_mac f) = 43" "list_all is_b64url (tid_mac f)"
    using assms by (auto simp: envelope_ok_def mac_ok_def validateMac_def andthen_Inr base64url_chars
        split: if_splits dest!: base64url_canonical)
  have ts: "0 \<le> tid_timestampMs f" "nat (tid_timestampMs f) < 10 ^ 16"
    using assms by (auto simp: envelope_ok_def timestamp_ok_def is_safe_def MAX_SAFE_INTEGER_def)
  have plain: "list_all ascii_plain (tid_keyId f)" "list_all ascii_plain (tid_nonceHex f)"
    "list_all ascii_plain (tid_mac f)"
    using key nonce mac by (auto simp: list_all_iff b64url_plain)
  have dig: "length (json_int (tid_timestampMs f)) \<le> 16" "list_all (\<lambda>c. of_char c < (128::nat)) (json_int (tid_timestampMs f))"
    using ts length_digits [OF ts(2)] digits_all [of "nat (tid_timestampMs f)"]
    by (auto simp: json_int_def list_all_iff is_digit_def char_between_def)
  have "json_int PROTOCOL_VERSION = ''1''" by code_simp
  then have tx: "json_array (envelope f) = ''[1,'' @ [CHR 0x22] @ tid_keyId f @ [CHR 0x22] @ '','' @
      json_int (tid_timestampMs f) @ '','' @ [CHR 0x22] @ tid_nonceHex f @ [CHR 0x22] @ '','' @ [CHR 0x22] @
      tid_mac f @ [CHR 0x22] @ '']''"
    using plain by (simp add: json_array_def envelope_def json_quote_plain)
  have "list_all (\<lambda>c. of_char c < (128::nat)) (json_array (envelope f))"
    unfolding tx using plain dig(2) by (auto simp: list_all_iff ascii_plain_def)
  then have "length (canonicalJsonBytes (envelope f)) = length (json_array (envelope f))"
    by (simp add: canonicalJsonBytes_def utf8Encode_ascii)
  also have "\<dots> \<le> 200"
    unfolding tx using key(1) nonce(1) mac(1) dig(1) by simp
  finally show ?thesis
    by (simp add: length_base64url MAX_ENCODED_TRANSACTION_ID_BYTES_def)
qed

lemma encode_total: "is_ok (encodeTransactionId f) \<longleftrightarrow> envelope_ok f"
  using envelope_fits by (auto simp: is_ok_def encode_iff)

section \<open>Framing of the MAC input\<close>

text \<open>What the MAC binds: the fields as they enter the frame.\<close>

definition mac_view :: "mac_fields \<Rightarrow> (string \<times> string \<times> string \<times> int \<times> string) \<times>
    (attest_error + string) \<times> (attest_error + string) \<times> (attest_error + string) \<times> string" where
  "mac_view f =
     ((mf_replayNamespace f, mf_publicOrigin f, mf_keyId f, mf_timestampMs f, mf_nonceHex f),
      normalizeMethod (JStr (mf_method f)), canonicalizeRequestTarget (JStr (mf_requestTarget f)),
      normalizeContentType (JStr (mf_contentType f)), mf_bodyHashHex f)"

lemma validatePublicOrigin_Inr: "validatePublicOrigin p v = Inr s \<Longrightarrow> v = JStr s"
  by (auto simp: validatePublicOrigin_def split: jsval.splits if_splits option.splits)

lemma version_safe: "is_safe PROTOCOL_VERSION"
  by (simp add: is_safe_def PROTOCOL_VERSION_def MAX_SAFE_INTEGER_def)

lemma mac_input_frame:
  "buildMacInputBytes p f = Inr b \<Longrightarrow> \<exists>m t c. is_safe (mf_timestampMs f) \<and>
     mac_view f = ((mf_replayNamespace f, mf_publicOrigin f, mf_keyId f, mf_timestampMs f, mf_nonceHex f),
       Inr m, Inr t, Inr c, mf_bodyHashHex f) \<and>
     b = canonicalJsonBytes [JText MAC_INPUT_LABEL, JInt PROTOCOL_VERSION, JText (mf_replayNamespace f),
       JText (mf_publicOrigin f), JText (mf_keyId f), JInt (mf_timestampMs f), JText (mf_nonceHex f),
       JText m, JText t, JText c, JText (mf_bodyHashHex f)]"
  by (auto simp: buildMacInputBytes_def mac_view_def andthen_Inr text_validators
      dest!: validatePublicOrigin_Inr split: if_splits)

section \<open>Properties\<close>

text \<open>C4: Two requests with the same MAC input are the same request: the frame determines the replay
  namespace, the origin, the key, the timestamp, the nonce, the body hash and the normalised method,
  target and content type, so no field can be shifted into its neighbour.\<close>

theorem mac_input_injective:
  assumes "buildMacInputBytes parse_url f = Inr b" "buildMacInputBytes parse_url g = Inr b"
  shows "mac_view f = mac_view g"
proof -
  have safe: "elem_safe (JInt PROTOCOL_VERSION)" "\<And>s. elem_safe (JText s)"
    by (simp_all add: version_safe)
  show ?thesis
    using mac_input_frame [OF assms(1)] mac_input_frame [OF assms(2)]
    by (auto dest!: canonicalJsonBytes_inj [rotated 2] simp: version_safe)
qed

text \<open>C9: The transaction-ID header has one spelling per proof: the decoder accepts exactly what the
  encoder writes, so decoding inverts encoding and no second text decodes to the same proof.\<close>

theorem transaction_id_roundtrip:
  "encodeTransactionId f = Inr s \<longleftrightarrow> decodeTransactionId (JStr s) = Inr f"
  by (simp only: encode_iff decode_iff)

text \<open>Base64url decoding is exact: it inverts the encoder, and it accepts no text but the encoder's.\<close>

lemma base64url_bijection:
  "base64urlDecode s = Inr bs \<longleftrightarrow> bs \<noteq> [] \<and> s = base64urlEncode bs"
  using base64url_canonical base64url_roundtrip by blast

text \<open>Canonicalising a request target is idempotent, and what it returns has no fragment, control
  character, backslash, dot segment or trailing lone question mark.\<close>

theorem canonicalize_idempotent:
  assumes "canonicalizeRequestTarget v = Inr t"
  shows "canonicalizeRequestTarget (JStr t) = Inr t \<and> target_ok t"
  using canonicalize_target_ok [OF assms] canonicalize_fixed by blast

section \<open>Witnesses\<close>

definition demo_mac_fields :: "string \<Rightarrow> string \<Rightarrow> mac_fields" where
  "demo_mac_fields m t = \<lparr>mf_replayNamespace = ''ns'', mf_publicOrigin = ''https://a.io'', mf_keyId = ''k1'',
     mf_timestampMs = 50000, mf_nonceHex = replicate 32 CHR ''a'', mf_method = m, mf_requestTarget = t,
     mf_contentType = [], mf_bodyHashHex = replicate 64 CHR ''b''\<rparr>"

definition demo_parse_url :: "string \<Rightarrow> url option" where
  "demo_parse_url s = Some \<lparr>protocol = ''https:'', username = [], password = [], host = ''a.io'', hostname = ''a.io''\<rparr>"

lemma demo_mac_input:
  assumes "normalizeMethod (JStr m) = Inr ''GET''" "canonicalizeRequestTarget (JStr t) = Inr ''/x''"
  shows "buildMacInputBytes demo_parse_url (demo_mac_fields m t) = Inr (canonicalJsonBytes [JText MAC_INPUT_LABEL,
     JInt PROTOCOL_VERSION, JText ''ns'', JText ''https://a.io'', JText ''k1'', JInt 50000,
     JText (replicate 32 CHR ''a''), JText ''GET'', JText ''/x'', JText [], JText (replicate 64 CHR ''b'')])"
proof -
  have "validateKeyId (JStr ''k1'') = Inr ''k1''" "validateReplayNamespace (JStr ''ns'') = Inr ''ns''"
    "validateNonceHex (JStr (replicate 32 CHR ''a'')) = Inr (replicate 32 CHR ''a'')"
    "validatePublicOrigin demo_parse_url (JStr ''https://a.io'') = Inr ''https://a.io''"
    "normalizeContentType (JStr []) = Inr []" "assertTimestampMs (jint 50000) = Inr 50000"
    "validateBodyHashHex (JStr (replicate 64 CHR ''b'')) = Inr (replicate 64 CHR ''b'')"
    by code_simp+
  then show ?thesis
    using assms by (simp add: buildMacInputBytes_def demo_mac_fields_def del: of_int_numeral assertTimestampMs_jint)
qed

theorem mac_input_injective_witness:
  "mac_view (demo_mac_fields ''get'' ''/x?'') = mac_view (demo_mac_fields ''GET'' ''/x'')"
proof -
  have "normalizeMethod (JStr ''get'') = Inr ''GET''" "normalizeMethod (JStr ''GET'') = Inr ''GET''"
    "canonicalizeRequestTarget (JStr ''/x?'') = Inr ''/x''" "canonicalizeRequestTarget (JStr ''/x'') = Inr ''/x''"
    by code_simp+
  then show ?thesis
    using mac_input_injective [OF demo_mac_input demo_mac_input] by blast
qed

theorem canonicalize_idempotent_witness:
  "canonicalizeRequestTarget (JStr ''/a/%41?'') = Inr ''/a/%41'' \<and> canonicalizeRequestTarget (JStr ''/a/%41'') = Inr ''/a/%41'' \<and>
     target_ok ''/a/%41''"
proof -
  have "canonicalizeRequestTarget (JStr ''/a/%41?'') = Inr ''/a/%41''" by code_simp
  with canonicalize_idempotent [OF this] show ?thesis by blast
qed

end
