(* ===== verification/AttestKeys.thy ===== *)
theory AttestKeys
  imports AttestCodec
begin

text \<open>
  Key snapshots and their providers, keys.ts of packages/express-request-attestation. A provider's
  state is the snapshot it owns; \<open>getSnapshot\<close> returns a copy of it and \<open>replace\<close> is the one
  operation that changes it. Key bytes are values here: the copies the code makes so that a caller's
  writes to its own \<open>Uint8Array\<close> cannot reach the provider are what makes that faithful.
\<close>

definition MAX_RETAINED_ATTESTATION_KEYS :: nat where
  "MAX_RETAINED_ATTESTATION_KEYS = 16"

definition SNAPSHOT_OPTION_KEYS :: "string list" where
  "SNAPSHOT_OPTION_KEYS = [''currentKeyId'', ''keys'']"

definition KEY_ENTRY_KEYS :: "string list" where
  "KEY_ENTRY_KEYS = [''keyId'', ''key'', ''acceptFrom'', ''acceptUntil'']"

definition KEY_WINDOW_KEYS :: "string list" where
  "KEY_WINDOW_KEYS = [''acceptFrom'', ''acceptUntil'']"

fun bytes_equal_from :: "bytes \<Rightarrow> bytes \<Rightarrow> bool" where
  "bytes_equal_from (a # as) (b # bs) = (if a \<noteq> b then False else bytes_equal_from as bs)"
| "bytes_equal_from _ _ = True"

definition bytesEqual :: "bytes \<Rightarrow> bytes \<Rightarrow> bool" where
  "bytesEqual l r = (if length l \<noteq> length r then False else bytes_equal_from l r)"

section \<open>Shape\<close>

text \<open>One entry: its fields in the order the code reads them.\<close>

definition key_row :: "jsval \<Rightarrow> attest_error + key_entry" where
  "key_row entry =
     andthen (validateKeyId (jprop entry ''keyId'')) (\<lambda>keyId.
     andthen (validateKeyBytes (jprop entry ''key'')) (\<lambda>key.
     andthen (assertTimestampMs (jprop entry ''acceptFrom'')) (\<lambda>from.
     andthen (assertTimestampMs (jprop entry ''acceptUntil'')) (\<lambda>until.
     if from \<ge> until then Inl ProtocolError
     else Inr \<lparr>ke_keyId = keyId, ke_key = key, ke_acceptFrom = from, ke_acceptUntil = until\<rparr>))))"

text \<open>The loop over the entries; \<open>seen\<close> is the set of key IDs met so far.\<close>

fun snapshot_rows :: "string set \<Rightarrow> jsval list \<Rightarrow> attest_error + key_entry list" where
  "snapshot_rows seen [] = Inr []"
| "snapshot_rows seen (entry # rest) =
     (case entry of
        JObj ps \<Rightarrow>
          (if \<exists>k \<in> set (map fst ps). k \<notin> set KEY_ENTRY_KEYS then Inl ProtocolError
           else andthen (key_row entry) (\<lambda>row.
             if ke_keyId row \<in> seen then Inl ProtocolError
             else andthen (snapshot_rows (insert (ke_keyId row) seen) rest) (\<lambda>rows. Inr (row # rows))))
      | _ \<Rightarrow> Inl ProtocolError)"

text \<open>\<open>assertValidSnapshotShape\<close>, with the snapshot that it shows its argument to be.\<close>

definition assertValidSnapshotShape :: "jsval \<Rightarrow> attest_error + key_snapshot" where
  "assertValidSnapshotShape snapshot =
     (case snapshot of
        JObj ps \<Rightarrow>
          (if \<exists>k \<in> set (map fst ps). k \<notin> set SNAPSHOT_OPTION_KEYS then Inl ProtocolError
           else andthen (validateKeyId (jprop snapshot ''currentKeyId'')) (\<lambda>current.
             case jprop snapshot ''keys'' of
               JArr es \<Rightarrow>
                 (if length es = 0 \<or> length es > MAX_RETAINED_ATTESTATION_KEYS then Inl ProtocolError
                  else andthen (snapshot_rows {} es) (\<lambda>rows.
                    if current \<notin> set (map ke_keyId rows) then Inl ProtocolError
                    else Inr \<lparr>currentKeyId = current, ks_keys = rows\<rparr>))
             | _ \<Rightarrow> Inl ProtocolError))
      | _ \<Rightarrow> Inl ProtocolError)"

definition ownSnapshot :: "jsval \<Rightarrow> attest_error + key_snapshot" where
  "ownSnapshot input = assertValidSnapshotShape input"

definition generateAttestationKey :: "bytes \<Rightarrow> jsval \<Rightarrow> jsval \<Rightarrow> attest_error + key_entry" where
  "generateAttestationKey random_bytes keyId window =
     andthen (validateKeyId keyId) (\<lambda>k.
     case window of
       JObj ps \<Rightarrow>
         (if \<exists>o' \<in> set (map fst ps). o' \<notin> set KEY_WINDOW_KEYS then Inl ProtocolError
          else
            andthen (assertTimestampMs (jprop window ''acceptFrom'')) (\<lambda>from.
            andthen (assertTimestampMs (jprop window ''acceptUntil'')) (\<lambda>until.
            if from \<ge> until then Inl ProtocolError
            else Inr \<lparr>ke_keyId = k, ke_key = random_bytes, ke_acceptFrom = from, ke_acceptUntil = until\<rparr>)))
     | _ \<Rightarrow> Inl ProtocolError)"

section \<open>Providers\<close>

definition createStaticKeyProvider :: "jsval \<Rightarrow> attest_error + key_snapshot" where
  "createStaticKeyProvider snapshot = ownSnapshot snapshot"

definition createRotatingKeyProvider :: "jsval \<Rightarrow> attest_error + key_snapshot" where
  "createRotatingKeyProvider snapshot = ownSnapshot snapshot"

text \<open>The loop over the next entries against a \<open>Map\<close> of the previous ones.\<close>

definition previous_by_id :: "key_snapshot \<Rightarrow> (string, key_entry) jsmap" where
  "previous_by_id previous = fold (\<lambda>e m. mput (ke_keyId e) e m) (ks_keys previous) []"

definition checkRemappingPreserved :: "key_snapshot \<Rightarrow> key_snapshot \<Rightarrow> attest_error + unit" where
  "checkRemappingPreserved previous nxt =
     foldl (\<lambda>r entry. andthen r (\<lambda>_.
         case mget (previous_by_id previous) (ke_keyId entry) of
           None \<Rightarrow> Inr ()
         | Some prior \<Rightarrow>
             (if \<not> bytesEqual (ke_key prior) (ke_key entry) then Inl ProtocolError
              else if ke_acceptFrom prior \<noteq> ke_acceptFrom entry \<or> ke_acceptUntil prior \<noteq> ke_acceptUntil entry
              then Inl ProtocolError
              else Inr ())))
       (Inr ()) (ks_keys nxt)"

definition replace :: "jsval \<Rightarrow> key_snapshot \<Rightarrow> key_snapshot \<times> (attest_error + unit)" where
  "replace input current =
     (case andthen (assertValidSnapshotShape input) (\<lambda>nxt.
             andthen (checkRemappingPreserved current nxt) (\<lambda>_. ownSnapshot input)) of
        Inl e \<Rightarrow> (current, Inl e)
      | Inr owned \<Rightarrow> (owned, Inr ()))"

text \<open>What \<open>getSnapshot\<close> hands out: \<open>copySnapshot\<close> of the owned snapshot, as the caller sees it.\<close>

definition copyKeyEntry :: "key_entry \<Rightarrow> jsval" where
  "copyKeyEntry e = JObj [(''keyId'', JStr (ke_keyId e)), (''key'', JBytes (ke_key e)),
     (''acceptFrom'', jint (ke_acceptFrom e)), (''acceptUntil'', jint (ke_acceptUntil e))]"

definition copySnapshot :: "key_snapshot \<Rightarrow> jsval" where
  "copySnapshot s = JObj [(''currentKeyId'', JStr (currentKeyId s)), (''keys'', JArr (map copyKeyEntry (ks_keys s)))]"

section \<open>Snapshots a provider can hold\<close>

definition entry_ok :: "key_entry \<Rightarrow> bool" where
  "entry_ok e \<longleftrightarrow> validateKeyId (JStr (ke_keyId e)) = Inr (ke_keyId e) \<and> length (ke_key e) = KEY_BYTES_LENGTH \<and>
     timestamp_ok (ke_acceptFrom e) \<and> timestamp_ok (ke_acceptUntil e) \<and> ke_acceptFrom e < ke_acceptUntil e"

definition snapshot_ok :: "key_snapshot \<Rightarrow> bool" where
  "snapshot_ok s \<longleftrightarrow> ks_keys s \<noteq> [] \<and> length (ks_keys s) \<le> MAX_RETAINED_ATTESTATION_KEYS \<and>
     list_all entry_ok (ks_keys s) \<and> distinct (map ke_keyId (ks_keys s)) \<and>
     currentKeyId s \<in> set (map ke_keyId (ks_keys s))"

lemma bytes_equal_from_iff: "length l = length r \<Longrightarrow> bytes_equal_from l r \<longleftrightarrow> l = r"
  by (induction l r rule: bytes_equal_from.induct) auto

lemma bytesEqual_iff [simp]: "bytesEqual l r \<longleftrightarrow> l = r"
  using bytes_equal_from_iff by (auto simp: bytesEqual_def)

lemma validateKeyBytes_Inr: "validateKeyBytes v = Inr b \<longleftrightarrow> v = JBytes b \<and> length b = KEY_BYTES_LENGTH"
  by (auto simp: validateKeyBytes_def split: jsval.splits)

lemma key_row_ok: "key_row entry = Inr row \<Longrightarrow> entry_ok row"
  by (auto simp: key_row_def entry_ok_def andthen_Inr validateKeyBytes_Inr assertTimestampMs_eq_Inr
      validateKeyId_def split: if_splits)

lemma snapshot_rows_ok:
  "snapshot_rows seen es = Inr rows \<Longrightarrow>
     list_all entry_ok rows \<and> distinct (map ke_keyId rows) \<and> set (map ke_keyId rows) \<inter> seen = {} \<and>
     length rows = length es"
proof (induction seen es arbitrary: rows rule: snapshot_rows.induct)
  case (2 seen entry rest)
  from "2.prems" obtain ps row rows' where s: "entry = JObj ps" "key_row entry = Inr row" "ke_keyId row \<notin> seen"
    "snapshot_rows (insert (ke_keyId row) seen) rest = Inr rows'" "rows = row # rows'"
    by (auto simp: andthen_Inr split: jsval.splits if_splits)
  moreover have "\<not> (\<exists>k \<in> set (map fst ps). k \<notin> set KEY_ENTRY_KEYS)"
    using "2.prems" s(1) by (auto split: if_splits)
  ultimately show ?case
    using "2.IH" [OF s(1) _ s(3,4)] key_row_ok [OF s(2)] by auto
qed simp

lemma shape_cases:
  assumes "assertValidSnapshotShape v = Inr s"
  obtains es rows where "jprop v ''keys'' = JArr es" "es \<noteq> []" "length es \<le> MAX_RETAINED_ATTESTATION_KEYS"
    "snapshot_rows {} es = Inr rows" "currentKeyId s \<in> set (map ke_keyId rows)" "ks_keys s = rows"
proof (cases "jprop v ''keys''")
  case (JArr es)
  then show ?thesis
    using assms that by (auto simp: assertValidSnapshotShape_def andthen_Inr simp del: jprop.simps
        split: jsval.splits if_splits)
qed (use assms in \<open>simp_all add: assertValidSnapshotShape_def andthen_Inr split: jsval.splits if_splits
    del: jprop.simps\<close>)

lemma shape_ok: "assertValidSnapshotShape v = Inr s \<Longrightarrow> snapshot_ok s"
  by (erule shape_cases) (auto simp: snapshot_ok_def dest!: snapshot_rows_ok)

lemma mget_fold_mput:
  "distinct (map f es) \<Longrightarrow> e \<in> set es \<Longrightarrow> mget (fold (\<lambda>e m. mput (f e) e m) es m) (f e) = Some e"
  by (induction es rule: rev_induct) (auto simp: image_iff)

lemma mget_previous:
  "snapshot_ok s \<Longrightarrow> e \<in> set (ks_keys s) \<Longrightarrow> mget (previous_by_id s) (ke_keyId e) = Some e"
  by (simp add: previous_by_id_def mget_fold_mput snapshot_ok_def)

definition same_meaning :: "key_snapshot \<Rightarrow> key_snapshot \<Rightarrow> bool" where
  "same_meaning s t \<longleftrightarrow>
     (\<forall>e \<in> set (ks_keys s). \<forall>e' \<in> set (ks_keys t). ke_keyId e = ke_keyId e' \<longrightarrow> e = e')"

lemma foldl_andthen_Inr:
  "foldl (\<lambda>r x. andthen r (\<lambda>_. f x)) r xs = Inr u \<Longrightarrow> is_ok r \<and> (\<forall>x \<in> set xs. is_ok (f x))"
proof (induction xs arbitrary: r)
  case (Cons x xs)
  then have "is_ok (andthen r (\<lambda>_. f x))" "\<forall>y \<in> set xs. is_ok (f y)" by auto
  then show ?case by (cases r) auto
qed auto

lemma remapping_preserved:
  assumes "snapshot_ok s" "checkRemappingPreserved s t = Inr u"
  shows "same_meaning s t"
  unfolding same_meaning_def
proof (intro ballI impI)
  fix e e' assume e: "e \<in> set (ks_keys s)" "e' \<in> set (ks_keys t)" "ke_keyId e = ke_keyId e'"
  have "mget (previous_by_id s) (ke_keyId e') = Some e"
    using mget_previous [OF assms(1) e(1)] e(3) by simp
  with foldl_andthen_Inr [OF assms(2) [unfolded checkRemappingPreserved_def]] e(2) have "ke_key e = ke_key e' \<and>
      ke_acceptFrom e = ke_acceptFrom e' \<and> ke_acceptUntil e = ke_acceptUntil e'"
    by (fastforce split: if_splits)
  with e(3) show "e = e'" by (simp add: key_entry.equality)
qed

lemma remapping_refl: "snapshot_ok s \<Longrightarrow> same_meaning s s"
  unfolding same_meaning_def snapshot_ok_def by (simp add: distinct_map inj_on_def)

lemma replace_cases:
  assumes "snapshot_ok s"
  shows "(\<exists>e. replace input s = (s, Inl e)) \<or>
    (\<exists>t. replace input s = (t, Inr ()) \<and> assertValidSnapshotShape input = Inr t \<and> snapshot_ok t \<and> same_meaning s t)"
proof (cases "assertValidSnapshotShape input")
  case (Inr t)
  then show ?thesis
    using shape_ok [OF Inr] remapping_preserved [OF assms, of t]
    by (cases "checkRemappingPreserved s t") (auto simp: replace_def ownSnapshot_def)
qed (simp add: replace_def)

lemma replace_ok: "snapshot_ok s \<Longrightarrow> snapshot_ok (fst (replace input s))"
  using replace_cases [of s input] by auto

lemma rotation_invariant:
  "createRotatingKeyProvider v = Inr s \<Longrightarrow> snapshot_ok (state_after replace inputs s n)"
  by (rule state_after_invariant) (simp_all add: createRotatingKeyProvider_def ownSnapshot_def shape_ok replace_ok)

lemma same_meaning_step: "snapshot_ok s \<Longrightarrow> same_meaning s (fst (replace input s))"
  using replace_cases [of s input] remapping_refl by auto

section \<open>A small keyring\<close>

definition demo_key :: "string \<Rightarrow> 8 word \<Rightarrow> jsval" where
  "demo_key k b = JObj [(''keyId'', JStr k), (''key'', JBytes (replicate 32 b)), (''acceptFrom'', jint 1000),
     (''acceptUntil'', jint 900000)]"

definition demo_snapshot :: "jsval list \<Rightarrow> jsval" where
  "demo_snapshot ks = JObj [(''currentKeyId'', JStr ''k1''), (''keys'', JArr ks)]"

definition demo_entry :: "string \<Rightarrow> 8 word \<Rightarrow> key_entry" where
  "demo_entry k b = \<lparr>ke_keyId = k, ke_key = replicate 32 b, ke_acceptFrom = 1000, ke_acceptUntil = 900000\<rparr>"

definition demo_ring :: key_snapshot where
  "demo_ring = \<lparr>currentKeyId = ''k1'', ks_keys = [demo_entry ''k1'' 7]\<rparr>"

lemma demo_ring_created: "createRotatingKeyProvider (demo_snapshot [demo_key ''k1'' 7]) = Inr demo_ring"
  by code_simp

section \<open>Properties\<close>

text \<open>A rotating provider always holds a well-formed snapshot, whatever it is asked to replace it by,
  and a rejected replacement leaves the old one in place.\<close>

lemma rotation_atomic:
  assumes "createRotatingKeyProvider v = Inr s"
  shows "snapshot_ok (state_after replace inputs s n) \<and>
    (snd (replace input (state_after replace inputs s n)) \<noteq> Inr () \<longrightarrow>
     fst (replace input (state_after replace inputs s n)) = state_after replace inputs s n)"
  using rotation_invariant [OF assms] replace_cases [OF rotation_invariant [OF assms], of input inputs n] by auto

theorem rotation_atomic_witness:
  "snapshot_ok (state_after replace [JNull] demo_ring 1) \<and>
    fst (replace JNull (state_after replace [JNull] demo_ring 1)) = state_after replace [JNull] demo_ring 1"
proof -
  have "snd (replace JNull (state_after replace [JNull] demo_ring 1)) \<noteq> Inr ()" by code_simp
  then show ?thesis
    using rotation_atomic [where inputs = "[JNull]" and n = 1 and input = JNull, OF demo_ring_created] by blast
qed

text \<open>C7: A key ID keeps its meaning for as long as it is retained: over any sequence of replacements,
  accepted or rejected, an entry keeps its bytes and its acceptance window until its ID is dropped.\<close>

theorem rotation_never_remaps:
  assumes "createRotatingKeyProvider v = Inr s" "i \<le> j" "j \<le> length inputs"
    and "e \<in> set (ks_keys (state_after replace inputs s i))"
    and "\<forall>m. i \<le> m \<and> m \<le> j \<longrightarrow> ke_keyId e \<in> ke_keyId ` set (ks_keys (state_after replace inputs s m))"
  shows "e \<in> set (ks_keys (state_after replace inputs s j))"
  using assms(2,3,5)
proof (induction j rule: dec_induct)
  case base
  then show ?case using assms(4) by simp
next
  case (step j)
  have ok: "snapshot_ok (state_after replace inputs s j)"
    using rotation_invariant [OF assms(1)] .
  obtain e' where e': "e' \<in> set (ks_keys (state_after replace inputs s (Suc j)))" "ke_keyId e' = ke_keyId e"
    using step.prems(2) step.hyps by (metis imageE le_SucI order_refl)
  have "e \<in> set (ks_keys (state_after replace inputs s j))" using step by simp
  with same_meaning_step [OF ok, of "inputs ! j"] e' step.prems(1) have "e = e'"
    unfolding same_meaning_def by (metis Suc_le_lessD state_after_Suc)
  with e' show ?case by simp
qed

theorem rotation_never_remaps_witness:
  "demo_entry ''k1'' 7 \<in> set (ks_keys (state_after replace
     [demo_snapshot [demo_key ''k1'' 7, demo_key ''k2'' 9], demo_snapshot [demo_key ''k1'' 8]] demo_ring 2))"
proof (rule rotation_never_remaps [OF demo_ring_created, where i = 0])
  have "\<forall>m \<in> {0, 1, 2}. ke_keyId (demo_entry ''k1'' 7) \<in> ke_keyId ` set (ks_keys (state_after replace
      [demo_snapshot [demo_key ''k1'' 7, demo_key ''k2'' 9], demo_snapshot [demo_key ''k1'' 8]] demo_ring m))"
    by code_simp
  then show "\<forall>m. 0 \<le> m \<and> m \<le> 2 \<longrightarrow> ke_keyId (demo_entry ''k1'' 7) \<in> ke_keyId ` set (ks_keys (state_after replace
      [demo_snapshot [demo_key ''k1'' 7, demo_key ''k2'' 9], demo_snapshot [demo_key ''k1'' 8]] demo_ring m))"
    by (auto simp: numeral_2_eq_2 le_Suc_eq)
qed (simp_all add: demo_ring_def)

end
