(* ===== verification/AttestVerify.thy ===== *)
theory AttestVerify
  imports AttestTime AttestKeys
begin

text \<open>
  Request verification, verify.ts of packages/express-request-attestation: the stages from the raw
  header to the reservation the middleware asks the store for. SHA-256, HMAC-SHA-256 and the URL parser
  are code of the platform: the record \<open>platform\<close> carries them, and no law of theirs is assumed here.
\<close>

record platform =
  pf_parse_url :: "string \<Rightarrow> url option"
  pf_hmac :: "bytes \<Rightarrow> bytes \<Rightarrow> bytes"
  pf_sha256_hex :: "bytes \<Rightarrow> string"

record verify_input =
  vi_method :: jsval
  vi_originalUrl :: jsval
  vi_publicPathPrefix :: "string option"
  vi_contentTypeHeader :: jsval
  vi_contentEncodingHeader :: jsval
  vi_bodyDigestHex :: jsval
  vi_snapshot :: jsval
  vi_nowMs :: jsval
  vi_policy :: time_policy
  vi_replayNamespace :: string
  vi_publicOrigin :: string

record verified_proof =
  vp_keyId :: string
  vp_timestampMs :: int
  vp_nonceHex :: string
  vp_keyEntry :: key_entry
  vp_timing :: proof_timing
  vp_replayKey :: string
  vp_retainUntilMs :: int
  vp_method :: string
  vp_requestTarget :: string
  vp_contentType :: string
  vp_bodyHashHex :: string

text \<open>\<open>try { ... } catch { fail(code) }\<close>, and the variant that lets an \<open>AttestationError\<close> through.\<close>

definition fail :: "attest_code \<Rightarrow> attest_error + 'a" where
  "fail c = Inl (AttestationError c)"

definition catch_all :: "attest_code \<Rightarrow> attest_error + 'a \<Rightarrow> attest_error + 'a" where
  "catch_all c r = (case r of Inl _ \<Rightarrow> fail c | Inr x \<Rightarrow> Inr x)"

definition catch_other :: "attest_code \<Rightarrow> attest_error + 'a \<Rightarrow> attest_error + 'a" where
  "catch_other c r =
     (case r of Inl (AttestationError c') \<Rightarrow> Inl (AttestationError c') | Inl _ \<Rightarrow> fail c | Inr x \<Rightarrow> Inr x)"

section \<open>The snapshot\<close>

fun copy_rows :: "string set \<Rightarrow> jsval list \<Rightarrow> attest_error + key_entry list" where
  "copy_rows seen [] = Inr []"
| "copy_rows seen (entry # rest) =
     (case entry of
        JObj _ \<Rightarrow>
          andthen (key_row entry) (\<lambda>row.
            if ke_keyId row \<in> seen then Inl ProtocolError
            else andthen (copy_rows (insert (ke_keyId row) seen) rest) (\<lambda>rows. Inr (row # rows)))
      | _ \<Rightarrow> Inl ProtocolError)"

definition copyAttestationSnapshot :: "jsval \<Rightarrow> attest_error + key_snapshot" where
  "copyAttestationSnapshot snapshot = catch_all ATTESTATION_KEYS_UNAVAILABLE
     (case snapshot of
        JObj _ \<Rightarrow>
          andthen (validateKeyId (jprop snapshot ''currentKeyId'')) (\<lambda>current.
            case jprop snapshot ''keys'' of
              JArr es \<Rightarrow>
                (if length es = 0 \<or> length es > 16 then Inl ProtocolError
                 else andthen (copy_rows {} es) (\<lambda>rows.
                   if current \<notin> set (map ke_keyId rows) then Inl ProtocolError
                   else Inr \<lparr>currentKeyId = current, ks_keys = rows\<rparr>))
            | _ \<Rightarrow> Inl ProtocolError)
      | _ \<Rightarrow> Inl ProtocolError)"

section \<open>The stages\<close>

definition checkProofTiming :: "jsval \<Rightarrow> jsval \<Rightarrow> key_entry \<Rightarrow> time_policy \<Rightarrow> attest_error + proof_timing" where
  "checkProofTiming timestampMs nowMs keyEntry policy =
     andthen (catch_other ATTESTATION_INTERNAL_ERROR
         (evaluateProofTiming timestampMs nowMs (jint (ke_acceptFrom keyEntry)) (jint (ke_acceptUntil keyEntry)) policy))
       (\<lambda>timing.
          case decision timing of
            Valid \<Rightarrow> Inr timing
          | Future \<Rightarrow> fail ATTESTATION_FUTURE
          | Expired \<Rightarrow> fail ATTESTATION_EXPIRED
          | StaleKey \<Rightarrow> fail ATTESTATION_STALE_KEY)"

definition resolveRequestTarget :: "jsval \<Rightarrow> string \<Rightarrow> attest_error + string" where
  "resolveRequestTarget originalUrl publicPathPrefix = catch_other ATTESTATION_MALFORMED
     (case originalUrl of
        JStr u \<Rightarrow>
          (if length u = 0 then Inl ProtocolError
           else canonicalizeRequestTarget (JStr (publicPathPrefix @ u)))
      | _ \<Rightarrow> Inl ProtocolError)"

definition resolveContentType :: "jsval \<Rightarrow> attest_error + string" where
  "resolveContentType header = catch_other ATTESTATION_MALFORMED
     (case header of
        JUndef \<Rightarrow> Inr []
      | JNull \<Rightarrow> Inr []
      | JArr vs \<Rightarrow>
          (if length vs = 0 then Inr []
           else if length vs > 1 then Inl ProtocolError
           else normalizeContentType (vs ! 0))
      | _ \<Rightarrow> normalizeContentType header)"

definition encoding_tokens :: "string \<Rightarrow> string list" where
  "encoding_tokens value =
     map (map to_lower) (filter (\<lambda>t. t \<noteq> []) (map js_trim (split_on CHR '','' value)))"

fun collect_tokens :: "jsval list \<Rightarrow> attest_error + string list" where
  "collect_tokens [] = Inr []"
| "collect_tokens (JStr value # rest) =
     andthen (collect_tokens rest) (\<lambda>tokens. Inr (encoding_tokens value @ tokens))"
| "collect_tokens (_ # rest) = fail ATTESTATION_MALFORMED"

definition assertAllowedContentEncoding :: "jsval \<Rightarrow> attest_error + unit" where
  "assertAllowedContentEncoding header =
     (if header = JUndef \<or> header = JNull then Inr ()
      else andthen (collect_tokens (case header of JArr vs \<Rightarrow> vs | v \<Rightarrow> [v])) (\<lambda>tokens.
        if \<exists>t \<in> set tokens. t \<noteq> ''identity'' then fail ATTESTATION_UNSUPPORTED_ENCODING else Inr ()))"

definition resolveBodyDigest :: "jsval \<Rightarrow> attest_error + string" where
  "resolveBodyDigest digest = catch_other ATTESTATION_INTERNAL_ERROR (validateBodyHashHex digest)"

definition deriveReplayKey :: "platform \<Rightarrow> string \<Rightarrow> string \<Rightarrow> string \<Rightarrow> attest_error + string" where
  "deriveReplayKey pf replayNamespace publicOrigin nonceHex =
     andthen (buildReplayKeyPreimageBytes (pf_parse_url pf) replayNamespace publicOrigin nonceHex) (\<lambda>preimage.
     Inr (REPLAY_KEY_PREFIX @ pf_sha256_hex pf preimage))"

section \<open>Verification\<close>

text \<open>Steps 1 and 2: the header and the envelope, before any provider work.\<close>

definition preflightAttestationProof :: "jsval \<Rightarrow> attest_error + transaction_id" where
  "preflightAttestationProof rawHeader =
     andthen (catch_all ATTESTATION_MALFORMED (extractSingleHeaderValue rawHeader)) (\<lambda>headerValue.
     case headerValue of
       None \<Rightarrow> fail ATTESTATION_MISSING
     | Some value \<Rightarrow> catch_all ATTESTATION_MALFORMED (decodeTransactionId (JStr value)))"

definition request_mac_fields :: "verify_input \<Rightarrow> transaction_id \<Rightarrow> string \<Rightarrow> string \<Rightarrow> string \<Rightarrow> string \<Rightarrow> mac_fields" where
  "request_mac_fields inp env method target contentType body =
     \<lparr>mf_replayNamespace = vi_replayNamespace inp, mf_publicOrigin = vi_publicOrigin inp,
      mf_keyId = tid_keyId env, mf_timestampMs = tid_timestampMs env, mf_nonceHex = tid_nonceHex env,
      mf_method = method, mf_requestTarget = target, mf_contentType = contentType, mf_bodyHashHex = body\<rparr>"

definition verifyDecodedAttestationProof ::
  "platform \<Rightarrow> verify_input \<Rightarrow> transaction_id \<Rightarrow> attest_error + verified_proof" where
  "verifyDecodedAttestationProof pf inp env =
     andthen (copyAttestationSnapshot (vi_snapshot inp)) (\<lambda>snapshot.
     case find (\<lambda>e. ke_keyId e = tid_keyId env) (ks_keys snapshot) of
       None \<Rightarrow> fail ATTESTATION_STALE_KEY
     | Some keyEntry \<Rightarrow>
     andthen (catch_all ATTESTATION_INTERNAL_ERROR (assertTimestampMs (vi_nowMs inp))) (\<lambda>now.
     andthen (checkProofTiming (jint (tid_timestampMs env)) (jint now) keyEntry (vi_policy inp)) (\<lambda>timing.
     andthen (resolveRequestTarget (vi_originalUrl inp)
         (case vi_publicPathPrefix inp of None \<Rightarrow> [] | Some p \<Rightarrow> p)) (\<lambda>target.
     andthen (catch_all ATTESTATION_MALFORMED (normalizeMethod (vi_method inp))) (\<lambda>m.
     andthen (assertAllowedContentEncoding (vi_contentEncodingHeader inp)) (\<lambda>_.
     andthen (resolveContentType (vi_contentTypeHeader inp)) (\<lambda>contentType.
     andthen (resolveBodyDigest (vi_bodyDigestHex inp)) (\<lambda>body.
     andthen (catch_other ATTESTATION_INTERNAL_ERROR
         (buildMacInputBytes (pf_parse_url pf) (request_mac_fields inp env m target contentType body))) (\<lambda>macInput.
     andthen (catch_all ATTESTATION_MALFORMED (base64urlDecode (tid_mac env))) (\<lambda>presented.
     if length presented \<noteq> 32 then fail ATTESTATION_INVALID_SIGNATURE
     else
       (let expected = pf_hmac pf (ke_key keyEntry) macInput
        in if length presented \<noteq> length expected \<or> presented \<noteq> expected
           then fail ATTESTATION_INVALID_SIGNATURE
           else
             andthen (catch_other ATTESTATION_INTERNAL_ERROR
                 (deriveReplayKey pf (vi_replayNamespace inp) (vi_publicOrigin inp) (tid_nonceHex env))) (\<lambda>replayKey.
             case proof_timing.retainUntilMs timing of
               None \<Rightarrow> fail ATTESTATION_EXPIRED
             | Some retain \<Rightarrow>
                 (if \<not> is_safe retain then fail ATTESTATION_EXPIRED
                  else
                    Inr \<lparr>vp_keyId = tid_keyId env, vp_timestampMs = tid_timestampMs env, vp_nonceHex = tid_nonceHex env,
                         vp_keyEntry = keyEntry, vp_timing = timing, vp_replayKey = replayKey,
                         vp_retainUntilMs = retain, vp_method = m, vp_requestTarget = target,
                         vp_contentType = contentType, vp_bodyHashHex = body\<rparr>)))))))))))))"

definition verifyAttestationProof :: "platform \<Rightarrow> jsval \<Rightarrow> verify_input \<Rightarrow> attest_error + verified_proof" where
  "verifyAttestationProof pf rawHeader inp =
     andthen (preflightAttestationProof rawHeader) (verifyDecodedAttestationProof pf inp)"

section \<open>Lemmas\<close>

lemma catch_all_Inr [simp]: "catch_all c r = Inr x \<longleftrightarrow> r = Inr x"
  by (cases r) (simp_all add: catch_all_def fail_def)

lemma catch_other_Inr [simp]: "catch_other c r = Inr x \<longleftrightarrow> r = Inr x"
  by (auto simp: catch_other_def fail_def split: sum.splits attest_error.splits)

lemma fail_Inr [simp]: "fail c \<noteq> Inr x"
  by (simp add: fail_def)

text \<open>The successful run of the stages.\<close>

lemma verify_decoded_Inr:
  "verifyDecodedAttestationProof pf inp env = Inr p \<longleftrightarrow>
   (\<exists>snapshot entry now timing target m ct body macInput presented replay retain.
      copyAttestationSnapshot (vi_snapshot inp) = Inr snapshot \<and>
      find (\<lambda>e. ke_keyId e = tid_keyId env) (ks_keys snapshot) = Some entry \<and>
      assertTimestampMs (vi_nowMs inp) = Inr now \<and>
      checkProofTiming (jint (tid_timestampMs env)) (jint now) entry (vi_policy inp) = Inr timing \<and>
      resolveRequestTarget (vi_originalUrl inp) (case vi_publicPathPrefix inp of None \<Rightarrow> [] | Some p \<Rightarrow> p) = Inr target \<and>
      normalizeMethod (vi_method inp) = Inr m \<and>
      assertAllowedContentEncoding (vi_contentEncodingHeader inp) = Inr () \<and>
      resolveContentType (vi_contentTypeHeader inp) = Inr ct \<and>
      resolveBodyDigest (vi_bodyDigestHex inp) = Inr body \<and>
      buildMacInputBytes (pf_parse_url pf) (request_mac_fields inp env m target ct body) = Inr macInput \<and>
      base64urlDecode (tid_mac env) = Inr presented \<and> length presented = 32 \<and>
      presented = pf_hmac pf (ke_key entry) macInput \<and>
      deriveReplayKey pf (vi_replayNamespace inp) (vi_publicOrigin inp) (tid_nonceHex env) = Inr replay \<and>
      proof_timing.retainUntilMs timing = Some retain \<and> is_safe retain \<and>
      p = \<lparr>vp_keyId = tid_keyId env, vp_timestampMs = tid_timestampMs env, vp_nonceHex = tid_nonceHex env,
         vp_keyEntry = entry, vp_timing = timing, vp_replayKey = replay, vp_retainUntilMs = retain,
         vp_method = m, vp_requestTarget = target, vp_contentType = ct, vp_bodyHashHex = body\<rparr>)"
  (is "?l = ?r")
  unfolding verifyDecodedAttestationProof_def fail_def Let_def
  apply (simp only: chain_Inr catch_all_Inr catch_other_Inr sum.inject de_Morgan_disj not_not)
  apply (rule iffI; elim exE conjE; hypsubst; intro exI conjI; (assumption | rule refl | simp only: ))
  done

lemma preflight_Inr:
  "preflightAttestationProof h = Inr env \<longleftrightarrow>
   (\<exists>value. extractSingleHeaderValue h = Inr (Some value) \<and> decodeTransactionId (JStr value) = Inr env)"
  by (auto simp: preflightAttestationProof_def andthen_Inr split: option.splits)

lemma verify_Inr:
  "verifyAttestationProof pf h inp = Inr p \<longleftrightarrow>
   (\<exists>env. preflightAttestationProof h = Inr env \<and> verifyDecodedAttestationProof pf inp env = Inr p)"
  by (simp add: verifyAttestationProof_def andthen_Inr)

lemma timing_case_Inr:
  "(case d of Valid \<Rightarrow> Inr x | Future \<Rightarrow> fail a | Expired \<Rightarrow> fail b | StaleKey \<Rightarrow> fail c) = Inr y \<longleftrightarrow>
     d = Valid \<and> x = y"
  by (cases d) auto

lemma checkProofTiming_Inr:
  "checkProofTiming ts now e p = Inr t \<longleftrightarrow>
     evaluateProofTiming ts now (jint (ke_acceptFrom e)) (jint (ke_acceptUntil e)) p = Inr t \<and> decision t = Valid"
  by (auto simp: checkProofTiming_def andthen_Inr timing_case_Inr)

section \<open>Errors\<close>

text \<open>The codec throws protocol errors only, the stages only coded errors of a given set.\<close>

definition protocol_only :: "attest_error + 'a \<Rightarrow> bool" where
  "protocol_only r \<longleftrightarrow> (case r of Inl e \<Rightarrow> e = ProtocolError | Inr _ \<Rightarrow> True)"

definition coded :: "attest_code set \<Rightarrow> attest_error + 'a \<Rightarrow> bool" where
  "coded C r \<longleftrightarrow> (case r of Inl e \<Rightarrow> e \<in> AttestationError ` C | Inr _ \<Rightarrow> True)"

named_theorems error_intros \<open>which errors a chain of checks throws\<close>

lemma protocol_only_simps [simp]: "protocol_only (Inr x)" "protocol_only (Inl e) \<longleftrightarrow> e = ProtocolError"
  by (simp_all add: protocol_only_def)

lemma coded_simps [simp]: "coded C (Inr x)" "coded C (Inl e) \<longleftrightarrow> e \<in> AttestationError ` C" "coded C (fail c) \<longleftrightarrow> c \<in> C"
  by (auto simp: coded_def fail_def)

lemma protocol_only_andthen [error_intros]:
  "protocol_only r \<Longrightarrow> (\<And>x. r = Inr x \<Longrightarrow> protocol_only (f x)) \<Longrightarrow> protocol_only (andthen r f)"
  by (cases r) simp_all

lemma coded_andthen [error_intros]:
  "coded C r \<Longrightarrow> (\<And>x. r = Inr x \<Longrightarrow> coded C (f x)) \<Longrightarrow> coded C (andthen r f)"
  by (cases r) simp_all

lemma coded_catch_all [error_intros]: "c \<in> C \<Longrightarrow> coded C (catch_all c r)"
  by (cases r) (simp_all add: catch_all_def)

lemma coded_catch_other [error_intros]: "protocol_only r \<Longrightarrow> c \<in> C \<Longrightarrow> coded C (catch_other c r)"
  by (cases r) (simp_all add: catch_other_def)

lemma protocol_only_validators [error_intros]:
  "protocol_only (validateKeyId v)" "protocol_only (validateReplayNamespace v)" "protocol_only (validateNonceHex v)"
  "protocol_only (validateBodyHashHex v)" "protocol_only (assertTimestampMs v)" "protocol_only (normalizeMethod v)"
  "protocol_only (normalizeContentType v)" "protocol_only (validatePublicOrigin u v)"
  "protocol_only (canonicalizeRequestTarget v)"
  by (simp_all add: text_validators validate_text_def assertTimestampMs_def normalizeMethod_def
      normalizeContentType_def validatePublicOrigin_def canonicalizeRequestTarget_def Let_def
      split: jsval.split option.split)

lemma protocol_only_frames [error_intros]:
  "protocol_only (buildMacInputBytes u f)" "protocol_only (deriveReplayKey pf ns origin nonce)"
  "protocol_only (evaluateProofTiming ts now from until p)"
  unfolding buildMacInputBytes_def deriveReplayKey_def buildReplayKeyPreimageBytes_def evaluateProofTiming_def
  by (auto intro!: error_intros simp: Let_def)

lemma coded_chain:
  "coded C r \<Longrightarrow> (\<And>x. coded C (f x)) \<Longrightarrow> coded C (andthen r f)"
  "coded C a \<Longrightarrow> (\<And>x. coded C (g x)) \<Longrightarrow> coded C (case y of None \<Rightarrow> a | Some x \<Rightarrow> g x)"
  "coded C a \<Longrightarrow> coded C b \<Longrightarrow> coded C (if q then a else b)"
  by (cases r; simp; fail) (simp_all split: option.split)

definition verify_codes :: "attest_code set" where
  "verify_codes = {ATTESTATION_MISSING, ATTESTATION_MALFORMED, ATTESTATION_STALE_KEY, ATTESTATION_EXPIRED,
     ATTESTATION_FUTURE, ATTESTATION_INVALID_SIGNATURE, ATTESTATION_UNSUPPORTED_ENCODING,
     ATTESTATION_INTERNAL_ERROR, ATTESTATION_KEYS_UNAVAILABLE}"

lemma coded_stages [error_intros]:
  "coded verify_codes (preflightAttestationProof h)" "coded verify_codes (copyAttestationSnapshot s)"
  "coded verify_codes (checkProofTiming a b e p)" "coded verify_codes (resolveRequestTarget u x)"
  "coded verify_codes (resolveContentType h)" "coded verify_codes (resolveBodyDigest d)"
  "coded verify_codes (assertAllowedContentEncoding h)"
proof -
  have m: "c \<in> verify_codes \<longleftrightarrow> c \<in> {ATTESTATION_MISSING, ATTESTATION_MALFORMED, ATTESTATION_STALE_KEY, ATTESTATION_EXPIRED,
     ATTESTATION_FUTURE, ATTESTATION_INVALID_SIGNATURE, ATTESTATION_UNSUPPORTED_ENCODING,
     ATTESTATION_INTERNAL_ERROR, ATTESTATION_KEYS_UNAVAILABLE}" for c
    by (simp add: verify_codes_def)
  show "coded verify_codes (preflightAttestationProof h)"
    unfolding preflightAttestationProof_def by (auto intro!: error_intros simp: m split: option.split)
  show "coded verify_codes (copyAttestationSnapshot s)"
    unfolding copyAttestationSnapshot_def by (auto intro!: error_intros simp: m)
  show "coded verify_codes (checkProofTiming a b e p)"
    unfolding checkProofTiming_def by (auto intro!: error_intros simp: m split: timing_decision.split)
  show "coded verify_codes (resolveRequestTarget u x)"
    unfolding resolveRequestTarget_def by (auto intro!: error_intros simp: m split: jsval.split)
  show "coded verify_codes (resolveContentType h)"
    unfolding resolveContentType_def by (auto intro!: error_intros simp: m split: jsval.split)
  show "coded verify_codes (resolveBodyDigest d)"
    unfolding resolveBodyDigest_def by (auto intro!: error_intros simp: m)
  have "coded verify_codes (collect_tokens vs)" for vs
    by (induction vs rule: collect_tokens.induct) (auto intro!: error_intros simp: m)
  then show "coded verify_codes (assertAllowedContentEncoding h)"
    unfolding assertAllowedContentEncoding_def by (auto intro!: error_intros simp: m)
qed

section \<open>Honest requests\<close>

text \<open>A client that signs the request the server sees, with a key the server holds and inside the window.\<close>

definition honest_request ::
  "platform \<Rightarrow> verify_input \<Rightarrow> transaction_id \<Rightarrow> key_snapshot \<Rightarrow> key_entry \<Rightarrow> int \<Rightarrow> proof_timing \<Rightarrow>
     string \<Rightarrow> string \<Rightarrow> string \<Rightarrow> string \<Rightarrow> bytes \<Rightarrow> bool" where
  "honest_request pf inp env snapshot entry now timing target m ct body macInput \<longleftrightarrow>
     copyAttestationSnapshot (vi_snapshot inp) = Inr snapshot \<and>
     find (\<lambda>e. ke_keyId e = tid_keyId env) (ks_keys snapshot) = Some entry \<and>
     vi_nowMs inp = jint now \<and>
     evaluateProofTiming (jint (tid_timestampMs env)) (jint now) (jint (ke_acceptFrom entry))
       (jint (ke_acceptUntil entry)) (vi_policy inp) = Inr timing \<and>
     decision timing = Valid \<and> proof_timing.retainUntilMs timing \<noteq> None \<and>
     resolveRequestTarget (vi_originalUrl inp) (case vi_publicPathPrefix inp of None \<Rightarrow> [] | Some p \<Rightarrow> p) = Inr target \<and>
     normalizeMethod (vi_method inp) = Inr m \<and>
     assertAllowedContentEncoding (vi_contentEncodingHeader inp) = Inr () \<and>
     resolveContentType (vi_contentTypeHeader inp) = Inr ct \<and>
     resolveBodyDigest (vi_bodyDigestHex inp) = Inr body \<and>
     buildMacInputBytes (pf_parse_url pf) (request_mac_fields inp env m target ct body) = Inr macInput \<and>
     tid_mac env = base64urlEncode (pf_hmac pf (ke_key entry) macInput) \<and>
     length (pf_hmac pf (ke_key entry) macInput) = 32"

lemma header_of_encoding:
  assumes "encodeTransactionId env = Inr s"
  shows "extractSingleHeaderValue (JStr s) = Inr (Some s)"
proof -
  have s: "s = base64urlEncode (canonicalJsonBytes (envelope env))" "length s \<le> MAX_ENCODED_TRANSACTION_ID_BYTES"
    using assms by (auto simp: encode_iff)
  have "canonicalJsonBytes (envelope env) \<noteq> []"
    by (simp add: canonicalJsonBytes_def utf8Encode_def json_array_def utf8_char_def Let_def)
  then have "s \<noteq> []" using s(1) by simp
  moreover have "CHR '','' \<notin> set s"
  proof
    assume "CHR '','' \<in> set s"
    then have "is_b64url CHR '',''" using base64url_chars s(1) by (metis list_all_iff)
    moreover have "\<not> is_b64url CHR '',''" by code_simp
    ultimately show False by simp
  qed
  ultimately show ?thesis
    using s(2) by (simp add: extractSingleHeaderValue_def assertEncodedTransactionIdBound_def guard_def)
qed

lemma retain_safe:
  "evaluateProofTiming ts now from until p = Inr t \<Longrightarrow> proof_timing.retainUntilMs t = Some r \<Longrightarrow> is_safe r"
  by (auto simp: timing_simps split: if_splits option.splits)

lemma replay_key_derived:
  "buildMacInputBytes u f = Inr b \<Longrightarrow> mf_replayNamespace f = ns \<Longrightarrow> mf_publicOrigin f = origin \<Longrightarrow>
   mf_nonceHex f = nonce \<Longrightarrow> pf_parse_url pf = u \<Longrightarrow> \<exists>k. deriveReplayKey pf ns origin nonce = Inr k"
  by (auto simp: buildMacInputBytes_def deriveReplayKey_def buildReplayKeyPreimageBytes_def andthen_Inr)

lemma honest_verifies:
  assumes s: "encodeTransactionId env = Inr s"
    and h: "honest_request pf inp env snapshot entry now timing target m ct body macInput"
  obtains p where "verifyAttestationProof pf (JStr s) inp = Inr p" "vp_keyEntry p = entry" "vp_timing p = timing"
    "vp_nonceHex p = tid_nonceHex env" "vp_requestTarget p = target" "vp_bodyHashHex p = body"
proof -
  note h = h [unfolded honest_request_def]
  have "decodeTransactionId (JStr s) = Inr env" using s unfolding encode_iff decode_iff .
  then have pre: "preflightAttestationProof (JStr s) = Inr env"
    using header_of_encoding [OF s] by (auto simp: preflight_Inr)
  obtain retain where r: "proof_timing.retainUntilMs timing = Some retain" using h by auto
  obtain k where k: "deriveReplayKey pf (vi_replayNamespace inp) (vi_publicOrigin inp) (tid_nonceHex env) = Inr k"
    using replay_key_derived h by (fastforce simp: request_mac_fields_def)
  have now: "assertTimestampMs (vi_nowMs inp) = Inr now"
    using h by (auto simp: timing_simps split: if_splits)
  have t: "checkProofTiming (jint (tid_timestampMs env)) (jint now) entry (vi_policy inp) = Inr timing"
    using h by (simp add: checkProofTiming_Inr)
  have safe: "is_safe retain" using h retain_safe r by blast
  have mac: "base64urlDecode (tid_mac env) = Inr (pf_hmac pf (ke_key entry) macInput)"
    using h base64url_roundtrip [of "pf_hmac pf (ke_key entry) macInput"] by fastforce
  define p where "p = \<lparr>vp_keyId = tid_keyId env, vp_timestampMs = tid_timestampMs env, vp_nonceHex = tid_nonceHex env,
     vp_keyEntry = entry, vp_timing = timing, vp_replayKey = k, vp_retainUntilMs = retain,
     vp_method = m, vp_requestTarget = target, vp_contentType = ct, vp_bodyHashHex = body\<rparr>"
  have "verifyDecodedAttestationProof pf inp env = Inr p"
    unfolding verify_decoded_Inr p_def using h k now t safe mac r by blast
  then have "verifyAttestationProof pf (JStr s) inp = Inr p"
    unfolding verify_Inr using pre by blast
  then show ?thesis by (rule that) (simp_all add: p_def)
qed

section \<open>A small request\<close>

definition demo_platform :: platform where
  "demo_platform = \<lparr>
     pf_parse_url = (\<lambda>s. Some \<lparr>protocol = ''https:'', username = [], password = [], host = ''a.io'', hostname = ''a.io''\<rparr>),
     pf_hmac = (\<lambda>k b. map (\<lambda>w. w + of_nat (length b)) k), pf_sha256_hex = (\<lambda>b. replicate 64 CHR ''0'')\<rparr>"

definition demo_policy :: time_policy where
  "demo_policy = \<lparr>maxAgeMs = 30000, clockSkewMs = 5000, clusterClockGuardMs = 5000\<rparr>"

definition demo_request :: "int \<Rightarrow> verify_input" where
  "demo_request now = \<lparr>vi_method = JStr ''get'', vi_originalUrl = JStr ''/x?'', vi_publicPathPrefix = None,
     vi_contentTypeHeader = JUndef, vi_contentEncodingHeader = JStr ''identity'',
     vi_bodyDigestHex = JStr (replicate 64 CHR ''b''), vi_snapshot = demo_snapshot [demo_key ''k1'' 7],
     vi_nowMs = jint now, vi_policy = demo_policy, vi_replayNamespace = ''ns'', vi_publicOrigin = ''https://a.io''\<rparr>"

definition demo_frame :: bytes where
  "demo_frame = canonicalJsonBytes [JText MAC_INPUT_LABEL, JInt PROTOCOL_VERSION, JText ''ns'', JText ''https://a.io'',
     JText ''k1'', JInt 50000, JText (replicate 32 CHR ''a''), JText ''GET'', JText ''/x'', JText [],
     JText (replicate 64 CHR ''b'')]"

definition demo_envelope :: transaction_id where
  "demo_envelope = \<lparr>tid_keyId = ''k1'', tid_timestampMs = 50000, tid_nonceHex = replicate 32 CHR ''a'',
     tid_mac = base64urlEncode (pf_hmac demo_platform (replicate 32 7) demo_frame)\<rparr>"

definition demo_header :: string where
  "demo_header = base64urlEncode (canonicalJsonBytes (envelope demo_envelope))"

definition demo_timing :: "proof_timing" where
  "demo_timing = \<lparr>decision = Valid, timeDeadlineMs = Some 85000, proofDeadlineMs = Some 85000, retainUntilMs = Some 90000\<rparr>"

lemma demo_mac_length: "length (pf_hmac demo_platform (replicate 32 7) b) = 32"
  by (simp add: demo_platform_def)

lemma demo_mac_ok: "mac_ok (base64urlEncode (pf_hmac demo_platform (replicate 32 7) b))"
proof -
  have "pf_hmac demo_platform (replicate 32 7) b \<noteq> []"
    using demo_mac_length [of b] by (metis list.size(3) zero_neq_numeral)
  from base64url_roundtrip [OF this] show ?thesis
    by (simp add: mac_ok_def validateMac_def length_base64url demo_mac_length MAC_BYTES_LENGTH_def)
qed

lemma demo_envelope_ok: "envelope_ok demo_envelope"
proof -
  have "validateKeyId (JStr ''k1'') = Inr ''k1''" "timestamp_ok 50000"
    "validateNonceHex (JStr (replicate 32 CHR ''a'')) = Inr (replicate 32 CHR ''a'')"
    by code_simp+
  then show ?thesis by (simp add: envelope_ok_def demo_envelope_def demo_mac_ok)
qed

lemma demo_encoded: "encodeTransactionId demo_envelope = Inr demo_header"
  using demo_envelope_ok envelope_fits [OF demo_envelope_ok] by (simp add: encode_iff demo_header_def)

lemma demo_fields: "buildMacInputBytes (pf_parse_url demo_platform)
    (request_mac_fields ((demo_request now)\<lparr>vi_snapshot := sn, vi_publicPathPrefix := pp\<rparr>) demo_envelope ''GET'' ''/x'' [] (replicate 64 CHR ''b'')) = Inr demo_frame"
proof -
  have "validateKeyId (JStr ''k1'') = Inr ''k1''" "validateReplayNamespace (JStr ''ns'') = Inr ''ns''"
    "validateNonceHex (JStr (replicate 32 CHR ''a'')) = Inr (replicate 32 CHR ''a'')"
    "validatePublicOrigin (pf_parse_url demo_platform) (JStr ''https://a.io'') = Inr ''https://a.io''"
    "normalizeMethod (JStr ''GET'') = Inr ''GET''" "canonicalizeRequestTarget (JStr ''/x'') = Inr ''/x''"
    "normalizeContentType (JStr []) = Inr []" "assertTimestampMs (jint 50000) = Inr 50000"
    "validateBodyHashHex (JStr (replicate 64 CHR ''b'')) = Inr (replicate 64 CHR ''b'')"
    by code_simp+
  then show ?thesis
    by (simp add: buildMacInputBytes_def request_mac_fields_def demo_request_def demo_envelope_def demo_frame_def
        del: of_int_numeral assertTimestampMs_jint)
qed

text \<open>The same for any rendering of the snapshot and any empty prefix.\<close>

lemma demo_honest_via:
  assumes "copyAttestationSnapshot sn = Inr demo_ring" "(case pp of None \<Rightarrow> [] | Some p \<Rightarrow> p) = []"
  shows "honest_request demo_platform ((demo_request 60000)\<lparr>vi_snapshot := sn, vi_publicPathPrefix := pp\<rparr>) demo_envelope demo_ring (demo_entry ''k1'' 7) 60000 demo_timing
     ''/x'' ''GET'' [] (replicate 64 CHR ''b'') demo_frame"
proof -
  have s: "find (\<lambda>e. ke_keyId e = ''k1'') (ks_keys demo_ring) = Some (demo_entry ''k1'' 7)"
    by code_simp
  have t: "evaluateProofTiming (jint 50000) (jint 60000) (jint 1000) (jint 900000) demo_policy = Inr demo_timing"
    by code_simp
  have r: "resolveRequestTarget (JStr ''/x?'') [] = Inr ''/x''" "normalizeMethod (JStr ''get'') = Inr ''GET''"
    "assertAllowedContentEncoding (JStr ''identity'') = Inr ()" "resolveContentType JUndef = Inr []"
    "resolveBodyDigest (JStr (replicate 64 CHR ''b'')) = Inr (replicate 64 CHR ''b'')"
    by code_simp+
  have e: "tid_keyId demo_envelope = ''k1''" "tid_timestampMs demo_envelope = 50000"
    "tid_mac demo_envelope = base64urlEncode (pf_hmac demo_platform (ke_key (demo_entry ''k1'' 7)) demo_frame)"
    "ke_key (demo_entry ''k1'' 7) = replicate 32 7" "ke_acceptFrom (demo_entry ''k1'' 7) = 1000"
    "ke_acceptUntil (demo_entry ''k1'' 7) = 900000" "decision demo_timing = Valid"
    "proof_timing.retainUntilMs demo_timing = Some 90000"
    by (simp_all add: demo_envelope_def demo_entry_def demo_timing_def)
  let ?inp = "(demo_request 60000)\<lparr>vi_snapshot := sn, vi_publicPathPrefix := pp\<rparr>"
  have q: "vi_snapshot ?inp = sn" "vi_nowMs ?inp = jint 60000" "vi_policy ?inp = demo_policy"
    "vi_originalUrl ?inp = JStr ''/x?''" "vi_publicPathPrefix ?inp = pp"
    "vi_method ?inp = JStr ''get''" "vi_contentEncodingHeader ?inp = JStr ''identity''"
    "vi_contentTypeHeader ?inp = JUndef" "vi_bodyDigestHex ?inp = JStr (replicate 64 CHR ''b'')"
    by (simp_all add: demo_request_def)
  show ?thesis
    unfolding honest_request_def q e assms(2)
    using assms(1) s t r demo_fields [where now = 60000 and sn = sn and pp = pp] demo_mac_length by blast
qed

lemma demo_honest:
  "honest_request demo_platform (demo_request 60000) demo_envelope demo_ring (demo_entry ''k1'' 7) 60000 demo_timing
     ''/x'' ''GET'' [] (replicate 64 CHR ''b'') demo_frame"
proof -
  have "copyAttestationSnapshot (demo_snapshot [demo_key ''k1'' 7]) = Inr demo_ring" by code_simp
  from demo_honest_via [OF this, of None] show ?thesis by (simp add: demo_request_def)
qed

section \<open>Served snapshots\<close>

lemma key_row_served: "entry_ok e \<Longrightarrow> key_row (copyKeyEntry e) = Inr e"
  by (simp add: key_row_def copyKeyEntry_def entry_ok_def timestamp_ok_def validateKeyBytes_def)

lemma copy_rows_served:
  "list_all entry_ok es \<Longrightarrow> distinct (map ke_keyId es) \<Longrightarrow> set (map ke_keyId es) \<inter> seen = {} \<Longrightarrow>
     copy_rows seen (map copyKeyEntry es) = Inr es"
proof (induction es arbitrary: seen)
  case (Cons e es)
  obtain ps where "copyKeyEntry e = JObj ps" by (simp add: copyKeyEntry_def)
  with Cons key_row_served [of e] show ?case by auto
qed simp

lemma copy_served: "snapshot_ok s \<Longrightarrow> copyAttestationSnapshot (copySnapshot s) = Inr s"
proof -
  assume s: "snapshot_ok s"
  then obtain e where e: "e \<in> set (ks_keys s)" "ke_keyId e = currentKeyId s" "entry_ok e"
    by (auto simp: snapshot_ok_def list_all_iff)
  then have "validateKeyId (JStr (currentKeyId s)) = Inr (currentKeyId s)" by (simp add: entry_ok_def)
  with s copy_rows_served [of "ks_keys s" "{}"] show ?thesis
    by (simp add: copyAttestationSnapshot_def copySnapshot_def snapshot_ok_def MAX_RETAINED_ATTESTATION_KEYS_def)
qed

section \<open>Properties\<close>

text \<open>C2: What is accepted was signed. An accepted proof's header carries the HMAC, under a key of the
  provider's snapshot, of the request the server itself sees: its namespace, origin, method, target,
  content type and body digest, with the proof's key ID, timestamp and nonce.\<close>

theorem accepted_request_is_signed:
  assumes "verifyAttestationProof pf header inp = Inr p"
  shows "\<exists>snapshot env macInput.
    copyAttestationSnapshot (vi_snapshot inp) = Inr snapshot \<and> vp_keyEntry p \<in> set (ks_keys snapshot) \<and>
    preflightAttestationProof header = Inr env \<and>
    tid_keyId env = ke_keyId (vp_keyEntry p) \<and> tid_timestampMs env = vp_timestampMs p \<and> tid_nonceHex env = vp_nonceHex p \<and>
    resolveRequestTarget (vi_originalUrl inp) (case vi_publicPathPrefix inp of None \<Rightarrow> [] | Some x \<Rightarrow> x) = Inr (vp_requestTarget p) \<and>
    normalizeMethod (vi_method inp) = Inr (vp_method p) \<and>
    resolveContentType (vi_contentTypeHeader inp) = Inr (vp_contentType p) \<and>
    vi_bodyDigestHex inp = JStr (vp_bodyHashHex p) \<and>
    buildMacInputBytes (pf_parse_url pf) (request_mac_fields inp env (vp_method p) (vp_requestTarget p)
      (vp_contentType p) (vp_bodyHashHex p)) = Inr macInput \<and>
    base64urlDecode (tid_mac env) = Inr (pf_hmac pf (ke_key (vp_keyEntry p)) macInput)"
proof -
  obtain env where env: "preflightAttestationProof header = Inr env" "verifyDecodedAttestationProof pf inp env = Inr p"
    using assms unfolding verify_Inr by blast
  obtain snapshot entry target m ct body macInput replay retain timing where v:
      "copyAttestationSnapshot (vi_snapshot inp) = Inr snapshot"
      "find (\<lambda>e. ke_keyId e = tid_keyId env) (ks_keys snapshot) = Some entry"
      "resolveRequestTarget (vi_originalUrl inp) (case vi_publicPathPrefix inp of None \<Rightarrow> [] | Some x \<Rightarrow> x) = Inr target"
      "normalizeMethod (vi_method inp) = Inr m" "resolveContentType (vi_contentTypeHeader inp) = Inr ct"
      "resolveBodyDigest (vi_bodyDigestHex inp) = Inr body"
      "buildMacInputBytes (pf_parse_url pf) (request_mac_fields inp env m target ct body) = Inr macInput"
      "base64urlDecode (tid_mac env) = Inr (pf_hmac pf (ke_key entry) macInput)"
      "p = \<lparr>vp_keyId = tid_keyId env, vp_timestampMs = tid_timestampMs env, vp_nonceHex = tid_nonceHex env,
         vp_keyEntry = entry, vp_timing = timing, vp_replayKey = replay, vp_retainUntilMs = retain,
         vp_method = m, vp_requestTarget = target, vp_contentType = ct, vp_bodyHashHex = body\<rparr>"
    using env(2) unfolding verify_decoded_Inr by blast
  have "entry \<in> set (ks_keys snapshot)" "ke_keyId entry = tid_keyId env"
    using v(2) by (auto simp: find_Some_iff)
  moreover have "vi_bodyDigestHex inp = JStr body"
    using v(6) by (simp add: resolveBodyDigest_def validateBodyHashHex_def)
  ultimately show ?thesis using env(1) v by auto
qed

text \<open>C3: Completeness: a client that signs the request as the server sees it, with a key the server
  holds and inside the time window, passes, whatever the keyed hash and the digest function are.\<close>

theorem honest_request_verifies:
  assumes "encodeTransactionId env = Inr s"
    and "honest_request pf inp env snapshot entry now timing target m ct body macInput"
  shows "\<exists>p. verifyAttestationProof pf (JStr s) inp = Inr p \<and> vp_keyEntry p = entry \<and>
    vp_nonceHex p = tid_nonceHex env \<and> vp_requestTarget p = target \<and> vp_bodyHashHex p = body"
  using honest_verifies [OF assms] by metis

theorem honest_request_verifies_witness:
  "\<exists>p. verifyAttestationProof demo_platform (JStr demo_header) (demo_request 60000) = Inr p \<and>
     vp_keyEntry p = demo_entry ''k1'' 7 \<and> vp_nonceHex p = tid_nonceHex demo_envelope \<and>
     vp_requestTarget p = ''/x'' \<and> vp_bodyHashHex p = replicate 64 CHR ''b''"
  by (rule honest_request_verifies [OF demo_encoded demo_honest])

theorem accepted_request_is_signed_witness:
  "\<exists>p snapshot. verifyAttestationProof demo_platform (JStr demo_header) (demo_request 60000) = Inr p \<and>
     copyAttestationSnapshot (vi_snapshot (demo_request 60000)) = Inr snapshot \<and> vp_keyEntry p \<in> set (ks_keys snapshot)"
proof -
  obtain p where "verifyAttestationProof demo_platform (JStr demo_header) (demo_request 60000) = Inr p"
    using honest_verifies [OF demo_encoded demo_honest] by blast
  then show ?thesis using accepted_request_is_signed by blast
qed

text \<open>C8: Verification fails only with coded errors of a fixed set: no protocol error of the codec, and
  no code of a later stage, reaches the caller.\<close>

theorem verification_errors_coded: "coded verify_codes (verifyAttestationProof pf header inp)"
proof -
  have "c \<in> verify_codes" if "c \<in> {ATTESTATION_MALFORMED, ATTESTATION_STALE_KEY, ATTESTATION_EXPIRED,
      ATTESTATION_INVALID_SIGNATURE, ATTESTATION_INTERNAL_ERROR}" for c
    using that by (auto simp: verify_codes_def)
  then show ?thesis
    unfolding verifyAttestationProof_def verifyDecodedAttestationProof_def Let_def
    by (intro coded_chain coded_stages coded_catch_all coded_catch_other protocol_only_frames; simp)
qed

text \<open>The verifier reads every snapshot a rotating provider serves, whatever replacements it was
  asked for, as the snapshot the provider holds: serving never turns into an outage.\<close>

lemma served_snapshot_accepted:
  assumes "createRotatingKeyProvider v = Inr s"
  shows "copyAttestationSnapshot (copySnapshot (state_after replace inputs s n)) = Inr (state_after replace inputs s n)"
  by (rule copy_served) (rule rotation_invariant [OF assms])

theorem served_snapshot_accepted_witness:
  "copyAttestationSnapshot (copySnapshot (state_after replace [demo_snapshot [demo_key ''k1'' 8]] demo_ring 1)) =
     Inr (state_after replace [demo_snapshot [demo_key ''k1'' 8]] demo_ring 1)"
  by (rule served_snapshot_accepted [OF demo_ring_created])

end
