(* ===== verification/ExpiryHeap.thy ===== *)
theory ExpiryHeap
  imports Prelude
begin

text \<open>
  The indexed expiry heap that three stores of the repository carry, each with its own copy of the
  code: \<open>MemoryAttestationStore\<close> (stores/memory.ts), \<open>DpopReplayReservations\<close> (dpop-replay.ts) and
  \<open>LogoutNavigationTickets\<close> (logout-tickets.ts). A \<open>Map\<close> from keys to rows and an array of the
  same rows, ordered as a binary min-heap on the deadline, share mutable row objects: each row holds
  its own position in the array, and a row moved in the array is changed in the map as well.

  The sharing is explicit here: \<open>cells\<close> maps an address to a row, and the map and the array hold
  addresses. A read of \<open>undefined\<close> (an array position out of range) is \<open>None\<close>, the \<open>TypeError\<close> the
  code would throw. The lemmas show that under the representation invariant \<open>heap_inv\<close> no operation
  fails, each keeps the invariant, and each does to the abstract map \<open>contents\<close> what its name says.
  The functions take the row's key and deadline selectors, which differ between the three copies.
\<close>

named_theorems heap_simps \<open>effects of the heap operations\<close>

section \<open>State\<close>

text \<open>A row: what never changes after construction, and the mutable position.\<close>

record 'r row =
  content :: 'r
  index :: nat

record 'r hstore =
  cells :: "nat \<Rightarrow> 'r row option"
  nextAddr :: nat
  reservations :: "(string, nat) jsmap"
  expiryHeap :: "nat list"

definition empty_hstore :: "'r hstore" where
  "empty_hstore = \<lparr>cells = (\<lambda>_. None), nextAddr = 0, reservations = [], expiryHeap = []\<rparr>"

definition row_at :: "'r hstore \<Rightarrow> nat \<Rightarrow> 'r row option" where
  "row_at s i = (if i < length (expiryHeap s) then cells s (expiryHeap s ! i) else None)"

definition set_index :: "nat \<Rightarrow> nat \<Rightarrow> 'r hstore \<Rightarrow> 'r hstore" where
  "set_index a i s =
     (case cells s a of None \<Rightarrow> s | Some r \<Rightarrow> s\<lparr>cells := (cells s)(a \<mapsto> r\<lparr>index := i\<rparr>)\<rparr>)"

section \<open>Operations\<close>

definition swap_rows :: "nat \<Rightarrow> nat \<Rightarrow> 'r hstore \<Rightarrow> 'r hstore option" where
  "swap_rows l r s =
     (case (row_at s l, row_at s r) of
        (Some _, Some _) \<Rightarrow>
          (let a = expiryHeap s ! l; b = expiryHeap s ! r
           in Some (set_index a r (set_index b l (s\<lparr>expiryHeap := (expiryHeap s)[l := b, r := a]\<rparr>))))
      | _ \<Rightarrow> None)"

fun move_up :: "('r \<Rightarrow> 't::linorder) \<Rightarrow> nat \<Rightarrow> 'r hstore \<Rightarrow> 'r hstore option" where
  "move_up dl i s =
     (if i = 0 then Some s
      else
        (case (row_at s ((i - 1) div 2), row_at s i) of
           (Some p, Some r) \<Rightarrow>
             (if dl (content p) \<le> dl (content r) then Some s
              else
                (case swap_rows ((i - 1) div 2) i s of
                   None \<Rightarrow> None
                 | Some s' \<Rightarrow> move_up dl ((i - 1) div 2) s'))
         | _ \<Rightarrow> None))"

declare move_up.simps [simp del]

lemma length_swap_rows: "swap_rows l r s = Some s' \<Longrightarrow> length (expiryHeap s') = length (expiryHeap s)"
  by (auto simp: swap_rows_def set_index_def Let_def split: option.splits)

definition smaller_child :: "('r \<Rightarrow> 't::linorder) \<Rightarrow> nat \<Rightarrow> 'r hstore \<Rightarrow> nat option" where
  "smaller_child dl i s =
     (let l = i * 2 + 1; r = l + 1
      in if r < length (expiryHeap s)
         then (case (row_at s r, row_at s l) of
                 (Some b, Some a) \<Rightarrow> Some (if dl (content b) < dl (content a) then r else l)
               | _ \<Rightarrow> None)
         else Some l)"

lemma smaller_child_cases:
  "smaller_child dl i s = Some c \<Longrightarrow>
     c = i * 2 + 1 \<or> c = i * 2 + 2 \<and> i * 2 + 2 < length (expiryHeap s)"
  by (auto simp: smaller_child_def Let_def split: if_splits option.splits)

function move_down :: "('r \<Rightarrow> 't::linorder) \<Rightarrow> nat \<Rightarrow> 'r hstore \<Rightarrow> 'r hstore option" where
  "move_down dl i s =
     (if i * 2 + 1 \<ge> length (expiryHeap s) then Some s
      else
        (case smaller_child dl i s of
           None \<Rightarrow> None
         | Some c \<Rightarrow>
             (case (row_at s i, row_at s c) of
                (Some r, Some k) \<Rightarrow>
                  (if dl (content r) \<le> dl (content k) then Some s
                   else (case swap_rows i c s of None \<Rightarrow> None | Some s' \<Rightarrow> move_down dl c s'))
              | _ \<Rightarrow> None)))"
  by pat_completeness auto
termination
  by (relation "measure (\<lambda>(dl, i, s). length (expiryHeap s) - i)")
     (auto dest!: smaller_child_cases length_swap_rows)

declare move_down.simps [simp del]

definition heap_remove :: "('r \<Rightarrow> string) \<Rightarrow> ('r \<Rightarrow> 't::linorder) \<Rightarrow> nat \<Rightarrow> 'r hstore \<Rightarrow> 'r hstore option" where
  "heap_remove key dl i s =
     (case row_at s i of
        None \<Rightarrow> None
      | Some removed \<Rightarrow>
          (let lst = last (expiryHeap s);
               s1 = s\<lparr>expiryHeap := butlast (expiryHeap s),
                      reservations := mdel (key (content removed)) (reservations s)\<rparr>
           in if i = length (expiryHeap s1) then Some s1
              else
                (let s2 = set_index lst i (s1\<lparr>expiryHeap := (expiryHeap s1)[i := lst]\<rparr>)
                 in case move_up dl i s2 of
                      None \<Rightarrow> None
                    | Some s3 \<Rightarrow>
                        (case cells s3 lst of
                           None \<Rightarrow> None
                         | Some r \<Rightarrow> move_down dl (index r) s3))))"

text \<open>
  \<open>for (cleaned = 0; cleaned < n && heap[0]?.deadline <= now; cleaned += 1) remove(0)\<close>: the bounded
  reclamation of expired rows.
\<close>

fun sweep :: "('r \<Rightarrow> string) \<Rightarrow> ('r \<Rightarrow> 't::linorder) \<Rightarrow> nat \<Rightarrow> 't \<Rightarrow> 'r hstore \<Rightarrow> 'r hstore option" where
  "sweep key dl 0 now s = Some s"
| "sweep key dl (Suc n) now s =
     (case row_at s 0 of
        None \<Rightarrow> Some s
      | Some r \<Rightarrow>
          (if dl (content r) \<le> now
           then (case heap_remove key dl 0 s of None \<Rightarrow> None | Some s' \<Rightarrow> sweep key dl n now s')
           else Some s))"

text \<open>The end of an admission: the row is allocated, put into the map and the array, and moved up.\<close>

definition heap_insert :: "('r \<Rightarrow> string) \<Rightarrow> ('r \<Rightarrow> 't::linorder) \<Rightarrow> 'r \<Rightarrow> 'r hstore \<Rightarrow> 'r hstore option" where
  "heap_insert key dl r s =
     (let a = nextAddr s; i = length (expiryHeap s)
      in move_up dl i
           (s\<lparr>cells := (cells s)(a \<mapsto> \<lparr>content = r, index = i\<rparr>), nextAddr := Suc a,
              reservations := mput (key r) a (reservations s),
              expiryHeap := expiryHeap s @ [a]\<rparr>))"

definition lookup_row :: "'r hstore \<Rightarrow> string \<Rightarrow> 'r row option" where
  "lookup_row s k = (case mget (reservations s) k of None \<Rightarrow> None | Some a \<Rightarrow> cells s a)"

abbreviation hsize :: "'r hstore \<Rightarrow> nat" where
  "hsize s \<equiv> length (reservations s)"

section \<open>Binary heaps in lists\<close>

text \<open>The order part of the invariant, on the list of deadlines alone.\<close>

definition lswap :: "nat \<Rightarrow> nat \<Rightarrow> 't list \<Rightarrow> 't list" where
  "lswap i j ds = ds[i := ds ! j, j := ds ! i]"

definition ordered :: "'t::linorder list \<Rightarrow> bool" where
  "ordered ds \<longleftrightarrow> (\<forall>i. 0 < i \<and> i < length ds \<longrightarrow> ds ! ((i - 1) div 2) \<le> ds ! i)"

text \<open>Ordered but for the edge above \<open>j\<close>, and \<open>j\<close>'s children fit under \<open>j\<close>'s parent.\<close>

definition ordered_but_up :: "nat \<Rightarrow> 't::linorder list \<Rightarrow> bool" where
  "ordered_but_up j ds \<longleftrightarrow>
     (\<forall>i. 0 < i \<and> i < length ds \<and> i \<noteq> j \<longrightarrow> ds ! ((i - 1) div 2) \<le> ds ! i) \<and>
     (\<forall>i. 0 < i \<and> i < length ds \<and> 0 < j \<and> (i - 1) div 2 = j \<longrightarrow> ds ! ((j - 1) div 2) \<le> ds ! i)"

text \<open>Ordered but for the edges below \<open>j\<close>, and \<open>j\<close>'s children fit under \<open>j\<close>'s parent.\<close>

definition ordered_but_down :: "nat \<Rightarrow> 't::linorder list \<Rightarrow> bool" where
  "ordered_but_down j ds \<longleftrightarrow>
     (\<forall>i. 0 < i \<and> i < length ds \<and> (i - 1) div 2 \<noteq> j \<longrightarrow> ds ! ((i - 1) div 2) \<le> ds ! i) \<and>
     (\<forall>i. 0 < i \<and> i < length ds \<and> 0 < j \<and> (i - 1) div 2 = j \<longrightarrow> ds ! ((j - 1) div 2) \<le> ds ! i)"

lemma length_lswap [simp]: "length (lswap i j ds) = length ds"
  by (simp add: lswap_def)

lemma nth_lswap:
  "i < length ds \<Longrightarrow> j < length ds \<Longrightarrow> k < length ds \<Longrightarrow>
   lswap i j ds ! k = (if k = i then ds ! j else if k = j then ds ! i else ds ! k)"
  by (auto simp: lswap_def nth_list_update)

lemma set_lswap: "i < length ds \<Longrightarrow> j < length ds \<Longrightarrow> set (lswap i j ds) = set ds"
  by (simp add: lswap_def)

lemma map_lswap: "i < length xs \<Longrightarrow> j < length xs \<Longrightarrow> map f (lswap i j xs) = lswap i j (map f xs)"
  by (simp add: lswap_def map_update)

lemma ordered_root: "ordered ds \<Longrightarrow> i < length ds \<Longrightarrow> ds ! 0 \<le> ds ! i"
proof (induction i rule: less_induct)
  case (less i)
  show ?case
  proof (cases "i = 0")
    case False
    then have "(i - 1) div 2 < i" by auto
    with less have "ds ! 0 \<le> ds ! ((i - 1) div 2)" by auto
    also have "\<dots> \<le> ds ! i" using less.prems False by (auto simp: ordered_def)
    finally show ?thesis .
  qed simp
qed

lemma ordered_but_up_done:
  "ordered_but_up j ds \<Longrightarrow> j = 0 \<or> ds ! ((j - 1) div 2) \<le> ds ! j \<Longrightarrow> ordered ds"
  unfolding ordered_but_up_def ordered_def by (metis less_numeral_extra(3))

lemma ordered_but_up_step:
  assumes o: "ordered_but_up j ds" and j: "0 < j" "j < length ds"
    and lt: "ds ! j < ds ! ((j - 1) div 2)"
  shows "ordered_but_up ((j - 1) div 2) (lswap ((j - 1) div 2) j ds)"
proof -
  define p where "p = (j - 1) div 2"
  have p: "p < j" "p < length ds" using j by (auto simp: p_def)
  have up: "ds ! ((i - 1) div 2) \<le> ds ! i" if "0 < i" "i < length ds" "i \<noteq> j" for i
    using o that by (auto simp: ordered_but_up_def)
  have ch: "ds ! p \<le> ds ! i" if "0 < i" "i < length ds" "(i - 1) div 2 = j" for i
    using o that j by (auto simp: ordered_but_up_def p_def)
  have lt': "ds ! j < ds ! p" using lt by (simp add: p_def)
  have nth: "lswap p j ds ! k = (if k = p then ds ! j else if k = j then ds ! p else ds ! k)"
    if "k < length ds" for k using that p j by (simp add: nth_lswap)
  show ?thesis
    unfolding ordered_but_up_def length_lswap p_def [symmetric]
  proof (intro conjI allI impI)
    fix i assume i: "0 < i \<and> i < length ds \<and> i \<noteq> p"
    then have q: "(i - 1) div 2 < length ds" by auto
    show "lswap p j ds ! ((i - 1) div 2) \<le> lswap p j ds ! i"
    proof (cases "i = j")
      case True
      then have "(i - 1) div 2 = p" by (simp add: p_def)
      then show ?thesis using lt' p j True by (simp only: nth) simp
    next
      case False
      then show ?thesis
        using i q up [of i] ch [of i] lt' p by (auto simp: nth)
    qed
  next
    fix i assume i: "0 < i \<and> i < length ds \<and> 0 < p \<and> (i - 1) div 2 = p"
    then have pp: "(p - 1) div 2 < p" by linarith
    then have "ds ! ((p - 1) div 2) \<le> ds ! p" using up [of p] i p by auto
    moreover have "ds ! p \<le> ds ! i" if "i \<noteq> j" using up [of i] i that by auto
    ultimately show "lswap p j ds ! ((p - 1) div 2) \<le> lswap p j ds ! i"
      using i p j pp by (auto simp: nth intro: order_trans)
  qed
qed

lemma child_iff: "0 < i \<Longrightarrow> (i - 1) div 2 = j \<longleftrightarrow> i = j * 2 + 1 \<or> i = j * 2 + (2::nat)"
  by auto

lemma ordered_but_down_done:
  assumes "ordered_but_down j ds"
    and "\<forall>i < length ds. i = j * 2 + 1 \<or> i = j * 2 + 2 \<longrightarrow> ds ! j \<le> ds ! i"
  shows "ordered ds"
  using assms unfolding ordered_but_down_def ordered_def by (metis child_iff)

lemma ordered_but_down_step:
  assumes o: "ordered_but_down j ds" and c: "0 < c" "c < length ds" "(c - 1) div 2 = j"
    and least: "\<forall>i < length ds. i = j * 2 + 1 \<or> i = j * 2 + 2 \<longrightarrow> ds ! c \<le> ds ! i"
    and lt: "ds ! c < ds ! j"
  shows "ordered_but_down c (lswap j c ds)"
proof -
  have j: "j < c" "j < length ds" using c by auto
  have dn: "ds ! ((i - 1) div 2) \<le> ds ! i" if "0 < i" "i < length ds" "(i - 1) div 2 \<noteq> j" for i
    using o that by (auto simp: ordered_but_down_def)
  have ch: "ds ! ((j - 1) div 2) \<le> ds ! i" if "0 < i" "i < length ds" "0 < j" "(i - 1) div 2 = j" for i
    using o that by (auto simp: ordered_but_down_def)
  have nth: "lswap j c ds ! k = (if k = j then ds ! c else if k = c then ds ! j else ds ! k)"
    if "k < length ds" for k using that j c by (simp add: nth_lswap)
  show ?thesis
    unfolding ordered_but_down_def length_lswap
  proof (intro conjI allI impI)
    fix i assume i: "0 < i \<and> i < length ds \<and> (i - 1) div 2 \<noteq> c"
    then have q: "(i - 1) div 2 < length ds" "(i - 1) div 2 < i" by auto
    consider "(i - 1) div 2 = j" | "i = j" | "(i - 1) div 2 \<noteq> j" "i \<noteq> j" by blast
    then show "lswap j c ds ! ((i - 1) div 2) \<le> lswap j c ds ! i"
    proof cases
      case 1
      then have "i = j * 2 + 1 \<or> i = j * 2 + 2" using i child_iff by blast
      then show ?thesis using 1 i q least lt c j by (auto simp: nth)
    next
      case 2
      then show ?thesis using i q ch [of c] c j by (auto simp: nth)
    next
      case 3
      then have "i \<noteq> c" using c by auto
      then show ?thesis using i q 3 dn [of i] by (simp add: nth)
    qed
  next
    fix i assume i: "0 < i \<and> i < length ds \<and> 0 < c \<and> (i - 1) div 2 = c"
    then have "ds ! c \<le> ds ! i" using dn [of i] j by auto
    then show "lswap j c ds ! ((c - 1) div 2) \<le> lswap j c ds ! i"
      using i c j by (auto simp: nth)
  qed
qed

lemma ordered_imp_but_down: "ordered ds \<Longrightarrow> j < length ds \<Longrightarrow> ordered_but_down j ds"
  unfolding ordered_but_down_def
proof (intro conjI allI impI)
  fix i assume o: "ordered ds" and j: "j < length ds"
    and i: "0 < i \<and> i < length ds \<and> 0 < j \<and> (i - 1) div 2 = j"
  then have "ds ! ((j - 1) div 2) \<le> ds ! j" by (simp add: ordered_def)
  also have "ds ! j \<le> ds ! i" using o i by (auto simp: ordered_def)
  finally show "ds ! ((j - 1) div 2) \<le> ds ! i" .
qed (simp add: ordered_def)

text \<open>Appending a leaf, and replacing an inner row by the last one.\<close>

lemma ordered_append_up: "ordered ds \<Longrightarrow> ordered_but_up (length ds) (ds @ [x])"
proof -
  assume o: "ordered ds"
  show ?thesis
    unfolding ordered_but_up_def
  proof (intro conjI allI impI)
    fix i assume i: "0 < i \<and> i < length (ds @ [x]) \<and> i \<noteq> length ds"
    then have "(i - 1) div 2 < length ds" "i < length ds" by auto
    then show "(ds @ [x]) ! ((i - 1) div 2) \<le> (ds @ [x]) ! i"
      using o i by (simp add: nth_append ordered_def)
  next
    fix i assume "0 < i \<and> i < length (ds @ [x]) \<and> 0 < length ds \<and> (i - 1) div 2 = length ds"
    then have False by auto
    then show "(ds @ [x]) ! ((length ds - 1) div 2) \<le> (ds @ [x]) ! i" ..
  qed
qed

lemma ordered_butlast: "ordered ds \<Longrightarrow> ordered (butlast ds)"
proof -
  assume o: "ordered ds"
  have "butlast ds ! ((i - 1) div 2) \<le> butlast ds ! i" if i: "0 < i" "i < length (butlast ds)" for i
  proof -
    have "(i - 1) div 2 < length (butlast ds)" using i by auto
    then show ?thesis using o i by (simp add: nth_butlast ordered_def)
  qed
  then show ?thesis by (simp add: ordered_def)
qed

lemma ordered_grandparent:
  "ordered ds \<Longrightarrow> 0 < i \<Longrightarrow> i < length ds \<Longrightarrow> (i - 1) div 2 = j \<Longrightarrow> 0 < j \<Longrightarrow>
   ds ! ((j - 1) div 2) \<le> ds ! i"
proof -
  assume o: "ordered ds" and i: "0 < i" "i < length ds" "(i - 1) div 2 = j" "0 < j"
  then have "j < length ds" by auto
  then have "ds ! ((j - 1) div 2) \<le> ds ! j" using o i by (auto simp: ordered_def)
  also have "ds ! j \<le> ds ! i" using o i by (auto simp: ordered_def)
  finally show ?thesis .
qed

lemma ordered_replace:
  assumes o: "ordered ds" and j: "j < length ds"
  shows "0 < j \<and> x < ds ! ((j - 1) div 2) \<Longrightarrow> ordered_but_up j (ds[j := x])"
    and "j = 0 \<or> ds ! ((j - 1) div 2) \<le> x \<Longrightarrow> ordered_but_down j (ds[j := x])"
proof -
  have edge: "ds ! ((i - 1) div 2) \<le> ds ! i" if "0 < i" "i < length ds" for i
    using o that by (simp add: ordered_def)
  have gp: "ds ! ((j - 1) div 2) \<le> ds ! i" if "0 < i" "i < length ds" "(i - 1) div 2 = j" "0 < j" for i
    using ordered_grandparent [OF o] that by blast
  have self: "(i - 1) div 2 \<noteq> i" "(i - 1) div 2 < length ds" if "0 < i" "i < length ds" for i
    using that by auto
  {
    assume x: "0 < j \<and> x < ds ! ((j - 1) div 2)"
    show "ordered_but_up j (ds[j := x])"
      unfolding ordered_but_up_def length_list_update
    proof (intro conjI allI impI)
      fix i assume i: "0 < i \<and> i < length ds \<and> i \<noteq> j"
      then have "x < ds ! i" if "(i - 1) div 2 = j"
        using gp [of i] x that by auto
      then show "ds[j := x] ! ((i - 1) div 2) \<le> ds[j := x] ! i"
        using i edge [of i] self [of i] j by (auto simp: nth_list_update)
    next
      fix i assume i: "0 < i \<and> i < length ds \<and> 0 < j \<and> (i - 1) div 2 = j"
      then have "i \<noteq> j" "(j - 1) div 2 \<noteq> j" by auto
      then show "ds[j := x] ! ((j - 1) div 2) \<le> ds[j := x] ! i"
        using i gp [of i] j by (auto simp: nth_list_update)
    qed
  next
    assume x: "j = 0 \<or> ds ! ((j - 1) div 2) \<le> x"
    show "ordered_but_down j (ds[j := x])"
      unfolding ordered_but_down_def length_list_update
    proof (intro conjI allI impI)
      fix i assume i: "0 < i \<and> i < length ds \<and> (i - 1) div 2 \<noteq> j"
      then show "ds[j := x] ! ((i - 1) div 2) \<le> ds[j := x] ! i"
        using x edge [of i] self [of i] j by (auto simp: nth_list_update)
    next
      fix i assume i: "0 < i \<and> i < length ds \<and> 0 < j \<and> (i - 1) div 2 = j"
      then have "i \<noteq> j" "(j - 1) div 2 \<noteq> j" by auto
      then show "ds[j := x] ! ((j - 1) div 2) \<le> ds[j := x] ! i"
        using i gp [of i] j by (auto simp: nth_list_update)
    qed
  }
qed

section \<open>The representation invariant\<close>

definition deadlines :: "('r \<Rightarrow> 't) \<Rightarrow> 'r hstore \<Rightarrow> 't list" where
  "deadlines dl s = map (\<lambda>a. dl (content (the (cells s a)))) (expiryHeap s)"

text \<open>
  The map and the array hold the same rows, each row's \<open>index\<close> is its position in the array, and
  the map files each row under its own key.
\<close>

definition shared_rows :: "('r \<Rightarrow> string) \<Rightarrow> 'r hstore \<Rightarrow> bool" where
  "shared_rows key s \<longleftrightarrow>
     distinct (expiryHeap s) \<and> wf_map (reservations s) \<and>
     length (reservations s) = length (expiryHeap s) \<and>
     (\<forall>i < length (expiryHeap s). \<exists>r. cells s (expiryHeap s ! i) = Some r \<and> index r = i \<and>
        mget (reservations s) (key (content r)) = Some (expiryHeap s ! i)) \<and>
     (\<forall>k a. mget (reservations s) k = Some a \<longrightarrow>
        a \<in> set (expiryHeap s) \<and> key (content (the (cells s a))) = k) \<and>
     (\<forall>a. cells s a \<noteq> None \<longrightarrow> a < nextAddr s)"

definition heap_inv :: "('r \<Rightarrow> string) \<Rightarrow> ('r \<Rightarrow> 't::linorder) \<Rightarrow> 'r hstore \<Rightarrow> bool" where
  "heap_inv key dl s \<longleftrightarrow> shared_rows key s \<and> ordered (deadlines dl s)"

text \<open>The abstract value: which content is filed under which key.\<close>

definition contents :: "'r hstore \<Rightarrow> string \<Rightarrow> 'r option" where
  "contents s k = map_option content (lookup_row s k)"

text \<open>What reordering the array leaves alone.\<close>

definition same_rows :: "'r hstore \<Rightarrow> 'r hstore \<Rightarrow> bool" where
  "same_rows s s' \<longleftrightarrow>
     reservations s' = reservations s \<and> nextAddr s' = nextAddr s \<and>
     length (expiryHeap s') = length (expiryHeap s) \<and> set (expiryHeap s') = set (expiryHeap s) \<and>
     (\<forall>a. map_option content (cells s' a) = map_option content (cells s a))"

lemma same_rows_refl [simp]: "same_rows s s"
  by (simp add: same_rows_def)

lemma same_rows_trans: "same_rows a b \<Longrightarrow> same_rows b c \<Longrightarrow> same_rows a c"
  by (simp add: same_rows_def)

lemma same_rows_contents: "same_rows s s' \<Longrightarrow> contents s' = contents s"
  by (auto simp: same_rows_def contents_def lookup_row_def fun_eq_iff split: option.splits)

lemma length_deadlines [simp]: "length (deadlines dl s) = length (expiryHeap s)"
  by (simp add: deadlines_def)

lemma shared_row_at:
  assumes "shared_rows key s" "i < length (expiryHeap s)"
  obtains r where "row_at s i = Some r" "cells s (expiryHeap s ! i) = Some r" "index r = i"
    "mget (reservations s) (key (content r)) = Some (expiryHeap s ! i)"
    "deadlines dl s ! i = dl (content r)"
  using assms by (auto simp: shared_rows_def row_at_def deadlines_def)

lemma swap_rows_spec:
  assumes sh: "shared_rows key s" and l: "l < length (expiryHeap s)" and r: "r < length (expiryHeap s)"
    and ne: "l \<noteq> r"
  obtains s' where "swap_rows l r s = Some s'" "shared_rows key s'" "same_rows s s'"
    "deadlines dl s' = lswap l r (deadlines dl s)" "expiryHeap s' = lswap l r (expiryHeap s)"
proof -
  let ?h = "expiryHeap s"
  let ?a = "?h ! l" and ?b = "?h ! r"
  obtain ra where ra: "row_at s l = Some ra" "cells s ?a = Some ra"
    using sh l by (rule shared_row_at)
  obtain rb where rb: "row_at s r = Some rb" "cells s ?b = Some rb"
    using sh r by (rule shared_row_at)
  have ab: "?a \<noteq> ?b" using sh l r ne by (simp add: shared_rows_def nth_eq_iff_index_eq)
  define s' where "s' = s\<lparr>expiryHeap := lswap l r ?h,
    cells := (cells s)(?b \<mapsto> rb\<lparr>index := l\<rparr>, ?a \<mapsto> ra\<lparr>index := r\<rparr>)\<rparr>"
  have sw: "swap_rows l r s = Some s'"
    using ra rb ab by (simp add: swap_rows_def set_index_def s'_def lswap_def Let_def)
  have cont: "map_option content (cells s' a) = map_option content (cells s a)" for a
    using ra rb by (simp add: s'_def)
  have same: "same_rows s s'"
    using cont l r by (simp add: same_rows_def s'_def set_lswap)
  have cell: "content (the (cells s' a)) = content (the (cells s a))" for a
    using ra rb by (simp add: s'_def)
  have dls: "deadlines dl s' = lswap l r (deadlines dl s)"
    unfolding deadlines_def cell using l r by (simp add: s'_def map_lswap)
  have rows: "\<exists>q. cells s' (expiryHeap s' ! i) = Some q \<and> index q = i \<and>
      mget (reservations s') (key (content q)) = Some (expiryHeap s' ! i)"
    if i: "i < length (expiryHeap s')" for i
  proof -
    from i have i': "i < length ?h" by (simp add: s'_def)
    obtain q where q: "cells s (?h ! i) = Some q" "index q = i"
      "mget (reservations s) (key (content q)) = Some (?h ! i)"
      using sh i' by (rule shared_row_at)
    have other: "?h ! i \<noteq> ?a" "?h ! i \<noteq> ?b" if "i \<noteq> l" "i \<noteq> r"
      using sh i' l r that by (auto simp: shared_rows_def nth_eq_iff_index_eq)
    have pa: "mget (reservations s) (key (content ra)) = Some ?a"
      and pb: "mget (reservations s) (key (content rb)) = Some ?b"
      using sh l r ra rb by (auto simp: shared_rows_def)
    show ?thesis
      using i' l r ab q other pa pb by (cases "i = l"; cases "i = r") (auto simp: s'_def nth_lswap)
  qed
  have "shared_rows key s'"
    unfolding shared_rows_def
    using sh l r rows cell ra rb by (auto simp: shared_rows_def s'_def set_lswap lswap_def distinct_swap)
  with sw same dls show thesis
    by (intro that) (auto simp: s'_def)
qed

lemma move_up_spec:
  assumes "shared_rows key s" "i < length (expiryHeap s)" "ordered_but_up i (deadlines dl s)"
  obtains s' where "move_up dl i s = Some s'" "shared_rows key s'" "same_rows s s'"
    "ordered (deadlines dl s')"
  using assms
proof (induction i arbitrary: s thesis rule: less_induct)
  case (less i)
  show ?case
  proof (cases "i = 0")
    case True
    with less.prems show ?thesis
      by (intro less.prems(1) [of s]) (auto simp: move_up.simps [of dl 0] intro: ordered_but_up_done)
  next
    case False
    then have p: "(i - 1) div 2 < i" "(i - 1) div 2 < length (expiryHeap s)" "(i - 1) div 2 \<noteq> i"
      using less.prems by auto
    obtain q where q: "row_at s ((i - 1) div 2) = Some q"
      "deadlines dl s ! ((i - 1) div 2) = dl (content q)"
      using less.prems(2) p(2) by (rule shared_row_at [where dl = dl])
    obtain r where r: "row_at s i = Some r" "deadlines dl s ! i = dl (content r)"
      using less.prems(2,3) by (rule shared_row_at [where dl = dl])
    show ?thesis
    proof (cases "dl (content q) \<le> dl (content r)")
      case True
      with q r False less.prems show ?thesis
        by (intro less.prems(1) [of s]) (auto simp: move_up.simps [of dl i] intro: ordered_but_up_done)
    next
      case gt: False
      obtain s1 where s1: "swap_rows ((i - 1) div 2) i s = Some s1" "shared_rows key s1" "same_rows s s1"
        "deadlines dl s1 = lswap ((i - 1) div 2) i (deadlines dl s)"
        using less.prems(2) p(2) less.prems(3) p(3) by (rule swap_rows_spec [where dl = dl])
      have o1: "ordered_but_up ((i - 1) div 2) (deadlines dl s1)"
        unfolding s1(4) using less.prems False q r gt by (intro ordered_but_up_step) auto
      have len: "(i - 1) div 2 < length (expiryHeap s1)"
        using p s1(3) by (simp add: same_rows_def)
      obtain s' where s': "move_up dl ((i - 1) div 2) s1 = Some s'" "shared_rows key s'"
        "same_rows s1 s'" "ordered (deadlines dl s')"
        using less.IH [OF p(1) _ s1(2) len o1] by blast
      have "move_up dl i s = Some s'"
        using q r False gt s1 s'(1) by (simp add: move_up.simps [of dl i])
      then show ?thesis
        using less.prems(1) s' s1(3) by (blast intro: same_rows_trans)
    qed
  qed
qed

lemma smaller_child_spec:
  assumes sh: "shared_rows key s" and i: "i * 2 + 1 < length (expiryHeap s)"
  obtains c where "smaller_child dl i s = Some c" "c < length (expiryHeap s)" "0 < c"
    "(c - 1) div 2 = i"
    "\<forall>j < length (deadlines dl s). j = i * 2 + 1 \<or> j = i * 2 + 2 \<longrightarrow>
       deadlines dl s ! c \<le> deadlines dl s ! j"
proof -
  obtain a where a: "row_at s (i * 2 + 1) = Some a" "deadlines dl s ! (i * 2 + 1) = dl (content a)"
    using sh i by (rule shared_row_at [where dl = dl])
  show thesis
  proof (cases "i * 2 + 2 < length (expiryHeap s)")
    case True
    then obtain b where b: "row_at s (i * 2 + 2) = Some b"
      "deadlines dl s ! (i * 2 + 2) = dl (content b)"
      using sh by (auto elim: shared_row_at [where dl = dl])
    show thesis
      using a b i True
      by (intro that [of "if dl (content b) < dl (content a) then i * 2 + 2 else i * 2 + 1"])
         (auto simp: smaller_child_def Let_def)
  next
    case False
    then show thesis
      using a i by (intro that [of "i * 2 + 1"]) (auto simp: smaller_child_def Let_def)
  qed
qed

lemma move_down_spec:
  assumes "shared_rows key s" "i < length (expiryHeap s)" "ordered_but_down i (deadlines dl s)"
  obtains s' where "move_down dl i s = Some s'" "shared_rows key s'" "same_rows s s'"
    "ordered (deadlines dl s')"
  using assms
proof (induction "length (expiryHeap s) - i" arbitrary: i s thesis rule: less_induct)
  case less
  show ?case
  proof (cases "i * 2 + 1 < length (expiryHeap s)")
    case False
    then have "ordered (deadlines dl s)"
      using less.prems by (auto intro!: ordered_but_down_done)
    with False less.prems show ?thesis
      by (intro less.prems(1) [of s]) (auto simp: move_down.simps [of dl i])
  next
    case True
    obtain c where c: "smaller_child dl i s = Some c" "c < length (expiryHeap s)" "0 < c"
      "(c - 1) div 2 = i"
      and least: "\<forall>j < length (deadlines dl s). j = i * 2 + 1 \<or> j = i * 2 + 2 \<longrightarrow>
        deadlines dl s ! c \<le> deadlines dl s ! j"
      using less.prems(2) True by (rule smaller_child_spec [where dl = dl])
    have ic: "i < c" "i \<noteq> c" using c by auto
    obtain r where r: "row_at s i = Some r" "deadlines dl s ! i = dl (content r)"
      using less.prems(2,3) by (rule shared_row_at [where dl = dl])
    obtain k where k: "row_at s c = Some k" "deadlines dl s ! c = dl (content k)"
      using less.prems(2) c(2) by (rule shared_row_at [where dl = dl])
    show ?thesis
    proof (cases "dl (content r) \<le> dl (content k)")
      case le: True
      then have "ordered (deadlines dl s)"
        using less.prems r k least by (auto intro!: ordered_but_down_done intro: order_trans)
      with le True c r k less.prems show ?thesis
        by (intro less.prems(1) [of s]) (auto simp: move_down.simps [of dl i])
    next
      case gt: False
      obtain s1 where s1: "swap_rows i c s = Some s1" "shared_rows key s1" "same_rows s s1"
        "deadlines dl s1 = lswap i c (deadlines dl s)"
        using less.prems(2,3) c(2) ic(2) by (rule swap_rows_spec [where dl = dl])
      have o1: "ordered_but_down c (deadlines dl s1)"
        unfolding s1(4) using less.prems c least r k gt by (intro ordered_but_down_step) auto
      have len: "c < length (expiryHeap s1)" "length (expiryHeap s1) - c < length (expiryHeap s) - i"
        using c ic s1(3) less.prems by (auto simp: same_rows_def)
      obtain s' where s': "move_down dl c s1 = Some s'" "shared_rows key s'"
        "same_rows s1 s'" "ordered (deadlines dl s')"
        using less.hyps [OF len(2) _ s1(2) len(1) o1] by blast
      have "move_down dl i s = Some s'"
        using True c r k gt s1 s'(1) by (simp add: move_down.simps [of dl i])
      then show ?thesis
        using less.prems(1) s' s1(3) by (blast intro: same_rows_trans)
    qed
  qed
qed

section \<open>The operations keep the invariant\<close>

lemma contents_alt:
  "contents s k = Option.bind (mget (reservations s) k) (\<lambda>a. map_option content (cells s a))"
  by (simp add: contents_def lookup_row_def split: option.split)

lemma heap_inv_empty [simp, intro]: "heap_inv key dl empty_hstore"
  by (simp add: heap_inv_def shared_rows_def empty_hstore_def ordered_def deadlines_def)

lemma contents_empty [simp]: "contents empty_hstore = Map.empty"
  by (simp add: contents_def lookup_row_def empty_hstore_def fun_eq_iff)

lemma same_rows_inv: "same_rows s s' \<Longrightarrow> hsize s' = hsize s"
  by (simp add: same_rows_def)

lemma shared_rows_mget:
  "shared_rows key s \<Longrightarrow> mget (reservations s) k = Some a \<Longrightarrow>
   a \<in> set (expiryHeap s) \<and> key (content (the (cells s a))) = k"
  unfolding shared_rows_def by blast

lemma contents_key:
  assumes "shared_rows key s" "contents s k = Some c"
  shows "key c = k"
  using assms by (auto simp: contents_def lookup_row_def split: option.splits
      dest: shared_rows_mget)

text \<open>Every filed row sits at the array position it records.\<close>

lemma lookup_row_at:
  assumes "shared_rows key s" "lookup_row s k = Some r"
  shows "index r < length (expiryHeap s)" "row_at s (index r) = Some r" "key (content r) = k"
proof -
  obtain a where a: "mget (reservations s) k = Some a" "cells s a = Some r"
    using assms(2) by (auto simp: lookup_row_def split: option.splits)
  then have "a \<in> set (expiryHeap s)" and key: "key (content r) = k"
    using shared_rows_mget [OF assms(1) a(1)] by auto
  then obtain i where i: "i < length (expiryHeap s)" "a = expiryHeap s ! i"
    by (auto simp: in_set_conv_nth)
  with assms(1) a have "index r = i"
    by (auto simp: shared_rows_def)
  with i a key show "index r < length (expiryHeap s)" "row_at s (index r) = Some r"
    "key (content r) = k"
    by (auto simp: row_at_def)
qed

lemma contents_row_at:
  assumes "shared_rows key s" "row_at s i = Some r"
  shows "contents s (key (content r)) = Some (content r)"
proof -
  have i: "i < length (expiryHeap s)" using assms(2) by (auto simp: row_at_def split: if_splits)
  obtain q where "row_at s i = Some q" "cells s (expiryHeap s ! i) = Some q"
    "mget (reservations s) (key (content q)) = Some (expiryHeap s ! i)"
    using assms(1) i by (rule shared_row_at)
  with assms(2) show ?thesis by (simp add: contents_def lookup_row_def)
qed

lemma shared_rows_remove:
  assumes sh: "shared_rows key s" and i: "i < length (expiryHeap s)" and r: "row_at s i = Some r"
  defines "lst \<equiv> last (expiryHeap s)"
  defines "s1 \<equiv> s\<lparr>expiryHeap := butlast (expiryHeap s),
    reservations := mdel (key (content r)) (reservations s)\<rparr>"
  defines "s2 \<equiv> set_index lst i (s1\<lparr>expiryHeap := (butlast (expiryHeap s))[i := lst]\<rparr>)"
  shows "i = length (butlast (expiryHeap s)) \<Longrightarrow> shared_rows key s1"
    and "i \<noteq> length (butlast (expiryHeap s)) \<Longrightarrow> shared_rows key s2"
    and "i \<noteq> length (butlast (expiryHeap s)) \<Longrightarrow>
      deadlines dl s2 = (butlast (deadlines dl s))[i := last (deadlines dl s)]"
proof -
  let ?h = "expiryHeap s" and ?n = "length (expiryHeap s) - 1"
  have ne: "?h \<noteq> []" and n: "?n < length ?h" using i by auto
  have lst: "lst = ?h ! ?n" using ne by (simp add: lst_def last_conv_nth)
  have dist: "distinct ?h" and wf: "wf_map (reservations s)" using sh by (auto simp: shared_rows_def)
  have rc: "cells s (?h ! i) = Some r" using r i by (simp add: row_at_def)
  have filed: "mget (reservations s) (key (content r)) = Some (?h ! i)"
    using sh i rc by (auto simp: shared_rows_def)
  have size: "Suc (length (mdel (key (content r)) (reservations s))) = length ?h"
    using size_mdel [OF wf filed] sh by (simp add: shared_rows_def)
  have keys: "key (content q) \<noteq> key (content r)"
    if "cells s (?h ! j) = Some q" "j < length ?h" "j \<noteq> i" for j q
  proof -
    have "mget (reservations s) (key (content q)) = Some (?h ! j)"
      using sh that by (auto simp: shared_rows_def)
    moreover have "?h ! j \<noteq> ?h ! i" using dist that i by (simp add: nth_eq_iff_index_eq)
    ultimately show ?thesis using filed by auto
  qed
  have bl: "butlast ?h ! j = ?h ! j" if "j < ?n" for j using that by (simp add: nth_butlast)
  have inbl: "a \<in> set (butlast ?h)" if "a \<in> set ?h" "a \<noteq> ?h ! ?n" for a
    using that ne by (metis append_butlast_last_id in_set_conv_decomp last_conv_nth
      rotate1.simps(2) set_ConsD set_rotate1 lst lst_def)
  have other: "a \<in> set ?h \<and> a \<noteq> ?h ! i \<and> key (content (the (cells s a))) = k"
    if "mget (mdel (key (content r)) (reservations s)) k = Some a" for k a
  proof -
    have "mget (reservations s) k = Some a" "k \<noteq> key (content r)"
      using that by (auto split: if_splits)
    then show ?thesis
      using shared_rows_mget [OF sh, of k a] rc by auto
  qed
  {
    assume last: "i = length (butlast ?h)"
    then have n': "i = ?n" by simp
    have rows: "\<exists>q. cells s1 (expiryHeap s1 ! j) = Some q \<and> index q = j \<and>
        mget (reservations s1) (key (content q)) = Some (expiryHeap s1 ! j)"
      if j: "j < length (expiryHeap s1)" for j
    proof -
      have j': "j < ?n" using j by (simp add: s1_def)
      then have "j < length ?h" by simp
      with sh obtain q where q: "cells s (?h ! j) = Some q" "index q = j"
        "mget (reservations s) (key (content q)) = Some (?h ! j)"
        by (rule shared_row_at)
      moreover have "key (content q) \<noteq> key (content r)"
        using keys [of j q] q j' n' by auto
      ultimately show ?thesis
        using j' bl [of j] by (simp add: s1_def)
    qed
    have filed: "b \<in> set (expiryHeap s1) \<and> key (content (the (cells s1 b))) = k"
      if "mget (reservations s1) k = Some b" for k b
      using that other [of k b] inbl [of b] n' by (simp add: s1_def)
    have "cells s1 b \<noteq> None \<Longrightarrow> b < nextAddr s1" for b
      using sh by (auto simp: shared_rows_def s1_def)
    with rows filed dist wf size show "shared_rows key s1"
      unfolding shared_rows_def by (simp add: s1_def distinct_butlast)
  next
    assume inner: "i \<noteq> length (butlast ?h)"
    then have in': "i < ?n" using i by auto
    obtain rl where rl: "cells s lst = Some rl"
      using sh n lst by (auto simp: shared_rows_def)
    have s2: "s2 = s\<lparr>expiryHeap := (butlast ?h)[i := lst], cells := (cells s)(lst \<mapsto> rl\<lparr>index := i\<rparr>),
        reservations := mdel (key (content r)) (reservations s)\<rparr>"
      using rl by (simp add: s2_def s1_def set_index_def)
    have cell: "content (the (cells s2 a)) = content (the (cells s a))" for a
      using rl by (simp add: s2)
    show "deadlines dl s2 = (butlast (deadlines dl s))[i := last (deadlines dl s)]"
      unfolding deadlines_def cell
      using ne by (simp add: s2 map_update last_map map_butlast lst_def)
    have lnotin: "?h ! j \<noteq> lst" if "j < ?n" for j
      using dist that n lst by (simp add: nth_eq_iff_index_eq)
    have lb: "lst \<notin> set (butlast ?h)"
      using dist ne unfolding lst_def by (metis append_butlast_last_id distinct_append
        disjoint_iff list.set_intros(1))
    have dist2: "distinct ((butlast ?h)[i := lst])"
      using dist lb by (simp add: distinct_list_update distinct_butlast)
    have rows: "\<exists>q. cells s2 (expiryHeap s2 ! j) = Some q \<and> index q = j \<and>
        mget (reservations s2) (key (content q)) = Some (expiryHeap s2 ! j)"
      if j: "j < length (expiryHeap s2)" for j
    proof (cases "j = i")
      case True
      have "mget (reservations s) (key (content rl)) = Some lst"
        using sh n rl lst by (auto simp: shared_rows_def)
      moreover have "key (content rl) \<noteq> key (content r)"
        using keys [of ?n rl] rl lst n in' by auto
      ultimately show ?thesis using True in' by (simp add: s2)
    next
      case False
      have j': "j < ?n" using j by (simp add: s2)
      then have "j < length ?h" by simp
      with sh obtain q where q: "cells s (?h ! j) = Some q" "index q = j"
        "mget (reservations s) (key (content q)) = Some (?h ! j)"
        by (rule shared_row_at)
      moreover have "key (content q) \<noteq> key (content r)"
        using keys [of j q] q j' False by auto
      ultimately show ?thesis
        using False j' lnotin [of j] bl [of j] by (simp add: s2)
    qed
    have mem: "a \<in> set ((butlast ?h)[i := lst])" if "a \<in> set ?h" "a \<noteq> ?h ! i" for a
    proof (cases "a = lst")
      case True
      then show ?thesis using in' by (simp add: set_update_memI)
    next
      case False
      then have "a \<in> set (butlast ?h)"
        using inbl that lst by simp
      then obtain j where j: "j < ?n" "a = butlast ?h ! j"
        by (auto simp: in_set_conv_nth)
      then have "j \<noteq> i" using that bl by auto
      then show ?thesis using j in' by (metis length_butlast length_list_update nth_list_update_neq nth_mem)
    qed
    have "cells s a \<noteq> None \<Longrightarrow> a < nextAddr s" for a
      using sh by (auto simp: shared_rows_def)
    then have fresh: "cells s2 a \<noteq> None \<Longrightarrow> a < nextAddr s2" for a
      using rl by (auto simp: s2 split: if_splits)
    have "mget (reservations s2) k = Some a \<Longrightarrow>
        a \<in> set (expiryHeap s2) \<and> key (content (the (cells s2 a))) = k" for k a
      using other [of k a] mem [of a] cell [of a] by (simp add: s2)
    with rows fresh dist2 wf size show "shared_rows key s2"
      unfolding shared_rows_def by (simp add: s2)
  }
qed

lemma heap_remove_spec:
  assumes inv: "heap_inv key dl s" and r: "row_at s i = Some r"
  obtains s' where "heap_remove key dl i s = Some s'" "heap_inv key dl s'"
    "contents s' = (contents s)(key (content r) := None)" "Suc (hsize s') = hsize s"
proof -
  let ?h = "expiryHeap s" and ?lst = "last (expiryHeap s)"
  let ?s1 = "s\<lparr>expiryHeap := butlast ?h, reservations := mdel (key (content r)) (reservations s)\<rparr>"
  define s2 where "s2 = set_index ?lst i (?s1\<lparr>expiryHeap := (butlast ?h)[i := ?lst]\<rparr>)"
  have i: "i < length ?h" using r by (auto simp: row_at_def split: if_splits)
  have sh: "shared_rows key s" and o: "ordered (deadlines dl s)" using inv by (auto simp: heap_inv_def)
  obtain a where a: "mget (reservations s) (key (content r)) = Some a"
    using contents_row_at [OF sh r] by (auto simp: contents_def lookup_row_def split: option.splits)
  have size: "Suc (length (mdel (key (content r)) (reservations s))) = hsize s"
    using sh by (intro size_mdel [OF _ a]) (simp add: shared_rows_def)
  show thesis
  proof (cases "i = length (butlast ?h)")
    case True
    have "deadlines dl ?s1 = butlast (deadlines dl s)"
      by (simp add: deadlines_def map_butlast)
    moreover have "heap_remove key dl i s = Some ?s1"
      using r True by (simp add: heap_remove_def Let_def)
    moreover have "contents ?s1 = (contents s)(key (content r) := None)"
      by (auto simp: contents_def lookup_row_def fun_eq_iff split: option.split)
    ultimately show thesis
      using shared_rows_remove(1) [OF sh i r True] o size
      by (intro that [of ?s1]) (auto simp: heap_inv_def ordered_butlast)
  next
    case False
    note s2 = shared_rows_remove(2) [OF sh i r False, folded s2_def]
      shared_rows_remove(3) [OF sh i r False, where dl = dl, folded s2_def]
    define ds where "ds = butlast (deadlines dl s)"
    define x where "x = last (deadlines dl s)"
    have ods: "ordered ds" using o by (simp add: ds_def ordered_butlast)
    have ids: "i < length ds" using False i by (auto simp: ds_def)
    have cells2: "map_option content (cells s2 b) = map_option content (cells s b)" for b
      by (simp add: s2_def set_index_def split: option.split)
    have res2: "reservations s2 = mdel (key (content r)) (reservations s)"
      by (simp add: s2_def set_index_def split: option.split)
    have c2: "contents s2 = (contents s)(key (content r) := None)"
      by (simp add: contents_alt cells2 res2 fun_eq_iff)
    have len2: "expiryHeap s2 = (butlast ?h)[i := ?lst]"
      by (simp add: s2_def set_index_def split: option.split)
    have i2: "i < length (expiryHeap s2)" using False i by (simp add: len2)
    have "\<exists>s3 r3. move_up dl i s2 = Some s3 \<and> shared_rows key s3 \<and> same_rows s2 s3 \<and>
        cells s3 ?lst = Some r3 \<and> index r3 < length (expiryHeap s3) \<and>
        ordered_but_down (index r3) (deadlines dl s3)"
    proof (cases "0 < i \<and> x < ds ! ((i - 1) div 2)")
      case True
      have "ordered_but_up i (deadlines dl s2)"
        using ordered_replace(1) [OF ods ids True] s2(2) by (simp add: ds_def x_def)
      then obtain s3 where s3: "move_up dl i s2 = Some s3" "shared_rows key s3" "same_rows s2 s3"
        "ordered (deadlines dl s3)"
        using move_up_spec [OF s2(1) i2] by blast
      have "?lst \<in> set (expiryHeap s3)"
        using s3(3) False i by (auto simp: same_rows_def len2 intro: set_update_memI)
      then obtain j where j: "j < length (expiryHeap s3)" "expiryHeap s3 ! j = ?lst"
        by (auto simp: in_set_conv_nth)
      then obtain r3 where "cells s3 ?lst = Some r3" "index r3 = j"
        using s3(2) by (auto simp: shared_rows_def)
      with s3 j show ?thesis
        by (auto intro: ordered_imp_but_down)
    next
      case noup: False
      have down: "ordered_but_down i (deadlines dl s2)"
        using ordered_replace(2) [OF ods ids, of x] noup s2(2) by (auto simp: ds_def x_def not_less)
      have i2': "expiryHeap s2 ! i = ?lst" using ids False i by (simp add: len2)
      obtain r3 where r3: "row_at s2 i = Some r3" "cells s2 ?lst = Some r3" "index r3 = i"
        "deadlines dl s2 ! i = dl (content r3)"
        using s2(1) i2 unfolding i2' [symmetric] by (rule shared_row_at [where dl = dl])
      have "move_up dl i s2 = Some s2"
      proof (cases "i = 0")
        case False
        then have p: "(i - 1) div 2 < length (expiryHeap s2)" "(i - 1) div 2 \<noteq> i" using i2 by auto
        obtain q where q: "row_at s2 ((i - 1) div 2) = Some q"
          "deadlines dl s2 ! ((i - 1) div 2) = dl (content q)"
          using s2(1) p(1) by (rule shared_row_at [where dl = dl])
        have "dl (content q) \<le> dl (content r3)"
          using noup False q(2) r3(4) p ids s2(2) by (simp add: ds_def x_def nth_list_update)
        with q r3 False show ?thesis by (simp add: move_up.simps [of dl i])
      qed (simp add: move_up.simps [of dl 0])
      with s2(1) r3 i2 down show ?thesis by auto
    qed
    then obtain s3 r3 where s3: "move_up dl i s2 = Some s3" "shared_rows key s3" "same_rows s2 s3"
      "cells s3 ?lst = Some r3" "index r3 < length (expiryHeap s3)"
      "ordered_but_down (index r3) (deadlines dl s3)"
      by blast
    obtain s4 where s4: "move_down dl (index r3) s3 = Some s4" "shared_rows key s4" "same_rows s3 s4"
      "ordered (deadlines dl s4)"
      using s3(2,5,6) by (rule move_down_spec)
    have "heap_remove key dl i s = Some s4"
      using r False s3(1,4) s4(1) by (simp add: heap_remove_def Let_def s2_def)
    moreover have "contents s4 = (contents s)(key (content r) := None)"
      using same_rows_contents [OF same_rows_trans [OF s3(3) s4(3)]] c2 by simp
    moreover have "hsize s4 = length (mdel (key (content r)) (reservations s))"
      using same_rows_inv [OF same_rows_trans [OF s3(3) s4(3)]] res2 by simp
    ultimately show thesis
      using s4 size by (intro that [of s4]) (auto simp: heap_inv_def)
  qed
qed

lemma heap_insert_spec:
  assumes inv: "heap_inv key dl s" and new: "contents s (key r) = None"
  obtains s' where "heap_insert key dl r s = Some s'" "heap_inv key dl s'"
    "contents s' = (contents s)(key r \<mapsto> r)" "hsize s' = Suc (hsize s)"
proof -
  let ?a = "nextAddr s" and ?h = "expiryHeap s"
  let ?s1 = "s\<lparr>cells := (cells s)(?a \<mapsto> \<lparr>content = r, index = length ?h\<rparr>), nextAddr := Suc ?a,
    reservations := mput (key r) ?a (reservations s), expiryHeap := ?h @ [?a]\<rparr>"
  have sh: "shared_rows key s" and o: "ordered (deadlines dl s)" using inv by (auto simp: heap_inv_def)
  have alloc: "cells s b \<noteq> None \<Longrightarrow> b < ?a" for b using sh by (auto simp: shared_rows_def)
  have cellh: "\<exists>q. cells s b = Some q" if "b \<in> set ?h" for b
    using sh that by (auto simp: shared_rows_def in_set_conv_nth)
  have ah: "?a \<notin> set ?h" using alloc [of ?a] cellh [of ?a] by auto
  have none: "mget (reservations s) (key r) = None"
  proof (cases "mget (reservations s) (key r)")
    case (Some b)
    then have "b \<in> set ?h" using shared_rows_mget [OF sh] by blast
    then show ?thesis using cellh [of b] new Some by (auto simp: contents_def lookup_row_def)
  qed
  have rows: "\<exists>q. cells ?s1 (expiryHeap ?s1 ! j) = Some q \<and> index q = j \<and>
      mget (reservations ?s1) (key (content q)) = Some (expiryHeap ?s1 ! j)"
    if j: "j < length (expiryHeap ?s1)" for j
  proof (cases "j = length ?h")
    case False
    then have j': "j < length ?h" using j by simp
    then obtain q where q: "cells s (?h ! j) = Some q" "index q = j"
      "mget (reservations s) (key (content q)) = Some (?h ! j)"
      using sh by (auto simp: shared_rows_def)
    moreover have "?h ! j \<noteq> ?a" using ah j' by (metis nth_mem)
    moreover have "key (content q) \<noteq> key r" using q(3) none by auto
    ultimately show ?thesis using j' by (simp add: nth_append)
  qed simp
  have filed: "b \<in> set (expiryHeap ?s1) \<and> key (content (the (cells ?s1 b))) = k"
    if "mget (reservations ?s1) k = Some b" for k b
    using that shared_rows_mget [OF sh, of k b] ah by (auto split: if_splits)
  have "distinct (expiryHeap ?s1)" "wf_map (reservations ?s1)"
    "length (reservations ?s1) = length (expiryHeap ?s1)"
    using sh ah none by (simp_all add: shared_rows_def size_mput_new)
  moreover have "cells ?s1 b \<noteq> None \<Longrightarrow> b < nextAddr ?s1" for b
    using alloc [of b] by (auto split: if_splits)
  ultimately have "shared_rows key ?s1"
    unfolding shared_rows_def using rows filed by blast
  moreover have dls: "deadlines dl ?s1 = deadlines dl s @ [dl r]"
    using ah by (auto simp: deadlines_def)
  moreover have "ordered_but_up (length ?h) (deadlines dl ?s1)"
    using ordered_append_up [OF o, of "dl r"] by (simp add: dls)
  ultimately obtain s' where s': "move_up dl (length ?h) ?s1 = Some s'" "shared_rows key s'"
    "same_rows ?s1 s'" "ordered (deadlines dl s')"
    using move_up_spec [of key ?s1 "length ?h" dl] by auto
  have "contents ?s1 = (contents s)(key r \<mapsto> r)"
  proof
    fix k
    show "contents ?s1 k = ((contents s)(key r \<mapsto> r)) k"
    proof (cases "k = key r")
      case False
      have "b \<noteq> ?a" if "mget (reservations s) k = Some b" for b
        using shared_rows_mget [OF sh that] ah by auto
      with False show ?thesis
        by (simp add: contents_def lookup_row_def split: option.split)
    qed (simp add: contents_def lookup_row_def)
  qed
  with s' none show thesis
    by (intro that [of s']) (auto simp: heap_insert_def Let_def heap_inv_def size_mput_new
      dest: same_rows_contents same_rows_inv)
qed

text \<open>
  The sweep drops only expired rows, and at most \<open>n\<close> of them; what it leaves behind expired is
  left because the budget ran out.
\<close>

definition swept :: "('r \<Rightarrow> 't::linorder) \<Rightarrow> nat \<Rightarrow> 't \<Rightarrow> 'r hstore \<Rightarrow> 'r hstore \<Rightarrow> bool" where
  "swept dl n now s s' \<longleftrightarrow>
     (\<forall>k c. contents s' k = Some c \<longrightarrow> contents s k = Some c) \<and>
     (\<forall>k c. contents s k = Some c \<and> now < dl c \<longrightarrow> contents s' k = Some c) \<and>
     hsize s' \<le> hsize s \<and> hsize s \<le> hsize s' + n"

lemma sweep_exists:
  "heap_inv key dl s \<Longrightarrow>
   \<exists>s'. sweep key dl n now s = Some s' \<and> heap_inv key dl s' \<and> swept dl n now s s'"
proof (induction n arbitrary: s)
  case (Suc n)
  show ?case
  proof (cases "\<exists>r. row_at s 0 = Some r \<and> dl (content r) \<le> now")
    case False
    then have "sweep key dl (Suc n) now s = Some s" by (auto split: option.split)
    with Suc.prems show ?thesis by (auto simp: swept_def)
  next
    case True
    then obtain r where r: "row_at s 0 = Some r" "dl (content r) \<le> now" by blast
    obtain s1 where s1: "heap_remove key dl 0 s = Some s1" "heap_inv key dl s1"
      "contents s1 = (contents s)(key (content r) := None)" "Suc (hsize s1) = hsize s"
      using Suc.prems r(1) by (rule heap_remove_spec)
    obtain s' where s': "sweep key dl n now s1 = Some s'" "heap_inv key dl s'" "swept dl n now s1 s'"
      using Suc.IH [OF s1(2)] by blast
    have rc: "contents s (key (content r)) = Some (content r)"
      using Suc.prems r by (auto simp: heap_inv_def intro: contents_row_at)
    have le: "contents s k = Some c" if "contents s1 k = Some c" for k c
      using that unfolding s1(3) by (simp split: if_splits)
    have keep: "contents s1 k = Some c" if c: "contents s k = Some c" "now < dl c" for k c
    proof -
      have "k \<noteq> key (content r)"
        using c rc r(2) by (metis leD option.inject)
      then show ?thesis unfolding s1(3) using c(1) by simp
    qed
    have "swept dl (Suc n) now s s'"
      unfolding swept_def
    proof (intro conjI allI impI)
      show "hsize s' \<le> hsize s" "hsize s \<le> hsize s' + Suc n"
        using s'(3) s1(4) unfolding swept_def by linarith+
    next
      fix k c assume "contents s' k = Some c"
      then show "contents s k = Some c" using s'(3) le unfolding swept_def by blast
    next
      fix k c assume "contents s k = Some c \<and> now < dl c"
      then show "contents s' k = Some c" using s'(3) keep unfolding swept_def by blast
    qed
    with r s1(1) s'(1,2) show ?thesis by (intro exI [of _ s']) simp
  qed
qed (simp add: swept_def)

lemma sweep_spec:
  assumes "heap_inv key dl s"
  obtains s' where "sweep key dl n now s = Some s'" "heap_inv key dl s'" "swept dl n now s s'"
  using sweep_exists [OF assms] by blast

lemma sweptD:
  assumes "swept dl n now s s'"
  shows "contents s' k = Some c \<Longrightarrow> contents s k = Some c"
    and "contents s k = Some c \<Longrightarrow> now < dl c \<Longrightarrow> contents s' k = Some c"
    and "contents s k = None \<Longrightarrow> contents s' k = None"
    and "hsize s' \<le> hsize s"
proof -
  show "contents s' k = Some c \<Longrightarrow> contents s k = Some c"
    "contents s k = Some c \<Longrightarrow> now < dl c \<Longrightarrow> contents s' k = Some c"
    "hsize s' \<le> hsize s"
    using assms unfolding swept_def by blast+
  show "contents s' k = None" if "contents s k = None"
  proof (cases "contents s' k")
    case (Some c)
    then have "contents s k = Some c" using assms unfolding swept_def by blast
    with that show ?thesis by simp
  qed
qed

text \<open>A sweep that leaves an expired row has spent its whole budget.\<close>

lemma heap_root_least:
  assumes "heap_inv key dl s" "row_at s 0 = Some r" "contents s k = Some c"
  shows "dl (content r) \<le> dl c"
proof -
  have sh: "shared_rows key s" and o: "ordered (deadlines dl s)" using assms(1) by (auto simp: heap_inv_def)
  obtain q where q: "lookup_row s k = Some q" "content q = c"
    using assms(3) by (auto simp: contents_def)
  note at = lookup_row_at [OF sh q(1)]
  have "deadlines dl s ! 0 = dl (content r)" "deadlines dl s ! index q = dl c"
    using assms(2) at q(2) by (auto simp: row_at_def deadlines_def split: if_splits)
  with ordered_root [OF o, of "index q"] at(1) show ?thesis by simp
qed

lemma sweep_leaves:
  assumes "heap_inv key dl s" "sweep key dl n now s = Some s'" "contents s' k = Some c" "dl c \<le> now"
  shows "hsize s = hsize s' + n"
  using assms
proof (induction n arbitrary: s)
  case (Suc n)
  show ?case
  proof (cases "row_at s 0")
    case None
    with Suc.prems have "expiryHeap s' = []" "shared_rows key s'"
      by (auto simp: row_at_def heap_inv_def shared_rows_def split: if_splits)
    with Suc.prems(3) show ?thesis
      by (auto simp: contents_def lookup_row_def split: option.splits dest: shared_rows_mget)
  next
    case (Some r)
    then obtain s1 where s1: "heap_remove key dl 0 s = Some s1" "heap_inv key dl s1"
      "Suc (hsize s1) = hsize s"
      using heap_remove_spec [OF Suc.prems(1) Some] by metis
    have "dl (content r) \<le> now"
    proof (rule ccontr)
      assume late: "\<not> dl (content r) \<le> now"
      then have "contents s k = Some c" using Some Suc.prems by auto
      then have "dl (content r) \<le> dl c"
        by (rule heap_root_least [OF Suc.prems(1) Some])
      with late Suc.prems(4) show False by (meson order_trans)
    qed
    with Some s1 Suc.prems Suc.IH [of s1] show ?thesis by auto
  qed
qed simp

end
