(* ===== verification/ReplayLedger.thy ===== *)
theory ReplayLedger
  imports ExpiryHeap
begin

text \<open>
  Replay reservations over the expiry heap. \<open>admit\<close> is the body that the attestation store
  (stores/memory.ts, \<open>reserve\<close>) and the DPoP store (dpop-replay.ts, \<open>reserve\<close>) share after their
  own input checks: duplicate check, removal of the expired row of the same key, a sweep of at most
  64 expired rows, capacity check, insertion. The locale \<open>replay_ledger\<close> is the contract both offer a
  verifier; its client lemma is that a key is admitted at most once until its deadline.
\<close>

section \<open>Admission\<close>

definition EXPIRY_SWEEP_BATCH_SIZE :: nat where
  "EXPIRY_SWEEP_BATCH_SIZE = 64"

datatype admission = Admitted | Live | Full

definition admit_swept ::
  "('r \<Rightarrow> string) \<Rightarrow> ('r \<Rightarrow> 't::linorder) \<Rightarrow> int \<Rightarrow> 't \<Rightarrow> 'r \<Rightarrow> 'r hstore \<Rightarrow> ('r hstore \<times> admission) option" where
  "admit_swept key dl cap now r s =
     (case sweep key dl EXPIRY_SWEEP_BATCH_SIZE now s of
        None \<Rightarrow> None
      | Some s' \<Rightarrow>
          (if int (hsize s') \<ge> cap then Some (s', Full)
           else map_option (\<lambda>s''. (s'', Admitted)) (heap_insert key dl r s')))"

definition admit ::
  "('r \<Rightarrow> string) \<Rightarrow> ('r \<Rightarrow> 't::linorder) \<Rightarrow> int \<Rightarrow> 't \<Rightarrow> 'r \<Rightarrow> 'r hstore \<Rightarrow> ('r hstore \<times> admission) option" where
  "admit key dl cap now r s =
     (case lookup_row s (key r) of
        None \<Rightarrow> admit_swept key dl cap now r s
      | Some existing \<Rightarrow>
          (if dl (content existing) > now then Some (s, Live)
           else (case heap_remove key dl (index existing) s of
                   None \<Rightarrow> None
                 | Some s' \<Rightarrow> admit_swept key dl cap now r s')))"

definition live :: "('r \<Rightarrow> 't::linorder) \<Rightarrow> 't \<Rightarrow> 'r hstore \<Rightarrow> string \<Rightarrow> bool" where
  "live dl now s k \<longleftrightarrow> (\<exists>c. contents s k = Some c \<and> now < dl c)"

text \<open>What an admission does to the filed rows.\<close>

definition admission_effect ::
  "('r \<Rightarrow> string) \<Rightarrow> ('r \<Rightarrow> 't::linorder) \<Rightarrow> int \<Rightarrow> 't \<Rightarrow> 'r \<Rightarrow> 'r hstore \<Rightarrow> 'r hstore \<Rightarrow> admission \<Rightarrow> bool" where
  "admission_effect key dl cap now r s s' out \<longleftrightarrow>
     (out = Live \<longleftrightarrow> live dl now s (key r)) \<and> (out = Live \<longrightarrow> s' = s) \<and>
     (out = Full \<longrightarrow> cap \<le> int (hsize s') \<and> contents s' (key r) = None \<and>
        (\<forall>k c. contents s' k = Some c \<and> dl c \<le> now \<longrightarrow> hsize s' + EXPIRY_SWEEP_BATCH_SIZE \<le> hsize s)) \<and>
     (out = Admitted \<longrightarrow> contents s' (key r) = Some r \<and> int (hsize s') \<le> cap) \<and>
     (\<forall>k c. contents s k = Some c \<and> now < dl c \<longrightarrow> contents s' k = Some c) \<and>
     (\<forall>k c. contents s' k = Some c \<longrightarrow> contents s k = Some c \<or> out = Admitted \<and> c = r) \<and>
     (out \<noteq> Admitted \<longrightarrow> hsize s' \<le> hsize s)"

lemma admit_swept_effect:
  assumes inv: "heap_inv key dl s" and new: "contents s (key r) = None"
  shows "\<exists>s' out. admit_swept key dl cap now r s = Some (s', out) \<and> heap_inv key dl s' \<and>
    admission_effect key dl cap now r s s' out"
proof -
  obtain s1 where s1: "sweep key dl EXPIRY_SWEEP_BATCH_SIZE now s = Some s1" "heap_inv key dl s1"
      "swept dl EXPIRY_SWEEP_BATCH_SIZE now s s1"
    using sweep_spec [OF inv] by blast
  have none: "contents s1 (key r) = None" using sweptD(3) [OF s1(3) new] .
  have size: "hsize s1 \<le> hsize s" using s1(3) unfolding swept_def by blast
  have dead: "\<not> live dl now s (key r)" using new by (simp add: live_def)
  show ?thesis
  proof (cases "int (hsize s1) \<ge> cap")
    case True
    have leaves: "hsize s1 + EXPIRY_SWEEP_BATCH_SIZE \<le> hsize s" if "contents s1 k = Some c \<and> dl c \<le> now" for k c
      using sweep_leaves [OF inv s1(1)] that by (metis order_refl)
    have "admission_effect key dl cap now r s s1 Full"
      unfolding admission_effect_def admission.simps
      by (intro conjI allI impI; (use dead True none size in simp; fail)?)
         (blast intro: leaves dest: sweptD(1,2) [OF s1(3)])+
    with s1 True show ?thesis by (auto simp: admit_swept_def)
  next
    case False
    obtain s2 where s2: "heap_insert key dl r s1 = Some s2" "heap_inv key dl s2"
        "contents s2 = (contents s1)(key r \<mapsto> r)" "hsize s2 = Suc (hsize s1)"
      using heap_insert_spec [OF s1(2) none] by blast
    have keep: "contents s2 k = Some c" if "contents s k = Some c \<and> now < dl c" for k c
      using sweptD(2) [OF s1(3), of k c] that new unfolding s2(3) by auto
    have old: "contents s k = Some c \<or> c = r" if "contents s2 k = Some c" for k c
      using sweptD(1) [OF s1(3), of k c] that unfolding s2(3) by (auto split: if_splits)
    have "admission_effect key dl cap now r s s2 Admitted"
      unfolding admission_effect_def admission.simps
      by (intro conjI allI impI; (use dead False size s2(3,4) in simp; fail)?) (blast intro: keep dest: old)+
    with s1 s2 False show ?thesis by (auto simp: admit_swept_def)
  qed
qed

text \<open>Removing the expired row of the same key first changes nothing of that.\<close>

lemma admission_effect_after:
  assumes e: "admission_effect key dl cap now r s1 s' out"
    and dead: "\<not> live dl now s (key r)" "\<not> live dl now s1 (key r)"
    and keep: "\<And>k c. contents s k = Some c \<and> now < dl c \<Longrightarrow> contents s1 k = Some c"
    and old: "\<And>k c. contents s1 k = Some c \<Longrightarrow> contents s k = Some c"
    and size: "hsize s1 \<le> hsize s"
  shows "admission_effect key dl cap now r s s' out"
proof -
  have out: "out \<noteq> Live" using e dead(2) unfolding admission_effect_def by blast
  note e = e [unfolded admission_effect_def]
  show ?thesis
    unfolding admission_effect_def
  proof (intro conjI)
    show "out = Live \<longleftrightarrow> live dl now s (key r)" using out dead(1) by simp
    show "out = Live \<longrightarrow> s' = s" using out by simp
    show "out = Full \<longrightarrow> cap \<le> int (hsize s') \<and> contents s' (key r) = None \<and>
        (\<forall>k c. contents s' k = Some c \<and> dl c \<le> now \<longrightarrow> hsize s' + EXPIRY_SWEEP_BATCH_SIZE \<le> hsize s)"
      using e size by (meson order_trans)
    show "out = Admitted \<longrightarrow> contents s' (key r) = Some r \<and> int (hsize s') \<le> cap" using e by blast
    show "\<forall>k c. contents s k = Some c \<and> now < dl c \<longrightarrow> contents s' k = Some c" using e keep by blast
    show "\<forall>k c. contents s' k = Some c \<longrightarrow> contents s k = Some c \<or> out = Admitted \<and> c = r" using e old by blast
    show "out \<noteq> Admitted \<longrightarrow> hsize s' \<le> hsize s" using e size by (meson order_trans)
  qed
qed

lemma admit_exists:
  assumes inv: "heap_inv key dl s"
  shows "\<exists>s' out. admit key dl cap now r s = Some (s', out) \<and> heap_inv key dl s' \<and>
    admission_effect key dl cap now r s s' out"
proof (cases "lookup_row s (key r)")
  case None
  then have "contents s (key r) = None" by (simp add: contents_def)
  from admit_swept_effect [OF inv this] None show ?thesis by (simp add: admit_def)
next
  case (Some row)
  have sh: "shared_rows key s" using inv by (simp add: heap_inv_def)
  have c: "contents s (key r) = Some (content row)" using Some by (simp add: contents_def)
  show ?thesis
  proof (cases "dl (content row) > now")
    case True
    then have "admission_effect key dl cap now r s s Live"
      using c by (auto simp: admission_effect_def live_def)
    with True Some inv show ?thesis by (simp add: admit_def)
  next
    case False
    note row = lookup_row_at [OF sh Some]
    obtain s1 where s1: "heap_remove key dl (index row) s = Some s1" "heap_inv key dl s1"
        "contents s1 = (contents s)(key r := None)" "Suc (hsize s1) = hsize s"
      using heap_remove_spec [OF inv row(2)] row(3) by metis
    obtain s' out where out: "admit_swept key dl cap now r s1 = Some (s', out)" "heap_inv key dl s'"
        "admission_effect key dl cap now r s1 s' out"
      using admit_swept_effect [OF s1(2), of r cap now] s1(3) by auto
    have dead: "\<not> live dl now s (key r)" "\<not> live dl now s1 (key r)"
      using False c s1(3) by (simp_all add: live_def)
    have keep: "contents s1 k = Some d" if "contents s k = Some d \<and> now < dl d" for k d
      using that False c unfolding s1(3) by (cases "k = key r") simp_all
    have old: "contents s k = Some d" if "contents s1 k = Some d" for k d
      using that unfolding s1(3) by (cases "k = key r") simp_all
    have "admission_effect key dl cap now r s s' out"
      by (rule admission_effect_after [OF out(3) dead keep old]) (use s1(4) in simp_all)
    with False Some s1 out show ?thesis by (auto simp: admit_def)
  qed
qed

lemma admit_spec:
  assumes "heap_inv key dl s"
  obtains s' out where "admit key dl cap now r s = Some (s', out)" "heap_inv key dl s'"
    "admission_effect key dl cap now r s s' out"
  using admit_exists [OF assms, of cap now r] by auto

section \<open>The contract\<close>

text \<open>
  \<open>clock a\<close> is the store's clock reading during the call \<open>a\<close>, \<open>until a\<close> the deadline it asks for and
  \<open>recorded s k\<close> the deadline filed under a key.
\<close>

locale replay_ledger =
  fixes offer :: "'a \<Rightarrow> 's \<Rightarrow> 's \<times> 'o"
    and won :: "'o \<Rightarrow> bool"
    and key_of :: "'a \<Rightarrow> 'k"
    and clock :: "'a \<Rightarrow> 't::linorder"
    and until :: "'a \<Rightarrow> 't"
    and ok :: "'s \<Rightarrow> bool"
    and recorded :: "'s \<Rightarrow> 'k \<Rightarrow> 't option"
  assumes inv_offer: "ok s \<Longrightarrow> ok (fst (offer a s))"
    and records: "ok s \<Longrightarrow> won (snd (offer a s)) \<Longrightarrow> recorded (fst (offer a s)) (key_of a) = Some (until a)"
    and refuses: "ok s \<Longrightarrow> recorded s (key_of a) = Some t \<Longrightarrow> clock a < t \<Longrightarrow> \<not> won (snd (offer a s))"
    and keeps: "ok s \<Longrightarrow> recorded s k = Some t \<Longrightarrow> clock a < t \<Longrightarrow> recorded (fst (offer a s)) k = Some t"
begin

lemma inv_run: "ok s \<Longrightarrow> ok (fst (run_calls offer as s))"
  by (rule run_calls_invariant) (auto intro: inv_offer)

lemma blocked:
  assumes "ok s" "recorded s k = Some t" "j < length as" "key_of (as ! j) = k"
    "\<forall>m \<le> j. clock (as ! m) < t"
  shows "\<not> won (snd (run_calls offer as s) ! j)"
  using assms
proof (induction as arbitrary: s j)
  case (Cons a as)
  have t: "clock a < t" using Cons.prems(5) by (metis le0 nth_Cons_0)
  show ?case
  proof (cases j)
    case 0
    with Cons.prems t show ?thesis by (auto dest: refuses)
  next
    case (Suc i)
    have "\<forall>m \<le> i. clock (as ! m) < t"
      using Cons.prems(5) Suc by (metis Suc_le_mono nth_Cons_Suc)
    with Suc Cons.prems Cons.IH [of "fst (offer a s)" i] t show ?thesis
      by (simp add: inv_offer keeps)
  qed
qed simp

lemma at_most_once:
  assumes "ok s" "i < j" "j < length as" "key_of (as ! i) = key_of (as ! j)"
    "won (snd (run_calls offer as s) ! i)" "won (snd (run_calls offer as s) ! j)"
  shows "\<exists>m. i < m \<and> m \<le> j \<and> until (as ! i) \<le> clock (as ! m)"
  using assms
proof (induction as arbitrary: s i j)
  case (Cons a as)
  obtain j' where j: "j = Suc j'" using Cons.prems(2) by (cases j) auto
  show ?case
  proof (cases i)
    case 0
    have rec: "recorded (fst (offer a s)) (key_of a) = Some (until a)"
      using Cons.prems(1,5) 0 by (intro records) simp_all
    show ?thesis
    proof (rule ccontr)
      assume "\<nexists>m. i < m \<and> m \<le> j \<and> until ((a # as) ! i) \<le> clock ((a # as) ! m)"
      then have "\<forall>m \<le> j'. clock (as ! m) < until a"
        using 0 j by (metis Suc_le_mono not_le nth_Cons_0 nth_Cons_Suc zero_less_Suc)
      from blocked [OF inv_offer [OF Cons.prems(1)] rec _ _ this] Cons.prems 0 j
      show False by simp
    qed
  next
    case (Suc i')
    then have "\<exists>m. i' < m \<and> m \<le> j' \<and> until (as ! i') \<le> clock (as ! m)"
      using Cons.prems j by (intro Cons.IH [of "fst (offer a s)"]) (simp_all add: inv_offer)
    then obtain m where "i' < m" "m \<le> j'" "until (as ! i') \<le> clock (as ! m)" by blast
    then show ?thesis using Suc j by (intro exI [of _ "Suc m"]) simp
  qed
qed simp

end

text \<open>A row list filed under deadlines, the \<open>recorded\<close> of both stores.\<close>

definition filed :: "('r \<Rightarrow> 't) \<Rightarrow> 'r hstore \<Rightarrow> string \<Rightarrow> 't option" where
  "filed dl s k = map_option dl (contents s k)"

end
