(* ===== verification/AttestStore.thy ===== *)
theory AttestStore
  imports AttestCodec AttestTime ReplayLedger
begin

text \<open>
  The memory replay store, stores/memory.ts of packages/express-request-attestation: construction,
  \<open>reserve\<close> with its validation order, and what the store promises the verifier. A call of \<open>reserve\<close>
  carries what the injected clock returned during it.
\<close>

record reservation =
  replayKey :: string
  res_retainUntilMs :: int

datatype reserve_result = Reserved | Duplicate | PastRetention

record memory_store =
  ms_rows :: "reservation hstore"
  ms_maxEntries :: int

definition MEMORY_ATTESTATION_STORE_DEFAULT_MAX_ENTRIES :: int where
  "MEMORY_ATTESTATION_STORE_DEFAULT_MAX_ENTRIES = 50000"

definition STORE_OPTION_KEYS :: "string list" where
  "STORE_OPTION_KEYS = [''maxEntries'', ''now'']"

definition createMemoryAttestationStore :: "jsval \<Rightarrow> attest_error + memory_store" where
  "createMemoryAttestationStore options =
     (case (if options = JUndef then JObj [] else options) of
        JObj ps \<Rightarrow>
          (if \<exists>k \<in> set (map fst ps). k \<notin> set STORE_OPTION_KEYS then Inl ProtocolError
           else
             (let m = jprop (JObj ps) ''maxEntries''; clk = jprop (JObj ps) ''now''
              in case as_safe (if m = JUndef then jint MEMORY_ATTESTATION_STORE_DEFAULT_MAX_ENTRIES else m) of
                   None \<Rightarrow> Inl ProtocolError
                 | Some n \<Rightarrow>
                     if n \<le> 0 then Inl ProtocolError
                     else (case clk of
                             JUndef \<Rightarrow> Inr \<lparr>ms_rows = empty_hstore, ms_maxEntries = n\<rparr>
                           | JFun _ \<Rightarrow> Inr \<lparr>ms_rows = empty_hstore, ms_maxEntries = n\<rparr>
                           | _ \<Rightarrow> Inl ProtocolError)))
      | _ \<Rightarrow> Inl ProtocolError)"

section \<open>Reserve\<close>

text \<open>The checks before the store is touched, in the code's order: the admission they allow.\<close>

definition reserve_input :: "jsval \<Rightarrow> jsval \<Rightarrow> attest_error + (int \<times> reservation)" where
  "reserve_input clock input =
     (case input of
        JObj _ \<Rightarrow>
          (let key = jprop input ''replayKey'';
               until = nullish (jprop input ''retainUntilMs'') (jprop input ''retainUntil'')
           in andthen (assertTimestampMs clock) (\<lambda>now.
              andthen (validateReplayKey key) (\<lambda>k.
              if until = JUndef then Inl ProtocolError
              else andthen (assertTimestampMs until) (\<lambda>u.
                Inr (now, \<lparr>replayKey = k, res_retainUntilMs = u\<rparr>)))))
      | _ \<Rightarrow> Inl ProtocolError)"

definition reserve :: "jsval \<Rightarrow> jsval \<Rightarrow> memory_store \<Rightarrow> memory_store \<times> (attest_error + reserve_result)" where
  "reserve clock input st =
     (case reserve_input clock input of
        Inl e \<Rightarrow> (st, Inl e)
      | Inr (now, r) \<Rightarrow>
          (if res_retainUntilMs r \<le> now then (st, Inr PastRetention)
           else if res_retainUntilMs r - now > GLOBAL_MAX_RETENTION_MS then (st, Inl ProtocolError)
           else
             (case admit replayKey res_retainUntilMs (ms_maxEntries st) now r (ms_rows st) of
                None \<Rightarrow> (st, Inl TypeFault)
              | Some (rows, Live) \<Rightarrow> (st\<lparr>ms_rows := rows\<rparr>, Inr Duplicate)
              | Some (rows, Full) \<Rightarrow> (st\<lparr>ms_rows := rows\<rparr>, Inl CapacityError)
              | Some (rows, Admitted) \<Rightarrow> (st\<lparr>ms_rows := rows\<rparr>, Inr Reserved))))"

section \<open>Invariant and effect\<close>

abbreviation rows_inv :: "reservation hstore \<Rightarrow> bool" where
  "rows_inv \<equiv> heap_inv replayKey res_retainUntilMs"

abbreviation rows_effect :: "int \<Rightarrow> int \<Rightarrow> reservation \<Rightarrow> reservation hstore \<Rightarrow> reservation hstore \<Rightarrow> admission \<Rightarrow> bool" where
  "rows_effect \<equiv> admission_effect replayKey res_retainUntilMs"

definition store_inv :: "memory_store \<Rightarrow> bool" where
  "store_inv st \<longleftrightarrow> rows_inv (ms_rows st) \<and> int (hsize (ms_rows st)) \<le> ms_maxEntries st \<and> 0 < ms_maxEntries st"

definition recorded_until :: "memory_store \<Rightarrow> string \<Rightarrow> int option" where
  "recorded_until st = filed res_retainUntilMs (ms_rows st)"

text \<open>Every call: refused before the store is read, or the effect of one admission.\<close>

lemma reserve_cases:
  assumes inv: "store_inv st"
  obtains (refused) e where "reserve clock input st = (st, Inl e)" "e = ProtocolError"
  | (past) now r where "reserve_input clock input = Inr (now, r)" "res_retainUntilMs r \<le> now"
      "reserve clock input st = (st, Inr PastRetention)"
  | (admission) now r rows out where "reserve_input clock input = Inr (now, r)" "now < res_retainUntilMs r"
      "res_retainUntilMs r - now \<le> GLOBAL_MAX_RETENTION_MS"
      "rows_inv rows" "rows_effect (ms_maxEntries st) now r (ms_rows st) rows out"
      "reserve clock input st = (st\<lparr>ms_rows := rows\<rparr>,
         case out of Live \<Rightarrow> Inr Duplicate | Full \<Rightarrow> Inl CapacityError | Admitted \<Rightarrow> Inr Reserved)"
proof (cases "reserve_input clock input")
  case (Inl e)
  then have "e = ProtocolError"
    by (auto simp: reserve_input_def andthen_def assertTimestampMs_def validateReplayKey_def validate_text_def
        Let_def split: jsval.splits option.splits if_splits sum.splits)
  with Inl refused show ?thesis by (simp add: reserve_def)
next
  case (Inr p)
  obtain now r where p: "p = (now, r)" by (cases p)
  show ?thesis
  proof (cases "res_retainUntilMs r \<le> now")
    case True
    with Inr p past show ?thesis by (simp add: reserve_def)
  next
    case False
    show ?thesis
    proof (cases "res_retainUntilMs r - now > GLOBAL_MAX_RETENTION_MS")
      case True
      with Inr p False refused show ?thesis by (simp add: reserve_def)
    next
      case short: False
      obtain rows out where "admit replayKey res_retainUntilMs (ms_maxEntries st) now r (ms_rows st) = Some (rows, out)"
          "rows_inv rows" "rows_effect (ms_maxEntries st) now r (ms_rows st) rows out"
        using admit_spec [of replayKey res_retainUntilMs "ms_rows st" "ms_maxEntries st" now r] inv
        by (auto simp: store_inv_def)
      with Inr p False short show ?thesis
        by (intro admission [of now r rows out]) (auto simp: reserve_def split: admission.splits)
    qed
  qed
qed

lemma store_inv_reserve:
  assumes inv: "store_inv st"
  shows "store_inv (fst (reserve clk input st))"
  using inv
proof (cases rule: reserve_cases [of st clk input])
  case (admission now r rows out)
  have "int (hsize rows) \<le> ms_maxEntries st"
    using admission(5) inv unfolding admission_effect_def store_inv_def by (cases out) auto
  with inv admission show ?thesis by (simp add: store_inv_def)
qed (use inv in simp_all)

lemma maxEntries_reserve: "store_inv st \<Longrightarrow> ms_maxEntries (fst (reserve clk input st)) = ms_maxEntries st"
  by (erule reserve_cases [of st clk input]) simp_all

text \<open>The parts of a call: its clock reading, and the key and the deadline it asks for.\<close>

type_synonym reserve_call = "jsval \<times> jsval"

definition reserve_step :: "reserve_call \<Rightarrow> memory_store \<Rightarrow> memory_store \<times> (attest_error + reserve_result)" where
  "reserve_step c = reserve (fst c) (snd c)"

definition reserve_clock :: "reserve_call \<Rightarrow> int" where
  "reserve_clock c = (case as_safe (fst c) of Some n \<Rightarrow> n | None \<Rightarrow> 0)"

definition reserve_key :: "reserve_call \<Rightarrow> string" where
  "reserve_key c = (case jprop (snd c) ''replayKey'' of JStr k \<Rightarrow> k | _ \<Rightarrow> [])"

definition reserve_until :: "reserve_call \<Rightarrow> int" where
  "reserve_until c =
     (case as_safe (nullish (jprop (snd c) ''retainUntilMs'') (jprop (snd c) ''retainUntil'')) of
        Some n \<Rightarrow> n | None \<Rightarrow> 0)"

lemma reserve_input_parts:
  "reserve_input (fst c) (snd c) = Inr (now, r) \<Longrightarrow>
     now = reserve_clock c \<and> replayKey r = reserve_key c \<and> res_retainUntilMs r = reserve_until c"
  by (auto simp: reserve_input_def andthen_Inr reserve_clock_def reserve_key_def reserve_until_def Let_def
      assertTimestampMs_def validateReplayKey_def split: jsval.splits if_splits option.splits)

lemma reserve_records:
  assumes inv: "store_inv st" and won: "snd (reserve_step c st) = Inr Reserved"
  shows "recorded_until (fst (reserve_step c st)) (reserve_key c) = Some (reserve_until c)"
  using inv
proof (cases rule: reserve_cases [of st "fst c" "snd c"])
  case (admission now r rows out)
  from won admission(6) have "out = Admitted" by (cases out) (simp_all add: reserve_step_def)
  with admission(5) have "contents rows (replayKey r) = Some r" unfolding admission_effect_def by blast
  with admission(6) reserve_input_parts [OF admission(1)] show ?thesis
    by (simp add: reserve_step_def recorded_until_def filed_def)
qed (use won in \<open>simp_all add: reserve_step_def\<close>)

lemma reserve_refuses:
  assumes inv: "store_inv st" and old: "recorded_until st (reserve_key c) = Some t" "reserve_clock c < t"
  shows "snd (reserve_step c st) \<noteq> Inr Reserved"
  using inv
proof (cases rule: reserve_cases [of st "fst c" "snd c"])
  case (admission now r rows out)
  from old have "live res_retainUntilMs now (ms_rows st) (replayKey r)"
    using reserve_input_parts [OF admission(1)] by (auto simp: live_def recorded_until_def filed_def)
  with admission(5) have "out = Live" unfolding admission_effect_def by blast
  with admission(6) show ?thesis by (simp add: reserve_step_def)
qed (simp_all add: reserve_step_def)

lemma reserve_keeps:
  assumes inv: "store_inv st" and old: "recorded_until st k = Some t" "reserve_clock c < t"
  shows "recorded_until (fst (reserve_step c st)) k = Some t"
  using inv
proof (cases rule: reserve_cases [of st "fst c" "snd c"])
  case (admission now r rows out)
  from old obtain q where "contents (ms_rows st) k = Some q" "res_retainUntilMs q = t" "now < t"
    using reserve_input_parts [OF admission(1)] by (auto simp: recorded_until_def filed_def)
  with admission(5) have "contents rows k = Some q" unfolding admission_effect_def by blast
  with admission(6) \<open>res_retainUntilMs q = t\<close> show ?thesis
    by (simp add: reserve_step_def recorded_until_def filed_def)
qed (use old in \<open>simp_all add: reserve_step_def\<close>)

interpretation attest: replay_ledger reserve_step "\<lambda>out. out = Inr Reserved" reserve_key reserve_clock reserve_until
    store_inv recorded_until
  by unfold_locales
     (use store_inv_reserve reserve_records reserve_refuses reserve_keeps in \<open>auto simp: reserve_step_def\<close>)

lemma createMemory_inv: "createMemoryAttestationStore opts = Inr st \<Longrightarrow> store_inv st"
  by (auto simp: createMemoryAttestationStore_def store_inv_def empty_hstore_def [symmetric] Let_def
      split: jsval.splits if_splits option.splits) (simp_all add: empty_hstore_def)

lemma no_type_fault:
  assumes "store_inv st"
  shows "snd (reserve clk input st) \<noteq> Inl TypeFault"
  using assms by (cases rule: reserve_cases [of st clk input]) (simp_all split: admission.split)

section \<open>A small store\<close>

definition demo_call :: "int \<Rightarrow> string \<Rightarrow> int \<Rightarrow> reserve_call" where
  "demo_call now k until = (jint now, JObj [(''replayKey'', JStr k), (''retainUntilMs'', jint until)])"

definition demo_memory :: memory_store where
  "demo_memory = \<lparr>ms_rows = empty_hstore, ms_maxEntries = 2\<rparr>"

definition demo_used :: memory_store where
  "demo_used = fst (reserve_step (demo_call 10 ''k'' 20) demo_memory)"

lemma demo_store: "createMemoryAttestationStore (JObj [(''maxEntries'', jint 2)]) = Inr demo_memory"
proof -
  have "as_safe (jint 2) = Some 2" by (simp add: is_safe_def MAX_SAFE_INTEGER_def)
  then show ?thesis by (simp add: createMemoryAttestationStore_def demo_memory_def STORE_OPTION_KEYS_def)
qed

lemma demo_used_inv: "store_inv demo_used"
  unfolding demo_used_def reserve_step_def by (rule store_inv_reserve [OF createMemory_inv [OF demo_store]])

section \<open>Properties\<close>

text \<open>C5: A replay key is reserved at most once until its deadline. In any sequence of calls on a
  store built by the constructor, with any inputs and any clock readings, a second \<open>reserved\<close> for a key
  comes only after a call whose clock reading had reached the deadline of the first.\<close>

theorem replay_key_reserved_once:
  assumes "createMemoryAttestationStore opts = Inr st"
    and "i < j" "j < length calls" "reserve_key (calls ! i) = reserve_key (calls ! j)"
    and "snd (run_calls reserve_step calls st) ! i = Inr Reserved"
    and "snd (run_calls reserve_step calls st) ! j = Inr Reserved"
  shows "\<exists>m. i < m \<and> m \<le> j \<and> reserve_until (calls ! i) \<le> reserve_clock (calls ! m)"
  using attest.at_most_once [OF createMemory_inv [OF assms(1)] assms(2-4)] assms(5,6) by blast

theorem replay_key_reserved_once_witness:
  "\<exists>m. 0 < m \<and> m \<le> (2::nat) \<and>
     reserve_until ([demo_call 10 ''k'' 20, demo_call 12 ''k'' 20, demo_call 20 ''k'' 30] ! 0)
       \<le> reserve_clock ([demo_call 10 ''k'' 20, demo_call 12 ''k'' 20, demo_call 20 ''k'' 30] ! m)"
proof (rule replay_key_reserved_once [OF demo_store])
  let ?outs = "snd (run_calls reserve_step
    [demo_call 10 ''k'' 20, demo_call 12 ''k'' 20, demo_call 20 ''k'' 30] demo_memory)"
  have outs: "?outs = [Inr Reserved, Inr Duplicate, Inr Reserved]" by code_simp
  show "?outs ! 0 = Inr Reserved" unfolding outs by simp
  show "?outs ! 2 = Inr Reserved" unfolding outs by simp
qed (simp_all add: demo_call_def reserve_key_def)

text \<open>C6: Every call on a valid store returns or throws by design: the heap and the map never disagree,
  so no property of \<open>undefined\<close> is read, and at most \<open>maxEntries\<close> reservations are held, whatever the
  calls and the clock readings.\<close>

theorem store_stays_bounded:
  assumes "createMemoryAttestationStore opts = Inr st"
  shows "store_inv (fst (run_calls reserve_step calls st)) \<and>
    Inl TypeFault \<notin> set (snd (run_calls reserve_step calls st)) \<and>
    int (hsize (ms_rows (fst (run_calls reserve_step calls st)))) \<le> ms_maxEntries st"
proof -
  have step: "store_inv s \<and> ms_maxEntries s = ms_maxEntries st \<Longrightarrow>
      store_inv (fst (reserve_step c s)) \<and> ms_maxEntries (fst (reserve_step c s)) = ms_maxEntries st" for c s
    by (simp add: reserve_step_def store_inv_reserve maxEntries_reserve)
  have "store_inv (fst (run_calls reserve_step calls st)) \<and>
      ms_maxEntries (fst (run_calls reserve_step calls st)) = ms_maxEntries st"
    by (rule run_calls_invariant [where ok = "\<lambda>s. store_inv s \<and> ms_maxEntries s = ms_maxEntries st"])
       (use createMemory_inv [OF assms] step in blast)+
  moreover have "Inl TypeFault \<notin> set (snd (run_calls reserve_step calls s))" if "store_inv s" for s
    using that by (induction calls arbitrary: s)
      (auto simp: reserve_step_def store_inv_reserve dest: no_type_fault)
  ultimately show ?thesis using createMemory_inv [OF assms] by (auto simp: store_inv_def)
qed

theorem store_stays_bounded_witness:
  "store_inv (fst (run_calls reserve_step [demo_call 10 ''k'' 20] demo_memory)) \<and>
    Inl TypeFault \<notin> set (snd (run_calls reserve_step [demo_call 10 ''k'' 20] demo_memory)) \<and>
    int (hsize (ms_rows (fst (run_calls reserve_step [demo_call 10 ''k'' 20] demo_memory)))) \<le> ms_maxEntries demo_memory"
  by (rule store_stays_bounded [OF demo_store])

text \<open>A call on a live reservation changes nothing and answers \<open>duplicate\<close>, even when the store is
  full; and no call of any kind evicts, shortens or extends a reservation its clock reading finds live.\<close>

lemma live_reservations_kept:
  assumes "store_inv st" "recorded_until st k = Some t" "reserve_clock c < t"
  shows "recorded_until (fst (reserve_step c st)) k = Some t \<and>
    (reserve_key c = k \<and> is_ok (reserve_input (fst c) (snd c)) \<and> reserve_clock c < reserve_until c \<and>
       reserve_until c - reserve_clock c \<le> GLOBAL_MAX_RETENTION_MS \<longrightarrow>
     reserve_step c st = (st, Inr Duplicate))"
proof -
  have "reserve_step c st = (st, Inr Duplicate)"
    if own: "reserve_key c = k" "is_ok (reserve_input (fst c) (snd c))" "reserve_clock c < reserve_until c"
      "reserve_until c - reserve_clock c \<le> GLOBAL_MAX_RETENTION_MS"
  proof -
    obtain now r where i: "reserve_input (fst c) (snd c) = Inr (now, r)" using own(2) by (auto simp: is_ok_def)
    note parts = reserve_input_parts [OF i]
    have live: "live res_retainUntilMs now (ms_rows st) (replayKey r)"
      using assms(2,3) parts own(1) by (auto simp: live_def recorded_until_def filed_def)
    from assms(1) show ?thesis
    proof (cases rule: reserve_cases [of st "fst c" "snd c"])
      case (admission now' r' rows out)
      with i live have "out = Live \<and> rows = ms_rows st" unfolding admission_effect_def by auto
      with admission(6) show ?thesis by (simp add: reserve_step_def)
    qed (use own parts i in \<open>auto simp: reserve_step_def reserve_def split: option.splits prod.splits admission.splits\<close>)
  qed
  with reserve_keeps [OF assms] show ?thesis by blast
qed

lemma live_reservations_kept_witness:
  "recorded_until (fst (reserve_step (demo_call 12 ''k'' 20) demo_used)) ''k'' = Some 20 \<and>
    reserve_step (demo_call 12 ''k'' 20) demo_used = (demo_used, Inr Duplicate)"
proof -
  have r: "recorded_until demo_used ''k'' = Some 20" by code_simp
  have c: "reserve_clock (demo_call 12 ''k'' 20) < 20" by code_simp
  have "reserve_input (fst (demo_call 12 ''k'' 20)) (snd (demo_call 12 ''k'' 20)) =
      Inr (12, \<lparr>replayKey = ''k'', res_retainUntilMs = 20\<rparr>)"
    by (simp add: demo_call_def reserve_input_def validateReplayKey_def validate_text_def attest_consts
        char_between_def is_safe_def MAX_SAFE_INTEGER_def assertTimestampMs_def)
  then have ok: "is_ok (reserve_input (fst (demo_call 12 ''k'' 20)) (snd (demo_call 12 ''k'' 20)))" by simp
  have own: "reserve_key (demo_call 12 ''k'' 20) = ''k''"
    "reserve_clock (demo_call 12 ''k'' 20) < reserve_until (demo_call 12 ''k'' 20)"
    "reserve_until (demo_call 12 ''k'' 20) - reserve_clock (demo_call 12 ''k'' 20) \<le> GLOBAL_MAX_RETENTION_MS"
    by code_simp+
  show ?thesis using live_reservations_kept [OF demo_used_inv r c] own ok by blast
qed

text \<open>The outcome of a well-formed call, branch by branch: past deadlines are answered without
  touching the store, retention above the cap is refused, a live key is a duplicate, and otherwise the
  key is reserved unless the store stays full after the sweep. It stays full only when every remaining
  reservation is live or the sweep has reclaimed its whole batch of 64.\<close>

lemma reserve_outcome:
  assumes inv: "store_inv st" and input: "reserve_input clk input = Inr (now, r)"
  shows "\<exists>full. snd (reserve clk input st) =
      (if res_retainUntilMs r \<le> now then Inr PastRetention
       else if res_retainUntilMs r - now > GLOBAL_MAX_RETENTION_MS then Inl ProtocolError
       else if live res_retainUntilMs now (ms_rows st) (replayKey r) then Inr Duplicate
       else if full then Inl CapacityError
       else Inr Reserved) \<and>
    (full \<longrightarrow> ms_maxEntries st \<le> int (hsize (ms_rows (fst (reserve clk input st)))) \<and>
      ((\<forall>k q. contents (ms_rows (fst (reserve clk input st))) k = Some q \<longrightarrow> now < res_retainUntilMs q) \<or>
       hsize (ms_rows (fst (reserve clk input st))) + EXPIRY_SWEEP_BATCH_SIZE \<le> hsize (ms_rows st)))"
  using inv
proof (cases rule: reserve_cases [of st clk input])
  case (admission now' r' rows out)
  have same: "now' = now" "r' = r" using admission(1) input by auto
  note e = admission(5) [unfolded admission_effect_def same]
  show ?thesis
  proof (rule exI [of _ "out = Full"], intro conjI)
    show "snd (reserve clk input st) = (if res_retainUntilMs r \<le> now then Inr PastRetention
       else if res_retainUntilMs r - now > GLOBAL_MAX_RETENTION_MS then Inl ProtocolError
       else if live res_retainUntilMs now (ms_rows st) (replayKey r) then Inr Duplicate
       else if out = Full then Inl CapacityError else Inr Reserved)"
      using admission(2,3,6) e same by (cases out) auto
    show "out = Full \<longrightarrow> ms_maxEntries st \<le> int (hsize (ms_rows (fst (reserve clk input st)))) \<and>
      ((\<forall>k q. contents (ms_rows (fst (reserve clk input st))) k = Some q \<longrightarrow> now < res_retainUntilMs q) \<or>
       hsize (ms_rows (fst (reserve clk input st))) + EXPIRY_SWEEP_BATCH_SIZE \<le> hsize (ms_rows st))"
      using admission(6) e by (simp, meson not_le)
  qed
qed (use input in \<open>auto simp: reserve_def intro!: exI [of _ False] split: option.splits admission.splits if_splits\<close>)

theorem reserve_outcome_witness:
  "\<exists>full. snd (reserve (jint 12) (JObj [(''replayKey'', JStr ''k''), (''retainUntilMs'', jint 20)]) demo_used) =
     (if (20::int) \<le> 12 then Inr PastRetention
      else if (20::int) - 12 > GLOBAL_MAX_RETENTION_MS then Inl ProtocolError
      else if live res_retainUntilMs 12 (ms_rows demo_used) ''k'' then Inr Duplicate
      else if full then Inl CapacityError else Inr Reserved)"
proof -
  have "reserve_input (jint 12) (JObj [(''replayKey'', JStr ''k''), (''retainUntilMs'', jint 20)]) =
      Inr (12, \<lparr>replayKey = ''k'', res_retainUntilMs = 20\<rparr>)"
    by (simp add: reserve_input_def validateReplayKey_def validate_text_def attest_consts
        char_between_def is_safe_def MAX_SAFE_INTEGER_def assertTimestampMs_def)
  from reserve_outcome [OF demo_used_inv this] show ?thesis by fastforce
qed

end
