(* ===== verification/AttestGuard.thy ===== *)
theory AttestGuard
  imports AttestVerify AttestStore
begin

text \<open>
  The Express guard, middleware.ts of packages/express-request-attestation: configuration, the raw
  header, the body digest of an uncaptured request, and the stages of one request. A request awaits its
  key provider and its replay store, so requests interleave: \<open>guard_step\<close> is one stage of one request,
  with the clock readings, provider answers and time-outs of that stage left open.
\<close>

section \<open>Configuration\<close>

definition DEFAULT_ATTESTATION_HEADER :: string where
  "DEFAULT_ATTESTATION_HEADER = ''x-client-transaction-id''"

definition EMPTY_BODY_SHA256_HEX :: string where
  "EMPTY_BODY_SHA256_HEX = ''e3b0c44298fc1c149afbf4c8996fb92427ae41e4649b934ca495991b7852b855''"

definition MIDDLEWARE_OPTION_KEYS :: "string list" where
  "MIDDLEWARE_OPTION_KEYS = [''publicOrigin'', ''replayNamespace'', ''publicPathPrefix'', ''keyProvider'', ''store'',
     ''maxAgeMs'', ''clockSkewMs'', ''clusterClockGuardMs'', ''headerName'', ''now'', ''operationTimeoutMs'',
     ''onDiagnostic'']"

definition DEFAULT_OPERATION_TIMEOUT_MS :: int where "DEFAULT_OPERATION_TIMEOUT_MS = 5000"
definition MIN_OPERATION_TIMEOUT_MS :: int where "MIN_OPERATION_TIMEOUT_MS = 1"
definition MAX_OPERATION_TIMEOUT_MS :: int where "MAX_OPERATION_TIMEOUT_MS = 60000"

record guard_config =
  gc_publicOrigin :: string
  gc_replayNamespace :: string
  gc_publicPathPrefix :: string
  gc_policy :: time_policy
  gc_headerNameLower :: string
  gc_operationTimeoutMs :: int

definition validatePublicPathPrefix :: "jsval \<Rightarrow> attest_error + string" where
  "validatePublicPathPrefix v =
     (case v of
        JUndef \<Rightarrow> Inr []
      | JStr s \<Rightarrow>
          (if s = [] then Inr []
           else if \<not> starts_with s ''/'' then Inl ProtocolError
           else if last s = CHR ''/'' then Inl ProtocolError
           else if CHR ''?'' \<in> set s \<or> CHR ''#'' \<in> set s \<or> CHR 0x5C \<in> set s then Inl ProtocolError
           else if \<exists>c \<in> set s. of_char c \<le> (32::nat) \<or> of_char c = (127::nat) then Inl ProtocolError
           else Inr s)
      | _ \<Rightarrow> Inl ProtocolError)"

fun is_fun :: "jsval \<Rightarrow> bool" where
  "is_fun (JFun _) = True"
| "is_fun _ = False"

definition given_options :: "jsval \<Rightarrow> string list \<Rightarrow> (string \<times> jsval) list" where
  "given_options options ks = map (\<lambda>k. (k, jprop options k)) (filter (\<lambda>k. jprop options k \<noteq> JUndef) ks)"

definition resolveConfig :: "(string \<Rightarrow> url option) \<Rightarrow> jsval \<Rightarrow> attest_error + guard_config" where
  "resolveConfig parse_url options =
     (case options of
        JObj ps \<Rightarrow>
          (if \<exists>k \<in> set (map fst ps). k \<notin> set MIDDLEWARE_OPTION_KEYS then Inl ProtocolError
           else
             andthen (validatePublicOrigin parse_url (jprop options ''publicOrigin'')) (\<lambda>origin.
             andthen (validateReplayNamespace (jprop options ''replayNamespace'')) (\<lambda>ns.
             andthen (validatePublicPathPrefix (jprop options ''publicPathPrefix'')) (\<lambda>prefix.
             if \<not> is_fun (jprop (jprop options ''keyProvider'') ''getSnapshot'') then Inl ProtocolError
             else if \<not> is_fun (jprop (jprop options ''store'') ''reserve'') then Inl ProtocolError
             else
               andthen (resolveTimePolicy
                   (JObj (given_options options [''maxAgeMs'', ''clockSkewMs'', ''clusterClockGuardMs'']))) (\<lambda>policy.
               andthen (validateHeaderName
                   (nullish (jprop options ''headerName'') (JStr DEFAULT_ATTESTATION_HEADER))) (\<lambda>headerName.
               if \<not> is_fun (nullish (jprop options ''now'') (JFun 0)) then Inl ProtocolError
               else
                 (case as_safe (nullish (jprop options ''operationTimeoutMs'') (jint DEFAULT_OPERATION_TIMEOUT_MS)) of
                    None \<Rightarrow> Inl ProtocolError
                  | Some ms \<Rightarrow>
                      (if ms < MIN_OPERATION_TIMEOUT_MS \<or> ms > MAX_OPERATION_TIMEOUT_MS then Inl ProtocolError
                       else if jprop options ''onDiagnostic'' \<noteq> JUndef \<and> \<not> is_fun (jprop options ''onDiagnostic'')
                       then Inl ProtocolError
                       else Inr \<lparr>gc_publicOrigin = origin, gc_replayNamespace = ns, gc_publicPathPrefix = prefix,
                                 gc_policy = policy, gc_headerNameLower = map to_lower headerName,
                                 gc_operationTimeoutMs = ms\<rparr>))))))))
      | _ \<Rightarrow> Inl ProtocolError)"

section \<open>The request\<close>

definition checkedNow :: "jsval \<Rightarrow> attest_error + int" where
  "checkedNow clk = catch_all ATTESTATION_INTERNAL_ERROR (assertTimestampMs clk)"

fun raw_values :: "string \<Rightarrow> jsval list \<Rightarrow> jsval list" where
  "raw_values lowerName (JStr name # value # rest) =
     (if map to_lower name = lowerName then value # raw_values lowerName rest else raw_values lowerName rest)"
| "raw_values lowerName (_ # _ # rest) = raw_values lowerName rest"
| "raw_values lowerName _ = []"

definition extractRawHeader :: "jsval \<Rightarrow> string \<Rightarrow> attest_error + jsval" where
  "extractRawHeader req lowerName =
     (let raw = (case jprop req ''rawHeaders'' of JArr rs \<Rightarrow> raw_values lowerName rs | _ \<Rightarrow> []);
          value = jprop (jprop req ''headers'') lowerName
      in if length raw > 1 then fail ATTESTATION_MALFORMED
         else
           (case value of
              JUndef \<Rightarrow> (case filter is_str raw of [] \<Rightarrow> Inr JUndef | r # _ \<Rightarrow> Inr r)
            | JArr vs \<Rightarrow>
                (case filter (\<lambda>v. v \<noteq> JUndef) vs of
                   [] \<Rightarrow> Inr JUndef
                 | v # others \<Rightarrow> if others \<noteq> [] then fail ATTESTATION_MALFORMED else Inr v)
            | _ \<Rightarrow> Inr value))"

definition capture_required :: "bool \<Rightarrow> attest_error + unit" where
  "capture_required b = (if b then fail ATTESTATION_BODY_CAPTURE_REQUIRED else Inr ())"

definition blank :: "string \<Rightarrow> bool" where
  "blank s \<longleftrightarrow> js_trim s = []"

definition resolveBodyDigestHex :: "string option \<Rightarrow> jsval \<Rightarrow> attest_error + string" where
  "resolveBodyDigestHex captured req =
     (case captured of
        Some digestHex \<Rightarrow> Inr digestHex
      | None \<Rightarrow>
          (let headers = nullish (jprop req ''headers'') (JObj []) in
           andthen
             (case jprop headers ''content-length'' of
                JStr s \<Rightarrow>
                  (if blank s then Inr ()
                   else
                     (let parsed = safe_int (js_number (js_trim s)) in
                      andthen (capture_required (case parsed of Some n \<Rightarrow> n > 0 | None \<Rightarrow> False)) (\<lambda>_.
                      capture_required (case parsed of Some n \<Rightarrow> n < 0 | None \<Rightarrow> True))))
              | JArr es \<Rightarrow>
                  capture_required (\<exists>e \<in> set es. case e of
                      JStr s \<Rightarrow> \<not> blank s \<and> safe_int (js_number (js_trim s)) \<noteq> Some 0
                    | _ \<Rightarrow> False)
              | _ \<Rightarrow> Inr ()) (\<lambda>_.
           andthen
             (case jprop headers ''transfer-encoding'' of
                JStr s \<Rightarrow> capture_required (\<not> blank s)
              | JArr es \<Rightarrow> capture_required (\<exists>e \<in> set es. case e of JStr s \<Rightarrow> \<not> blank s | _ \<Rightarrow> False)
              | _ \<Rightarrow> Inr ()) (\<lambda>_.
           andthen
             (case jprop req ''body'' of
                JStr s \<Rightarrow> capture_required (length s > 0)
              | JBytes b \<Rightarrow> capture_required (length b > 0)
              | JArr es \<Rightarrow> capture_required (length es > 0)
              | JObj ps \<Rightarrow> capture_required (length ps > 0)
              | _ \<Rightarrow> Inr ()) (\<lambda>_.
           Inr EMPTY_BODY_SHA256_HEX)))))"

section \<open>The stages of one request\<close>

text \<open>What the guard passes to the verifier.\<close>

definition guard_input :: "guard_config \<Rightarrow> jsval \<Rightarrow> jsval \<Rightarrow> string \<Rightarrow> key_snapshot \<Rightarrow> int \<Rightarrow> verify_input" where
  "guard_input cfg req contentTypeHeader bodyDigestHex snapshot nowMs =
     \<lparr>vi_method = jprop req ''method'',
      vi_originalUrl = (if is_str (jprop req ''originalUrl'') then jprop req ''originalUrl'' else jprop req ''url''),
      vi_publicPathPrefix = Some (gc_publicPathPrefix cfg), vi_contentTypeHeader = contentTypeHeader,
      vi_contentEncodingHeader = nullish (jprop (jprop req ''headers'') ''content-encoding'') JUndef,
      vi_bodyDigestHex = JStr bodyDigestHex, vi_snapshot = copySnapshot snapshot, vi_nowMs = jint nowMs,
      vi_policy = gc_policy cfg, vi_replayNamespace = gc_replayNamespace cfg,
      vi_publicOrigin = gc_publicOrigin cfg\<rparr>"

text \<open>
  Everything before the reservation: \<open>t1\<close> and \<open>t2\<close> are the two clock readings, \<open>provider\<close> is what the
  key provider answered, \<open>None\<close> for a throw, a rejection or a time-out.
\<close>

definition guard_prepare ::
  "platform \<Rightarrow> guard_config \<Rightarrow> string option \<Rightarrow> jsval \<Rightarrow> jsval \<Rightarrow> jsval option \<Rightarrow> jsval \<Rightarrow>
     attest_error + verified_proof \<times> int" where
  "guard_prepare pf cfg captured req t1 provider t2 =
     andthen (extractRawHeader req (gc_headerNameLower cfg)) (\<lambda>raw.
     andthen (preflightAttestationProof raw) (\<lambda>env.
     andthen (extractRawHeader req ''content-type'') (\<lambda>contentTypeHeader.
     andthen (checkedNow t1) (\<lambda>nowMs.
     andthen (case provider of
         None \<Rightarrow> fail ATTESTATION_KEYS_UNAVAILABLE
       | Some answer \<Rightarrow> catch_all ATTESTATION_KEYS_UNAVAILABLE (copyAttestationSnapshot answer)) (\<lambda>snapshot.
     andthen (resolveBodyDigestHex captured req) (\<lambda>bodyDigestHex.
     andthen (catch_other ATTESTATION_INTERNAL_ERROR (verifyDecodedAttestationProof pf
         (guard_input cfg req contentTypeHeader bodyDigestHex snapshot nowMs) env)) (\<lambda>verified.
     andthen (checkedNow t2) (\<lambda>nowMs.
     andthen (catch_other ATTESTATION_INTERNAL_ERROR
         (checkProofTiming (jint (vp_timestampMs verified)) (jint nowMs) (vp_keyEntry verified) (gc_policy cfg))) (\<lambda>rechecked.
     case proof_timing.retainUntilMs rechecked of
       None \<Rightarrow> fail ATTESTATION_EXPIRED
     | Some retain \<Rightarrow> if \<not> is_safe retain then fail ATTESTATION_EXPIRED else Inr (verified, retain))))))))))"

definition reserve_request :: "verified_proof \<Rightarrow> int \<Rightarrow> jsval" where
  "reserve_request v retain = JObj [(''replayKey'', JStr (vp_replayKey v)), (''retainUntilMs'', jint retain)]"

text \<open>The store's answer, \<open>None\<close> when the wait for it timed out.\<close>

definition admission_verdict :: "(attest_error + reserve_result) option \<Rightarrow> attest_error + unit" where
  "admission_verdict answer =
     (case answer of
        None \<Rightarrow> fail ATTESTATION_REPLAY_UNAVAILABLE
      | Some (Inl _) \<Rightarrow> fail ATTESTATION_REPLAY_UNAVAILABLE
      | Some (Inr Duplicate) \<Rightarrow> fail ATTESTATION_REPLAY
      | Some (Inr PastRetention) \<Rightarrow> fail ATTESTATION_EXPIRED
      | Some (Inr Reserved) \<Rightarrow> Inr ())"

definition guard_finish :: "guard_config \<Rightarrow> verified_proof \<Rightarrow> jsval \<Rightarrow> attest_error + unit" where
  "guard_finish cfg v t3 =
     andthen (checkedNow t3) (\<lambda>nowMs.
     andthen (catch_other ATTESTATION_INTERNAL_ERROR
         (checkProofTiming (jint (vp_timestampMs v)) (jint nowMs) (vp_keyEntry v) (gc_policy cfg))) (\<lambda>_. Inr ()))"

text \<open>The controlled error response.\<close>

record guard_response =
  gr_status :: nat
  gr_code :: attest_code
  gr_headers :: "(string \<times> string) list"

definition sendControlledError :: "attest_code \<Rightarrow> guard_response" where
  "sendControlledError c =
     \<lparr>gr_status = error_status c, gr_code = c,
      gr_headers = (''Cache-Control'', ''no-store'') #
        (if c = ATTESTATION_STALE_KEY then [(''X-Attestation-Error'', ''stale-key'')] else [])\<rparr>"

section \<open>Interleaved requests\<close>

datatype phase =
    Arrived
  | Prepared verified_proof int
  | Abandoned verified_proof int
  | Admission verified_proof int
  | Refused attest_error
  | Handled verified_proof int

record guard_request =
  rq_captured :: "string option"
  rq_request :: jsval

text \<open>
  The last three fields record what the environment did; no code reads them: the greatest store clock reading so
  far, whether a request went on to its handler at a guard clock that was more than \<open>clusterClockGuardMs\<close> behind
  that, and the answers of the key providers.
\<close>

record guard_state =
  gs_store :: memory_store
  gs_phase :: "nat \<Rightarrow> phase"
  gs_latest :: int
  gs_skewed :: bool
  gs_answers :: "jsval list"

definition set_phase :: "nat \<Rightarrow> phase \<Rightarrow> guard_state \<Rightarrow> guard_state" where
  "set_phase i ph s = s\<lparr>gs_phase := (gs_phase s)(i := ph)\<rparr>"

definition note_answer :: "jsval option \<Rightarrow> guard_state \<Rightarrow> guard_state" where
  "note_answer provider s =
     (case provider of None \<Rightarrow> s | Some answer \<Rightarrow> s\<lparr>gs_answers := answer # gs_answers s\<rparr>)"

definition note_clock :: "guard_config \<Rightarrow> jsval \<Rightarrow> guard_state \<Rightarrow> guard_state" where
  "note_clock cfg clk s =
     s\<lparr>gs_skewed := (gs_skewed s \<or>
       (case as_safe clk of None \<Rightarrow> False | Some now \<Rightarrow> gs_latest s > now + clusterClockGuardMs (gc_policy cfg)))\<rparr>"

definition call_store :: "jsval \<Rightarrow> verified_proof \<Rightarrow> int \<Rightarrow> guard_state \<Rightarrow> guard_state" where
  "call_store clk v retain s =
     s\<lparr>gs_store := fst (reserve_step (clk, reserve_request v retain) (gs_store s)),
       gs_latest := max (gs_latest s) (reserve_clock (clk, reserve_request v retain))\<rparr>"

definition store_answer :: "jsval \<Rightarrow> verified_proof \<Rightarrow> int \<Rightarrow> guard_state \<Rightarrow> attest_error + reserve_result" where
  "store_answer clk v retain s = snd (reserve_step (clk, reserve_request v retain) (gs_store s))"

text \<open>
  \<open>abandon\<close> is the time-out of the wait for the store, \<open>late\<close> the commit of the abandoned call.
\<close>

inductive guard_step :: "platform \<Rightarrow> guard_config \<Rightarrow> (nat \<Rightarrow> guard_request) \<Rightarrow> guard_state \<Rightarrow> guard_state \<Rightarrow> bool"
  for pf cfg reqs where
  prepare: "gs_phase s i = Arrived \<Longrightarrow>
     guard_prepare pf cfg (rq_captured (reqs i)) (rq_request (reqs i)) t1 provider t2 = Inr (v, retain) \<Longrightarrow>
     guard_step pf cfg reqs s (set_phase i (Prepared v retain) (note_answer provider s))"
| reject: "gs_phase s i = Arrived \<Longrightarrow>
     guard_prepare pf cfg (rq_captured (reqs i)) (rq_request (reqs i)) t1 provider t2 = Inl e \<Longrightarrow>
     guard_step pf cfg reqs s (set_phase i (Refused e) (note_answer provider s))"
| admit_one: "gs_phase s i = Prepared v retain \<Longrightarrow>
     admission_verdict (Some (store_answer clk v retain s)) = Inr () \<Longrightarrow>
     guard_step pf cfg reqs s (set_phase i (Admission v retain) (call_store clk v retain s))"
| refuse: "gs_phase s i = Prepared v retain \<Longrightarrow>
     admission_verdict (Some (store_answer clk v retain s)) = Inl e \<Longrightarrow>
     guard_step pf cfg reqs s (set_phase i (Refused e) (call_store clk v retain s))"
| abandon: "gs_phase s i = Prepared v retain \<Longrightarrow>
     guard_step pf cfg reqs s (set_phase i (Abandoned v retain) s)"
| late: "gs_phase s i = Abandoned v retain \<Longrightarrow>
     guard_step pf cfg reqs s
       (set_phase i (Refused (AttestationError ATTESTATION_REPLAY_UNAVAILABLE)) (call_store clk v retain s))"
| finish: "gs_phase s i = Admission v retain \<Longrightarrow> guard_finish cfg v t3 = Inr () \<Longrightarrow>
     guard_step pf cfg reqs s (set_phase i (Handled v retain) (note_clock cfg t3 s))"
| finish_late: "gs_phase s i = Admission v retain \<Longrightarrow> guard_finish cfg v t3 = Inl e \<Longrightarrow>
     guard_step pf cfg reqs s (set_phase i (Refused e) s)"

definition guard_init :: "memory_store \<Rightarrow> guard_state" where
  "guard_init st = \<lparr>gs_store = st, gs_phase = (\<lambda>_. Arrived), gs_latest = 0,
     gs_skewed = False, gs_answers = []\<rparr>"

definition guard_reachable :: "platform \<Rightarrow> guard_config \<Rightarrow> (nat \<Rightarrow> guard_request) \<Rightarrow> memory_store \<Rightarrow> guard_state \<Rightarrow> bool" where
  "guard_reachable pf cfg reqs st s \<longleftrightarrow> (guard_step pf cfg reqs)\<^sup>*\<^sup>* (guard_init st) s"

inductive_cases guard_stepE: "guard_step pf cfg reqs s s'"

section \<open>Retention\<close>

definition retention :: "guard_config \<Rightarrow> verified_proof \<Rightarrow> int" where
  "retention cfg v =
     min (vp_timestampMs v + maxAgeMs (gc_policy cfg) + clockSkewMs (gc_policy cfg)) (ke_acceptUntil (vp_keyEntry v)) +
     clusterClockGuardMs (gc_policy cfg)"

text \<open>What a provider that answered \<open>answer\<close> says about its keys.\<close>

definition answered_keys :: "jsval \<Rightarrow> key_entry list" where
  "answered_keys answer = (case copyAttestationSnapshot answer of Inl _ \<Rightarrow> [] | Inr snapshot \<Rightarrow> ks_keys snapshot)"

text \<open>The README's condition on the providers of one protection space: a key ID has one end of its window in
  all their answers.\<close>

definition stable_windows :: "jsval list \<Rightarrow> bool" where
  "stable_windows answers \<longleftrightarrow>
     (\<forall>a \<in> set answers. \<forall>b \<in> set answers. \<forall>e \<in> set (answered_keys a). \<forall>f \<in> set (answered_keys b).
        ke_keyId e = ke_keyId f \<longrightarrow> ke_acceptUntil e = ke_acceptUntil f)"

text \<open>Where the proof of a request comes from.\<close>

definition proof_of :: "platform \<Rightarrow> guard_config \<Rightarrow> guard_request \<Rightarrow> verified_proof \<Rightarrow> bool" where
  "proof_of pf cfg r v \<longleftrightarrow> (\<exists>raw env. extractRawHeader (rq_request r) (gc_headerNameLower cfg) = Inr raw \<and>
     preflightAttestationProof raw = Inr env \<and> vp_timestampMs v = tid_timestampMs env \<and>
     ke_keyId (vp_keyEntry v) = tid_keyId env \<and> deriveReplayKey pf (gc_replayNamespace cfg) (gc_publicOrigin cfg) (tid_nonceHex env) = Inr (vp_replayKey v))"

lemma copy_rows_ok:
  "copy_rows seen es = Inr rows \<Longrightarrow> list_all entry_ok rows \<and> distinct (map ke_keyId rows) \<and>
     set (map ke_keyId rows) \<inter> seen = {} \<and> length rows = length es"
proof (induction seen es arbitrary: rows rule: copy_rows.induct)
  case (2 seen entry rest)
  from "2.prems" obtain ps row rows' where "entry = JObj ps" "key_row entry = Inr row" "ke_keyId row \<notin> seen"
    "copy_rows (insert (ke_keyId row) seen) rest = Inr rows'" "rows = row # rows'"
    by (auto simp: andthen_Inr split: jsval.splits if_splits)
  with "2.IH" [of ps row rows'] show ?case by (auto dest: key_row_ok)
qed simp

lemma copied_ok: "copyAttestationSnapshot v = Inr s \<Longrightarrow> snapshot_ok s"
proof -
  assume "copyAttestationSnapshot v = Inr s"
  then obtain es where "copy_rows {} es = Inr (ks_keys s)" "length es \<noteq> 0" "length es \<le> 16"
      "currentKeyId s \<in> set (map ke_keyId (ks_keys s))"
    by (cases v; cases "jprop v ''keys''")
       (simp_all add: copyAttestationSnapshot_def catch_all_Inr andthen_Inr split: if_splits, auto)
  then show ?thesis
    using copy_rows_ok [of "{}" es "ks_keys s"] by (auto simp: snapshot_ok_def MAX_RETAINED_ATTESTATION_KEYS_def)
qed

lemma checkedNow_Inr [simp]: "checkedNow clk = Inr n \<longleftrightarrow> clk = jint n \<and> timestamp_ok n"
  by (simp add: checkedNow_def assertTimestampMs_eq_Inr)

lemma prepare_origin:
  assumes "guard_prepare pf cfg captured req t1 provider t2 = Inr (v, u)"
  shows "u = retention cfg v" and "proof_of pf cfg \<lparr>rq_captured = captured, rq_request = req\<rparr> v"
    and "\<exists>now. t2 = jint now \<and> timestamp_ok now \<and>
      accepted_at (vp_timestampMs v) now (ke_acceptFrom (vp_keyEntry v)) (ke_acceptUntil (vp_keyEntry v)) (gc_policy cfg)"
    and "\<exists>answer. provider = Some answer \<and> vp_keyEntry v \<in> set (answered_keys answer)"
proof -
  obtain raw env inp now timing answer snapshot where p: "extractRawHeader req (gc_headerNameLower cfg) = Inr raw"
      "preflightAttestationProof raw = Inr env"
      "verifyDecodedAttestationProof pf inp env = Inr v" "vi_replayNamespace inp = gc_replayNamespace cfg"
      "vi_publicOrigin inp = gc_publicOrigin cfg"
      "checkProofTiming (jint (vp_timestampMs v)) (jint now) (vp_keyEntry v) (gc_policy cfg) = Inr timing"
      "proof_timing.retainUntilMs timing = Some u" "t2 = jint now" "timestamp_ok now"
      "provider = Some answer" "copyAttestationSnapshot answer = Inr snapshot" "vi_snapshot inp = copySnapshot snapshot"
    using assms unfolding guard_prepare_def fail_def
    by (simp only: chain_Inr catch_all_Inr catch_other_Inr sum.inject not_not checkedNow_Inr prod.inject)
       (elim exE conjE, fastforce simp: guard_input_def split: option.splits)
  have t: "evaluateProofTiming (jint (vp_timestampMs v)) (jint now) (jint (ke_acceptFrom (vp_keyEntry v)))
      (jint (ke_acceptUntil (vp_keyEntry v))) (gc_policy cfg) = Inr timing" "decision timing = Valid"
    using p(6) by (simp_all add: checkProofTiming_Inr)
  show "u = retention cfg v"
    using evaluate_valid(4) [OF t] p(7) by (auto simp: retention_def safeAdd_def split: if_splits)
  show "proof_of pf cfg \<lparr>rq_captured = captured, rq_request = req\<rparr> v"
    using p(1-5) by (auto simp: proof_of_def verify_decoded_Inr find_Some_iff)
  have "copyAttestationSnapshot (vi_snapshot inp) = Inr snapshot" using p(11,12) copied_ok copy_served by metis
  then have "vp_keyEntry v \<in> set (ks_keys snapshot)" using p(3) by (auto simp: verify_decoded_Inr find_Some_iff)
  then show "\<exists>answer. provider = Some answer \<and> vp_keyEntry v \<in> set (answered_keys answer)"
    using p(10,11) by (simp add: answered_keys_def)
  show "\<exists>now. t2 = jint now \<and> timestamp_ok now \<and>
      accepted_at (vp_timestampMs v) now (ke_acceptFrom (vp_keyEntry v)) (ke_acceptUntil (vp_keyEntry v)) (gc_policy cfg)"
    using evaluate_valid(1) [OF t] p(8,9) by blast
qed

lemma prepared_safe: "guard_prepare pf cfg captured req t1 provider t2 = Inr (v, u) \<Longrightarrow> is_safe u"
  unfolding guard_prepare_def fail_def
  by (simp only: chain_Inr catch_all_Inr catch_other_Inr sum.inject not_not checkedNow_Inr prod.inject) blast

lemma finish_in_time:
  assumes "guard_finish cfg v t3 = Inr ()" "as_safe t3 = Some now"
  shows "now + clusterClockGuardMs (gc_policy cfg) < retention cfg v"
proof -
  obtain timing where "checkProofTiming (jint (vp_timestampMs v)) (jint now) (vp_keyEntry v) (gc_policy cfg) = Inr timing"
    using assms by (auto simp: guard_finish_def andthen_Inr split: if_splits)
  then have "accepted_at (vp_timestampMs v) now (ke_acceptFrom (vp_keyEntry v)) (ke_acceptUntil (vp_keyEntry v)) (gc_policy cfg)"
    by (auto simp: checkProofTiming_Inr dest: evaluate_valid(1))
  then show ?thesis by (simp add: accepted_at_def retention_def)
qed

section \<open>The invariant\<close>

definition admitted :: "guard_state \<Rightarrow> nat \<Rightarrow> verified_proof \<Rightarrow> int \<Rightarrow> bool" where
  "admitted s i v u \<longleftrightarrow> gs_phase s i = Admission v u \<or> gs_phase s i = Handled v u"

definition carries :: "guard_state \<Rightarrow> nat \<Rightarrow> verified_proof \<Rightarrow> int \<Rightarrow> bool" where
  "carries s i v u \<longleftrightarrow> gs_phase s i = Prepared v u \<or> gs_phase s i = Abandoned v u \<or> admitted s i v u"

definition backed :: "guard_state \<Rightarrow> verified_proof \<Rightarrow> bool" where
  "backed s v \<longleftrightarrow> (\<exists>answer \<in> set (gs_answers s). vp_keyEntry v \<in> set (answered_keys answer))"

definition guard_inv :: "platform \<Rightarrow> guard_config \<Rightarrow> (nat \<Rightarrow> guard_request) \<Rightarrow> guard_state \<Rightarrow> bool" where
  "guard_inv pf cfg reqs s \<longleftrightarrow>
     store_inv (gs_store s) \<and>
     (\<forall>i v u. carries s i v u \<longrightarrow> u = retention cfg v \<and> proof_of pf cfg (reqs i) v \<and> backed s v) \<and>
     (\<forall>i v u. admitted s i v u \<longrightarrow> recorded_until (gs_store s) (vp_replayKey v) = Some u \<or> u \<le> gs_latest s) \<and>
     (\<forall>i j v w u. i \<noteq> j \<and> admitted s i v u \<and> admitted s j w u \<and> vp_replayKey v = vp_replayKey w \<longrightarrow> u \<le> gs_latest s) \<and>
     (\<forall>i j v w u. \<not> gs_skewed s \<and> i \<noteq> j \<and> gs_phase s i = Handled v u \<and> gs_phase s j = Handled w u \<longrightarrow> vp_replayKey v \<noteq> vp_replayKey w)"

lemma guard_invI:
  assumes "store_inv (gs_store s)"
    and "\<And>i v u. carries s i v u \<Longrightarrow> u = retention cfg v \<and> proof_of pf cfg (reqs i) v \<and> backed s v"
    and "\<And>i v u. admitted s i v u \<Longrightarrow> recorded_until (gs_store s) (vp_replayKey v) = Some u \<or> u \<le> gs_latest s"
    and "\<And>i j v w u. i \<noteq> j \<Longrightarrow> admitted s i v u \<Longrightarrow> admitted s j w u \<Longrightarrow> vp_replayKey v = vp_replayKey w \<Longrightarrow>
      u \<le> gs_latest s"
    and "\<And>i j v w u. \<not> gs_skewed s \<Longrightarrow> i \<noteq> j \<Longrightarrow> gs_phase s i = Handled v u \<Longrightarrow> gs_phase s j = Handled w u \<Longrightarrow>
      vp_replayKey v \<noteq> vp_replayKey w"
  shows "guard_inv pf cfg reqs s"
  unfolding guard_inv_def using assms by blast

lemma guard_invD:
  assumes "guard_inv pf cfg reqs s"
  shows "store_inv (gs_store s)"
    and "carries s i v u \<Longrightarrow> u = retention cfg v \<and> proof_of pf cfg (reqs i) v \<and> backed s v"
    and "admitted s i v u \<Longrightarrow> recorded_until (gs_store s) (vp_replayKey v) = Some u \<or> u \<le> gs_latest s"
    and "i \<noteq> j \<Longrightarrow> admitted s i v u \<Longrightarrow> admitted s j w u \<Longrightarrow> vp_replayKey v = vp_replayKey w \<Longrightarrow> u \<le> gs_latest s"
    and "\<not> gs_skewed s \<Longrightarrow> i \<noteq> j \<Longrightarrow> gs_phase s i = Handled v u \<Longrightarrow> gs_phase s j = Handled w u \<Longrightarrow> vp_replayKey v \<noteq> vp_replayKey w"
  using assms unfolding guard_inv_def by blast+

lemma set_phase_simps [simp]:
  "gs_store (set_phase i ph s) = gs_store s" "gs_latest (set_phase i ph s) = gs_latest s"
  "gs_phase (set_phase i ph s) = (gs_phase s)(i := ph)" "gs_skewed (set_phase i ph s) = gs_skewed s"
  "gs_answers (set_phase i ph s) = gs_answers s" "backed (set_phase i ph s) = backed s"
  by (simp_all add: set_phase_def backed_def fun_eq_iff)

lemma call_store_simps [simp]:
  "gs_store (call_store clk v u s) = fst (reserve_step (clk, reserve_request v u) (gs_store s))"
  "gs_latest (call_store clk v u s) = max (gs_latest s) (reserve_clock (clk, reserve_request v u))"
  "gs_phase (call_store clk v u s) = gs_phase s" "gs_skewed (call_store clk v u s) = gs_skewed s"
  "gs_answers (call_store clk v u s) = gs_answers s" "backed (call_store clk v u s) = backed s"
  by (simp_all add: call_store_def backed_def fun_eq_iff)

lemma note_simps [simp]:
  "gs_store (note_answer p s) = gs_store s" "gs_latest (note_answer p s) = gs_latest s"
  "gs_phase (note_answer p s) = gs_phase s" "gs_skewed (note_answer p s) = gs_skewed s"
  "gs_store (note_clock cfg clk s) = gs_store s" "gs_latest (note_clock cfg clk s) = gs_latest s"
  "gs_phase (note_clock cfg clk s) = gs_phase s" "gs_answers (note_clock cfg clk s) = gs_answers s"
  "backed (note_clock cfg clk s) = backed s" "backed s v \<Longrightarrow> backed (note_answer p s) v"
  by (auto simp: note_answer_def note_clock_def backed_def fun_eq_iff split: option.split)

text \<open>What the environment does besides is no concern of the invariant.\<close>

lemma note_inv:
  assumes inv: "guard_inv pf cfg reqs s"
  shows "guard_inv pf cfg reqs (note_answer p s)" "guard_inv pf cfg reqs (note_clock cfg clk s)"
proof -
  have same: "admitted (note_answer p s) = admitted s" "carries (note_answer p s) = carries s"
    "admitted (note_clock cfg clk s) = admitted s" "carries (note_clock cfg clk s) = carries s"
    by (simp_all add: admitted_def carries_def fun_eq_iff)
  have "gs_skewed s \<Longrightarrow> gs_skewed (note_clock cfg clk s)" by (simp add: note_clock_def)
  with inv show "guard_inv pf cfg reqs (note_answer p s)" "guard_inv pf cfg reqs (note_clock cfg clk s)"
    unfolding guard_inv_def same by (simp_all, blast+)
qed

lemma reserve_request_key: "reserve_key (clk, reserve_request v u) = vp_replayKey v"
  by (simp add: reserve_key_def reserve_request_def)

lemma call_store_inv:
  assumes inv: "guard_inv pf cfg reqs s"
  shows "guard_inv pf cfg reqs (call_store clk v u s)"
proof -
  let ?c = "(clk, reserve_request v u)"
  have st: "store_inv (gs_store s)" using inv by (simp add: guard_inv_def)
  let ?t = "call_store clk v u s"
  have same: "admitted ?t = admitted s" "carries ?t = carries s"
    by (simp_all add: admitted_def carries_def fun_eq_iff)
  show ?thesis
  proof (rule guard_invI)
    show "store_inv (gs_store ?t)" using st by (simp add: reserve_step_def store_inv_reserve)
    show "t = retention cfg w \<and> proof_of pf cfg (reqs i) w \<and> backed ?t w" if "carries ?t i w t" for i w t
      using guard_invD(2) [OF inv] that by (simp add: same)
    show "recorded_until (gs_store ?t) (vp_replayKey w) = Some t \<or> t \<le> gs_latest ?t" if "admitted ?t i w t" for i w t
    proof -
      have "recorded_until (gs_store s) (vp_replayKey w) = Some t \<or> t \<le> gs_latest s"
        using guard_invD(3) [OF inv] that by (simp add: same)
      then show ?thesis
        using reserve_keeps [OF st, of "vp_replayKey w" t ?c] by (auto simp: not_less le_max_iff_disj)
    qed
    show "t \<le> gs_latest ?t" if "i \<noteq> j" "admitted ?t i w t" "admitted ?t j x t" "vp_replayKey w = vp_replayKey x"
      for i j w x t
      using guard_invD(4) [OF inv that(1)] that by (simp add: same le_max_iff_disj)
    show "vp_replayKey w \<noteq> vp_replayKey x"
      if "\<not> gs_skewed ?t" "i \<noteq> j" "gs_phase ?t i = Handled w t" "gs_phase ?t j = Handled x t" for i j w x t
      using guard_invD(5) [OF inv _ that(2)] that by simp
  qed
qed

text \<open>A change of phase that admits nothing keeps the invariant.\<close>

lemma set_phase_inv:
  assumes inv: "guard_inv pf cfg reqs s"
    and ph: "\<And>v u. ph \<noteq> Admission v u" "\<And>v u. ph \<noteq> Handled v u"
    and own: "\<And>v u. ph = Prepared v u \<or> ph = Abandoned v u \<Longrightarrow> u = retention cfg v \<and> proof_of pf cfg (reqs i) v \<and> backed s v"
  shows "guard_inv pf cfg reqs (set_phase i ph s)"
proof (rule guard_invI)
  have adm: "admitted (set_phase i ph s) j v u \<Longrightarrow> admitted s j v u" for j v u
    using ph by (auto simp: admitted_def split: if_splits)
  show "store_inv (gs_store (set_phase i ph s))" using guard_invD(1) [OF inv] by simp
  show "u = retention cfg v \<and> proof_of pf cfg (reqs j) v \<and> backed (set_phase i ph s) v"
    if "carries (set_phase i ph s) j v u" for j v u
  proof (cases "j = i")
    case True
    with that ph have "ph = Prepared v u \<or> ph = Abandoned v u" by (auto simp: carries_def admitted_def)
    with own True show ?thesis by simp
  next
    case False
    with that have "carries s j v u" by (simp add: carries_def admitted_def)
    with guard_invD(2) [OF inv] show ?thesis by simp
  qed
  show "recorded_until (gs_store (set_phase i ph s)) (vp_replayKey v) = Some u \<or> u \<le> gs_latest (set_phase i ph s)"
    if "admitted (set_phase i ph s) j v u" for j v u
    using guard_invD(3) [OF inv adm [OF that]] by simp
  show "u \<le> gs_latest (set_phase i ph s)"
    if "j \<noteq> k" "admitted (set_phase i ph s) j v u" "admitted (set_phase i ph s) k w u" "vp_replayKey v = vp_replayKey w"
    for j k v w u
    using guard_invD(4) [OF inv that(1) adm [OF that(2)] adm [OF that(3)] that(4)] by simp
  show "vp_replayKey v \<noteq> vp_replayKey w"
    if "\<not> gs_skewed (set_phase i ph s)" "j \<noteq> k" "gs_phase (set_phase i ph s) j = Handled v u"
      "gs_phase (set_phase i ph s) k = Handled w u" for j k v w u
    using guard_invD(5) [OF inv _ that(2)] that(1,3,4) ph(2) by (auto split: if_splits)
qed

lemma guard_init_inv: "store_inv st \<Longrightarrow> guard_inv pf cfg reqs (guard_init st)"
  by (rule guard_invI) (simp_all add: guard_init_def carries_def admitted_def)

lemma reserve_safe_until:
  "snd (reserve_step (clk, reserve_request v u) st) = Inr Reserved \<Longrightarrow> reserve_until (clk, reserve_request v u) = u"
  by (auto simp: reserve_step_def reserve_def reserve_input_def andthen_Inr reserve_request_def reserve_until_def
      split: sum.splits if_splits)

lemma admit_inv:
  assumes inv: "guard_inv pf cfg reqs s" and ph: "gs_phase s i = Prepared v u"
    and won: "admission_verdict (Some (store_answer clk v u s)) = Inr ()"
  shows "guard_inv pf cfg reqs (set_phase i (Admission v u) (call_store clk v u s))" (is "guard_inv _ _ _ ?s")
proof (rule guard_invI)
  let ?c = "(clk, reserve_request v u)" let ?t = "call_store clk v u s"
  have st: "store_inv (gs_store s)" using guard_invD(1) [OF inv] .
  have res: "snd (reserve_step ?c (gs_store s)) = Inr Reserved"
    using won by (auto simp: admission_verdict_def store_answer_def split: sum.splits reserve_result.splits)
  have until: "reserve_until ?c = u"
    using reserve_safe_until res by (metis)
  note inv' = call_store_inv [OF inv, of clk v u]
  have adm: "admitted ?s j w t \<longleftrightarrow> (j = i \<and> w = v \<and> t = u) \<or> (j \<noteq> i \<and> admitted s j w t)" for j w t
    by (auto simp: admitted_def)
  have carried: "carries s i v u" using ph by (simp add: carries_def)
  have rec: "recorded_until (gs_store ?s) (vp_replayKey v) = Some u"
    using reserve_records [OF st res] until by (simp add: reserve_request_key)
  have old: "u \<le> gs_latest ?s" if "j \<noteq> i" "admitted s j w u" "vp_replayKey w = vp_replayKey v" for j w
  proof -
    have "recorded_until (gs_store s) (reserve_key ?c) = Some u \<or> u \<le> gs_latest s"
      using guard_invD(3) [OF inv that(2)] that(3) by (simp add: reserve_request_key)
    then show ?thesis
      using reserve_refuses [OF st, of ?c u] res by (auto simp: not_less le_max_iff_disj)
  qed
  show "store_inv (gs_store ?s)" using guard_invD(1) [OF inv'] by simp
  show "t = retention cfg w \<and> proof_of pf cfg (reqs j) w \<and> backed ?s w" if "carries ?s j w t" for j w t
    using that guard_invD(2) [OF inv] carried by (cases "j = i") (auto simp: carries_def admitted_def)
  show "recorded_until (gs_store ?s) (vp_replayKey w) = Some t \<or> t \<le> gs_latest ?s" if "admitted ?s j w t" for j w t
  proof (cases "j = i")
    case True
    with that rec show ?thesis by (simp add: adm)
  next
    case False
    with that have "admitted ?t j w t" by (simp add: adm admitted_def)
    with guard_invD(3) [OF inv' this] show ?thesis by simp
  qed
  show "t \<le> gs_latest ?s"
    if "j \<noteq> k" "admitted ?s j w t" "admitted ?s k x t" "vp_replayKey w = vp_replayKey x" for j k w x t
  proof -
    consider "j = i" | "k = i" | "j \<noteq> i" "k \<noteq> i" by blast
    then show ?thesis
    proof cases
      case 1
      with that old [of k x] show ?thesis by (simp add: adm)
    next
      case 2
      with that old [of j w] show ?thesis by (simp add: adm)
    next
      case 3
      with that have "t \<le> gs_latest s" using guard_invD(4) [OF inv that(1)] by (simp add: adm)
      then show ?thesis by (simp add: le_max_iff_disj)
    qed
  qed
  show "vp_replayKey w \<noteq> vp_replayKey x"
    if "\<not> gs_skewed ?s" "j \<noteq> k" "gs_phase ?s j = Handled w t" "gs_phase ?s k = Handled x t" for j k w x t
    using guard_invD(5) [OF inv _ that(2)] that(1,3,4) by (auto split: if_splits)
qed

lemma finish_inv:
  assumes inv: "guard_inv pf cfg reqs s" and ph: "gs_phase s i = Admission v u"
    and fin: "guard_finish cfg v t3 = Inr ()"
  shows "guard_inv pf cfg reqs (set_phase i (Handled v u) (note_clock cfg t3 s))" (is "guard_inv _ _ _ ?s")
proof (rule guard_invI)
  have adm: "admitted ?s j w t \<longleftrightarrow> admitted s j w t" for j w t
    using ph by (auto simp: admitted_def)
  have car: "carries ?s j w t \<longleftrightarrow> carries s j w t" for j w t
    using ph by (auto simp: carries_def adm)
  have own: "admitted s i v u" using ph by (simp add: admitted_def)
  obtain now where now: "as_safe t3 = Some now"
    using fin by (auto simp: guard_finish_def andthen_Inr timestamp_ok_def)
  have "u = retention cfg v" using guard_invD(2) [OF inv, of i v u] own by (simp add: carries_def)
  then have late: "gs_latest s < u" if "\<not> gs_skewed ?s"
    using finish_in_time [OF fin now] that now by (simp add: note_clock_def)
  show "store_inv (gs_store ?s)" using guard_invD(1) [OF inv] by simp
  show "t = retention cfg w \<and> proof_of pf cfg (reqs j) w \<and> backed ?s w" if "carries ?s j w t" for j w t
    using that guard_invD(2) [OF inv] by (simp add: car)
  show "recorded_until (gs_store ?s) (vp_replayKey w) = Some t \<or> t \<le> gs_latest ?s" if "admitted ?s j w t" for j w t
    using that guard_invD(3) [OF inv] by (simp add: adm)
  show "t \<le> gs_latest ?s"
    if "j \<noteq> k" "admitted ?s j w t" "admitted ?s k x t" "vp_replayKey w = vp_replayKey x" for j k w x t
    using that guard_invD(4) [OF inv] by (simp add: adm)
  show "vp_replayKey w \<noteq> vp_replayKey x"
    if ok: "\<not> gs_skewed ?s" and that: "j \<noteq> k" "gs_phase ?s j = Handled w t" "gs_phase ?s k = Handled x t" for j k w x t
  proof
    assume key: "vp_replayKey w = vp_replayKey x"
    show False
    proof (cases "j = i \<or> k = i")
      case True
      with that have "t = u" by auto
      moreover have "admitted s j w t" "admitted s k x t"
        using that ph by (auto simp: admitted_def split: if_splits)
      ultimately show False using guard_invD(4) [OF inv that(1)] key late [OF ok] by fastforce
    next
      case False
      with that guard_invD(5) [OF inv _ that(1)] ok key show False by (simp add: note_clock_def)
    qed
  qed
qed

lemma guard_step_inv:
  assumes "guard_step pf cfg reqs s s'" "guard_inv pf cfg reqs s"
  shows "guard_inv pf cfg reqs s'"
  using assms
proof (induction rule: guard_step.induct)
  case (prepare s i t1 provider t2 v retain)
  note o = prepare_origin [OF prepare(2)]
  have "backed (note_answer provider s) v" using o(4) by (auto simp: backed_def note_answer_def)
  then show ?case
    by (intro set_phase_inv [OF note_inv(1) [OF prepare(3)]]) (use o(1,2) in \<open>auto simp: proof_of_def\<close>)
next
  case (reject s i t1 provider t2 e)
  show ?case by (rule set_phase_inv [OF note_inv(1) [OF reject(3)]]) simp_all
next
  case (late s i v retain clk)
  show ?case by (rule set_phase_inv [OF call_store_inv [OF late(2)]]) simp_all
next
  case (refuse s i v retain clk e)
  show ?case by (rule set_phase_inv [OF call_store_inv [OF refuse(3)]]) simp_all
next
  case (abandon s i v retain)
  have "carries s i v retain" using abandon(1) by (simp add: carries_def)
  with guard_invD(2) [OF abandon(2)] show ?case by (intro set_phase_inv [OF abandon(2)]) auto
qed (auto intro: admit_inv finish_inv set_phase_inv)

lemma reachable_inv:
  assumes "createMemoryAttestationStore opts = Inr st" "guard_reachable pf cfg reqs st s"
  shows "guard_inv pf cfg reqs s"
  using assms(2) unfolding guard_reachable_def
  by (induction rule: rtranclp_induct) (use guard_init_inv [OF createMemory_inv [OF assms(1)]] guard_step_inv in blast)+

lemma same_header_same_key:
  assumes "proof_of pf cfg r v" "proof_of pf cfg q w"
    and "extractRawHeader (rq_request r) (gc_headerNameLower cfg) = extractRawHeader (rq_request q) (gc_headerNameLower cfg)"
  shows "vp_replayKey v = vp_replayKey w \<and> vp_timestampMs v = vp_timestampMs w \<and>
    ke_keyId (vp_keyEntry v) = ke_keyId (vp_keyEntry w)"
  using assms by (auto simp: proof_of_def)

section \<open>Honest requests\<close>

lemma honest_prepares:
  assumes h: "honest_request pf (guard_input cfg req contentType body0 snapshot0 now) env snapshot entry now timing
      target m ct body macInput"
    and s: "encodeTransactionId env = Inr s"
    and req: "extractRawHeader req (gc_headerNameLower cfg) = Inr (JStr s)"
      "extractRawHeader req ''content-type'' = Inr contentType" "resolveBodyDigestHex captured req = Inr body0"
    and keys: "copyAttestationSnapshot answer = Inr snapshot0"
    and t2: "checkProofTiming (jint (tid_timestampMs env)) (jint later) entry (gc_policy cfg) = Inr retiming"
      "proof_timing.retainUntilMs retiming = Some u" "timestamp_ok later"
  obtains v where "guard_prepare pf cfg captured req (jint now) (Some answer) (jint later) = Inr (v, u)"
    "vp_keyEntry v = entry" "vp_timestampMs v = tid_timestampMs env"
    "deriveReplayKey pf (gc_replayNamespace cfg) (gc_publicOrigin cfg) (tid_nonceHex env) = Inr (vp_replayKey v)"
proof -
  let ?inp = "guard_input cfg req contentType body0 snapshot0 now"
  obtain v where v: "verifyAttestationProof pf (JStr s) ?inp = Inr v" "vp_keyEntry v = entry"
    using honest_verifies [OF s h] by metis
  have pre: "preflightAttestationProof (JStr s) = Inr env"
    using s header_of_encoding [OF s] unfolding preflight_Inr encode_iff decode_iff by blast
  then have d: "verifyDecodedAttestationProof pf ?inp env = Inr v"
    using v(1) by (auto simp: verify_Inr)
  have ts: "vp_timestampMs v = tid_timestampMs env"
    "deriveReplayKey pf (gc_replayNamespace cfg) (gc_publicOrigin cfg) (tid_nonceHex env) = Inr (vp_replayKey v)"
    using d by (auto simp: verify_decoded_Inr guard_input_def)
  have now: "checkedNow (jint now) = Inr now" "checkedNow (jint later) = Inr later"
    using h t2(3) by (auto simp: honest_request_def timing_simps timestamp_ok_def split: if_splits)
  have safe: "is_safe u" using t2(1,2) retain_safe by (auto simp: checkProofTiming_Inr)
  have "guard_prepare pf cfg captured req (jint now) (Some answer) (jint later) = Inr (v, u)"
    unfolding guard_prepare_def req pre now keys andthen_simps option.case catch_all_def sum.case
    using d t2 safe v(2) ts(1) now(2) by (simp add: catch_other_def)
  then show ?thesis using that v(2) ts by blast
qed

section \<open>A small deployment\<close>

definition demo_config :: guard_config where
  "demo_config = \<lparr>gc_publicOrigin = ''https://a.io'', gc_replayNamespace = ''ns'', gc_publicPathPrefix = [],
     gc_policy = demo_policy, gc_headerNameLower = DEFAULT_ATTESTATION_HEADER, gc_operationTimeoutMs = 5000\<rparr>"

definition demo_http :: guard_request where
  "demo_http = \<lparr>rq_captured = Some (replicate 64 CHR ''b''),
     rq_request = JObj [(''method'', JStr ''get''), (''originalUrl'', JStr ''/x?''),
       (''headers'', JObj [(DEFAULT_ATTESTATION_HEADER, JStr demo_header), (''content-encoding'', JStr ''identity'')])]\<rparr>"

lemma demo_input:
  "guard_input demo_config (rq_request demo_http) JUndef (replicate 64 CHR ''b'') demo_ring 60000 =
     (demo_request 60000)\<lparr>vi_snapshot := copySnapshot demo_ring, vi_publicPathPrefix := Some []\<rparr>"
  by (simp add: guard_input_def demo_config_def demo_http_def demo_request_def DEFAULT_ATTESTATION_HEADER_def)

lemma demo_prepares:
  obtains v where "guard_prepare demo_platform demo_config (rq_captured demo_http) (rq_request demo_http) (jint 60000)
      (Some (copySnapshot demo_ring)) (jint 60000) = Inr (v, 90000)"
    "vp_keyEntry v = demo_entry ''k1'' 7" "vp_timestampMs v = 50000"
    "vp_replayKey v = REPLAY_KEY_PREFIX @ replicate 64 CHR ''0''"
proof -
  have served: "copyAttestationSnapshot (copySnapshot demo_ring) = Inr demo_ring" by code_simp
  have h: "honest_request demo_platform
      (guard_input demo_config (rq_request demo_http) JUndef (replicate 64 CHR ''b'') demo_ring 60000)
      demo_envelope demo_ring (demo_entry ''k1'' 7) 60000 demo_timing ''/x'' ''GET'' [] (replicate 64 CHR ''b'') demo_frame"
    unfolding demo_input by (rule demo_honest_via [OF served]) simp
  have req: "extractRawHeader (rq_request demo_http) (gc_headerNameLower demo_config) = Inr (JStr demo_header)"
    "extractRawHeader (rq_request demo_http) ''content-type'' = Inr JUndef"
    "resolveBodyDigestHex (rq_captured demo_http) (rq_request demo_http) = Inr (replicate 64 CHR ''b'')"
    by (simp_all add: extractRawHeader_def demo_http_def demo_config_def DEFAULT_ATTESTATION_HEADER_def
        resolveBodyDigestHex_def)
  have "tid_timestampMs demo_envelope = 50000" "gc_policy demo_config = demo_policy"
    by (simp_all add: demo_envelope_def demo_config_def)
  moreover have "checkProofTiming (jint 50000) (jint 60000) (demo_entry ''k1'' 7) demo_policy = Inr demo_timing"
    "proof_timing.retainUntilMs demo_timing = Some 90000" "timestamp_ok 60000"
    by code_simp+
  ultimately obtain v where v: "guard_prepare demo_platform demo_config (rq_captured demo_http) (rq_request demo_http)
      (jint 60000) (Some (copySnapshot demo_ring)) (jint 60000) = Inr (v, 90000)"
    "vp_keyEntry v = demo_entry ''k1'' 7" "vp_timestampMs v = 50000"
    "deriveReplayKey demo_platform (gc_replayNamespace demo_config) (gc_publicOrigin demo_config)
       (tid_nonceHex demo_envelope) = Inr (vp_replayKey v)"
    using honest_prepares [OF h demo_encoded req served, where later = 60000 and u = 90000 and retiming = demo_timing] by metis
  then show ?thesis
    using that by (auto simp: deriveReplayKey_def andthen_Inr demo_platform_def)
qed

definition demo_replay_key :: string where
  "demo_replay_key = REPLAY_KEY_PREFIX @ replicate 64 CHR ''0''"

lemma demo_answers:
  "snd (reserve_step (demo_call 60001 demo_replay_key 90000) demo_memory) = Inr Reserved"
  "snd (reserve_step (demo_call 60003 demo_replay_key 90000)
     (fst (reserve_step (demo_call 60001 demo_replay_key 90000) demo_memory))) = Inr Duplicate"
  by code_simp+

lemma demo_reserve_request:
  "vp_replayKey v = demo_replay_key \<Longrightarrow> (jint c, reserve_request v u) = demo_call c demo_replay_key u"
  by (simp add: reserve_request_def demo_call_def)

lemma demo_finish:
  "vp_keyEntry v = demo_entry ''k1'' 7 \<Longrightarrow> vp_timestampMs v = 50000 \<Longrightarrow> guard_finish demo_config v (jint 60002) = Inr ()"
proof -
  have t: "checkProofTiming (jint 50000) (jint 60002) (demo_entry ''k1'' 7) demo_policy = Inr demo_timing" by code_simp
  have c: "gc_policy demo_config = demo_policy" "checkedNow (jint 60002) = Inr 60002"
    by (simp_all add: demo_config_def timestamp_ok_def is_safe_def MAX_SAFE_INTEGER_def)
  assume v: "vp_keyEntry v = demo_entry ''k1'' 7" "vp_timestampMs v = 50000"
  show ?thesis unfolding guard_finish_def v c t by (simp only: andthen_simps catch_other_def sum.case v c t)
qed

text \<open>The same request twice: the first is handled, the second refused as a replay.\<close>

lemma demo_run:
  obtains v s where "guard_reachable demo_platform demo_config (\<lambda>_. demo_http) demo_memory s"
    "gs_phase s 0 = Handled v 90000" "gs_phase s 1 = Refused (AttestationError ATTESTATION_REPLAY)"
    "\<not> gs_skewed s" "gs_answers s = [copySnapshot demo_ring, copySnapshot demo_ring]"
proof -
  obtain v where v: "guard_prepare demo_platform demo_config (rq_captured demo_http) (rq_request demo_http) (jint 60000)
      (Some (copySnapshot demo_ring)) (jint 60000) = Inr (v, 90000)"
    "vp_keyEntry v = demo_entry ''k1'' 7" "vp_timestampMs v = 50000" "vp_replayKey v = demo_replay_key"
    using demo_prepares unfolding demo_replay_key_def by metis
  note rr = demo_reserve_request [OF v(4)]
  let ?step = "guard_step demo_platform demo_config (\<lambda>_. demo_http)"
  let ?note = "note_answer (Some (copySnapshot demo_ring))"
  let ?s0 = "guard_init demo_memory"
  let ?s1 = "set_phase 0 (Prepared v 90000) (?note ?s0)"
  let ?s2 = "set_phase 0 (Admission v 90000) (call_store (jint 60001) v 90000 ?s1)"
  let ?s3 = "set_phase 0 (Handled v 90000) (note_clock demo_config (jint 60002) ?s2)"
  let ?s4 = "set_phase 1 (Prepared v 90000) (?note ?s3)"
  let ?s5 = "set_phase 1 (Refused (AttestationError ATTESTATION_REPLAY)) (call_store (jint 60003) v 90000 ?s4)"
  have "?step ?s0 ?s1" by (rule guard_step.prepare) (use v(1) in \<open>simp_all add: guard_init_def\<close>)
  moreover have "?step ?s1 ?s2"
    by (rule guard_step.admit_one)
       (simp_all add: admission_verdict_def store_answer_def rr demo_answers guard_init_def del: of_int_numeral)
  moreover have "?step ?s2 ?s3"
  proof (rule guard_step.finish)
    show "guard_finish demo_config v (jint 60002) = Inr ()" using v(2,3) by (rule demo_finish)
  qed simp
  moreover have "?step ?s3 ?s4" by (rule guard_step.prepare) (use v(1) in \<open>simp_all add: guard_init_def\<close>)
  moreover have "?step ?s4 ?s5"
    by (rule guard_step.refuse)
       (simp_all add: admission_verdict_def store_answer_def rr demo_answers guard_init_def fail_def del: of_int_numeral)
  ultimately have "?step\<^sup>*\<^sup>* ?s0 ?s5"
    by (meson converse_rtranclp_into_rtranclp rtranclp.rtrancl_refl)
  then have run: "guard_reachable demo_platform demo_config (\<lambda>_. demo_http) demo_memory ?s5"
    by (simp add: guard_reachable_def)
  have clocks: "\<not> gs_skewed ?s5"
  proof -
    have "reserve_clock (demo_call 60001 demo_replay_key 90000) = 60001" "as_safe (jint 60002) = Some 60002" by code_simp+
    then show ?thesis
      by (simp add: note_clock_def rr guard_init_def demo_config_def demo_policy_def del: of_int_numeral)
  qed
  have answers: "gs_answers ?s5 = [copySnapshot demo_ring, copySnapshot demo_ring]"
    by (simp add: note_answer_def guard_init_def)
  show ?thesis by (rule that [OF run _ _ clocks answers]) simp_all
qed

lemma demo_windows: "stable_windows [copySnapshot demo_ring, copySnapshot demo_ring]"
  by code_simp

section \<open>The reservation of a verified proof\<close>

lemma reserve_fits:
  assumes "store_inv st" "reserve_input clk input = Inr (now, r)" "now < res_retainUntilMs r"
    "res_retainUntilMs r - now \<le> GLOBAL_MAX_RETENTION_MS"
  shows "snd (reserve clk input st) \<in> {Inr Reserved, Inr Duplicate, Inl CapacityError}"
  using assms(1)
proof (cases rule: reserve_cases [of st clk input])
  case (admission now' r' rows out)
  then show ?thesis by (cases out) simp_all
qed (use assms in \<open>simp_all add: reserve_def split: option.splits prod.splits admission.splits\<close>)

lemma lower_hex_printable: "is_lower_hex c \<Longrightarrow> char_between 32 126 c"
  by (auto simp: is_lower_hex_def is_digit_def char_between_def)

lemma prepared_reserve_input:
  assumes "\<forall>b. length (pf_sha256_hex pf b) = 64 \<and> list_all is_lower_hex (pf_sha256_hex pf b)"
    and "guard_prepare pf cfg captured req t1 provider t2 = Inr (v, u)" "timestamp_ok c"
    and "0 \<le> u"
  shows "reserve_input (jint c) (reserve_request v u) = Inr (c, \<lparr>replayKey = vp_replayKey v, res_retainUntilMs = u\<rparr>)"
proof -
  obtain b where k: "vp_replayKey v = REPLAY_KEY_PREFIX @ pf_sha256_hex pf b"
    using prepare_origin(2) [OF assms(2)] unfolding proof_of_def deriveReplayKey_def andthen_Inr
    by (metis sum.inject(2))
  have "list_all (char_between 32 126) REPLAY_KEY_PREFIX" "length REPLAY_KEY_PREFIX = 7" by code_simp+
  then have "validateReplayKey (JStr (vp_replayKey v)) = Inr (vp_replayKey v)"
    using assms(1) lower_hex_printable unfolding k
    by (auto simp: validateReplayKey_def MAX_REPLAY_KEY_BYTES_def MIN_REPLAY_KEY_BYTES_def list_all_iff)
  moreover have "is_safe u" using assms(2) by (rule prepared_safe)
  ultimately show ?thesis
    using assms(3,4) by (simp add: reserve_input_def reserve_request_def timestamp_ok_def)
qed

section \<open>Properties\<close>

text \<open>C1: One signed request runs the handler at most once: two requests with the same transaction-ID header are never
  both handled, over every interleaving of requests, clock readings, provider answers, store time-outs and late commits.
  The conditions are the README's on one protection space: the providers answer with one end of window per key ID, and
  no guard goes on to its handler at a clock more than \<open>clusterClockGuardMs\<close> behind a store clock that was read before.\<close>

theorem replayed_request_handled_once:
  assumes "createMemoryAttestationStore opts = Inr st" "guard_reachable pf cfg reqs st s"
    and "stable_windows (gs_answers s)" "\<not> gs_skewed s" "i \<noteq> j"
    and "extractRawHeader (rq_request (reqs i)) (gc_headerNameLower cfg) =
      extractRawHeader (rq_request (reqs j)) (gc_headerNameLower cfg)"
  shows "\<not> (\<exists>v u w t. gs_phase s i = Handled v u \<and> gs_phase s j = Handled w t)"
proof
  assume "\<exists>v u w t. gs_phase s i = Handled v u \<and> gs_phase s j = Handled w t"
  then obtain v u w t where h: "gs_phase s i = Handled v u" "gs_phase s j = Handled w t" by blast
  have inv: "guard_inv pf cfg reqs s" using assms(1,2) by (rule reachable_inv)
  have *: "u = retention cfg v \<and> proof_of pf cfg (reqs i) v \<and> backed s v"
    "t = retention cfg w \<and> proof_of pf cfg (reqs j) w \<and> backed s w"
    using guard_invD(2) [OF inv] h by (auto simp: carries_def admitted_def)
  with same_header_same_key [of pf cfg "reqs i" v "reqs j" w] assms(6)
  have same: "vp_replayKey v = vp_replayKey w" "vp_timestampMs v = vp_timestampMs w"
    "ke_keyId (vp_keyEntry v) = ke_keyId (vp_keyEntry w)" by auto
  with * assms(3) have "ke_acceptUntil (vp_keyEntry v) = ke_acceptUntil (vp_keyEntry w)"
    unfolding stable_windows_def backed_def by blast
  with * same have "u = t" by (simp add: retention_def)
  with guard_invD(5) [OF inv assms(4,5)] h same(1) show False by blast
qed

text \<open>A proof that has just been verified fits the store. Under a valid policy, a store clock within
  the cluster guard of the verifier's finds its deadline neither passed nor beyond the retention cap,
  so the store's answer is \<open>reserved\<close>, \<open>duplicate\<close> or a capacity refusal and nothing else.\<close>

lemma verified_proof_fits_store:
  assumes "policy_ok (gc_policy cfg)" "\<forall>b. length (pf_sha256_hex pf b) = 64 \<and> list_all is_lower_hex (pf_sha256_hex pf b)"
    and "guard_prepare pf cfg captured req t1 provider (jint now) = Inr (v, u)"
    and "timestamp_ok c" "\<bar>c - now\<bar> \<le> clusterClockGuardMs (gc_policy cfg)" "store_inv st"
  shows "snd (reserve (jint c) (reserve_request v u) st) \<in> {Inr Reserved, Inr Duplicate, Inl CapacityError}"
proof -
  note o = prepare_origin [OF assms(3)]
  have acc: "accepted_at (vp_timestampMs v) now (ke_acceptFrom (vp_keyEntry v)) (ke_acceptUntil (vp_keyEntry v)) (gc_policy cfg)"
    using o(3) by auto
  have lo: "c < u" using acc assms(5) o(1) by (auto simp: accepted_at_def retention_def)
  have "u - c \<le> GLOBAL_MAX_RETENTION_MS"
    using acc assms(1,5) o(1) by (auto simp: accepted_at_def retention_def policy_ok_def attest_consts)
  moreover have "reserve_input (jint c) (reserve_request v u) = Inr (c, \<lparr>replayKey = vp_replayKey v, res_retainUntilMs = u\<rparr>)"
    using prepared_reserve_input [OF assms(2,3,4)] lo assms(4) by (simp add: timestamp_ok_def)
  ultimately show ?thesis
    using lo reserve_fits [OF assms(6), of "jint c" "reserve_request v u" c "\<lparr>replayKey = vp_replayKey v, res_retainUntilMs = u\<rparr>"]
    by simp
qed

theorem replayed_request_handled_once_witness:
  "\<exists>v s. guard_reachable demo_platform demo_config (\<lambda>_. demo_http) demo_memory s \<and> gs_phase s 0 = Handled v 90000 \<and>
     (\<nexists>w t. gs_phase s 1 = Handled w t)"
proof -
  obtain v s where r: "guard_reachable demo_platform demo_config (\<lambda>_. demo_http) demo_memory s" "gs_phase s 0 = Handled v 90000"
    "\<not> gs_skewed s" "stable_windows (gs_answers s)"
    using demo_run demo_windows by metis
  have "\<not> (\<exists>v u w t. gs_phase s 0 = Handled v u \<and> gs_phase s 1 = Handled w t)"
    by (rule replayed_request_handled_once [OF demo_store r(1,4,3)]) simp_all
  with r show ?thesis by blast
qed

theorem verified_proof_fits_store_witness:
  "\<exists>v. guard_prepare demo_platform demo_config (rq_captured demo_http) (rq_request demo_http) (jint 60000)
      (Some (copySnapshot demo_ring)) (jint 60000) = Inr (v, 90000) \<and>
    snd (reserve (jint 64000) (reserve_request v 90000) demo_memory) \<in> {Inr Reserved, Inr Duplicate, Inl CapacityError}"
proof -
  obtain v where v: "guard_prepare demo_platform demo_config (rq_captured demo_http) (rq_request demo_http) (jint 60000)
      (Some (copySnapshot demo_ring)) (jint 60000) = Inr (v, 90000)"
    using demo_prepares by metis
  have "policy_ok (gc_policy demo_config)" by code_simp
  moreover have "\<forall>b. length (pf_sha256_hex demo_platform b) = 64 \<and> list_all is_lower_hex (pf_sha256_hex demo_platform b)"
  proof -
    have "list_all is_lower_hex (replicate 64 CHR ''0'')" by code_simp
    then show ?thesis by (simp add: demo_platform_def)
  qed
  moreover have "timestamp_ok 64000" "\<bar>64000 - 60000\<bar> \<le> clusterClockGuardMs (gc_policy demo_config)" by code_simp+
  ultimately have "snd (reserve (jint 64000) (reserve_request v 90000) demo_memory) \<in> {Inr Reserved, Inr Duplicate, Inl CapacityError}"
    using v createMemory_inv [OF demo_store] by (intro verified_proof_fits_store)
  with v show ?thesis by blast
qed

end
