(* ===== verification/VaultBinding.thy ===== *)
theory VaultBinding
  imports Prelude
begin

text \<open>
  Device and browser bindings of stored records, binding.ts of packages/express-oidc-vault-memory-store,
  with the errors of that package. Records are dynamically typed: the code checks what it reads back.
\<close>

datatype vault_error =
    TypeError
  | StoreConflict
  | StoreError
  | ReplayCapacity
  | TicketCapacity
  | DataCloneError
  | UndefinedRead

definition isRecord :: "jsval \<Rightarrow> bool" where
  "isRecord v \<longleftrightarrow> (case v of JObj _ \<Rightarrow> True | _ \<Rightarrow> False)"

text \<open>The pattern \<open>[A-Za-z0-9_-]{42}[AEIMQUYcgkosw048]\<close>: a SHA-256 digest in base64url.\<close>

definition hash_text :: "string \<Rightarrow> bool" where
  "hash_text s \<longleftrightarrow> length s = 43 \<and> list_all is_b64url (butlast s) \<and> last s \<in> set ''AEIMQUYcgkosw048''"

definition isHash :: "jsval \<Rightarrow> bool" where
  "isHash v \<longleftrightarrow> (case v of JStr s \<Rightarrow> hash_text s | _ \<Rightarrow> False)"

definition own_keys :: "jsval \<Rightarrow> string list" where
  "own_keys v = (case v of JObj ps \<Rightarrow> map fst ps | _ \<Rightarrow> [])"

definition isBinding :: "jsval \<Rightarrow> bool" where
  "isBinding v \<longleftrightarrow> isRecord v \<and> length (own_keys v) = 2 \<and> has_own v ''type'' \<and> has_own v ''jkt'' \<and>
     jprop v ''type'' = JStr ''dpop'' \<and> isHash (jprop v ''jkt'')"

definition hasValidBinding :: "jsval \<Rightarrow> bool" where
  "hasValidBinding r \<longleftrightarrow> jprop r ''deviceBinding'' = JUndef \<or> isBinding (jprop r ''deviceBinding'')"

definition hasValidRecordBinding :: "jsval \<Rightarrow> bool" where
  "hasValidRecordBinding r \<longleftrightarrow> hasValidBinding r \<and>
     (jprop r ''browserBindingHash'' = JUndef \<or> isHash (jprop r ''browserBindingHash'')) \<and>
     (jprop r ''deviceBinding'' = JUndef \<or> jprop r ''browserBindingHash'' \<noteq> JUndef)"

definition assertRecordBinding :: "jsval \<Rightarrow> vault_error + unit" where
  "assertRecordBinding r = guard TypeError (hasValidRecordBinding r)"

definition assertSessionBinding :: "jsval \<Rightarrow> vault_error + unit" where
  "assertSessionBinding r = guard TypeError (hasValidBinding r)"

definition isBindingMatch :: "jsval \<Rightarrow> bool" where
  "isBindingMatch m \<longleftrightarrow> isRecord m \<and> has_own m ''deviceBinding'' \<and> has_own m ''browserBindingHash'' \<and>
     (jprop m ''deviceBinding'' = JNull \<or> isBinding (jprop m ''deviceBinding'')) \<and>
     (jprop m ''browserBindingHash'' = JNull \<or> isHash (jprop m ''browserBindingHash''))"

definition matchesRecordBinding :: "jsval \<Rightarrow> jsval \<Rightarrow> bool" where
  "matchesRecordBinding r m \<longleftrightarrow>
     (if jprop m ''deviceBinding'' = JNull then jprop r ''deviceBinding'' = JUndef
      else jprop (jprop r ''deviceBinding'') ''type'' = jprop (jprop m ''deviceBinding'') ''type'' \<and>
           jprop (jprop r ''deviceBinding'') ''jkt'' = jprop (jprop m ''deviceBinding'') ''jkt'') \<and>
     (if jprop m ''browserBindingHash'' = JNull then jprop r ''browserBindingHash'' = JUndef
      else jprop r ''browserBindingHash'' = jprop m ''browserBindingHash'')"

text \<open>Assignment to a property: in place when it is there, at the end otherwise.\<close>

definition set_prop :: "string \<Rightarrow> jsval \<Rightarrow> jsval \<Rightarrow> jsval" where
  "set_prop k v r = (case r of JObj ps \<Rightarrow> JObj (mput k v ps) | _ \<Rightarrow> r)"

text \<open>\<open>inheritSessionBinding(source, next)\<close>, returning the changed \<open>next\<close>.\<close>

definition inheritSessionBinding :: "jsval \<Rightarrow> jsval \<Rightarrow> vault_error + jsval" where
  "inheritSessionBinding source nxt =
     andthen (assertSessionBinding source) (\<lambda>_.
     andthen (assertSessionBinding nxt) (\<lambda>_.
     if jprop nxt ''deviceBinding'' \<noteq> JUndef \<and>
        jprop (jprop nxt ''deviceBinding'') ''jkt'' \<noteq> jprop (jprop source ''deviceBinding'') ''jkt''
     then Inl StoreConflict
     else if jprop source ''deviceBinding'' \<noteq> JUndef
     then Inr (set_prop ''deviceBinding''
            (JObj [(''type'', JStr ''dpop''), (''jkt'', jprop (jprop source ''deviceBinding'') ''jkt'')]) nxt)
     else Inr nxt))"

definition opt_str :: "jsval \<Rightarrow> bool" where
  "opt_str v \<longleftrightarrow> v = JUndef \<or> is_str v"

text \<open>\<open>session.logicalSessionId ?? session.sessionId\<close>, the lineage of a session.\<close>

definition lineage :: "jsval \<Rightarrow> jsval" where
  "lineage s = nullish (jprop s ''logicalSessionId'') (jprop s ''sessionId'')"

definition sessionRevocationContext :: "jsval \<Rightarrow> vault_error + jsval" where
  "sessionRevocationContext s =
     andthen (assertSessionBinding s) (\<lambda>_.
     if \<not> is_str (jprop s ''sessionId'') \<or> \<not> is_str (jprop s ''subject'') \<or> \<not> opt_str (jprop s ''logicalSessionId'')
     then Inl StoreError
     else
       (let provider = jprop s ''provider'' in
        if provider \<noteq> JUndef \<and>
           (\<not> isRecord provider \<or> \<not> opt_str (jprop provider ''issuer'') \<or> \<not> opt_str (jprop provider ''clientId''))
        then Inl StoreError
        else Inr (JObj ([(''logicalSessionId'', lineage s)] @
          (if provider = JUndef then []
           else [(''provider'', JObj (
              (if is_str (jprop provider ''issuer'') then [(''issuer'', jprop provider ''issuer'')] else []) @
              (if is_str (jprop provider ''clientId'') then [(''clientId'', jprop provider ''clientId'')] else [])))]) @
          (if jprop s ''deviceBinding'' = JUndef then [] else [(''deviceBinding'', jprop s ''deviceBinding'')])))))"

fun finite_num :: "jsval \<Rightarrow> bool" where
  "finite_num (JNum x) = is_finite x"
| "finite_num _ = False"

definition hasValidSessionRecord :: "jsval \<Rightarrow> jsval \<Rightarrow> bool" where
  "hasValidSessionRecord s sessionId \<longleftrightarrow>
     jprop s ''sessionId'' = sessionId \<and> is_str (jprop s ''subject'') \<and> opt_str (jprop s ''logicalSessionId'') \<and>
     is_str (jprop s ''refreshToken'') \<and> is_str (jprop s ''idToken'') \<and>
     (jprop s ''expiresAt'' = JUndef \<or> finite_num (jprop s ''expiresAt'')) \<and> hasValidBinding s"

definition assertSameLineageAuthority :: "jsval \<Rightarrow> jsval \<Rightarrow> vault_error + unit" where
  "assertSameLineageAuthority source member =
     andthen (assertSessionBinding member) (\<lambda>_.
     andthen (sessionRevocationContext member) (\<lambda>authority.
     if jprop (jprop source ''deviceBinding'') ''jkt'' \<noteq> jprop (jprop authority ''deviceBinding'') ''jkt'' \<or>
        jprop source ''subject'' \<noteq> jprop member ''subject'' \<or>
        jprop (jprop source ''provider'') ''issuer'' \<noteq> jprop (jprop authority ''provider'') ''issuer'' \<or>
        jprop (jprop source ''provider'') ''clientId'' \<noteq> jprop (jprop authority ''provider'') ''clientId''
     then Inl StoreError else Inr ()))"

section \<open>Lemmas\<close>

lemma jprop_set_prop [simp]:
  "isRecord r \<Longrightarrow> jprop (set_prop k v r) j = (if j = k then v else jprop r j)"
  by (auto simp: set_prop_def isRecord_def split: jsval.splits)

lemma isRecord_set_prop [simp]: "isRecord (set_prop k v r) \<longleftrightarrow> isRecord r"
  by (auto simp: set_prop_def isRecord_def split: jsval.splits)

lemma jprop_no_record: "\<not> isRecord r \<Longrightarrow> jprop r k = JUndef"
  by (cases r) (auto simp: isRecord_def)

lemma isBinding_jkt: "isBinding v \<Longrightarrow> jprop v ''type'' = JStr ''dpop'' \<and> isHash (jprop v ''jkt'')"
  by (simp add: isBinding_def)

lemma isHash_defined: "isHash v \<Longrightarrow> v \<noteq> JUndef \<and> v \<noteq> JNull"
  by (auto simp: isHash_def)

lemma isBinding_pair [simp]: "isBinding (JObj [(''type'', JStr ''dpop''), (''jkt'', j)]) \<longleftrightarrow> isHash j"
  by (simp add: isBinding_def isRecord_def own_keys_def)

text \<open>A rotation keeps the sender constraint of its source, and adds none.\<close>

lemma inherit_keeps_binding:
  assumes "inheritSessionBinding source nxt = Inr s" "isRecord nxt"
  shows "jprop (jprop s ''deviceBinding'') ''jkt'' = jprop (jprop source ''deviceBinding'') ''jkt''"
    and "jprop s ''deviceBinding'' = JUndef \<longleftrightarrow> jprop source ''deviceBinding'' = JUndef"
    and "hasValidBinding s" and "isRecord s" and "k \<noteq> ''deviceBinding'' \<Longrightarrow> jprop s k = jprop nxt k"
  using assms
  by (auto simp: inheritSessionBinding_def assertSessionBinding_def andthen_Inr hasValidBinding_def
      dest: isBinding_jkt isHash_defined split: if_splits)

end
