(* ===== verification/VaultStore.thy ===== *)
theory VaultStore
  imports VaultBinding
begin

text \<open>
  The in-memory vault store, index.ts of packages/express-oidc-vault-memory-store: authorization
  transactions, exchange codes, sessions with their rotation aliases, and back-channel logout token
  IDs, with the positional sweeps that reclaim expired records. Every operation takes the store's clock
  reading; each runs to its end before another starts, but for \<open>deleteSession\<close> of an alias, which
  awaits in the middle and is split there.
\<close>

section \<open>State\<close>

type_synonym record_map = "(jsval, jsval) jsmap"

record sweep_state =
  sw_keys :: "jsval list"
  sw_position :: nat

record sweep_work =
  inspectedKeys :: nat
  staleSnapshotSlots :: nat
  snapshotRebuilds :: nat
  aliasSessionVisits :: nat
  aliasEntryVisits :: nat

record vault =
  authorizationTransactions :: record_map
  exchangeCodes :: record_map
  sessions :: record_map
  rotatedSessionAliases :: record_map
  backchannelLogoutTokenJtis :: record_map
  authorizationTransactionSweep :: sweep_state
  exchangeCodeSweep :: sweep_state
  sessionSweep :: sweep_state
  rotatedSessionAliasSweep :: sweep_state
  backchannelLogoutTokenJtiSweep :: sweep_state
  sweepWork :: sweep_work

definition createMapSweepState :: sweep_state where
  "createMapSweepState = \<lparr>sw_keys = [], sw_position = 0\<rparr>"

definition createMemoryStoreSweepWork :: sweep_work where
  "createMemoryStoreSweepWork = \<lparr>inspectedKeys = 0, staleSnapshotSlots = 0, snapshotRebuilds = 0,
     aliasSessionVisits = 0, aliasEntryVisits = 0\<rparr>"

definition empty_vault :: vault where
  "empty_vault = \<lparr>authorizationTransactions = [], exchangeCodes = [], sessions = [], rotatedSessionAliases = [],
     backchannelLogoutTokenJtis = [], authorizationTransactionSweep = createMapSweepState,
     exchangeCodeSweep = createMapSweepState, sessionSweep = createMapSweepState,
     rotatedSessionAliasSweep = createMapSweepState, backchannelLogoutTokenJtiSweep = createMapSweepState,
     sweepWork = createMemoryStoreSweepWork\<rparr>"

text \<open>\<open>structuredClone\<close> of the modelled values: a value copy, or a throw for a function.\<close>

fun has_function :: "jsval \<Rightarrow> bool" where
  "has_function (JFun _) = True"
| "has_function (JArr vs) = list_ex has_function vs"
| "has_function (JObj ps) = list_ex (\<lambda>p. has_function (snd p)) ps"
| "has_function _ = False"

definition cloneRecord :: "jsval \<Rightarrow> vault_error + jsval" where
  "cloneRecord v = (if has_function v then Inl DataCloneError else Inr v)"

definition isExpiredRecord :: "jsval \<Rightarrow> jsnum \<Rightarrow> bool" where
  "isExpiredRecord v now = (case jprop v ''expiresAt'' of JNum x \<Rightarrow> num_le x now | _ \<Rightarrow> False)"

definition EXPIRY_SWEEP_BATCH_SIZE :: nat where
  "EXPIRY_SWEEP_BATCH_SIZE = 64"

section \<open>Sweeps\<close>

definition rebuildSweepSnapshot :: "record_map \<Rightarrow> sweep_work \<Rightarrow> sweep_state \<times> sweep_work" where
  "rebuildSweepSnapshot m w =
     (\<lparr>sw_keys = map fst m, sw_position = 0\<rparr>, w\<lparr>snapshotRebuilds := Suc (snapshotRebuilds w)\<rparr>)"

text \<open>
  The loop of a sweep, with \<open>n\<close> slots left to visit. It returns the values it deleted, in order, which
  the session sweep needs.
\<close>

fun sweep_loop :: "nat \<Rightarrow> jsnum \<Rightarrow> record_map \<Rightarrow> sweep_state \<Rightarrow> sweep_work \<Rightarrow>
    record_map \<times> sweep_state \<times> sweep_work \<times> jsval list" where
  "sweep_loop 0 now m s w = (m, s, w, [])"
| "sweep_loop (Suc n) now m s w =
     (if sw_position s \<ge> length (sw_keys s) \<and> length m \<le> length (sw_keys s) then (m, s, w, [])
      else
        (let (s, w) = (if sw_position s \<ge> length (sw_keys s) then rebuildSweepSnapshot m w else (s, w));
             key = sw_keys s ! sw_position s;
             s = s\<lparr>sw_position := Suc (sw_position s)\<rparr>
         in case mget m key of
              None \<Rightarrow> sweep_loop n now m s (w\<lparr>staleSnapshotSlots := Suc (staleSnapshotSlots w)\<rparr>)
            | Some v \<Rightarrow>
                (let w = w\<lparr>inspectedKeys := Suc (inspectedKeys w)\<rparr>
                 in if isExpiredRecord v now
                    then (let (m', s', w', out) = sweep_loop n now (mdel key m) s w in (m', s', w', v # out))
                    else sweep_loop n now m s w)))"

definition sweep_map :: "record_map \<Rightarrow> sweep_state \<Rightarrow> sweep_work \<Rightarrow> jsnum \<Rightarrow>
    record_map \<times> sweep_state \<times> sweep_work \<times> jsval list" where
  "sweep_map m s w now =
     (if m = [] then (m, \<lparr>sw_keys = [], sw_position = 0\<rparr>, w, [])
      else
        (let (s, w) = (if sw_position s \<ge> length (sw_keys s) then rebuildSweepSnapshot m w else (s, w))
         in sweep_loop EXPIRY_SWEEP_BATCH_SIZE now m s w))"

definition pruneMapBatch :: "record_map \<Rightarrow> sweep_state \<Rightarrow> sweep_work \<Rightarrow> jsnum \<Rightarrow>
    record_map \<times> sweep_state \<times> sweep_work" where
  "pruneMapBatch m s w now = (case sweep_map m s w now of (m', s', w', _) \<Rightarrow> (m', s', w'))"

section \<open>Aliases\<close>

text \<open>The liveness scan stops at the first live member; \<open>n\<close> counts the sessions it visits.\<close>

fun live_scan :: "record_map \<Rightarrow> jsval \<Rightarrow> jsnum \<Rightarrow> bool \<times> nat" where
  "live_scan [] l now = (False, 0)"
| "live_scan ((_, s) # rest) l now =
     (if lineage s = l \<and> \<not> isExpiredRecord s now then (True, 1)
      else (let (b, n) = live_scan rest l now in (b, Suc n)))"

definition hasLiveSessionForLogicalSession :: "jsval \<Rightarrow> jsnum \<Rightarrow> vault \<Rightarrow> vault \<times> bool" where
  "hasLiveSessionForLogicalSession l now v =
     (let (b, n) = live_scan (sessions v) l now
      in (v\<lparr>sweepWork := (sweepWork v)\<lparr>aliasSessionVisits := aliasSessionVisits (sweepWork v) + n\<rparr>\<rparr>, b))"

definition removeAliasesForLogicalSession :: "jsval \<Rightarrow> vault \<Rightarrow> vault" where
  "removeAliasesForLogicalSession l v =
     v\<lparr>rotatedSessionAliases := filter (\<lambda>p. jprop (snd p) ''logicalSessionId'' \<noteq> l) (rotatedSessionAliases v),
       sweepWork := (sweepWork v)\<lparr>aliasEntryVisits := aliasEntryVisits (sweepWork v) + length (rotatedSessionAliases v)\<rparr>\<rparr>"

definition removeAliasesForInactiveLogicalSession :: "jsval \<Rightarrow> jsnum \<Rightarrow> vault \<Rightarrow> vault" where
  "removeAliasesForInactiveLogicalSession l now v =
     (let (v, alive) = hasLiveSessionForLogicalSession l now v
      in if \<not> alive then removeAliasesForLogicalSession l v else v)"

fun removeAliasesForInactiveLogicalSessions :: "jsval list \<Rightarrow> jsnum \<Rightarrow> vault \<Rightarrow> vault" where
  "removeAliasesForInactiveLogicalSessions [] now v = v"
| "removeAliasesForInactiveLogicalSessions (l # ls) now v =
     removeAliasesForInactiveLogicalSessions ls now (removeAliasesForInactiveLogicalSession l now v)"

text \<open>A \<open>Set\<close> built by \<open>add\<close>: insertion order, no duplicates.\<close>

definition set_add :: "jsval \<Rightarrow> jsval list \<Rightarrow> jsval list" where
  "set_add x xs = (if x \<in> set xs then xs else xs @ [x])"

definition pruneSessionsBatch :: "jsnum \<Rightarrow> vault \<Rightarrow> vault" where
  "pruneSessionsBatch now v =
     (case sweep_map (sessions v) (sessionSweep v) (sweepWork v) now of (m, s, w, expired) \<Rightarrow>
        removeAliasesForInactiveLogicalSessions (fold (\<lambda>e. set_add (lineage e)) expired []) now
          (v\<lparr>sessions := m, sessionSweep := s, sweepWork := w\<rparr>))"

definition pruneAliases :: "jsnum \<Rightarrow> vault \<Rightarrow> vault" where
  "pruneAliases now v =
     (case pruneMapBatch (rotatedSessionAliases v) (rotatedSessionAliasSweep v) (sweepWork v) now of (m, s, w) \<Rightarrow>
        v\<lparr>rotatedSessionAliases := m, rotatedSessionAliasSweep := s, sweepWork := w\<rparr>)"

definition pruneTransactions :: "jsnum \<Rightarrow> vault \<Rightarrow> vault" where
  "pruneTransactions now v =
     (case pruneMapBatch (authorizationTransactions v) (authorizationTransactionSweep v) (sweepWork v) now of (m, s, w) \<Rightarrow>
        v\<lparr>authorizationTransactions := m, authorizationTransactionSweep := s, sweepWork := w\<rparr>)"

definition pruneCodes :: "jsnum \<Rightarrow> vault \<Rightarrow> vault" where
  "pruneCodes now v =
     (case pruneMapBatch (exchangeCodes v) (exchangeCodeSweep v) (sweepWork v) now of (m, s, w) \<Rightarrow>
        v\<lparr>exchangeCodes := m, exchangeCodeSweep := s, sweepWork := w\<rparr>)"

definition pruneJtis :: "jsnum \<Rightarrow> vault \<Rightarrow> vault" where
  "pruneJtis now v =
     (case pruneMapBatch (backchannelLogoutTokenJtis v) (backchannelLogoutTokenJtiSweep v) (sweepWork v) now of (m, s, w) \<Rightarrow>
        v\<lparr>backchannelLogoutTokenJtis := m, backchannelLogoutTokenJtiSweep := s, sweepWork := w\<rparr>)"

section \<open>One-time records\<close>

text \<open>\<open>readOneTimeRecord\<close>: the live record under an ID; an expired or malformed one is deleted.\<close>

definition readOneTimeRecord :: "jsval \<Rightarrow> jsnum \<Rightarrow> record_map \<Rightarrow> record_map \<times> jsval option" where
  "readOneTimeRecord i now m =
     (case mget m i of
        None \<Rightarrow> (m, None)
      | Some r \<Rightarrow>
          (if \<not> finite_num (jprop r ''createdAt'') \<or> \<not> finite_num (jprop r ''expiresAt'') \<or> isExpiredRecord r now \<or>
              \<not> hasValidRecordBinding r
           then (mdel i m, None)
           else (m, Some r)))"

definition createAuthorizationTransaction :: "jsval \<Rightarrow> jsnum \<Rightarrow> vault \<Rightarrow> vault \<times> (vault_error + unit)" where
  "createAuthorizationTransaction input now v =
     (case andthen (cloneRecord input) (\<lambda>i. andthen (assertRecordBinding i) (\<lambda>_. Inr i)) of
        Inl e \<Rightarrow> (v, Inl e)
      | Inr i \<Rightarrow>
          (let v = pruneTransactions now v
           in (v\<lparr>authorizationTransactions := mput (jprop i ''state'') i (authorizationTransactions v)\<rparr>, Inr ())))"

definition transaction_shape :: "jsval \<Rightarrow> jsval \<Rightarrow> bool" where
  "transaction_shape r state \<longleftrightarrow> jprop r ''state'' = state \<and> is_str (jprop r ''nonce'') \<and>
     is_str (jprop r ''pkceVerifier'') \<and> is_str (jprop r ''codeChallenge'')"

definition getAuthorizationTransaction :: "jsval \<Rightarrow> jsnum \<Rightarrow> vault \<Rightarrow> vault \<times> jsval option" where
  "getAuthorizationTransaction state now v =
     (case readOneTimeRecord state now (authorizationTransactions v) of (m, r) \<Rightarrow>
        (v\<lparr>authorizationTransactions := m\<rparr>,
         case r of Some x \<Rightarrow> if transaction_shape x state then Some x else None | None \<Rightarrow> None))"

definition consumeAuthorizationTransactionIfMatches ::
  "jsval \<Rightarrow> jsnum \<Rightarrow> vault \<Rightarrow> vault \<times> (vault_error + jsval option)" where
  "consumeAuthorizationTransactionIfMatches input now v =
     (case cloneRecord input of
        Inl e \<Rightarrow> (v, Inl e)
      | Inr i \<Rightarrow>
          (if \<not> isBindingMatch (jprop i ''match'') then (v, Inr None)
           else
             (let v = pruneTransactions now v; state = jprop i ''state'';
                  (m, r) = readOneTimeRecord state now (authorizationTransactions v);
                  v = v\<lparr>authorizationTransactions := m\<rparr>
              in case r of
                   None \<Rightarrow> (v, Inr None)
                 | Some x \<Rightarrow>
                     (if \<not> transaction_shape x state \<or> \<not> matchesRecordBinding x (jprop i ''match'')
                      then (v, Inr None)
                      else (v\<lparr>authorizationTransactions := mdel state (authorizationTransactions v)\<rparr>, Inr (Some x))))))"

definition unbound_match :: jsval where
  "unbound_match = JObj [(''deviceBinding'', JNull), (''browserBindingHash'', JNull)]"

definition consumeAuthorizationTransaction :: "jsval \<Rightarrow> jsnum \<Rightarrow> vault \<Rightarrow> vault \<times> (vault_error + jsval option)" where
  "consumeAuthorizationTransaction state =
     consumeAuthorizationTransactionIfMatches (JObj [(''state'', state), (''match'', unbound_match)])"

definition createExchangeCode :: "jsval \<Rightarrow> jsnum \<Rightarrow> vault \<Rightarrow> vault \<times> (vault_error + unit)" where
  "createExchangeCode input now v =
     (case andthen (cloneRecord input) (\<lambda>i. andthen (assertRecordBinding i) (\<lambda>_. Inr i)) of
        Inl e \<Rightarrow> (v, Inl e)
      | Inr i \<Rightarrow>
          (let v = pruneCodes now v
           in (v\<lparr>exchangeCodes := mput (jprop i ''code'') i (exchangeCodes v)\<rparr>, Inr ())))"

definition getExchangeCode :: "jsval \<Rightarrow> jsnum \<Rightarrow> vault \<Rightarrow> vault \<times> jsval option" where
  "getExchangeCode code now v =
     (case readOneTimeRecord code now (exchangeCodes v) of (m, r) \<Rightarrow>
        (v\<lparr>exchangeCodes := m\<rparr>,
         case r of Some x \<Rightarrow> if jprop x ''code'' = code \<and> is_str (jprop x ''sessionId'') then Some x else None
         | None \<Rightarrow> None))"

definition consumeExchangeRecord :: "jsval \<Rightarrow> jsval \<Rightarrow> jsnum \<Rightarrow> jsval \<Rightarrow> vault \<Rightarrow> vault \<times> jsval option" where
  "consumeExchangeRecord code match now expectedSessionId v =
     (let (m, r) = readOneTimeRecord code now (exchangeCodes v);
          v = v\<lparr>exchangeCodes := m\<rparr>
      in case r of
           None \<Rightarrow> (v, None)
         | Some x \<Rightarrow>
             (if jprop x ''code'' \<noteq> code \<or> \<not> is_str (jprop x ''sessionId'') \<or>
                 (expectedSessionId \<noteq> JUndef \<and> jprop x ''sessionId'' \<noteq> expectedSessionId) \<or>
                 \<not> matchesRecordBinding x match
              then (v, None)
              else (v\<lparr>exchangeCodes := mdel code (exchangeCodes v)\<rparr>, Some x)))"

definition consumeExchangeCode :: "jsval \<Rightarrow> jsnum \<Rightarrow> vault \<Rightarrow> vault \<times> jsval option" where
  "consumeExchangeCode code now v = consumeExchangeRecord code unbound_match now JUndef (pruneCodes now v)"

definition consumeExchangeCodeIfMatches :: "jsval \<Rightarrow> jsnum \<Rightarrow> vault \<Rightarrow> vault \<times> (vault_error + jsval option)" where
  "consumeExchangeCodeIfMatches input now v =
     (case cloneRecord input of
        Inl e \<Rightarrow> (v, Inl e)
      | Inr i \<Rightarrow>
          (if \<not> isBindingMatch (jprop i ''match'') \<or> \<not> is_str (jprop i ''expectedSessionId'') then (v, Inr None)
           else apsnd Inr (consumeExchangeRecord (jprop i ''code'') (jprop i ''match'') now
             (jprop i ''expectedSessionId'') (pruneCodes now v))))"

section \<open>Sessions\<close>

text \<open>\<open>{ ...input, logicalSessionId, createdAt, updatedAt }\<close> with the defaults of each operation.\<close>

definition complete_session :: "jsval \<Rightarrow> jsval \<Rightarrow> jsnum \<Rightarrow> jsval" where
  "complete_session input defaultLineage now =
     set_prop ''updatedAt'' (nullish (jprop input ''updatedAt'') (JNum now))
       (set_prop ''createdAt'' (nullish (jprop input ''createdAt'') (JNum now))
         (set_prop ''logicalSessionId'' (nullish (jprop input ''logicalSessionId'') defaultLineage)
           (case input of JObj ps \<Rightarrow> JObj ps | _ \<Rightarrow> JObj [])))"

definition createSession :: "jsval \<Rightarrow> jsnum \<Rightarrow> vault \<Rightarrow> vault \<times> (vault_error + jsval)" where
  "createSession input now v =
     (case andthen (cloneRecord input) (\<lambda>i. andthen (assertSessionBinding i) (\<lambda>_. Inr i)) of
        Inl e \<Rightarrow> (v, Inl e)
      | Inr i \<Rightarrow>
          (let v = pruneAliases now (pruneSessionsBatch now v);
               session = complete_session i (jprop i ''sessionId'') now;
               previous = mget (sessions v) (jprop session ''sessionId'');
               v = v\<lparr>sessions := mput (jprop session ''sessionId'') session (sessions v),
                     rotatedSessionAliases := mdel (jprop session ''sessionId'') (rotatedSessionAliases v)\<rparr>;
               v = (case previous of
                      None \<Rightarrow> v
                    | Some p \<Rightarrow>
                        (if lineage p \<noteq> JUndef \<and> lineage p \<noteq> jprop session ''logicalSessionId''
                         then removeAliasesForInactiveLogicalSession (lineage p) now v else v))
           in (v, Inr session)))"

definition getSession :: "jsval \<Rightarrow> jsnum \<Rightarrow> vault \<Rightarrow> vault \<times> jsval option" where
  "getSession sessionId now v =
     (case mget (sessions v) sessionId of
        None \<Rightarrow> (v, None)
      | Some session \<Rightarrow>
          (if isExpiredRecord session now
           then (removeAliasesForInactiveLogicalSession (lineage session) now
                   (v\<lparr>sessions := mdel sessionId (sessions v)\<rparr>), None)
           else (v, if hasValidSessionRecord session sessionId then Some session else None)))"

text \<open>The authority of a session or of an alias: agreed by every live member of the lineage.\<close>

fun lineage_source :: "jsval \<Rightarrow> jsnum \<Rightarrow> jsval option \<Rightarrow> record_map \<Rightarrow> vault_error + jsval option" where
  "lineage_source l now source [] = Inr source"
| "lineage_source l now source ((_, member) # rest) =
     (if lineage member \<noteq> l \<or> isExpiredRecord member now then lineage_source l now source rest
      else if jprop member ''sessionId'' = JUndef \<or> \<not> is_str (jprop member ''subject'') \<or>
              (jprop member ''expiresAt'' \<noteq> JUndef \<and> \<not> finite_num (jprop member ''expiresAt''))
      then Inl StoreError
      else
        andthen (sessionRevocationContext member) (\<lambda>_.
          case source of
            Some s \<Rightarrow> andthen (assertSameLineageAuthority s member) (\<lambda>_. lineage_source l now source rest)
          | None \<Rightarrow> lineage_source l now (Some member) rest))"

definition getSessionRevocationContext :: "jsval \<Rightarrow> jsnum \<Rightarrow> vault \<Rightarrow> vault_error + jsval option" where
  "getSessionRevocationContext sessionId now v =
     (let live = (case mget (sessions v) sessionId of
            Some s \<Rightarrow> if isExpiredRecord s now then None else Some s | None \<Rightarrow> None);
          alias = mget (rotatedSessionAliases v) sessionId
      in andthen
           (case live of
              Some s \<Rightarrow>
                (if jprop s ''sessionId'' \<noteq> sessionId then Inl StoreError
                 else andthen (sessionRevocationContext s) (\<lambda>_. Inr ()))
            | None \<Rightarrow> Inr ()) (\<lambda>_.
         andthen
           (case (live, alias) of
              (None, Some a) \<Rightarrow>
                guard StoreError (is_str (jprop a ''logicalSessionId'') \<and>
                  (jprop a ''expiresAt'' = JUndef \<or> finite_num (jprop a ''expiresAt'')))
            | _ \<Rightarrow> Inr ()) (\<lambda>_.
         let l = (case live of
                    Some s \<Rightarrow> lineage s
                  | None \<Rightarrow> (case alias of
                        Some a \<Rightarrow> if isExpiredRecord a now then JUndef else jprop a ''logicalSessionId''
                      | None \<Rightarrow> JUndef))
         in if l = JUndef then Inr None
            else if \<not> is_str l then Inl StoreError
            else
              andthen (lineage_source l now None (sessions v)) (\<lambda>source.
              case source of
                None \<Rightarrow> Inr None
              | Some s \<Rightarrow> andthen (sessionRevocationContext s) (\<lambda>c. Inr (Some c))))))"

text \<open>
  \<open>rotateSession({ sessionId, nextSession })\<close>, with the properties of \<open>nextSession\<close>. The expired source is dropped first; every check and the
  clone come before the target's old record is retired.
\<close>

definition rotateSession :: "jsval \<Rightarrow> (string \<times> jsval) list \<Rightarrow> jsnum \<Rightarrow> vault \<Rightarrow> vault \<times> (vault_error + jsval)" where
  "rotateSession sessionId next_fields now v =
     (let v = (case mget (sessions v) sessionId of
                 Some s \<Rightarrow>
                   (if isExpiredRecord s now
                    then removeAliasesForInactiveLogicalSession (lineage s) now
                           (v\<lparr>sessions := mdel sessionId (sessions v)\<rparr>)
                    else v)
               | None \<Rightarrow> v)
      in case mget (sessions v) sessionId of
           None \<Rightarrow> (v, Inl StoreConflict)
         | Some source \<Rightarrow>
             (if \<not> hasValidSessionRecord source sessionId then (v, Inl StoreConflict)
              else if jprop (JObj next_fields) ''sessionId'' = sessionId then (v, Inl StoreConflict)
              else
                (let target = mget (sessions v) (jprop (JObj next_fields) ''sessionId'')
                 in if (case target of Some t \<Rightarrow> \<not> isExpiredRecord t now | None \<Rightarrow> False) then (v, Inl StoreConflict)
                    else
                      (case andthen (cloneRecord (JObj next_fields)) (inheritSessionBinding source) of
                         Inl e \<Rightarrow> (v, Inl e)
                       | Inr nxt \<Rightarrow>
                           (let session = complete_session nxt (lineage source) now;
                                sid = jprop session ''sessionId'';
                                v = (case target of
                                       Some t \<Rightarrow>
                                         removeAliasesForInactiveLogicalSession (lineage t) now
                                           (v\<lparr>sessions := mdel sid (sessions v)\<rparr>)
                                     | None \<Rightarrow> v);
                                v = v\<lparr>sessions := mput sid session (mdel sessionId (sessions v)),
                                      rotatedSessionAliases :=
                                        mput sessionId (JObj [(''logicalSessionId'', lineage session),
                                            (''expiresAt'', jprop session ''expiresAt'')])
                                          (mdel sid (rotatedSessionAliases v))\<rparr>;
                                v = (if lineage source \<noteq> jprop session ''logicalSessionId''
                                     then removeAliasesForInactiveLogicalSession (lineage source) now v else v)
                            in (v, Inr session))))))"

section \<open>Revocation\<close>

text \<open>
  The scan of a bulk deletion: the expired lineages, the lineages hit, the number of live sessions hit
  and the sessions that stay.
\<close>

fun delete_scan :: "(jsval \<Rightarrow> bool) \<Rightarrow> jsnum \<Rightarrow> record_map \<Rightarrow> record_map \<times> jsval list \<times> jsval list \<times> nat" where
  "delete_scan hit now [] = ([], [], [], 0)"
| "delete_scan hit now ((k, s) # rest) =
     (let (kept, expired, hits, n) = delete_scan hit now rest
      in if isExpiredRecord s now then (kept, lineage s # expired, hits, n)
         else if hit s then (kept, expired, lineage s # hits, Suc n)
         else ((k, s) # kept, expired, hits, n))"

definition as_set :: "jsval list \<Rightarrow> jsval list" where
  "as_set ls = fold set_add ls []"

definition deleteSessionsByLogicalSessionId :: "jsval \<Rightarrow> jsnum \<Rightarrow> vault \<Rightarrow> vault \<times> nat" where
  "deleteSessionsByLogicalSessionId input now v =
     (let logicalSessionId = (if is_str input then input else jprop input ''logicalSessionId'');
          (kept, expired, _, n) = delete_scan (\<lambda>s. lineage s = logicalSessionId) now (sessions v);
          v = removeAliasesForInactiveLogicalSessions (as_set expired) now (v\<lparr>sessions := kept\<rparr>)
      in (removeAliasesForLogicalSession logicalSessionId v, n))"

definition matchesProviderScope :: "jsval \<Rightarrow> jsval \<Rightarrow> bool" where
  "matchesProviderScope session input \<longleftrightarrow>
     (jprop input ''issuer'' \<noteq> JUndef \<longrightarrow> jprop (jprop session ''provider'') ''issuer'' = jprop input ''issuer'') \<and>
     (jprop input ''clientId'' \<noteq> JUndef \<longrightarrow> jprop (jprop session ''provider'') ''clientId'' = jprop input ''clientId'')"

text \<open>The common part of the deletions by subject and by provider session.\<close>

definition delete_matching :: "(jsval \<Rightarrow> bool) \<Rightarrow> jsnum \<Rightarrow> vault \<Rightarrow> vault \<times> nat" where
  "delete_matching hit now v =
     (let (kept, expired, hits, n) = delete_scan hit now (sessions v);
          v = removeAliasesForInactiveLogicalSessions (as_set expired) now (v\<lparr>sessions := kept\<rparr>)
      in (removeAliasesForInactiveLogicalSessions (as_set hits) now v, n))"

definition toSubjectDeleteInput :: "jsval \<Rightarrow> jsval" where
  "toSubjectDeleteInput input = (if is_str input then JObj [(''subject'', input)] else input)"

definition toProviderSessionDeleteInput :: "jsval \<Rightarrow> jsval" where
  "toProviderSessionDeleteInput input = (if is_str input then JObj [(''providerSessionId'', input)] else input)"

definition deleteSessionsBySubject :: "jsval \<Rightarrow> jsnum \<Rightarrow> vault \<Rightarrow> vault \<times> nat" where
  "deleteSessionsBySubject input =
     delete_matching (\<lambda>s. jprop s ''subject'' = jprop (toSubjectDeleteInput input) ''subject'' \<and>
       matchesProviderScope s (toSubjectDeleteInput input))"

definition deleteSessionsByProviderSessionId :: "jsval \<Rightarrow> jsnum \<Rightarrow> vault \<Rightarrow> vault \<times> nat" where
  "deleteSessionsByProviderSessionId input =
     delete_matching (\<lambda>s. jprop s ''providerSessionId'' = jprop (toProviderSessionDeleteInput input) ''providerSessionId'' \<and>
       matchesProviderScope s (toProviderSessionDeleteInput input))"

text \<open>
  \<open>deleteSession\<close> up to its \<open>await\<close>: the flag tells that the alias is still to be deleted. \<open>later\<close> is the
  clock reading of the nested deletion.
\<close>

definition deleteSession_begin :: "jsval \<Rightarrow> jsnum \<Rightarrow> jsnum \<Rightarrow> vault \<Rightarrow> vault \<times> bool" where
  "deleteSession_begin sessionId now later v =
     (let v = pruneAliases now (pruneSessionsBatch now v)
      in case mget (sessions v) sessionId of
           Some session \<Rightarrow>
             (removeAliasesForInactiveLogicalSession (lineage session) now
                (v\<lparr>sessions := mdel sessionId (sessions v),
                  rotatedSessionAliases := mdel sessionId (rotatedSessionAliases v)\<rparr>), False)
         | None \<Rightarrow>
             (case mget (rotatedSessionAliases v) sessionId of
                None \<Rightarrow> (v, False)
              | Some a \<Rightarrow>
                  (if isExpiredRecord a now
                   then (v\<lparr>rotatedSessionAliases := mdel sessionId (rotatedSessionAliases v)\<rparr>, False)
                   else (fst (deleteSessionsByLogicalSessionId (jprop a ''logicalSessionId'') later v), True))))"

definition deleteSession_end :: "jsval \<Rightarrow> vault \<Rightarrow> vault" where
  "deleteSession_end sessionId v = v\<lparr>rotatedSessionAliases := mdel sessionId (rotatedSessionAliases v)\<rparr>"

definition deleteSession :: "jsval \<Rightarrow> jsnum \<Rightarrow> jsnum \<Rightarrow> vault \<Rightarrow> vault" where
  "deleteSession sessionId now later v =
     (case deleteSession_begin sessionId now later v of (v', pending) \<Rightarrow>
        if pending then deleteSession_end sessionId v' else v')"

section \<open>Back-channel logout token IDs\<close>

definition consumeBackchannelLogoutTokenJti :: "jsval \<Rightarrow> jsnum \<Rightarrow> vault \<Rightarrow> vault \<times> bool" where
  "consumeBackchannelLogoutTokenJti input now v =
     (let v = pruneJtis now v; jti = jprop input ''jti''; expiresAt = jprop input ''expiresAt''
      in if \<not> finite_num expiresAt \<or> isExpiredRecord (JObj [(''expiresAt'', expiresAt)]) now then (v, False)
         else
           (case mget (backchannelLogoutTokenJtis v) jti of
              Some r \<Rightarrow>
                (if \<not> isExpiredRecord r now then (v, False)
                 else (v\<lparr>backchannelLogoutTokenJtis :=
                     mput jti (JObj [(''expiresAt'', expiresAt)]) (backchannelLogoutTokenJtis v)\<rparr>, True))
            | None \<Rightarrow>
                (v\<lparr>backchannelLogoutTokenJtis :=
                   mput jti (JObj [(''expiresAt'', expiresAt)]) (backchannelLogoutTokenJtis v)\<rparr>, True)))"

section \<open>What a sweep does\<close>

definition swept_from :: "nat \<Rightarrow> jsnum \<Rightarrow> record_map \<Rightarrow> record_map \<Rightarrow> jsval list \<Rightarrow> bool" where
  "swept_from n now m m' out \<longleftrightarrow>
     wf_map m' \<and> (\<forall>k x. mget m' k = Some x \<longrightarrow> mget m k = Some x) \<and>
     (\<forall>k x. mget m k = Some x \<and> mget m' k = None \<longrightarrow> isExpiredRecord x now \<and> x \<in> set out) \<and> length out \<le> n"

lemma swept_fromD:
  assumes "swept_from n now m m' out"
  shows "wf_map m'" and "mget m' k = Some x \<Longrightarrow> mget m k = Some x"
    and "mget m k = Some x \<Longrightarrow> mget m' k = Some x \<or> mget m' k = None \<and> isExpiredRecord x now \<and> x \<in> set out"
    and "length out \<le> n" and "mget m k = None \<Longrightarrow> mget m' k = None"
proof -
  note a = assms [unfolded swept_from_def]
  show "wf_map m'" "mget m' k = Some x \<Longrightarrow> mget m k = Some x" "length out \<le> n"
    using a by blast+
  show "mget m' k = None" if "mget m k = None"
    using a that by (metis not_Some_eq)
  show "mget m' k = Some x \<or> mget m' k = None \<and> isExpiredRecord x now \<and> x \<in> set out" if "mget m k = Some x"
    using a that by (metis not_Some_eq option.inject)
qed

lemma swept_from_refl: "wf_map m \<Longrightarrow> swept_from n now m m []"
  by (auto simp: swept_from_def)

lemma swept_from_Suc: "swept_from n now m m' out \<Longrightarrow> swept_from (Suc n) now m m' out"
  by (simp add: swept_from_def)

lemma swept_from_delete:
  assumes "swept_from n now (mdel key m) m' out" "mget m key = Some v" "isExpiredRecord v now"
  shows "swept_from (Suc n) now m m' (v # out)"
  unfolding swept_from_def
proof (intro conjI allI impI)
  show "wf_map m'" using swept_fromD(1) [OF assms(1)] .
  show "length (v # out) \<le> Suc n" using swept_fromD(4) [OF assms(1)] by simp
  show "mget m k = Some x" if "mget m' k = Some x" for k x
    using swept_fromD(2) [OF assms(1) that] by (cases "k = key") simp_all
  fix k x assume k: "mget m k = Some x \<and> mget m' k = None"
  show "isExpiredRecord x now" "x \<in> set (v # out)"
  proof -
    have "isExpiredRecord x now \<and> x \<in> set (v # out)"
    proof (cases "k = key")
      case False
      then have "mget (mdel key m) k = Some x" using k by simp
      from swept_fromD(3) [OF assms(1) this] k show ?thesis by auto
    qed (use k assms(2,3) in auto)
    then show "isExpiredRecord x now" "x \<in> set (v # out)" by blast+
  qed
qed

lemma sweep_loop_spec:
  "wf_map m \<Longrightarrow> sweep_loop n now m s w = (m', s', w', out) \<Longrightarrow> swept_from n now m m' out"
proof (induction n arbitrary: m s w m' s' w' out)
  case (Suc n)
  show ?case
  proof (cases "sw_position s \<ge> length (sw_keys s) \<and> length m \<le> length (sw_keys s)")
    case True
    with Suc.prems show ?thesis by (auto intro: swept_from_refl)
  next
    case False
    obtain s1 w1 where sw: "(if sw_position s \<ge> length (sw_keys s) then rebuildSweepSnapshot m w else (s, w)) = (s1, w1)"
      by fastforce
    define key where "key = sw_keys s1 ! sw_position s1"
    define s2 where "s2 = s1\<lparr>sw_position := Suc (sw_position s1)\<rparr>"
    have step: "sweep_loop (Suc n) now m s w = (case mget m key of
        None \<Rightarrow> sweep_loop n now m s2 (w1\<lparr>staleSnapshotSlots := Suc (staleSnapshotSlots w1)\<rparr>)
      | Some v \<Rightarrow> (let w = w1\<lparr>inspectedKeys := Suc (inspectedKeys w1)\<rparr>
          in if isExpiredRecord v now
             then (let (m', s', w', out) = sweep_loop n now (mdel key m) s2 w in (m', s', w', v # out))
             else sweep_loop n now m s2 w))"
      using False sw unfolding key_def s2_def sweep_loop.simps(2) Let_def by (simp only: if_False split_conv)
    show ?thesis
    proof (cases "mget m key")
      case None
      with step Suc.prems Suc.IH [OF Suc.prems(1)] show ?thesis by (auto intro: swept_from_Suc)
    next
      case (Some v)
      show ?thesis
      proof (cases "isExpiredRecord v now")
        case True
        obtain m1 s3 w3 out1 where l: "sweep_loop n now (mdel key m) s2 (w1\<lparr>inspectedKeys := Suc (inspectedKeys w1)\<rparr>) = (m1, s3, w3, out1)"
          by (metis prod_cases4)
        with step Some True Suc.prems(2) have "m' = m1" "out = v # out1" by (simp_all add: Let_def)
        with Suc.IH [OF _ l] Suc.prems(1) Some True show ?thesis by (auto intro: swept_from_delete)
      next
        case False
        with step Some Suc.prems Suc.IH [OF Suc.prems(1)] show ?thesis by (auto simp: Let_def intro: swept_from_Suc)
      qed
    qed
  qed
qed (auto intro: swept_from_refl)

lemma sweep_map_spec:
  assumes "wf_map m" "sweep_map m s w now = (m', s', w', out)"
  shows "swept_from EXPIRY_SWEEP_BATCH_SIZE now m m' out"
  using assms by (auto simp: sweep_map_def Let_def split: if_splits prod.splits intro: swept_from_refl sweep_loop_spec)

lemma pruneMapBatch_spec:
  assumes "wf_map m" "pruneMapBatch m s w now = (m', s', w')"
  obtains out where "swept_from EXPIRY_SWEEP_BATCH_SIZE now m m' out"
  using assms by (auto simp: pruneMapBatch_def split: prod.splits dest: sweep_map_spec)

section \<open>The invariant\<close>

text \<open>
  \<open>anchored L\<close>: every alias points at a lineage that has a session, but for the lineages in \<open>L\<close>, which
  an operation has still to clean up. The lineage of a record that was stored without any ID, against
  its type, is never cleaned up and is left out of the invariant.
\<close>

definition no_lineage :: "jsval set" where
  "no_lineage = {JUndef, JNull}"

definition has_session :: "record_map \<Rightarrow> jsval \<Rightarrow> bool" where
  "has_session m l \<longleftrightarrow> (\<exists>k s. mget m k = Some s \<and> lineage s = l)"

definition anchored :: "jsval set \<Rightarrow> vault \<Rightarrow> bool" where
  "anchored L v \<longleftrightarrow> (\<forall>k a. mget (rotatedSessionAliases v) k = Some a \<longrightarrow>
     jprop a ''logicalSessionId'' \<in> L \<or> has_session (sessions v) (jprop a ''logicalSessionId''))"

definition maps_ok :: "vault \<Rightarrow> bool" where
  "maps_ok v \<longleftrightarrow> wf_map (authorizationTransactions v) \<and> wf_map (exchangeCodes v) \<and> wf_map (sessions v) \<and>
     wf_map (rotatedSessionAliases v) \<and> wf_map (backchannelLogoutTokenJtis v)"

definition session_filed :: "jsval \<Rightarrow> jsval \<Rightarrow> bool" where
  "session_filed k s \<longleftrightarrow> jprop s ''sessionId'' = k \<and> hasValidBinding s"

definition sessions_ok :: "vault \<Rightarrow> bool" where
  "sessions_ok v \<longleftrightarrow> (\<forall>k s. mget (sessions v) k = Some s \<longrightarrow> session_filed k s) \<and>
     (\<forall>k s. mget (sessions v) k = Some s \<longrightarrow> mget (rotatedSessionAliases v) k = None)"

definition vault_inv :: "vault \<Rightarrow> bool" where
  "vault_inv v \<longleftrightarrow> maps_ok v \<and> sessions_ok v \<and> anchored no_lineage v"

text \<open>What an operation that only removes sessions and aliases keeps.\<close>

definition shrunk :: "vault \<Rightarrow> vault \<Rightarrow> bool" where
  "shrunk v v' \<longleftrightarrow>
     (\<forall>k s. mget (sessions v') k = Some s \<longrightarrow> mget (sessions v) k = Some s) \<and>
     (\<forall>k a. mget (rotatedSessionAliases v') k = Some a \<longrightarrow> mget (rotatedSessionAliases v) k = Some a)"

lemma shrunk_refl [simp]: "shrunk v v"
  by (simp add: shrunk_def)

lemma shrunk_trans: "shrunk a b \<Longrightarrow> shrunk b c \<Longrightarrow> shrunk a c"
  by (simp add: shrunk_def)

lemma shrunk_sessions_ok: "sessions_ok v \<Longrightarrow> shrunk v v' \<Longrightarrow> sessions_ok v'"
  unfolding sessions_ok_def shrunk_def by (metis not_None_eq option.distinct(1))

lemma live_scan_iff: "fst (live_scan m l now) \<longleftrightarrow> (\<exists>(k, s) \<in> set m. lineage s = l \<and> \<not> isExpiredRecord s now)"
  by (induction m) (auto simp: Let_def split: prod.splits)

definition lineage_live :: "record_map \<Rightarrow> jsval \<Rightarrow> jsnum \<Rightarrow> bool" where
  "lineage_live m l now \<longleftrightarrow> (\<exists>k s. mget m k = Some s \<and> lineage s = l \<and> \<not> isExpiredRecord s now)"

lemma live_scan_lineage: "wf_map m \<Longrightarrow> fst (live_scan m l now) \<longleftrightarrow> lineage_live m l now"
  unfolding live_scan_iff lineage_live_def using mem_mget [of m] by fast

text \<open>The removal of the aliases of an inactive lineage, in one equation.\<close>

lemma remove_inactive:
  assumes "maps_ok v"
  shows "sessions (removeAliasesForInactiveLogicalSession l now v) = sessions v"
    and "mget (rotatedSessionAliases (removeAliasesForInactiveLogicalSession l now v)) k =
      (case mget (rotatedSessionAliases v) k of
         Some a \<Rightarrow> if jprop a ''logicalSessionId'' = l \<and> \<not> lineage_live (sessions v) l now then None else Some a
       | None \<Rightarrow> None)"
    and "maps_ok (removeAliasesForInactiveLogicalSession l now v)"
    and "authorizationTransactions (removeAliasesForInactiveLogicalSession l now v) = authorizationTransactions v"
    and "exchangeCodes (removeAliasesForInactiveLogicalSession l now v) = exchangeCodes v"
    and "backchannelLogoutTokenJtis (removeAliasesForInactiveLogicalSession l now v) = backchannelLogoutTokenJtis v"
  using assms
  by (auto simp: removeAliasesForInactiveLogicalSession_def hasLiveSessionForLogicalSession_def maps_ok_def Let_def
      removeAliasesForLogicalSession_def mget_filter live_scan_lineage [symmetric] split: prod.splits option.splits)

lemma remove_inactive_shrunk: "maps_ok v \<Longrightarrow> shrunk v (removeAliasesForInactiveLogicalSession l now v)"
  by (auto simp: shrunk_def remove_inactive split: option.splits if_splits)

lemma remove_inactive_anchored:
  assumes "maps_ok v" "anchored (insert l L) v"
  shows "anchored L (removeAliasesForInactiveLogicalSession l now v)"
  unfolding anchored_def remove_inactive(1) [OF assms(1)]
proof (intro allI impI)
  fix k a assume "mget (rotatedSessionAliases (removeAliasesForInactiveLogicalSession l now v)) k = Some a"
  then have a: "mget (rotatedSessionAliases v) k = Some a"
    "jprop a ''logicalSessionId'' = l \<longrightarrow> lineage_live (sessions v) l now"
    by (auto simp: remove_inactive [OF assms(1)] split: option.splits if_splits)
  then show "jprop a ''logicalSessionId'' \<in> L \<or> has_session (sessions v) (jprop a ''logicalSessionId'')"
    using assms(2) unfolding anchored_def has_session_def lineage_live_def by (metis insertE)
qed

lemma remove_inactives:
  assumes "maps_ok v"
  shows "maps_ok (removeAliasesForInactiveLogicalSessions ls now v)"
    and "sessions (removeAliasesForInactiveLogicalSessions ls now v) = sessions v"
    and "shrunk v (removeAliasesForInactiveLogicalSessions ls now v)"
    and "anchored (set ls \<union> L) v \<Longrightarrow> anchored L (removeAliasesForInactiveLogicalSessions ls now v)"
    and "mget (rotatedSessionAliases (removeAliasesForInactiveLogicalSessions ls now v)) k =
      (case mget (rotatedSessionAliases v) k of
         Some a \<Rightarrow> if jprop a ''logicalSessionId'' \<in> set ls \<and> \<not> lineage_live (sessions v) (jprop a ''logicalSessionId'') now
           then None else Some a
       | None \<Rightarrow> None)"
proof -
  show "maps_ok (removeAliasesForInactiveLogicalSessions ls now v)"
    "sessions (removeAliasesForInactiveLogicalSessions ls now v) = sessions v"
    using assms by (induction ls arbitrary: v) (simp_all add: remove_inactive)
  show "shrunk v (removeAliasesForInactiveLogicalSessions ls now v)"
    using assms
  proof (induction ls arbitrary: v)
    case (Cons l ls)
    then show ?case
      using shrunk_trans [OF remove_inactive_shrunk [of v l now]] remove_inactive(3) [of v l now] by simp
  qed simp
  show "anchored L (removeAliasesForInactiveLogicalSessions ls now v)" if "anchored (set ls \<union> L) v"
    using assms that by (induction ls arbitrary: v) (simp_all add: remove_inactive remove_inactive_anchored)
  show "mget (rotatedSessionAliases (removeAliasesForInactiveLogicalSessions ls now v)) k =
      (case mget (rotatedSessionAliases v) k of
         Some a \<Rightarrow> if jprop a ''logicalSessionId'' \<in> set ls \<and> \<not> lineage_live (sessions v) (jprop a ''logicalSessionId'') now
           then None else Some a
       | None \<Rightarrow> None)"
    using assms by (induction ls arbitrary: v) (auto simp: remove_inactive split: option.splits)
qed

text \<open>Deleting sessions leaves the lineages of the deleted ones to clean up.\<close>

lemma anchored_delete:
  assumes "anchored L v" "sessions v' = m" "rotatedSessionAliases v' = rotatedSessionAliases v"
    and "\<And>k s. mget (sessions v) k = Some s \<Longrightarrow> mget m k = Some s \<or> lineage s \<in> D"
  shows "anchored (D \<union> L) v'"
  unfolding anchored_def assms(2,3)
proof (intro allI impI)
  fix k a assume "mget (rotatedSessionAliases v) k = Some a"
  then consider "jprop a ''logicalSessionId'' \<in> L"
    | j t where "mget (sessions v) j = Some t" "lineage t = jprop a ''logicalSessionId''"
    using assms(1) unfolding anchored_def has_session_def by blast
  then show "jprop a ''logicalSessionId'' \<in> D \<union> L \<or> has_session m (jprop a ''logicalSessionId'')"
  proof cases
    case 2
    then have "mget m j = Some t \<or> lineage t \<in> D" using assms(4) by blast
    with 2(2) show ?thesis unfolding has_session_def by auto
  qed simp
qed

lemma anchored_fewer_aliases:
  assumes "anchored L v" "sessions v' = sessions v"
    and "\<And>k a. mget (rotatedSessionAliases v') k = Some a \<Longrightarrow> mget (rotatedSessionAliases v) k = Some a"
  shows "anchored L v'"
  unfolding anchored_def assms(2)
proof (intro allI impI)
  fix k a assume "mget (rotatedSessionAliases v') k = Some a"
  then have "mget (rotatedSessionAliases v) k = Some a" by (rule assms(3))
  with assms(1) show "jprop a ''logicalSessionId'' \<in> L \<or> has_session (sessions v) (jprop a ''logicalSessionId'')"
    unfolding anchored_def by blast
qed

lemma set_as_set [simp]: "set (as_set ls) = set ls"
proof -
  have "set (fold set_add ls acc) = set ls \<union> set acc" for acc
    by (induction ls arbitrary: acc) (auto simp: set_add_def)
  then show ?thesis by (simp add: as_set_def)
qed

lemma fold_lineages: "set (fold (\<lambda>e. set_add (lineage e)) es acc) = lineage ` set es \<union> set acc"
  by (induction es arbitrary: acc) (auto simp: set_add_def)

section \<open>Sweeps and the invariant\<close>

lemma pruneSessionsBatch_inv:
  assumes "vault_inv v"
  shows "vault_inv (pruneSessionsBatch now v)" and "shrunk v (pruneSessionsBatch now v)"
    and "mget (sessions v) k = Some x \<Longrightarrow> \<not> isExpiredRecord x now \<Longrightarrow>
      mget (sessions (pruneSessionsBatch now v)) k = Some x"
proof -
  obtain m s w out where sw: "sweep_map (sessions v) (sessionSweep v) (sweepWork v) now = (m, s, w, out)"
    by (metis prod_cases4)
  define v1 where "v1 = v\<lparr>sessions := m, sessionSweep := s, sweepWork := w\<rparr>"
  define ls where "ls = fold (\<lambda>e. set_add (lineage e)) out []"
  have eq: "pruneSessionsBatch now v = removeAliasesForInactiveLogicalSessions ls now v1"
    by (simp add: pruneSessionsBatch_def sw v1_def ls_def)
  have wf: "wf_map (sessions v)" using assms by (simp add: vault_inv_def maps_ok_def)
  note d = swept_fromD [OF sweep_map_spec [OF wf sw]]
  have m1: "maps_ok v1" using assms d(1) by (simp add: vault_inv_def maps_ok_def v1_def)
  have sh: "shrunk v v1" using d(2) by (simp add: shrunk_def v1_def)
  have "anchored (set ls \<union> no_lineage) v1"
  proof (rule anchored_delete)
    show "anchored no_lineage v" using assms by (simp add: vault_inv_def)
    show "mget m k = Some x \<or> lineage x \<in> set ls" if "mget (sessions v) k = Some x" for k x
      using d(3) [OF that] by (auto simp: ls_def fold_lineages)
  qed (simp_all add: v1_def)
  then have "anchored no_lineage (pruneSessionsBatch now v)"
    unfolding eq by (rule remove_inactives(4) [OF m1])
  moreover have sh': "shrunk v (pruneSessionsBatch now v)"
    unfolding eq by (rule shrunk_trans [OF sh remove_inactives(3) [OF m1]])
  moreover have "maps_ok (pruneSessionsBatch now v)" unfolding eq by (rule remove_inactives(1) [OF m1])
  ultimately show "vault_inv (pruneSessionsBatch now v)" "shrunk v (pruneSessionsBatch now v)"
    using assms shrunk_sessions_ok by (auto simp: vault_inv_def)
  show "mget (sessions (pruneSessionsBatch now v)) k = Some x"
    if "mget (sessions v) k = Some x" "\<not> isExpiredRecord x now"
    using d(3) [OF that(1)] that(2) unfolding eq remove_inactives(2) [OF m1] by (auto simp: v1_def)
qed

lemma pruneAliases_inv:
  assumes "vault_inv v"
  shows "vault_inv (pruneAliases now v)" and "shrunk v (pruneAliases now v)"
    and "sessions (pruneAliases now v) = sessions v"
    and "mget (rotatedSessionAliases v) k = Some a \<Longrightarrow> \<not> isExpiredRecord a now \<Longrightarrow>
      mget (rotatedSessionAliases (pruneAliases now v)) k = Some a"
proof -
  obtain m s w where sw: "pruneMapBatch (rotatedSessionAliases v) (rotatedSessionAliasSweep v) (sweepWork v) now = (m, s, w)"
    by (metis prod_cases3)
  have wf: "wf_map (rotatedSessionAliases v)" using assms by (simp add: vault_inv_def maps_ok_def)
  obtain out where o: "swept_from EXPIRY_SWEEP_BATCH_SIZE now (rotatedSessionAliases v) m out"
    using pruneMapBatch_spec [OF wf sw] by blast
  note d = swept_fromD [OF o]
  have eq: "pruneAliases now v = v\<lparr>rotatedSessionAliases := m, rotatedSessionAliasSweep := s, sweepWork := w\<rparr>"
    by (simp add: pruneAliases_def sw)
  show "sessions (pruneAliases now v) = sessions v" by (simp add: eq)
  show sh: "shrunk v (pruneAliases now v)" using d(2) by (simp add: eq shrunk_def)
  have "anchored no_lineage v" using assms by (simp add: vault_inv_def)
  then have "anchored no_lineage (pruneAliases now v)"
    by (rule anchored_fewer_aliases) (use d(2) in \<open>auto simp: eq\<close>)
  moreover have "maps_ok (pruneAliases now v)" using assms d(1) by (simp add: vault_inv_def maps_ok_def eq)
  ultimately show "vault_inv (pruneAliases now v)"
    using assms sh shrunk_sessions_ok by (auto simp: vault_inv_def)
  show "mget (rotatedSessionAliases (pruneAliases now v)) k = Some a"
    if "mget (rotatedSessionAliases v) k = Some a" "\<not> isExpiredRecord a now"
    using d(3) [OF that(1)] that(2) by (auto simp: eq)
qed

section \<open>Operations keep the invariant\<close>

lemma inv_parts: "vault_inv v \<Longrightarrow> maps_ok v" "vault_inv v \<Longrightarrow> sessions_ok v" "vault_inv v \<Longrightarrow> anchored no_lineage v"
  by (simp_all add: vault_inv_def)

lemma anchored_mono: "anchored L v \<Longrightarrow> L \<subseteq> M \<Longrightarrow> anchored M v"
  by (auto simp: anchored_def)

lemma inv_other_maps:
  assumes "vault_inv v" "sessions v' = sessions v" "rotatedSessionAliases v' = rotatedSessionAliases v"
    "wf_map (authorizationTransactions v')" "wf_map (exchangeCodes v')" "wf_map (backchannelLogoutTokenJtis v')"
  shows "vault_inv v'"
  using assms by (simp add: vault_inv_def maps_ok_def sessions_ok_def anchored_def)

lemma pruned_wf: "wf_map m \<Longrightarrow> pruneMapBatch m s w now = (m', s', w') \<Longrightarrow> wf_map m'"
  using pruneMapBatch_spec swept_fromD(1) by metis

lemma prune_others_inv:
  assumes "vault_inv v"
  shows "vault_inv (pruneTransactions now v)" "vault_inv (pruneCodes now v)" "vault_inv (pruneJtis now v)"
  using inv_parts(1) [OF assms] unfolding pruneTransactions_def pruneCodes_def pruneJtis_def
  by (auto intro!: inv_other_maps [OF assms] dest: pruned_wf simp: maps_ok_def split: prod.splits)

lemma readOneTimeRecord_wf: "wf_map m \<Longrightarrow> readOneTimeRecord i now m = (m', r) \<Longrightarrow> wf_map m'"
  by (auto simp: readOneTimeRecord_def split: option.splits if_splits)

lemma one_time_inv:
  assumes "vault_inv v"
  shows "vault_inv (fst (createAuthorizationTransaction input now v))"
    and "vault_inv (fst (getAuthorizationTransaction i now v))"
    and "vault_inv (fst (consumeAuthorizationTransactionIfMatches input now v))"
    and "vault_inv (fst (createExchangeCode input now v))"
    and "vault_inv (fst (getExchangeCode i now v))"
    and "vault_inv (fst (consumeExchangeRecord c m now e v))"
    and "vault_inv (fst (consumeBackchannelLogoutTokenJti input now v))"
proof -
  note ok = inv_parts(1) [OF assms, unfolded maps_ok_def]
  note other = inv_other_maps [OF assms]
  have t: "vault_inv (pruneTransactions now v)" and c: "vault_inv (pruneCodes now v)" and j: "vault_inv (pruneJtis now v)"
    using prune_others_inv [OF assms] by blast+
  note okt = inv_parts(1) [OF t, unfolded maps_ok_def] and okc = inv_parts(1) [OF c, unfolded maps_ok_def]
    and okj = inv_parts(1) [OF j, unfolded maps_ok_def]
  show "vault_inv (fst (createAuthorizationTransaction input now v))"
    using okt by (auto simp: createAuthorizationTransaction_def Let_def assms intro!: inv_other_maps [OF t] split: sum.split)
  show "vault_inv (fst (getAuthorizationTransaction i now v))"
    using ok readOneTimeRecord_wf
    by (auto simp: getAuthorizationTransaction_def intro!: other split: prod.split)
  show "vault_inv (fst (consumeAuthorizationTransactionIfMatches input now v))"
    using okt readOneTimeRecord_wf
    by (auto simp: consumeAuthorizationTransactionIfMatches_def Let_def assms intro!: inv_other_maps [OF t]
        split: sum.split prod.split option.split)
  show "vault_inv (fst (createExchangeCode input now v))"
    using okc by (auto simp: createExchangeCode_def Let_def assms intro!: inv_other_maps [OF c] split: sum.split)
  show "vault_inv (fst (getExchangeCode i now v))"
    using ok readOneTimeRecord_wf by (auto simp: getExchangeCode_def intro!: other split: prod.split)
  show "vault_inv (fst (consumeExchangeRecord c m now e v))"
    using ok readOneTimeRecord_wf
    by (auto simp: consumeExchangeRecord_def Let_def intro!: other split: prod.split option.split)
  show "vault_inv (fst (consumeBackchannelLogoutTokenJti input now v))"
    using okj by (auto simp: consumeBackchannelLogoutTokenJti_def Let_def j intro!: inv_other_maps [OF j] split: option.split)
qed

lemma consume_code_inv:
  assumes "vault_inv v"
  shows "vault_inv (fst (consumeExchangeCode c now v))" "vault_inv (fst (consumeExchangeCodeIfMatches input now v))"
  using one_time_inv(6) [OF prune_others_inv(2) [OF assms]] assms
  by (auto simp: consumeExchangeCode_def consumeExchangeCodeIfMatches_def split: sum.split)

text \<open>Filing a session under its own ID, which clears an alias of that ID.\<close>

lemma install_session:
  assumes "vault_inv v" "session_filed k s"
  defines "w \<equiv> v\<lparr>sessions := mput k s (sessions v), rotatedSessionAliases := mdel k (rotatedSessionAliases v)\<rparr>"
  shows "maps_ok w" and "sessions_ok w"
    and "anchored ({l. \<exists>p. mget (sessions v) k = Some p \<and> lineage p = l \<and> lineage p \<noteq> lineage s} \<union> no_lineage) w"
proof -
  show "maps_ok w" using assms(1) by (simp add: w_def vault_inv_def maps_ok_def)
  show "sessions_ok w" using assms(1,2) by (auto simp: w_def vault_inv_def sessions_ok_def)
  show "anchored ({l. \<exists>p. mget (sessions v) k = Some p \<and> lineage p = l \<and> lineage p \<noteq> lineage s} \<union> no_lineage) w"
    unfolding anchored_def
  proof (intro allI impI)
    fix j a assume "mget (rotatedSessionAliases w) j = Some a"
    then have "mget (rotatedSessionAliases v) j = Some a" by (simp add: w_def split: if_splits)
    with assms(1) have "jprop a ''logicalSessionId'' \<in> no_lineage \<or> has_session (sessions v) (jprop a ''logicalSessionId'')"
      by (auto simp: vault_inv_def anchored_def)
    then consider "jprop a ''logicalSessionId'' \<in> no_lineage"
      | x t where "mget (sessions v) x = Some t" "lineage t = jprop a ''logicalSessionId''"
      by (auto simp: has_session_def)
    then show "jprop a ''logicalSessionId'' \<in> {l. \<exists>p. mget (sessions v) k = Some p \<and> lineage p = l \<and> lineage p \<noteq> lineage s} \<union> no_lineage \<or>
        has_session (sessions w) (jprop a ''logicalSessionId'')"
    proof cases
      case 2
      show ?thesis
      proof (cases "x = k")
        case True
        with 2 show ?thesis by (cases "lineage t = lineage s") (auto simp: has_session_def w_def)
      next
        case False
        with 2 have "mget (sessions w) x = Some t" by (simp add: w_def)
        with 2 show ?thesis unfolding has_session_def by blast
      qed
    qed simp
  qed
qed

lemma cleanup_inv:
  assumes "maps_ok v" "sessions_ok v" "anchored (insert l no_lineage) v"
  shows "vault_inv (removeAliasesForInactiveLogicalSession l now v)"
  using assms remove_inactive(3) [of v l now] remove_inactive_anchored [of v l "no_lineage" now]
    shrunk_sessions_ok [OF _ remove_inactive_shrunk] by (simp add: vault_inv_def)

lemma delete_session_cleanup:
  assumes "vault_inv v" "mget (sessions v) k = Some s" "sessions v' = mdel k (sessions v)"
    "\<And>j a. mget (rotatedSessionAliases v') j = Some a \<Longrightarrow> mget (rotatedSessionAliases v) j = Some a"
    "maps_ok v'"
  shows "vault_inv (removeAliasesForInactiveLogicalSession (lineage s) now v')"
proof (rule cleanup_inv)
  show "maps_ok v'" by (rule assms(5))
  show "sessions_ok v'"
    by (rule shrunk_sessions_ok [OF inv_parts(2) [OF assms(1)]]) (use assms(3,4) in \<open>auto simp: shrunk_def split: if_splits\<close>)
  let ?u = "v\<lparr>sessions := mdel k (sessions v)\<rparr>"
  have "anchored ({lineage s} \<union> no_lineage) ?u"
  proof (rule anchored_delete [OF inv_parts(3) [OF assms(1)]])
    show "mget (mdel k (sessions v)) j = Some x \<or> lineage x \<in> {lineage s}" if "mget (sessions v) j = Some x" for j x
      using that assms(2) by (cases "j = k") simp_all
  qed simp_all
  then have "anchored ({lineage s} \<union> no_lineage) v'"
    by (rule anchored_fewer_aliases) (use assms(3,4) in simp_all)
  then show "anchored (insert (lineage s) no_lineage) v'" by simp
qed

lemma jprop_complete:
  "jprop (complete_session i d now) k =
     (if k = ''updatedAt'' then nullish (jprop i ''updatedAt'') (JNum now)
      else if k = ''createdAt'' then nullish (jprop i ''createdAt'') (JNum now)
      else if k = ''logicalSessionId'' then nullish (jprop i ''logicalSessionId'') d
      else jprop i k)"
proof -
  define b where "b = (case i of JObj ps \<Rightarrow> JObj ps | _ \<Rightarrow> JObj [])"
  have "isRecord b" "jprop b j = jprop i j" for j by (cases i; simp add: b_def isRecord_def)+
  then show ?thesis by (simp add: complete_session_def b_def [symmetric])
qed

lemma filed_complete: "hasValidBinding i \<Longrightarrow> session_filed (jprop i ''sessionId'') (complete_session i d now)"
  by (simp add: session_filed_def hasValidBinding_def jprop_complete)

lemma createSession_inv:
  assumes "vault_inv v"
  shows "vault_inv (fst (createSession input now v))"
proof (cases "andthen (cloneRecord input) (\<lambda>i. andthen (assertSessionBinding i) (\<lambda>_. Inr i))")
  case (Inl e)
  then show ?thesis using assms by (simp add: createSession_def)
next
  case (Inr i)
  then have b: "hasValidBinding i" by (auto simp: andthen_Inr assertSessionBinding_def)
  define v1 where "v1 = pruneAliases now (pruneSessionsBatch now v)"
  define s where "s = complete_session i (jprop i ''sessionId'') now"
  define k where "k = jprop i ''sessionId''"
  define w where "w = v1\<lparr>sessions := mput k s (sessions v1), rotatedSessionAliases := mdel k (rotatedSessionAliases v1)\<rparr>"
  have v1: "vault_inv v1" using pruneAliases_inv(1) [OF pruneSessionsBatch_inv(1) [OF assms]] by (simp add: v1_def)
  have f: "session_filed k s" using filed_complete [OF b] by (simp add: k_def s_def)
  have sid: "jprop s ''sessionId'' = k" using f by (simp add: session_filed_def)
  note i = install_session [OF v1 f, folded w_def]
  have eq: "fst (createSession input now v) = (case mget (sessions v1) k of None \<Rightarrow> w
      | Some p \<Rightarrow> if lineage p \<noteq> JUndef \<and> lineage p \<noteq> jprop s ''logicalSessionId''
          then removeAliasesForInactiveLogicalSession (lineage p) now w else w)"
    by (simp add: createSession_def Inr Let_def v1_def [symmetric] s_def [symmetric] sid w_def split: option.split)
  show ?thesis
  proof (cases "mget (sessions v1) k")
    case None
    with i eq show ?thesis by (simp add: vault_inv_def)
  next
    case (Some p)
    have sub: "{l. \<exists>p. mget (sessions v1) k = Some p \<and> lineage p = l \<and> lineage p \<noteq> lineage s} \<union> no_lineage \<subseteq> insert (lineage p) no_lineage"
      using Some by auto
    have anc: "anchored (insert (lineage p) no_lineage) w" using i(3) sub by (rule anchored_mono)
    show ?thesis
    proof (cases "lineage p \<noteq> JUndef \<and> lineage p \<noteq> jprop s ''logicalSessionId''")
      case True
      with eq Some cleanup_inv [OF i(1,2) anc] show ?thesis by simp
    next
      case False
      have "lineage s = jprop s ''logicalSessionId''"
        by (simp add: s_def lineage_def jprop_complete nullish_def)
      with False Some have "{l. \<exists>p. mget (sessions v1) k = Some p \<and> lineage p = l \<and> lineage p \<noteq> lineage s} \<union> no_lineage \<subseteq> no_lineage"
        by (auto simp: no_lineage_def)
      from anchored_mono [OF i(3) this] i(1,2) eq Some False show ?thesis by (auto simp: vault_inv_def)
    qed
  qed
qed

lemma getSession_inv: "vault_inv v \<Longrightarrow> vault_inv (fst (getSession k now v))"
  by (auto simp: getSession_def intro!: delete_session_cleanup split: option.split)
     (auto simp: vault_inv_def maps_ok_def)

lemma delete_scan_alt:
  "delete_scan hit now m =
     (filter (\<lambda>p. \<not> isExpiredRecord (snd p) now \<and> \<not> hit (snd p)) m,
      map (lineage \<circ> snd) (filter (\<lambda>p. isExpiredRecord (snd p) now) m),
      map (lineage \<circ> snd) (filter (\<lambda>p. \<not> isExpiredRecord (snd p) now \<and> hit (snd p)) m),
      length (filter (\<lambda>p. \<not> isExpiredRecord (snd p) now \<and> hit (snd p)) m))"
  by (induction m) (auto simp: Let_def)

lemma scan_expired: "mget m k = Some s \<Longrightarrow> isExpiredRecord s now \<Longrightarrow>
    lineage s \<in> set (map (lineage \<circ> snd) (filter (\<lambda>p. isExpiredRecord (snd p) now) m))"
  by (force dest: map_of_SomeD)

lemma scan_hit: "mget m k = Some s \<Longrightarrow> \<not> isExpiredRecord s now \<Longrightarrow> hit s \<Longrightarrow>
    lineage s \<in> set (map (lineage \<circ> snd) (filter (\<lambda>p. \<not> isExpiredRecord (snd p) now \<and> hit (snd p)) m))"
  by (force dest: map_of_SomeD)

text \<open>The state after the scan of a bulk deletion.\<close>

lemma scan_state:
  assumes "vault_inv v" and "delete_scan hit now (sessions v) = (kept, expired, hits, n)"
  shows "maps_ok (v\<lparr>sessions := kept\<rparr>)" and "shrunk v (v\<lparr>sessions := kept\<rparr>)"
    and "mget kept k = (case mget (sessions v) k of Some s \<Rightarrow> if isExpiredRecord s now \<or> hit s then None else Some s
           | None \<Rightarrow> None)"
    and "anchored ((set expired \<union> set hits) \<union> no_lineage) (v\<lparr>sessions := kept\<rparr>)"
    and "n = length (filter (\<lambda>p. \<not> isExpiredRecord (snd p) now \<and> hit (snd p)) (sessions v))"
    and "mget (sessions v) k = Some s \<Longrightarrow> \<not> isExpiredRecord s now \<Longrightarrow> hit s \<Longrightarrow> lineage s \<in> set hits"
    and "l \<in> set expired \<Longrightarrow> \<exists>k s. mget (sessions v) k = Some s \<and> isExpiredRecord s now \<and> lineage s = l"
    and "l \<in> set hits \<Longrightarrow> \<exists>k s. mget (sessions v) k = Some s \<and> \<not> isExpiredRecord s now \<and> hit s \<and> lineage s = l"
proof -
  have wf: "wf_map (sessions v)" using assms(1) by (simp add: vault_inv_def maps_ok_def)
  have eqs: "kept = filter (\<lambda>p. \<not> isExpiredRecord (snd p) now \<and> \<not> hit (snd p)) (sessions v)"
    "expired = map (lineage \<circ> snd) (filter (\<lambda>p. isExpiredRecord (snd p) now) (sessions v))"
    "hits = map (lineage \<circ> snd) (filter (\<lambda>p. \<not> isExpiredRecord (snd p) now \<and> hit (snd p)) (sessions v))"
    "n = length (filter (\<lambda>p. \<not> isExpiredRecord (snd p) now \<and> hit (snd p)) (sessions v))"
    using assms(2) by (simp_all add: delete_scan_alt)
  show "maps_ok (v\<lparr>sessions := kept\<rparr>)" using assms(1) by (simp add: eqs vault_inv_def maps_ok_def)
  show kept: "mget kept k = (case mget (sessions v) k of Some s \<Rightarrow> if isExpiredRecord s now \<or> hit s then None else Some s
      | None \<Rightarrow> None)" for k
    using wf by (auto simp: eqs mget_filter split: option.split)
  show "shrunk v (v\<lparr>sessions := kept\<rparr>)" by (auto simp: shrunk_def kept split: option.splits if_splits)
  show "n = length (filter (\<lambda>p. \<not> isExpiredRecord (snd p) now \<and> hit (snd p)) (sessions v))" by (fact eqs(4))
  show "lineage s \<in> set hits" if "mget (sessions v) k = Some s" "\<not> isExpiredRecord s now" "hit s"
    unfolding eqs using scan_hit [of "sessions v" k s now hit] that by blast
  show "\<exists>k s. mget (sessions v) k = Some s \<and> isExpiredRecord s now \<and> lineage s = l" if "l \<in> set expired"
    using that wf by (auto simp: eqs mem_mget) blast
  show "\<exists>k s. mget (sessions v) k = Some s \<and> \<not> isExpiredRecord s now \<and> hit s \<and> lineage s = l" if "l \<in> set hits"
    using that wf by (auto simp: eqs mem_mget) blast
  show "anchored ((set expired \<union> set hits) \<union> no_lineage) (v\<lparr>sessions := kept\<rparr>)"
  proof (rule anchored_delete [OF inv_parts(3) [OF assms(1)]])
    show "mget kept k = Some s \<or> lineage s \<in> set expired \<union> set hits" if "mget (sessions v) k = Some s" for k s
      using that scan_expired [OF that, of now] scan_hit [OF that, of now hit] by (auto simp: kept eqs(2,3))
  qed simp_all
qed

lemma removeAliasesForLogicalSession_simps:
  assumes "maps_ok v"
  shows "sessions (removeAliasesForLogicalSession l v) = sessions v"
    and "mget (rotatedSessionAliases (removeAliasesForLogicalSession l v)) k =
      (case mget (rotatedSessionAliases v) k of Some a \<Rightarrow> if jprop a ''logicalSessionId'' = l then None else Some a
       | None \<Rightarrow> None)"
    and "maps_ok (removeAliasesForLogicalSession l v)"
  using assms by (auto simp: removeAliasesForLogicalSession_def maps_ok_def mget_filter split: option.split)

lemma deleteLogical_inv:
  assumes "vault_inv v"
  shows "vault_inv (fst (deleteSessionsByLogicalSessionId input now v))"
    and "shrunk v (fst (deleteSessionsByLogicalSessionId input now v))"
proof -
  define l where "l = (if is_str input then input else jprop input ''logicalSessionId'')"
  obtain kept expired hits n where sc: "delete_scan (\<lambda>s. lineage s = l) now (sessions v) = (kept, expired, hits, n)"
    by (metis prod_cases4)
  note st = scan_state [OF assms sc]
  define v1 where "v1 = removeAliasesForInactiveLogicalSessions (as_set expired) now (v\<lparr>sessions := kept\<rparr>)"
  have eq: "fst (deleteSessionsByLogicalSessionId input now v) = removeAliasesForLogicalSession l v1"
    by (simp add: deleteSessionsByLogicalSessionId_def Let_def l_def [symmetric] sc v1_def)
  note r = remove_inactives [OF st(1)]
  have v1: "maps_ok v1" "sessions v1 = kept" "shrunk v v1"
    using r(1,2) shrunk_trans [OF st(2) r(3)] by (simp_all add: v1_def)
  have "set hits \<subseteq> {l}" using st(8) by blast
  then have "anchored (set (as_set expired) \<union> insert l no_lineage) (v\<lparr>sessions := kept\<rparr>)"
    by (intro anchored_mono [OF st(4)]) auto
  from r(4) [OF this] have anc: "anchored (insert l no_lineage) v1" by (simp add: v1_def)
  let ?w = "removeAliasesForLogicalSession l v1"
  have sh: "shrunk v1 ?w"
    by (auto simp: shrunk_def removeAliasesForLogicalSession_simps [OF v1(1)] split: option.splits if_splits)
  have "anchored no_lineage ?w"
    using anc by (auto simp: anchored_def removeAliasesForLogicalSession_simps [OF v1(1)] split: option.splits if_splits)
  moreover have "maps_ok ?w" by (rule removeAliasesForLogicalSession_simps(3) [OF v1(1)])
  moreover have sh': "shrunk v ?w" by (rule shrunk_trans [OF v1(3) sh])
  ultimately show "vault_inv (fst (deleteSessionsByLogicalSessionId input now v))"
    "shrunk v (fst (deleteSessionsByLogicalSessionId input now v))"
    unfolding eq vault_inv_def using shrunk_sessions_ok [OF inv_parts(2) [OF assms]] by blast+
qed

lemma delete_matching_inv:
  assumes "vault_inv v"
  shows "vault_inv (fst (delete_matching hit now v))" and "shrunk v (fst (delete_matching hit now v))"
    and "mget (sessions (fst (delete_matching hit now v))) k =
      (case mget (sessions v) k of Some s \<Rightarrow> if isExpiredRecord s now \<or> hit s then None else Some s | None \<Rightarrow> None)"
    and "snd (delete_matching hit now v) =
      length (filter (\<lambda>p. \<not> isExpiredRecord (snd p) now \<and> hit (snd p)) (sessions v))"
proof -
  obtain kept expired hits n where sc: "delete_scan hit now (sessions v) = (kept, expired, hits, n)"
    by (metis prod_cases4)
  note st = scan_state [OF assms sc]
  define v1 where "v1 = removeAliasesForInactiveLogicalSessions (as_set expired) now (v\<lparr>sessions := kept\<rparr>)"
  define v2 where "v2 = removeAliasesForInactiveLogicalSessions (as_set hits) now v1"
  have eq: "delete_matching hit now v = (v2, n)"
    by (simp add: delete_matching_def sc v1_def v2_def)
  note r = remove_inactives [OF st(1)]
  have v1: "maps_ok v1" "sessions v1 = kept" "shrunk v v1"
    using r(1,2) shrunk_trans [OF st(2) r(3)] by (simp_all add: v1_def)
  note q = remove_inactives [where ls = "as_set hits" and now = now, OF v1(1), folded v2_def]
  have "anchored (set (as_set expired) \<union> (set hits \<union> no_lineage)) (v\<lparr>sessions := kept\<rparr>)"
    using st(4) by (simp add: Un_assoc)
  from r(4) [OF this] have "anchored (set (as_set hits) \<union> no_lineage) v1" by (simp add: v1_def)
  then have "anchored no_lineage v2" unfolding v2_def by (rule remove_inactives(4) [OF v1(1)])
  moreover have "shrunk v v2" by (rule shrunk_trans [OF v1(3) q(3)])
  ultimately show "vault_inv (fst (delete_matching hit now v))" "shrunk v (fst (delete_matching hit now v))"
    unfolding eq fst_conv vault_inv_def using q(1) shrunk_sessions_ok [OF inv_parts(2) [OF assms]] by blast+
  show "mget (sessions (fst (delete_matching hit now v))) k =
      (case mget (sessions v) k of Some s \<Rightarrow> if isExpiredRecord s now \<or> hit s then None else Some s | None \<Rightarrow> None)"
    unfolding eq fst_conv q(2) v1(2) by (rule st(3))
  show "snd (delete_matching hit now v) =
      length (filter (\<lambda>p. \<not> isExpiredRecord (snd p) now \<and> hit (snd p)) (sessions v))"
    unfolding eq snd_conv by (rule st(5))
qed

lemma drop_alias_inv: "vault_inv v \<Longrightarrow> vault_inv (v\<lparr>rotatedSessionAliases := mdel k (rotatedSessionAliases v)\<rparr>)"
  by (auto simp: vault_inv_def maps_ok_def sessions_ok_def anchored_def split: if_splits)

lemma deleteSession_inv:
  assumes "vault_inv v"
  shows "vault_inv (deleteSession k now later v)"
proof -
  define v1 where "v1 = pruneAliases now (pruneSessionsBatch now v)"
  have v1: "vault_inv v1" using pruneAliases_inv(1) [OF pruneSessionsBatch_inv(1) [OF assms]] by (simp add: v1_def)
  have "vault_inv (fst (deleteSession_begin k now later v))"
    unfolding deleteSession_begin_def v1_def [symmetric] Let_def
    using v1 drop_alias_inv [OF v1] deleteLogical_inv(1) [OF v1]
    by (auto intro!: delete_session_cleanup [OF v1] split: option.split if_splits)
       (auto simp: vault_inv_def maps_ok_def split: if_splits)
  then show ?thesis
    by (auto simp: deleteSession_def deleteSession_end_def drop_alias_inv split: prod.split)
qed

section \<open>Rotation\<close>

text \<open>A rotation that succeeds: what was checked, and the state it leaves.\<close>

definition drop_expired :: "jsval \<Rightarrow> jsnum \<Rightarrow> vault \<Rightarrow> vault" where
  "drop_expired k now v =
     (case mget (sessions v) k of
        Some s \<Rightarrow>
          (if isExpiredRecord s now
           then removeAliasesForInactiveLogicalSession (lineage s) now (v\<lparr>sessions := mdel k (sessions v)\<rparr>)
           else v)
      | None \<Rightarrow> v)"

lemma drop_expired_inv: "vault_inv v \<Longrightarrow> vault_inv (drop_expired k now v)"
  by (auto simp: drop_expired_def intro!: delete_session_cleanup split: option.split)
     (auto simp: vault_inv_def maps_ok_def)

lemma drop_expired_sessions:
  "maps_ok v \<Longrightarrow> mget (sessions (drop_expired k now v)) j =
     (case mget (sessions v) j of
        Some s \<Rightarrow> if j = k \<and> isExpiredRecord s now then None else Some s | None \<Rightarrow> None)"
proof -
  assume m: "maps_ok v"
  then have "maps_ok (v\<lparr>sessions := mdel k (sessions v)\<rparr>)" by (simp add: maps_ok_def)
  note r = remove_inactive(1) [OF this]
  show ?thesis by (auto simp: drop_expired_def r split: option.split)
qed

definition rotation_target :: "jsval \<Rightarrow> jsval option \<Rightarrow> jsnum \<Rightarrow> vault \<Rightarrow> vault" where
  "rotation_target sid target now v =
     (case target of
        Some t \<Rightarrow> removeAliasesForInactiveLogicalSession (lineage t) now (v\<lparr>sessions := mdel sid (sessions v)\<rparr>)
      | None \<Rightarrow> v)"

definition rotation_alias :: "jsval \<Rightarrow> jsval" where
  "rotation_alias session = JObj [(''logicalSessionId'', lineage session), (''expiresAt'', jprop session ''expiresAt'')]"

lemma rotate_cases:
  obtains (conflict) e where "rotateSession k ps now v = (drop_expired k now v, Inl e)"
  | (rotated) source nxt session sid u where
      "mget (sessions (drop_expired k now v)) k = Some source" "hasValidSessionRecord source k"
      "jprop (JObj ps) ''sessionId'' = sid" "sid \<noteq> k"
      "\<forall>t. mget (sessions (drop_expired k now v)) sid = Some t \<longrightarrow> isExpiredRecord t now"
      "cloneRecord (JObj ps) = Inr (JObj ps)" "inheritSessionBinding source (JObj ps) = Inr nxt"
      "session = complete_session nxt (lineage source) now"
      "u = (let w = rotation_target (jprop session ''sessionId'') (mget (sessions (drop_expired k now v)) sid) now (drop_expired k now v)
            in w\<lparr>sessions := mput (jprop session ''sessionId'') session (mdel k (sessions w)),
                 rotatedSessionAliases := mput k (rotation_alias session)
                   (mdel (jprop session ''sessionId'') (rotatedSessionAliases w))\<rparr>)"
      "rotateSession k ps now v =
         (if lineage source \<noteq> jprop session ''logicalSessionId''
          then removeAliasesForInactiveLogicalSession (lineage source) now u else u, Inr session)"
proof -
  define v1 where "v1 = drop_expired k now v"
  have eq: "rotateSession k ps now v =
      (case mget (sessions v1) k of
           None \<Rightarrow> (v1, Inl StoreConflict)
         | Some source \<Rightarrow>
             (if \<not> hasValidSessionRecord source k then (v1, Inl StoreConflict)
              else if jprop (JObj ps) ''sessionId'' = k then (v1, Inl StoreConflict)
              else
                (let target = mget (sessions v1) (jprop (JObj ps) ''sessionId'')
                 in if (case target of Some t \<Rightarrow> \<not> isExpiredRecord t now | None \<Rightarrow> False) then (v1, Inl StoreConflict)
                    else
                      (case andthen (cloneRecord (JObj ps)) (inheritSessionBinding source) of
                         Inl e \<Rightarrow> (v1, Inl e)
                       | Inr nxt \<Rightarrow>
                           (let session = complete_session nxt (lineage source) now;
                                sid = jprop session ''sessionId'';
                                w = rotation_target sid target now v1;
                                u = w\<lparr>sessions := mput sid session (mdel k (sessions w)),
                                      rotatedSessionAliases := mput k (rotation_alias session)
                                          (mdel sid (rotatedSessionAliases w))\<rparr>;
                                u = (if lineage source \<noteq> jprop session ''logicalSessionId''
                                     then removeAliasesForInactiveLogicalSession (lineage source) now u else u)
                            in (u, Inr session))))))"
    unfolding rotateSession_def drop_expired_def [symmetric] v1_def [symmetric] rotation_target_def rotation_alias_def
    by (simp only: Let_def)
  show ?thesis
  proof (cases "mget (sessions v1) k")
    case None
    then show ?thesis by (intro conflict) (simp add: eq v1_def)
  next
    case (Some source)
    show ?thesis
    proof (cases "hasValidSessionRecord source k \<and> jprop (JObj ps) ''sessionId'' \<noteq> k \<and>
        (\<forall>t. mget (sessions v1) (jprop (JObj ps) ''sessionId'') = Some t \<longrightarrow> isExpiredRecord t now)")
      case False
      with Some show ?thesis by (intro conflict) (auto simp: eq Let_def v1_def split: option.split)
    next
      case True
      show ?thesis
      proof (cases "andthen (cloneRecord (JObj ps)) (inheritSessionBinding source)")
        case (Inl e)
        with Some True show ?thesis by (intro conflict) (auto simp: eq Let_def v1_def split: option.split)
      next
        case (Inr nxt)
        then have c: "cloneRecord (JObj ps) = Inr (JObj ps)" "inheritSessionBinding source (JObj ps) = Inr nxt"
          by (auto simp: andthen_Inr cloneRecord_def split: if_splits)
        show ?thesis
          by (rule rotated [of source _ nxt, folded v1_def])
             (use Some True Inr c in \<open>auto simp: eq Let_def split: option.split\<close>)
      qed
    qed
  qed
qed

lemma isRecord_JObj [simp]: "isRecord (JObj ps)"
  by (simp add: isRecord_def)

text \<open>The state a rotation leaves before the clean-up of the old lineage.\<close>

lemma rotation_step:
  assumes w: "vault_inv w" and src: "mget (sessions w) k = Some source"
    and f: "session_filed sid session" and ne: "sid \<noteq> k"
  defines "u \<equiv> w\<lparr>sessions := mput sid session (mdel k (sessions w)),
     rotatedSessionAliases := mput k (rotation_alias session) (mdel sid (rotatedSessionAliases w))\<rparr>"
  shows "maps_ok u" and "sessions_ok u"
    and "mget (sessions w) sid = None \<Longrightarrow> anchored (insert (lineage source) no_lineage) u"
    and "mget (sessions w) sid = None \<Longrightarrow> lineage source = lineage session \<or> lineage source \<in> no_lineage \<Longrightarrow>
      anchored no_lineage u"
proof -
  show "maps_ok u" using w by (simp add: u_def vault_inv_def maps_ok_def)
  show "sessions_ok u" using w f ne by (auto simp: u_def vault_inv_def sessions_ok_def split: if_splits)
  have own: "jprop (rotation_alias session) ''logicalSessionId'' = lineage session" by (simp add: rotation_alias_def)
  have here: "has_session (sessions u) (lineage session)" by (auto simp: has_session_def u_def)
  have cover: "jprop a ''logicalSessionId'' \<in> insert (lineage source) no_lineage \<or> has_session (sessions u) (jprop a ''logicalSessionId'')"
    if "mget (rotatedSessionAliases u) j = Some a" "mget (sessions w) sid = None" for j a
  proof (cases "j = k")
    case True
    with that(1) here own show ?thesis by (simp add: u_def)
  next
    case False
    with that(1) have "mget (rotatedSessionAliases w) j = Some a" by (simp add: u_def split: if_splits)
    then consider "jprop a ''logicalSessionId'' \<in> no_lineage"
      | x t where "mget (sessions w) x = Some t" "lineage t = jprop a ''logicalSessionId''"
      using inv_parts(3) [OF w] unfolding anchored_def has_session_def by blast
    then show ?thesis
    proof cases
      case 2
      show ?thesis
      proof (cases "x = k")
        case True
        with 2 src show ?thesis by simp
      next
        case False
        with 2 that(2) have "mget (sessions u) x = Some t" by (auto simp: u_def)
        with 2 show ?thesis unfolding has_session_def by blast
      qed
    qed simp
  qed
  then show "anchored (insert (lineage source) no_lineage) u" if "mget (sessions w) sid = None"
    using that unfolding anchored_def by blast
  show "anchored no_lineage u" if "mget (sessions w) sid = None" "lineage source = lineage session \<or> lineage source \<in> no_lineage"
    using cover [OF _ that(1)] here that(2) unfolding anchored_def by fastforce
qed

lemma rotation_target_inv:
  assumes "vault_inv v" "target = mget (sessions v) sid"
  shows "vault_inv (rotation_target sid target now v)"
    and "mget (sessions (rotation_target sid target now v)) sid = None"
    and "k \<noteq> sid \<Longrightarrow> mget (sessions (rotation_target sid target now v)) k = mget (sessions v) k"
proof -
  have m: "maps_ok (v\<lparr>sessions := mdel sid (sessions v)\<rparr>)" using assms(1) by (simp add: vault_inv_def maps_ok_def)
  note r = remove_inactive(1) [OF m]
  show "vault_inv (rotation_target sid target now v)"
    using assms m by (auto simp: rotation_target_def intro!: delete_session_cleanup split: option.split)
  show "mget (sessions (rotation_target sid target now v)) sid = None"
    using assms(2) by (auto simp: rotation_target_def r split: option.split)
  show "mget (sessions (rotation_target sid target now v)) k = mget (sessions v) k" if "k \<noteq> sid"
    using that by (auto simp: rotation_target_def r split: option.split)
qed

lemma rotated_session:
  assumes "inheritSessionBinding source (JObj ps) = Inr nxt" "session = complete_session nxt (lineage source) now"
  shows "session_filed (jprop (JObj ps) ''sessionId'') session"
    and "jprop session ''sessionId'' = jprop (JObj ps) ''sessionId''"
    and "lineage source = jprop session ''logicalSessionId'' \<Longrightarrow> lineage source = lineage session \<or> lineage source \<in> no_lineage"
    and "jprop (jprop session ''deviceBinding'') ''jkt'' = jprop (jprop source ''deviceBinding'') ''jkt''"
    and "jprop session ''deviceBinding'' = JUndef \<longleftrightarrow> jprop source ''deviceBinding'' = JUndef"
proof -
  note k = inherit_keeps_binding [OF assms(1) isRecord_JObj]
  have sid: "jprop nxt ''sessionId'' = jprop (JObj ps) ''sessionId''" by (rule k(5)) simp
  show "session_filed (jprop (JObj ps) ''sessionId'') session"
    using filed_complete [OF k(3)] sid assms(2) by simp
  then show "jprop session ''sessionId'' = jprop (JObj ps) ''sessionId''" by (simp add: session_filed_def)
  show "lineage source = jprop session ''logicalSessionId'' \<Longrightarrow> lineage source = lineage session \<or> lineage source \<in> no_lineage"
    by (auto simp: lineage_def [of session] nullish_def no_lineage_def)
  show "jprop (jprop session ''deviceBinding'') ''jkt'' = jprop (jprop source ''deviceBinding'') ''jkt''"
    "jprop session ''deviceBinding'' = JUndef \<longleftrightarrow> jprop source ''deviceBinding'' = JUndef"
    using k(1,2) assms(2) by (simp_all add: jprop_complete)
qed

lemma rotateSession_inv:
  assumes "vault_inv v"
  shows "vault_inv (fst (rotateSession k ps now v))"
proof (cases rule: rotate_cases [of k ps now v])
  case (conflict e)
  with drop_expired_inv [OF assms] show ?thesis by simp
next
  case (rotated source nxt session sid u)
  define v1 where "v1 = drop_expired k now v"
  define w where "w = rotation_target sid (mget (sessions v1) sid) now v1"
  have v1: "vault_inv v1" using drop_expired_inv [OF assms] by (simp add: v1_def)
  note rs = rotated_session [OF rotated(7,8)]
  have sid: "jprop session ''sessionId'' = sid" using rs(2) rotated(3) by simp
  note wt = rotation_target_inv [where sid = sid and now = now, OF v1 refl, folded w_def]
  have src: "mget (sessions w) k = Some source"
    using rotated(1,4) wt(3) [where k = k] by (auto simp: v1_def)
  have u: "u = w\<lparr>sessions := mput sid session (mdel k (sessions w)),
     rotatedSessionAliases := mput k (rotation_alias session) (mdel sid (rotatedSessionAliases w))\<rparr>"
    using rotated(9) by (simp add: sid w_def v1_def Let_def)
  have f: "session_filed sid session" using rs(1) rotated(3) by simp
  note st = rotation_step [OF wt(1) src f rotated(4), folded u]
  show ?thesis
  proof (cases "lineage source = jprop session ''logicalSessionId''")
    case True
    with rotated(10) st(1,2) st(4) [OF wt(2) rs(3) [OF True]] show ?thesis by (simp add: vault_inv_def)
  next
    case False
    with rotated(10) cleanup_inv [OF st(1,2) st(3) [OF wt(2)]] show ?thesis by simp
  qed
qed

section \<open>All operations\<close>

text \<open>A call of the store, with the clock readings it takes.\<close>

datatype vault_call =
    CreateTransaction jsval jsnum
  | GetTransaction jsval jsnum
  | ConsumeTransaction jsval jsnum
  | CreateCode jsval jsnum
  | GetCode jsval jsnum
  | ConsumeCode jsval jsnum
  | ConsumeCodeIf jsval jsnum
  | CreateSession jsval jsnum
  | GetSession jsval jsnum
  | RotateSession jsval "(string \<times> jsval) list" jsnum
  | DeleteBegin jsval jsnum jsnum
  | DeleteEnd jsval
  | DeleteLogical jsval jsnum
  | DeleteSubject jsval jsnum
  | DeleteProviderSession jsval jsnum
  | ConsumeJti jsval jsnum

datatype vault_answer =
    Done
  | Failed vault_error
  | Answer "jsval option"
  | Flag bool
  | Count nat

definition answer :: "vault_error + jsval option \<Rightarrow> vault_answer" where
  "answer r = (case r of Inl e \<Rightarrow> Failed e | Inr x \<Rightarrow> Answer x)"

fun vault_step :: "vault_call \<Rightarrow> vault \<Rightarrow> vault \<times> vault_answer" where
  "vault_step (CreateTransaction i now) v = apsnd (\<lambda>r. case r of Inl e \<Rightarrow> Failed e | Inr _ \<Rightarrow> Done) (createAuthorizationTransaction i now v)"
| "vault_step (GetTransaction i now) v = apsnd Answer (getAuthorizationTransaction i now v)"
| "vault_step (ConsumeTransaction i now) v = apsnd answer (consumeAuthorizationTransactionIfMatches i now v)"
| "vault_step (CreateCode i now) v = apsnd (\<lambda>r. case r of Inl e \<Rightarrow> Failed e | Inr _ \<Rightarrow> Done) (createExchangeCode i now v)"
| "vault_step (GetCode i now) v = apsnd Answer (getExchangeCode i now v)"
| "vault_step (ConsumeCode i now) v = apsnd Answer (consumeExchangeCode i now v)"
| "vault_step (ConsumeCodeIf i now) v = apsnd answer (consumeExchangeCodeIfMatches i now v)"
| "vault_step (CreateSession i now) v = apsnd (\<lambda>r. answer (map_sum id Some r)) (createSession i now v)"
| "vault_step (GetSession i now) v = apsnd Answer (getSession i now v)"
| "vault_step (RotateSession i ps now) v = apsnd (\<lambda>r. answer (map_sum id Some r)) (rotateSession i ps now v)"
| "vault_step (DeleteBegin i now later) v = apsnd Flag (deleteSession_begin i now later v)"
| "vault_step (DeleteEnd i) v = (deleteSession_end i v, Done)"
| "vault_step (DeleteLogical i now) v = apsnd Count (deleteSessionsByLogicalSessionId i now v)"
| "vault_step (DeleteSubject i now) v = apsnd Count (deleteSessionsBySubject i now v)"
| "vault_step (DeleteProviderSession i now) v = apsnd Count (deleteSessionsByProviderSessionId i now v)"
| "vault_step (ConsumeJti i now) v = apsnd Flag (consumeBackchannelLogoutTokenJti i now v)"

lemma deleteBegin_inv:
  assumes "vault_inv v"
  shows "vault_inv (fst (deleteSession_begin k now later v))"
proof -
  define v1 where "v1 = pruneAliases now (pruneSessionsBatch now v)"
  have v1: "vault_inv v1" using pruneAliases_inv(1) [OF pruneSessionsBatch_inv(1) [OF assms]] by (simp add: v1_def)
  show ?thesis
    unfolding deleteSession_begin_def v1_def [symmetric] Let_def
    using v1 drop_alias_inv [OF v1] deleteLogical_inv(1) [OF v1]
    by (auto intro!: delete_session_cleanup [OF v1] split: option.split if_splits)
       (auto simp: vault_inv_def maps_ok_def split: if_splits)
qed

lemma vault_step_inv: "vault_inv v \<Longrightarrow> vault_inv (fst (vault_step c v))"
  by (cases c)
     (simp_all add: one_time_inv consume_code_inv createSession_inv getSession_inv rotateSession_inv deleteBegin_inv
        deleteLogical_inv delete_matching_inv deleteSessionsBySubject_def deleteSessionsByProviderSessionId_def
        deleteSession_end_def drop_alias_inv)

lemma empty_vault_inv: "vault_inv empty_vault"
  by (simp add: vault_inv_def maps_ok_def sessions_ok_def anchored_def empty_vault_def)

lemma vault_run_inv: "vault_inv v \<Longrightarrow> vault_inv (fst (run_calls vault_step cs v))"
  by (rule run_calls_invariant) (auto intro: vault_step_inv)

end
