(* ===== verification/OneTime.thy ===== *)
theory OneTime
  imports Prelude
begin

text \<open>
  The contract of records that may be consumed once: a call that is given a record takes it out of the
  store, and nothing but a creation under the same key brings it back. The vault store offers it for
  authorization transactions and for exchange codes, the ticket store for logout tickets.
\<close>

locale one_time =
  fixes step :: "'a \<Rightarrow> 's \<Rightarrow> 's \<times> 'o"
    and ok :: "'s \<Rightarrow> bool"
    and creates :: "'a \<Rightarrow> 'k option"
    and consumes :: "'a \<Rightarrow> 'k option"
    and given :: "'o \<Rightarrow> bool"
    and present :: "'s \<Rightarrow> 'k \<Rightarrow> bool"
  assumes inv_step: "ok s \<Longrightarrow> ok (fst (step a s))"
    and needs: "ok s \<Longrightarrow> consumes a = Some k \<Longrightarrow> given (snd (step a s)) \<Longrightarrow> present s k"
    and takes: "ok s \<Longrightarrow> consumes a = Some k \<Longrightarrow> given (snd (step a s)) \<Longrightarrow> \<not> present (fst (step a s)) k"
    and stays_out: "ok s \<Longrightarrow> \<not> present s k \<Longrightarrow> creates a \<noteq> Some k \<Longrightarrow> \<not> present (fst (step a s)) k"
begin

lemma nothing_to_give:
  assumes "ok s" "\<not> present s k" "j < length as" "consumes (as ! j) = Some k" "\<forall>m < j. creates (as ! m) \<noteq> Some k"
  shows "\<not> given (snd (run_calls step as s) ! j)"
  using assms
proof (induction as arbitrary: s j)
  case (Cons a as)
  show ?case
  proof (cases j)
    case 0
    with Cons.prems show ?thesis by (auto dest: needs)
  next
    case (Suc i)
    have "creates a \<noteq> Some k" using Cons.prems(5) Suc by (metis nth_Cons_0 zero_less_Suc)
    moreover have "\<forall>m < i. creates (as ! m) \<noteq> Some k"
      using Cons.prems(5) Suc by (metis Suc_less_eq nth_Cons_Suc)
    ultimately show ?thesis
      using Cons.prems(1-4) Suc Cons.IH [of "fst (step a s)" i] by (simp add: inv_step stays_out)
  qed
qed simp

lemma consumed_once:
  assumes "ok s" "i < j" "j < length as" "consumes (as ! i) = Some k" "consumes (as ! j) = Some k"
    "given (snd (run_calls step as s) ! i)" "given (snd (run_calls step as s) ! j)"
  shows "\<exists>m. i < m \<and> m < j \<and> creates (as ! m) = Some k"
  using assms
proof (induction as arbitrary: s i j)
  case (Cons a as)
  obtain j' where j: "j = Suc j'" using Cons.prems(2) by (cases j) auto
  show ?case
  proof (cases i)
    case 0
    have out: "\<not> present (fst (step a s)) k" using takes [OF Cons.prems(1)] Cons.prems(4,6) 0 by simp
    show ?thesis
    proof (rule ccontr)
      assume "\<nexists>m. i < m \<and> m < j \<and> creates ((a # as) ! m) = Some k"
      then have "\<forall>m < j'. creates (as ! m) \<noteq> Some k"
        using 0 j by (metis Suc_less_eq nth_Cons_Suc zero_less_Suc)
      from nothing_to_give [OF inv_step [OF Cons.prems(1)] out _ _ this] Cons.prems 0 j
      show False by simp
    qed
  next
    case (Suc i')
    then have "\<exists>m. i' < m \<and> m < j' \<and> creates (as ! m) = Some k"
      using Cons.prems j by (intro Cons.IH [of "fst (step a s)"]) (simp_all add: inv_step)
    then obtain m where "i' < m" "m < j'" "creates (as ! m) = Some k" by blast
    then show ?thesis using Suc j by (intro exI [of _ "Suc m"]) simp
  qed
qed simp

end

end
