(* ===== verification/VaultSpec.thy ===== *)
theory VaultSpec
  imports VaultStore OneTime ReplayLedger
begin

text \<open>
  What the memory vault store promises: consistency of any run, one-time consumption of transactions and
  codes, rotation, revocation, sweeps, and back-channel logout token IDs.
\<close>

section \<open>Frames\<close>

text \<open>The one-time records that an operation on sessions, aliases or token IDs leaves alone.\<close>

definition same_one_time :: "vault \<Rightarrow> vault \<Rightarrow> bool" where
  "same_one_time v w \<longleftrightarrow> authorizationTransactions w = authorizationTransactions v \<and> exchangeCodes w = exchangeCodes v"

lemma same_one_time_refl [simp]: "same_one_time v v"
  by (simp add: same_one_time_def)

lemma same_one_time_trans: "same_one_time a b \<Longrightarrow> same_one_time b c \<Longrightarrow> same_one_time a c"
  by (simp add: same_one_time_def)

lemma same_one_time_sessions [simp]:
  "same_one_time v (w\<lparr>sessions := m\<rparr>) \<longleftrightarrow> same_one_time v w"
  "same_one_time v (w\<lparr>rotatedSessionAliases := m\<rparr>) \<longleftrightarrow> same_one_time v w"
  "same_one_time v (w\<lparr>backchannelLogoutTokenJtis := m\<rparr>) \<longleftrightarrow> same_one_time v w"
  "same_one_time v (w\<lparr>sessionSweep := s\<rparr>) \<longleftrightarrow> same_one_time v w"
  "same_one_time v (w\<lparr>sweepWork := sw\<rparr>) \<longleftrightarrow> same_one_time v w"
  by (simp_all add: same_one_time_def)

lemma same_one_time_remove [simp]:
  "same_one_time v (removeAliasesForInactiveLogicalSession l now w) \<longleftrightarrow> same_one_time v w"
  "same_one_time v (removeAliasesForLogicalSession l w) \<longleftrightarrow> same_one_time v w"
  by (auto simp: removeAliasesForInactiveLogicalSession_def hasLiveSessionForLogicalSession_def Let_def
      removeAliasesForLogicalSession_def same_one_time_def split: prod.splits)

lemma same_one_time_removes [simp]:
  "same_one_time v (removeAliasesForInactiveLogicalSessions ls now w) \<longleftrightarrow> same_one_time v w"
  by (induction ls arbitrary: w) simp_all

lemma same_one_time_prunes [simp]:
  "same_one_time v (pruneSessionsBatch now w) \<longleftrightarrow> same_one_time v w"
  "same_one_time v (pruneAliases now w) \<longleftrightarrow> same_one_time v w"
  "same_one_time v (pruneJtis now w) \<longleftrightarrow> same_one_time v w"
  by (simp_all add: pruneSessionsBatch_def pruneAliases_def pruneJtis_def split: prod.split)
     (simp_all add: same_one_time_def)

lemma same_one_time_bulk [simp]:
  "same_one_time v (fst (delete_matching hit now w)) \<longleftrightarrow> same_one_time v w"
  "same_one_time v (fst (deleteSessionsByLogicalSessionId input now w)) \<longleftrightarrow> same_one_time v w"
  by (simp_all add: delete_matching_def deleteSessionsByLogicalSessionId_def Let_def split: prod.split)

lemma same_one_time_session_ops:
  "same_one_time v (fst (createSession input now v))" "same_one_time v (fst (getSession k now v))"
  "same_one_time v (fst (rotateSession k ps now v))" "same_one_time v (fst (deleteSession_begin k now later v))"
  "same_one_time v (deleteSession_end k v)" "same_one_time v (fst (deleteSessionsBySubject input now v))"
  "same_one_time v (fst (deleteSessionsByProviderSessionId input now v))"
  "same_one_time v (fst (consumeBackchannelLogoutTokenJti input now v))"
  "same_one_time v (fst (deleteSessionsByLogicalSessionId input now v))"
  by (simp_all add: createSession_def getSession_def rotateSession_def deleteSession_begin_def deleteSession_end_def
      deleteSessionsBySubject_def deleteSessionsByProviderSessionId_def consumeBackchannelLogoutTokenJti_def Let_def
      split: option.split sum.split)

section \<open>One-time records\<close>

lemma pruneMapBatch_absent:
  "wf_map m \<Longrightarrow> mget m k = None \<Longrightarrow> pruneMapBatch m s w now = (m', s', w') \<Longrightarrow> mget m' k = None"
  using pruneMapBatch_spec [of m s w now m' s' w'] swept_fromD(5) by metis

lemma prune_one_time:
  "maps_ok v \<Longrightarrow> mget (authorizationTransactions v) k = None \<Longrightarrow> mget (authorizationTransactions (pruneTransactions now v)) k = None"
  "maps_ok v \<Longrightarrow> mget (exchangeCodes v) k = None \<Longrightarrow> mget (exchangeCodes (pruneCodes now v)) k = None"
  by (auto simp: pruneTransactions_def pruneCodes_def maps_ok_def split: prod.split elim: pruneMapBatch_absent [rotated 2])

lemma readOneTimeRecord_parts:
  "readOneTimeRecord i now m = (m', r) \<Longrightarrow> mget m' k = (if k = i \<and> r = None then None else mget m k)"
  "readOneTimeRecord i now m = (m', Some x) \<Longrightarrow> mget m i = Some x \<and> m' = m"
  by (auto simp: readOneTimeRecord_def split: option.splits if_splits)


lemma pruneTransactions_other [simp]:
  "exchangeCodes (pruneTransactions now v) = exchangeCodes v" "authorizationTransactions (pruneCodes now v) = authorizationTransactions v"
  by (simp_all add: pruneTransactions_def pruneCodes_def split: prod.split)

lemma other_one_time [simp]:
  "exchangeCodes (fst (createAuthorizationTransaction i now v)) = exchangeCodes v"
  "exchangeCodes (fst (getAuthorizationTransaction i now v)) = exchangeCodes v"
  "exchangeCodes (fst (consumeAuthorizationTransactionIfMatches i now v)) = exchangeCodes v"
  "authorizationTransactions (fst (createExchangeCode i now v)) = authorizationTransactions v"
  "authorizationTransactions (fst (getExchangeCode i now v)) = authorizationTransactions v"
  "authorizationTransactions (fst (consumeExchangeCode i now v)) = authorizationTransactions v"
  "authorizationTransactions (fst (consumeExchangeCodeIfMatches i now v)) = authorizationTransactions v"
  by (simp_all add: createAuthorizationTransaction_def getAuthorizationTransaction_def Let_def
      consumeAuthorizationTransactionIfMatches_def createExchangeCode_def getExchangeCode_def consumeExchangeCode_def
      consumeExchangeCodeIfMatches_def consumeExchangeRecord_def split: sum.split prod.split option.split)

lemma cloneRecord_D: "cloneRecord x = Inr y \<Longrightarrow> y = x"
  by (simp add: cloneRecord_def split: if_splits)

text \<open>Authorization transactions: what each call does to an absent state, and to the state it consumes.\<close>

lemma transaction_create_absent:
  "maps_ok v \<Longrightarrow> mget (authorizationTransactions v) k = None \<Longrightarrow> jprop i ''state'' \<noteq> k \<Longrightarrow>
     mget (authorizationTransactions (fst (createAuthorizationTransaction i now v))) k = None"
  by (auto simp: createAuthorizationTransaction_def andthen_Inr prune_one_time Let_def split: sum.split dest: cloneRecord_D)

lemma transaction_read_absent:
  "mget (authorizationTransactions v) k = None \<Longrightarrow>
     mget (authorizationTransactions (fst (getAuthorizationTransaction i now v))) k = None"
  by (auto simp: getAuthorizationTransaction_def readOneTimeRecord_parts(1) split: prod.split)

lemma transaction_consume_absent:
  "maps_ok v \<Longrightarrow> mget (authorizationTransactions v) k = None \<Longrightarrow>
     mget (authorizationTransactions (fst (consumeAuthorizationTransactionIfMatches i now v))) k = None"
  using prune_one_time(1) [of v k now]
  by (auto simp: consumeAuthorizationTransactionIfMatches_def readOneTimeRecord_parts(1) Let_def
      split: prod.split option.split sum.split)

lemma transaction_given:
  assumes "maps_ok v" "snd (consumeAuthorizationTransactionIfMatches i now v) = Inr (Some r)"
  shows "mget (authorizationTransactions v) (jprop i ''state'') \<noteq> None"
    and "mget (authorizationTransactions (fst (consumeAuthorizationTransactionIfMatches i now v))) (jprop i ''state'') = None"
proof -
  define w where "w = pruneTransactions now v"
  obtain m x where rd: "readOneTimeRecord (jprop i ''state'') now (authorizationTransactions w) = (m, x)" by (meson surj_pair)
  have c: "cloneRecord i = Inr i"
    using assms(2) cloneRecord_D [of i] by (cases "cloneRecord i") (simp_all add: consumeAuthorizationTransactionIfMatches_def)
  have b: "isBindingMatch (jprop i ''match'')"
    using assms(2) c by (auto simp: consumeAuthorizationTransactionIfMatches_def split: if_splits)
  note eq = consumeAuthorizationTransactionIfMatches_def [of i now v, folded w_def, unfolded c sum.case Let_def rd prod.case]
  obtain y where x: "x = Some y" using assms(2) b eq by (cases x) simp_all
  with rd have "mget (authorizationTransactions w) (jprop i ''state'') \<noteq> None"
    by (auto dest: readOneTimeRecord_parts(2))
  then show "mget (authorizationTransactions v) (jprop i ''state'') \<noteq> None"
    unfolding w_def by (rule contrapos_nn) (rule prune_one_time(1) [OF assms(1)])
  show "mget (authorizationTransactions (fst (consumeAuthorizationTransactionIfMatches i now v))) (jprop i ''state'') = None"
    using assms(2) b x eq by (simp split: if_splits)
qed

lemma code_create_absent:
  "maps_ok v \<Longrightarrow> mget (exchangeCodes v) k = None \<Longrightarrow> jprop i ''code'' \<noteq> k \<Longrightarrow>
     mget (exchangeCodes (fst (createExchangeCode i now v))) k = None"
  by (auto simp: createExchangeCode_def andthen_Inr prune_one_time Let_def split: sum.split dest: cloneRecord_D)

lemma code_read_absent:
  "mget (exchangeCodes v) k = None \<Longrightarrow> mget (exchangeCodes (fst (getExchangeCode i now v))) k = None"
  by (auto simp: getExchangeCode_def readOneTimeRecord_parts(1) split: prod.split)

lemma code_record_absent:
  "mget (exchangeCodes v) k = None \<Longrightarrow> mget (exchangeCodes (fst (consumeExchangeRecord c mt now e v))) k = None"
  by (auto simp: consumeExchangeRecord_def readOneTimeRecord_parts(1) Let_def split: prod.split option.split)

lemma code_consume_absent:
  "maps_ok v \<Longrightarrow> mget (exchangeCodes v) k = None \<Longrightarrow> mget (exchangeCodes (fst (consumeExchangeCode c now v))) k = None"
  "maps_ok v \<Longrightarrow> mget (exchangeCodes v) k = None \<Longrightarrow> mget (exchangeCodes (fst (consumeExchangeCodeIfMatches c now v))) k = None"
  by (auto simp: consumeExchangeCode_def consumeExchangeCodeIfMatches_def code_record_absent prune_one_time split: sum.split)

lemma code_record_given:
  assumes "snd (consumeExchangeRecord c mt now e v) = Some r"
  shows "mget (exchangeCodes v) c \<noteq> None" and "mget (exchangeCodes (fst (consumeExchangeRecord c mt now e v))) c = None"
  using assms by (auto simp: consumeExchangeRecord_def Let_def readOneTimeRecord_def split: if_splits option.splits prod.splits)

fun created_state :: "vault_call \<Rightarrow> jsval option" where
  "created_state (CreateTransaction i _) = Some (jprop i ''state'')"
| "created_state _ = None"

fun consumed_state :: "vault_call \<Rightarrow> jsval option" where
  "consumed_state (ConsumeTransaction i _) = Some (jprop i ''state'')"
| "consumed_state _ = None"

fun created_code :: "vault_call \<Rightarrow> jsval option" where
  "created_code (CreateCode i _) = Some (jprop i ''code'')"
| "created_code _ = None"

fun consumed_code :: "vault_call \<Rightarrow> jsval option" where
  "consumed_code (ConsumeCode c _) = Some c"
| "consumed_code (ConsumeCodeIf i _) = Some (jprop i ''code'')"
| "consumed_code _ = None"

fun handed_out :: "vault_answer \<Rightarrow> bool" where
  "handed_out (Answer (Some _)) = True"
| "handed_out _ = False"

lemma handed_answer: "handed_out (answer r) \<longleftrightarrow> (\<exists>x. r = Inr (Some x))"
  by (cases r) (auto simp: answer_def split: option.split elim: handed_out.elims)

lemma vault_maps: "vault_inv v \<Longrightarrow> maps_ok v"
  by (simp add: vault_inv_def)

lemma transaction_absent_step:
  "vault_inv v \<Longrightarrow> mget (authorizationTransactions v) k = None \<Longrightarrow> created_state c \<noteq> Some k \<Longrightarrow>
     mget (authorizationTransactions (fst (vault_step c v))) k = None"
  using same_one_time_session_ops [of v] transaction_create_absent transaction_read_absent transaction_consume_absent vault_maps
  by (cases c) (auto simp: same_one_time_def)

lemma code_absent_step:
  "vault_inv v \<Longrightarrow> mget (exchangeCodes v) k = None \<Longrightarrow> created_code c \<noteq> Some k \<Longrightarrow>
     mget (exchangeCodes (fst (vault_step c v))) k = None"
  using same_one_time_session_ops [of v] code_create_absent code_read_absent code_consume_absent vault_maps
  by (cases c) (auto simp: same_one_time_def)

lemma consumed_state_D: "consumed_state c = Some k \<Longrightarrow> \<exists>i now. c = ConsumeTransaction i now \<and> k = jprop i ''state''"
  by (cases c) auto

lemma handed_Answer [simp]: "handed_out (Answer x) \<longleftrightarrow> x \<noteq> None"
  by (cases x) simp_all

lemma consumed_code_D:
  assumes "consumed_code c = Some k" "handed_out (snd (vault_step c v))" "maps_ok v"
  shows "mget (exchangeCodes v) k \<noteq> None \<and> mget (exchangeCodes (fst (vault_step c v))) k = None"
proof -
  obtain mt now e where r: "snd (consumeExchangeRecord k mt now e (pruneCodes now v)) \<noteq> None"
    "exchangeCodes (fst (vault_step c v)) = exchangeCodes (fst (consumeExchangeRecord k mt now e (pruneCodes now v)))"
  proof (cases c)
    case (ConsumeCode i n)
    with assms(1,2) show ?thesis by (intro that [of unbound_match n JUndef]) (simp_all add: consumeExchangeCode_def)
  next
    case (ConsumeCodeIf i n)
    with assms(1,2) show ?thesis
      by (cases "cloneRecord i"; intro that [of "jprop i ''match''" n "jprop i ''expectedSessionId''"])
         (auto simp: consumeExchangeCodeIfMatches_def handed_answer dest!: cloneRecord_D split: if_splits)
  qed (use assms(1) in simp_all)
  then obtain x where "snd (consumeExchangeRecord k mt now e (pruneCodes now v)) = Some x" by blast
  from code_record_given [OF this] r(2) prune_one_time(2) [OF assms(3), of k now] show ?thesis
    by (cases "mget (exchangeCodes v) k") auto
qed

interpretation transactions: one_time vault_step vault_inv created_state consumed_state handed_out
    "\<lambda>v k. mget (authorizationTransactions v) k \<noteq> None"
proof
  fix v :: vault and c :: vault_call and k :: jsval
  show "vault_inv v \<Longrightarrow> vault_inv (fst (vault_step c v))" by (rule vault_step_inv)
  show "mget (authorizationTransactions v) k \<noteq> None"
    if "vault_inv v" "consumed_state c = Some k" "handed_out (snd (vault_step c v))"
    using that by (auto dest!: consumed_state_D simp: handed_answer dest: transaction_given(1) [OF vault_maps])
  show "\<not> mget (authorizationTransactions (fst (vault_step c v))) k \<noteq> None"
    if "vault_inv v" "consumed_state c = Some k" "handed_out (snd (vault_step c v))"
    using that by (auto dest!: consumed_state_D simp: handed_answer dest: transaction_given(2) [OF vault_maps])
  show "\<not> mget (authorizationTransactions (fst (vault_step c v))) k \<noteq> None"
    if "vault_inv v" "\<not> mget (authorizationTransactions v) k \<noteq> None" "created_state c \<noteq> Some k"
    using that by (simp add: transaction_absent_step)
qed

interpretation codes: one_time vault_step vault_inv created_code consumed_code handed_out
    "\<lambda>v k. mget (exchangeCodes v) k \<noteq> None"
proof
  fix v :: vault and c :: vault_call and k :: jsval
  show "vault_inv v \<Longrightarrow> vault_inv (fst (vault_step c v))" by (rule vault_step_inv)
  show "mget (exchangeCodes v) k \<noteq> None" "\<not> mget (exchangeCodes (fst (vault_step c v))) k \<noteq> None"
    if "vault_inv v" "consumed_code c = Some k" "handed_out (snd (vault_step c v))"
    using consumed_code_D [OF that(2,3) vault_maps [OF that(1)]] by simp_all
  show "\<not> mget (exchangeCodes (fst (vault_step c v))) k \<noteq> None"
    if "vault_inv v" "\<not> mget (exchangeCodes v) k \<noteq> None" "created_code c \<noteq> Some k"
    using that by (simp add: code_absent_step)
qed

text \<open>C14: An authorization transaction is consumed at most once per creation: in any run from an empty
  store, between two calls that consume the same state and are given a transaction, one was created
  under that state.\<close>

theorem transaction_consumed_once:
  assumes "i < j" "j < length cs" "consumed_state (cs ! i) = Some k" "consumed_state (cs ! j) = Some k"
    and "handed_out (snd (run_calls vault_step cs empty_vault) ! i)" "handed_out (snd (run_calls vault_step cs empty_vault) ! j)"
  shows "\<exists>m. i < m \<and> m < j \<and> created_state (cs ! m) = Some k"
  using transactions.consumed_once [OF empty_vault_inv assms] .

text \<open>An exchange code is consumed at most once per creation, by whichever of the two consuming
  operations.\<close>

lemma code_consumed_once:
  assumes "i < j" "j < length cs" "consumed_code (cs ! i) = Some k" "consumed_code (cs ! j) = Some k"
    and "handed_out (snd (run_calls vault_step cs empty_vault) ! i)" "handed_out (snd (run_calls vault_step cs empty_vault) ! j)"
  shows "\<exists>m. i < m \<and> m < j \<and> created_code (cs ! m) = Some k"
  using codes.consumed_once [OF empty_vault_inv assms] .

section \<open>Rotation\<close>

lemma lineage_complete:
  assumes "lineage source \<noteq> jprop (complete_session i (lineage source) now) ''logicalSessionId''"
  shows "lineage (complete_session i (lineage source) now) \<noteq> lineage source"
  using assms by (auto simp: lineage_def [of "complete_session i (lineage source) now"] jprop_complete nullish_def split: if_splits)

text \<open>C15: A successful rotation moves the session: the source was live and valid, the old ID holds no
  session any more but the alias of the new one, the new ID holds the session that was returned, with the
  device binding of the source, and no other session has changed.\<close>

theorem rotation_moves_session:
  assumes inv: "vault_inv v" and rot: "rotateSession k ps now v = (v', Inr s)"
  shows "\<exists>source sid. mget (sessions v) k = Some source \<and> \<not> isExpiredRecord source now \<and>
    hasValidSessionRecord source k \<and> sid = jprop s ''sessionId'' \<and> sid = jprop (JObj ps) ''sessionId'' \<and> sid \<noteq> k \<and>
    mget (sessions v') = (mget (sessions v))(k := None, sid \<mapsto> s) \<and>
    mget (rotatedSessionAliases v') k = Some (rotation_alias s) \<and>
    jprop (jprop s ''deviceBinding'') ''jkt'' = jprop (jprop source ''deviceBinding'') ''jkt'' \<and>
    (jprop s ''deviceBinding'' = JUndef \<longleftrightarrow> jprop source ''deviceBinding'' = JUndef)"
proof (cases rule: rotate_cases [of k ps now v])
  case (conflict e)
  with rot show ?thesis by simp
next
  case (rotated source nxt session sid u)
  define w where "w = rotation_target sid (mget (sessions (drop_expired k now v)) sid) now (drop_expired k now v)"
  have m: "maps_ok v" using inv by (rule vault_maps)
  note de = drop_expired_sessions [OF m]
  have src: "mget (sessions v) k = Some source" "\<not> isExpiredRecord source now"
    using rotated(1) by (auto simp: de split: option.splits if_splits)
  note rs = rotated_session [OF rotated(7,8)]
  have sid: "jprop session ''sessionId'' = sid" using rs(2) rotated(3) by simp
  note wt = rotation_target_inv [where sid = sid and now = now, OF drop_expired_inv [OF inv, of k now] refl, folded w_def]
  have s: "s = session" using rot rotated(10) by (auto split: if_splits)
  have same: "mget (sessions w) j = mget (sessions v) j" if "j \<noteq> sid" for j
    using wt(3) [OF that] src by (auto simp: de split: option.splits)
  have u: "u = w\<lparr>sessions := mput sid session (mdel k (sessions w)),
     rotatedSessionAliases := mput k (rotation_alias session) (mdel sid (rotatedSessionAliases w))\<rparr>"
    using rotated(9) by (simp add: sid w_def Let_def)
  have mu: "maps_ok u" using vault_maps [OF wt(1)] by (simp add: u maps_ok_def)
  have new: "mget (sessions u) = (mget (sessions v))(k := None, sid \<mapsto> s)"
    using same by (auto simp: u s fun_eq_iff)
  have renamed: "mget (rotatedSessionAliases u) k = Some (rotation_alias s)" by (simp add: u s)
  have own: "jprop (rotation_alias s) ''logicalSessionId'' = lineage s" by (simp add: rotation_alias_def)
  have "mget (sessions v') = mget (sessions u) \<and> mget (rotatedSessionAliases v') k = Some (rotation_alias s)"
    using rot rotated(8,10) renamed own lineage_complete [of source nxt now]
    by (auto simp: remove_inactive [OF mu] s split: if_splits)
  with new src rotated(2,3,4) rs(4,5) sid s show ?thesis by auto
qed

text \<open>A rejected rotation takes nothing away: every live session and every alias of a live lineage is
  still there.\<close>

lemma rejected_rotation_keeps_live:
  assumes inv: "vault_inv v" and rot: "rotateSession k ps now v = (v', Inl e)"
    and live: "mget (sessions v) j = Some s" "\<not> isExpiredRecord s now"
  shows "mget (sessions v') j = Some s \<and>
    (\<forall>i a. mget (rotatedSessionAliases v) i = Some a \<and> jprop a ''logicalSessionId'' = lineage s \<longrightarrow>
       mget (rotatedSessionAliases v') i = Some a)"
proof (cases rule: rotate_cases [of k ps now v])
  case (rotated source nxt session sid u)
  with rot show ?thesis by (auto split: if_splits)
next
  case (conflict e')
  then have v': "v' = drop_expired k now v" using rot by simp
  have m: "maps_ok v" using inv by (rule vault_maps)
  then have md: "maps_ok (v\<lparr>sessions := mdel k (sessions v)\<rparr>)" by (simp add: maps_ok_def)
  have "mget (rotatedSessionAliases v') i = Some a"
    if "mget (rotatedSessionAliases v) i = Some a" "jprop a ''logicalSessionId'' = lineage s" for i a
  proof -
    have "lineage_live (mdel k (sessions v)) (lineage s) now" if "mget (sessions v) k = Some x" "isExpiredRecord x now" for x
      unfolding lineage_live_def using live that by (intro exI [of _ j] exI [of _ s]) auto
    with that show ?thesis
      by (auto simp: v' drop_expired_def remove_inactive(2) [OF md] split: option.split)
  qed
  with live show ?thesis by (simp add: v' drop_expired_sessions [OF m])
qed

section \<open>Revocation\<close>

text \<open>A deletion by logical session ID removes exactly the live sessions of that lineage, counts them,
  drops every expired session with them, and leaves no alias of the lineage.\<close>

lemma logical_revocation_exact:
  assumes inv: "vault_inv v" and del: "deleteSessionsByLogicalSessionId (JStr l) now v = (v', n)"
  shows "mget (sessions v') k =
      (case mget (sessions v) k of
         Some s \<Rightarrow> if isExpiredRecord s now \<or> lineage s = JStr l then None else Some s | None \<Rightarrow> None) \<and>
    n = length (filter (\<lambda>p. \<not> isExpiredRecord (snd p) now \<and> lineage (snd p) = JStr l) (sessions v)) \<and>
    (\<forall>a. mget (rotatedSessionAliases v') k = Some a \<longrightarrow>
       mget (rotatedSessionAliases v) k = Some a \<and> jprop a ''logicalSessionId'' \<noteq> JStr l)"
proof -
  obtain kept expired hits m where sc: "delete_scan (\<lambda>s. lineage s = JStr l) now (sessions v) = (kept, expired, hits, m)"
    by (metis prod_cases4)
  note st = scan_state [OF inv sc]
  define w where "w = removeAliasesForInactiveLogicalSessions (as_set expired) now (v\<lparr>sessions := kept\<rparr>)"
  have v': "v' = removeAliasesForLogicalSession (JStr l) w" "n = m"
    using del by (simp_all add: deleteSessionsByLogicalSessionId_def sc w_def)
  note r = remove_inactives [OF st(1)]
  have w: "maps_ok w" "sessions w = kept" "shrunk v w"
    using r(1,2) shrunk_trans [OF st(2) r(3)] by (simp_all add: w_def)
  note al = removeAliasesForLogicalSession_simps [OF w(1)]
  have "mget (rotatedSessionAliases v) k = Some a \<and> jprop a ''logicalSessionId'' \<noteq> JStr l"
    if "mget (rotatedSessionAliases v') k = Some a" for a
    using that w(3) by (auto simp: v' al shrunk_def split: option.splits if_splits)
  then show ?thesis by (simp add: v' al w(2) st(3,5))
qed

text \<open>A deletion by subject removes exactly the live sessions of that subject in the given provider
  scope, and counts them.\<close>

lemma subject_revocation_exact:
  assumes "vault_inv v" "deleteSessionsBySubject input now v = (v', n)"
  defines "hit \<equiv> \<lambda>s. jprop s ''subject'' = jprop (toSubjectDeleteInput input) ''subject'' \<and>
       matchesProviderScope s (toSubjectDeleteInput input)"
  shows "mget (sessions v') k =
      (case mget (sessions v) k of Some s \<Rightarrow> if isExpiredRecord s now \<or> hit s then None else Some s | None \<Rightarrow> None) \<and>
    n = length (filter (\<lambda>p. \<not> isExpiredRecord (snd p) now \<and> hit (snd p)) (sessions v))"
  using delete_matching_inv(3,4) [OF assms(1), of hit now] assms(2)
  unfolding deleteSessionsBySubject_def hit_def [symmetric] by (metis fst_conv snd_conv)

text \<open>A live lineage keeps its aliases through the sweep of the sessions.\<close>

lemma swept_sessions_keep_alias:
  assumes inv: "vault_inv v" and a: "mget (rotatedSessionAliases v) k = Some a"
    and live: "lineage_live (sessions v) (jprop a ''logicalSessionId'') now"
  shows "mget (rotatedSessionAliases (pruneSessionsBatch now v)) k = Some a"
proof -
  obtain m s w out where sw: "sweep_map (sessions v) (sessionSweep v) (sweepWork v) now = (m, s, w, out)"
    by (metis prod_cases4)
  define u where "u = v\<lparr>sessions := m, sessionSweep := s, sweepWork := w\<rparr>"
  have wf: "wf_map (sessions v)" using inv by (simp add: vault_inv_def maps_ok_def)
  note d = swept_fromD [OF sweep_map_spec [OF wf sw]]
  have "maps_ok u" using inv d(1) by (simp add: u_def vault_inv_def maps_ok_def)
  moreover have "lineage_live m (jprop a ''logicalSessionId'') now"
    using live d(3) unfolding lineage_live_def by blast
  ultimately show ?thesis
    using a by (simp add: pruneSessionsBatch_def sw u_def [symmetric] remove_inactives) (simp add: u_def)
qed

lemma lineage_live_shrunk: "shrunk v w \<Longrightarrow> lineage_live (sessions w) l now \<Longrightarrow> lineage_live (sessions v) l now"
  unfolding shrunk_def lineage_live_def by blast

lemma deleteLogical_dead:
  assumes "vault_inv v"
  shows "\<not> lineage_live (sessions (fst (deleteSessionsByLogicalSessionId (JStr l) later v))) (JStr l) now"
  using logical_revocation_exact [OF assms prod.collapse [symmetric], of l later]
  by (auto simp: lineage_live_def split: option.splits if_splits)

text \<open>C16: Deleting a session under an ID that a rotation has retired revokes the whole lineage: while the
  alias is not expired, no session of its lineage is live afterwards, and the ID is neither a session nor
  an alias any more.\<close>

theorem alias_deletion_revokes_lineage:
  assumes inv: "vault_inv v" and a: "mget (rotatedSessionAliases v) k = Some a" "\<not> isExpiredRecord a now"
    and l: "jprop a ''logicalSessionId'' = JStr l"
  shows "\<not> lineage_live (sessions (deleteSession k now later v)) (JStr l) now \<and>
    mget (sessions (deleteSession k now later v)) k = None \<and>
    mget (rotatedSessionAliases (deleteSession k now later v)) k = None"
proof -
  define w where "w = pruneAliases now (pruneSessionsBatch now v)"
  have w: "vault_inv w" "shrunk v w"
    using pruneAliases_inv(1,2) [OF pruneSessionsBatch_inv(1) [OF inv]] pruneSessionsBatch_inv(2) [OF inv] shrunk_trans
    unfolding w_def by blast+
  have no: "mget (sessions v) k = None" using inv a(1) by (auto simp: vault_inv_def sessions_ok_def)
  with w(2) have now: "mget (sessions w) k = None" unfolding shrunk_def by (metis not_None_eq)
  show ?thesis
  proof (cases "mget (rotatedSessionAliases w) k")
    case None
    have "\<not> lineage_live (sessions v) (JStr l) now"
      using None swept_sessions_keep_alias [OF inv a(1)] pruneAliases_inv(4) [where k = k and a = a and now = now, OF pruneSessionsBatch_inv(1) [where now = now, OF inv]] a(2) l
      unfolding w_def by auto
    with lineage_live_shrunk [OF w(2)] have "\<not> lineage_live (sessions w) (JStr l) now" by blast
    with None now show ?thesis
      by (simp add: deleteSession_def deleteSession_begin_def w_def [symmetric])
  next
    case (Some b)
    then have b: "b = a" using w(2) a(1) unfolding shrunk_def by force
    define u where "u = fst (deleteSessionsByLogicalSessionId (JStr l) later w)"
    have "shrunk w u" unfolding u_def by (rule deleteLogical_inv(2) [OF w(1)])
    then have "mget (sessions u) k = None" using now unfolding shrunk_def by (metis not_None_eq)
    with Some b now a(2) l deleteLogical_dead [OF w(1), of l later now] show ?thesis
      by (simp add: deleteSession_def deleteSession_begin_def w_def [symmetric] u_def [symmetric] deleteSession_end_def)
  qed
qed

section \<open>Back-channel logout token IDs\<close>

text \<open>A call of the store, seen by the token IDs: whether it accepted one.\<close>

definition jti_step :: "vault_call \<Rightarrow> vault \<Rightarrow> vault \<times> bool" where
  "jti_step c v = (case vault_step c v of (v', out) \<Rightarrow> (v', (case c of ConsumeJti _ _ \<Rightarrow> out = Flag True | _ \<Rightarrow> False)))"

definition jti_key :: "vault_call \<Rightarrow> jsval option" where
  "jti_key c = (case c of ConsumeJti i _ \<Rightarrow> Some (jprop i ''jti'') | _ \<Rightarrow> None)"

definition jti_clock :: "vault_call \<Rightarrow> jsnum" where
  "jti_clock c = (case c of ConsumeJti _ now \<Rightarrow> now | _ \<Rightarrow> NaN)"

definition jti_until :: "vault_call \<Rightarrow> jsnum" where
  "jti_until c = (case c of ConsumeJti i _ \<Rightarrow> (case jprop i ''expiresAt'' of JNum x \<Rightarrow> x | _ \<Rightarrow> NaN) | _ \<Rightarrow> NaN)"

definition jti_recorded :: "vault \<Rightarrow> jsval option \<Rightarrow> jsnum option" where
  "jti_recorded v k =
     (case Option.bind k (mget (backchannelLogoutTokenJtis v)) of
        None \<Rightarrow> None
      | Some r \<Rightarrow> (case jprop r ''expiresAt'' of JNum x \<Rightarrow> if is_finite x then Some x else None | _ \<Rightarrow> None))"

text \<open>Operations on other records leave the token IDs alone.\<close>

definition same_jtis :: "vault \<Rightarrow> vault \<Rightarrow> bool" where
  "same_jtis v w \<longleftrightarrow> backchannelLogoutTokenJtis w = backchannelLogoutTokenJtis v"

lemma same_jtis_updates [simp]:
  "same_jtis v v"
  "same_jtis v (w\<lparr>sessions := m\<rparr>) \<longleftrightarrow> same_jtis v w"
  "same_jtis v (w\<lparr>rotatedSessionAliases := m\<rparr>) \<longleftrightarrow> same_jtis v w"
  "same_jtis v (w\<lparr>authorizationTransactions := m\<rparr>) \<longleftrightarrow> same_jtis v w"
  "same_jtis v (w\<lparr>exchangeCodes := m\<rparr>) \<longleftrightarrow> same_jtis v w"
  "same_jtis v (w\<lparr>sessionSweep := s\<rparr>) \<longleftrightarrow> same_jtis v w"
  "same_jtis v (w\<lparr>sweepWork := sw\<rparr>) \<longleftrightarrow> same_jtis v w"
  by (simp_all add: same_jtis_def)

lemma same_jtis_remove [simp]:
  "same_jtis v (removeAliasesForInactiveLogicalSession l now w) \<longleftrightarrow> same_jtis v w"
  "same_jtis v (removeAliasesForLogicalSession l w) \<longleftrightarrow> same_jtis v w"
  by (auto simp: removeAliasesForInactiveLogicalSession_def hasLiveSessionForLogicalSession_def Let_def
      removeAliasesForLogicalSession_def same_jtis_def split: prod.splits)

lemma same_jtis_removes [simp]:
  "same_jtis v (removeAliasesForInactiveLogicalSessions ls now w) \<longleftrightarrow> same_jtis v w"
  by (induction ls arbitrary: w) simp_all

lemma same_jtis_prunes [simp]:
  "same_jtis v (pruneSessionsBatch now w) \<longleftrightarrow> same_jtis v w"
  "same_jtis v (pruneAliases now w) \<longleftrightarrow> same_jtis v w"
  "same_jtis v (pruneTransactions now w) \<longleftrightarrow> same_jtis v w"
  "same_jtis v (pruneCodes now w) \<longleftrightarrow> same_jtis v w"
  by (simp_all add: pruneSessionsBatch_def pruneAliases_def pruneTransactions_def pruneCodes_def split: prod.split)
     (simp_all add: same_jtis_def)

lemma same_jtis_bulk [simp]:
  "same_jtis v (fst (delete_matching hit now w)) \<longleftrightarrow> same_jtis v w"
  "same_jtis v (fst (deleteSessionsByLogicalSessionId input now w)) \<longleftrightarrow> same_jtis v w"
  "same_jtis v (fst (consumeExchangeRecord c mt now e w)) \<longleftrightarrow> same_jtis v w"
  by (simp_all add: delete_matching_def deleteSessionsByLogicalSessionId_def consumeExchangeRecord_def Let_def
      split: prod.split option.split)

lemma same_jtis_step: "jti_key c = None \<Longrightarrow> same_jtis v (fst (vault_step c v))"
  by (cases c)
     (simp_all add: jti_key_def createAuthorizationTransaction_def getAuthorizationTransaction_def
      consumeAuthorizationTransactionIfMatches_def createExchangeCode_def getExchangeCode_def consumeExchangeCode_def
      consumeExchangeCodeIfMatches_def createSession_def getSession_def rotateSession_def deleteSession_begin_def
      deleteSession_end_def deleteSessionsBySubject_def deleteSessionsByProviderSessionId_def Let_def
      split: option.split sum.split prod.split)

lemma pruneJtis_keeps:
  assumes "vault_inv v" "jti_recorded v k = Some t" "now < t"
  shows "jti_recorded (pruneJtis now v) k = Some t"
proof -
  obtain m s w where p: "pruneMapBatch (backchannelLogoutTokenJtis v) (backchannelLogoutTokenJtiSweep v) (sweepWork v) now = (m, s, w)"
    by (metis prod_cases3)
  have "wf_map (backchannelLogoutTokenJtis v)" using assms(1) by (simp add: vault_inv_def maps_ok_def)
  from pruneMapBatch_spec [OF this p] obtain out
    where o: "swept_from VaultStore.EXPIRY_SWEEP_BATCH_SIZE now (backchannelLogoutTokenJtis v) m out" .
  obtain j r where r: "k = Some j" "mget (backchannelLogoutTokenJtis v) j = Some r" "jprop r ''expiresAt'' = JNum t" "is_finite t"
    using assms(2) by (auto simp: jti_recorded_def split: option.splits jsval.splits if_splits bind_splits)
  have "\<not> isExpiredRecord r now" using r(3,4) assms(3) by (simp add: isExpiredRecord_def num_le_finite)
  with swept_fromD(3) [OF o r(2)] have "mget m j = Some r" by blast
  with r p show ?thesis by (simp add: pruneJtis_def jti_recorded_def)
qed

lemma jti_accepts:
  assumes "vault_inv v" "snd (jti_step c v)"
  shows "jti_recorded (fst (jti_step c v)) (jti_key c) = Some (jti_until c)"
    and "jti_recorded v (jti_key c) = Some t \<Longrightarrow> t \<le> jti_clock c"
proof -
  obtain i now where c: "c = ConsumeJti i now" using assms(2) by (cases c) (simp_all add: jti_step_def split_def)
  have won: "snd (consumeBackchannelLogoutTokenJti i now v)" using assms(2) by (simp add: c jti_step_def split_def)
  obtain x where x: "jprop i ''expiresAt'' = JNum x" "is_finite x"
    using won by (cases "jprop i ''expiresAt''") (auto simp: consumeBackchannelLogoutTokenJti_def Let_def split: if_splits)
  show "jti_recorded (fst (jti_step c v)) (jti_key c) = Some (jti_until c)"
    using won x by (auto simp: c jti_step_def split_def jti_key_def jti_until_def jti_recorded_def Let_def
        consumeBackchannelLogoutTokenJti_def split: if_splits option.splits)
  show "t \<le> jti_clock c" if t: "jti_recorded v (jti_key c) = Some t"
  proof (rule ccontr)
    assume "\<not> t \<le> jti_clock c"
    then have less: "now < t" by (simp add: c jti_clock_def)
    from pruneJtis_keeps [OF assms(1) t less]
    obtain r where r: "mget (backchannelLogoutTokenJtis (pruneJtis now v)) (jprop i ''jti'') = Some r"
        "jprop r ''expiresAt'' = JNum t" "is_finite t"
      by (auto simp: c jti_key_def jti_recorded_def split: option.splits jsval.splits if_splits)
    have "\<not> isExpiredRecord r now" using r(2,3) less by (simp add: isExpiredRecord_def num_le_finite)
    with won r(1) show False by (simp add: consumeBackchannelLogoutTokenJti_def Let_def split: if_splits)
  qed
qed

lemma jti_keeps:
  assumes "vault_inv v" "jti_recorded v k = Some t" "jti_clock c < t"
  shows "jti_recorded (fst (jti_step c v)) k = Some t"
proof (cases c)
  case (ConsumeJti i now)
  have p: "jti_recorded (pruneJtis now v) k = Some t"
    using pruneJtis_keeps [OF assms(1,2)] assms(3) by (simp add: ConsumeJti jti_clock_def)
  show ?thesis
  proof (cases "k = Some (jprop i ''jti'')")
    case True
    have "\<not> snd (jti_step c v)"
      using jti_accepts(2) [OF assms(1), of c t] assms(2,3) True by (auto simp: ConsumeJti jti_key_def)
    then have "\<not> snd (consumeBackchannelLogoutTokenJti i now v)" by (simp add: ConsumeJti jti_step_def split_def)
    with p show ?thesis
      by (auto simp: ConsumeJti jti_step_def split_def consumeBackchannelLogoutTokenJti_def Let_def split: if_splits option.splits)
  next
    case False
    with p show ?thesis
      by (cases k) (auto simp: ConsumeJti jti_step_def split_def consumeBackchannelLogoutTokenJti_def Let_def jti_recorded_def
          split: if_splits option.splits)
  qed
qed (use assms(2) same_jtis_step [of c v] in \<open>simp_all add: jti_step_def split_def jti_key_def same_jtis_def jti_recorded_def\<close>)

lemma jti_step_fst [simp]: "fst (jti_step c v) = fst (vault_step c v)"
  by (simp add: jti_step_def split_def)

interpretation jtis: replay_ledger jti_step "\<lambda>accepted. accepted" jti_key jti_clock jti_until vault_inv jti_recorded
proof
  fix v c k t
  show "vault_inv v \<Longrightarrow> vault_inv (fst (jti_step c v))" by (simp add: vault_step_inv)
  show "vault_inv v \<Longrightarrow> snd (jti_step c v) \<Longrightarrow> jti_recorded (fst (jti_step c v)) (jti_key c) = Some (jti_until c)"
    by (rule jti_accepts(1))
  show "\<not> snd (jti_step c v)" if "vault_inv v" "jti_recorded v (jti_key c) = Some t" "jti_clock c < t"
    using jti_accepts(2) [OF that(1) _ that(2)] that(3) by auto
  show "vault_inv v \<Longrightarrow> jti_recorded v k = Some t \<Longrightarrow> jti_clock c < t \<Longrightarrow> jti_recorded (fst (jti_step c v)) k = Some t"
    by (rule jti_keeps)
qed

text \<open>A back-channel logout token is accepted at most once until it expires: between two calls that
  accept the same token ID the clock of some such call has reached the expiry of the first.\<close>

lemma logout_token_accepted_once:
  assumes "i < j" "j < length cs" "jti_key (cs ! i) = jti_key (cs ! j)"
    and "snd (run_calls jti_step cs empty_vault) ! i" "snd (run_calls jti_step cs empty_vault) ! j"
  shows "\<exists>m. i < m \<and> m \<le> j \<and> jti_until (cs ! i) \<le> jti_clock (cs ! m)"
  using jtis.at_most_once [OF empty_vault_inv assms] .

section \<open>Sweeps\<close>

definition slots_read :: "sweep_work \<Rightarrow> nat" where
  "slots_read w = inspectedKeys w + staleSnapshotSlots w"

lemma sweep_loop_work:
  "sweep_loop n now m s w = (m', s', w', out) \<Longrightarrow> slots_read w' \<le> slots_read w + n"
proof (induction n arbitrary: m s w m' s' w' out)
  case (Suc n)
  obtain s1 w1 where sw: "(if sw_position s \<ge> length (sw_keys s) then rebuildSweepSnapshot m w else (s, w)) = (s1, w1)"
    by (meson surj_pair)
  then have w1: "slots_read w1 = slots_read w"
    by (auto simp: rebuildSweepSnapshot_def slots_read_def split: if_splits)
  define key where "key = sw_keys s1 ! sw_position s1"
  note step = Suc.prems [unfolded sweep_loop.simps sw Let_def prod.case key_def [symmetric]]
  show ?case
  proof (cases "mget m key")
    case None
    with step w1 show ?thesis
      by (auto simp: slots_read_def split: if_splits dest!: Suc.IH)
  next
    case (Some v)
    with step w1 show ?thesis
      by (auto simp: slots_read_def split: if_splits prod.splits dest!: Suc.IH)
  qed
qed simp

lemma sweep_loop_size:
  "wf_map m \<Longrightarrow> sweep_loop n now m s w = (m', s', w', out) \<Longrightarrow> length m \<le> length m' + n"
proof (induction n arbitrary: m s w m' s' w' out)
  case (Suc n)
  obtain s1 w1 where sw: "(if sw_position s \<ge> length (sw_keys s) then rebuildSweepSnapshot m w else (s, w)) = (s1, w1)"
    by (meson surj_pair)
  define key where "key = sw_keys s1 ! sw_position s1"
  note step = Suc.prems(2) [unfolded sweep_loop.simps sw Let_def prod.case key_def [symmetric]]
  show ?case
  proof (cases "mget m key")
    case None
    with step show ?thesis by (auto split: if_splits dest!: Suc.IH [OF Suc.prems(1)])
  next
    case (Some v)
    have "wf_map (mdel key m)" "Suc (length (mdel key m)) = length m"
      using Suc.prems(1) size_mdel [OF Suc.prems(1) Some] by simp_all
    with Some step show ?thesis
      by (auto split: if_splits prod.splits dest!: Suc.IH [OF Suc.prems(1)] Suc.IH [OF \<open>wf_map (mdel key m)\<close>])
  qed
qed simp

text \<open>A sweep takes out expired records only, at most 64 of them, and reads at most 64 slots of its
  snapshot.\<close>

lemma sweep_bounded:
  assumes "wf_map m" "pruneMapBatch m s w now = (m', s', w')"
  shows "(mget m' k = mget m k \<or> mget m' k = None \<and> (\<exists>x. mget m k = Some x \<and> isExpiredRecord x now)) \<and>
    length m \<le> length m' + 64 \<and> slots_read w' \<le> slots_read w + 64"
proof -
  obtain out where sw: "sweep_map m s w now = (m', s', w', out)"
    using assms(2) by (auto simp: pruneMapBatch_def split: prod.splits)
  note sf = sweep_map_spec [OF assms(1) sw]
  note d = swept_fromD [OF sf]
  have work: "slots_read w' \<le> slots_read w + 64"
  proof (cases "m = []")
    case False
    obtain s1 w1 where r: "(if sw_position s \<ge> length (sw_keys s) then rebuildSweepSnapshot m w else (s, w)) = (s1, w1)"
      by (meson surj_pair)
    then have "slots_read w1 = slots_read w"
      by (auto simp: rebuildSweepSnapshot_def slots_read_def split: if_splits)
    with False r sw sweep_loop_work [of 64 now m s1 w1 m' s' w' out] show ?thesis
      by (simp add: sweep_map_def VaultStore.EXPIRY_SWEEP_BATCH_SIZE_def)
  qed (use sw in \<open>simp add: sweep_map_def\<close>)
  have "length m \<le> length m' + 64"
    using sw sweep_loop_size [OF assms(1), of 64 now]
    by (auto simp: sweep_map_def VaultStore.EXPIRY_SWEEP_BATCH_SIZE_def rebuildSweepSnapshot_def split: if_splits)
  moreover have "mget m' k = mget m k \<or> mget m' k = None \<and> (\<exists>x. mget m k = Some x \<and> isExpiredRecord x now)"
    using d(3,5) [of k] by (cases "mget m k") auto
  ultimately show ?thesis using work by blast
qed

section \<open>Consistency\<close>

text \<open>C17: Whatever calls are made, in whatever order and with whatever clock readings: no ID is both a
  session and an alias, every session is filed under its own ID with a well-formed binding, and every
  alias belongs to a lineage that still has a session.\<close>

theorem vault_run_consistent: "vault_inv (fst (run_calls vault_step cs empty_vault))"
  by (rule vault_run_inv [OF empty_vault_inv])

section \<open>A small vault\<close>

definition demo_record :: "string \<Rightarrow> (string \<times> jsval) list" where
  "demo_record k = [(''sessionId'', JStr k), (''subject'', JStr ''u''), (''refreshToken'', JStr ''r''),
     (''idToken'', JStr ''t''), (''expiresAt'', jint 100)]"

definition demo_vault :: vault where
  "demo_vault = fst (run_calls vault_step [CreateSession (JObj (demo_record ''a'')) (Fin 1),
     RotateSession (JStr ''a'') (demo_record ''b'') (Fin 2)] empty_vault)"

lemma demo_vault_inv: "vault_inv demo_vault"
  unfolding demo_vault_def by (rule vault_run_inv [OF empty_vault_inv])

definition demo_first :: vault where
  "demo_first = fst (vault_step (CreateSession (JObj (demo_record ''a'')) (Fin 1)) empty_vault)"

lemma demo_first_inv: "vault_inv demo_first"
  unfolding demo_first_def by (rule vault_step_inv [OF empty_vault_inv])

lemma demo_alias: "mget (rotatedSessionAliases demo_vault) (JStr ''a'') =
    Some (JObj [(''logicalSessionId'', JStr ''a''), (''expiresAt'', jint 100)])"
  by code_simp

definition demo_calls :: "vault_call list" where
  "demo_calls =
     [CreateTransaction (JObj [(''state'', JStr ''s''), (''nonce'', JStr ''n''), (''pkceVerifier'', JStr ''p''),
        (''codeChallenge'', JStr ''c''), (''createdAt'', jint 1), (''expiresAt'', jint 100)]) (Fin 1),
      ConsumeTransaction (JObj [(''state'', JStr ''s''), (''match'', unbound_match)]) (Fin 2),
      ConsumeTransaction (JObj [(''state'', JStr ''s''), (''match'', unbound_match)]) (Fin 3),
      CreateTransaction (JObj [(''state'', JStr ''s''), (''nonce'', JStr ''n''), (''pkceVerifier'', JStr ''p''),
        (''codeChallenge'', JStr ''c''), (''createdAt'', jint 4), (''expiresAt'', jint 100)]) (Fin 4),
      ConsumeTransaction (JObj [(''state'', JStr ''s''), (''match'', unbound_match)]) (Fin 5)]"

theorem transaction_consumed_once_witness:
  "\<exists>m. 1 < m \<and> m < 4 \<and> created_state (demo_calls ! m) = Some (JStr ''s'')"
proof (rule transaction_consumed_once)
  show "(1 :: nat) < 4" "(4 :: nat) < length demo_calls" by (simp_all add: demo_calls_def)
  show "consumed_state (demo_calls ! 1) = Some (JStr ''s'')" "consumed_state (demo_calls ! 4) = Some (JStr ''s'')"
    by (simp_all add: demo_calls_def)
  show "handed_out (snd (run_calls vault_step demo_calls empty_vault) ! 1)"
    "handed_out (snd (run_calls vault_step demo_calls empty_vault) ! 4)" by code_simp+
qed

definition demo_codes :: "vault_call list" where
  "demo_codes =
     [CreateCode (JObj [(''code'', JStr ''x''), (''sessionId'', JStr ''a''), (''createdAt'', jint 1), (''expiresAt'', jint 100)]) (Fin 1),
      ConsumeCodeIf (JObj [(''code'', JStr ''x''), (''match'', unbound_match), (''expectedSessionId'', JStr ''a'')]) (Fin 2),
      CreateCode (JObj [(''code'', JStr ''x''), (''sessionId'', JStr ''a''), (''createdAt'', jint 1), (''expiresAt'', jint 100)]) (Fin 3),
      ConsumeCode (JStr ''x'') (Fin 4)]"

lemma code_consumed_once_witness:
  "\<exists>m. 1 < m \<and> m < 3 \<and> created_code (demo_codes ! m) = Some (JStr ''x'')"
proof (rule code_consumed_once)
  show "(1 :: nat) < 3" "(3 :: nat) < length demo_codes" by (simp_all add: demo_codes_def)
  show "consumed_code (demo_codes ! 1) = Some (JStr ''x'')" "consumed_code (demo_codes ! 3) = Some (JStr ''x'')"
    by (simp_all add: demo_codes_def)
  show "handed_out (snd (run_calls vault_step demo_codes empty_vault) ! 1)"
    "handed_out (snd (run_calls vault_step demo_codes empty_vault) ! 3)" by code_simp+
qed

theorem rotation_moves_session_witness:
  "\<exists>v' s source sid. rotateSession (JStr ''a'') (demo_record ''b'') (Fin 2) demo_first = (v', Inr s) \<and>
    mget (sessions demo_first) (JStr ''a'') = Some source \<and> sid = jprop s ''sessionId'' \<and>
    mget (sessions v') = (mget (sessions demo_first))(JStr ''a'' := None, sid \<mapsto> s)"
proof -
  have "(case snd (rotateSession (JStr ''a'') (demo_record ''b'') (Fin 2) demo_first) of Inr _ \<Rightarrow> True | Inl _ \<Rightarrow> False)"
    by code_simp
  then have "\<exists>s. snd (rotateSession (JStr ''a'') (demo_record ''b'') (Fin 2) demo_first) = Inr s"
    by (auto split: sum.splits)
  then obtain s where "rotateSession (JStr ''a'') (demo_record ''b'') (Fin 2) demo_first =
      (fst (rotateSession (JStr ''a'') (demo_record ''b'') (Fin 2) demo_first), Inr s)" by (metis prod.collapse)
  from rotation_moves_session [OF demo_first_inv this] this show ?thesis by metis
qed

theorem rejected_rotation_keeps_live_witness:
  "\<exists>v' s. rotateSession (JStr ''b'') (demo_record ''b'') (Fin 2) demo_vault = (v', Inl StoreConflict) \<and>
    mget (sessions v') (JStr ''b'') = Some s"
proof -
  have "snd (rotateSession (JStr ''b'') (demo_record ''b'') (Fin 2) demo_vault) = Inl StoreConflict" by code_simp
  then have r: "rotateSession (JStr ''b'') (demo_record ''b'') (Fin 2) demo_vault =
      (fst (rotateSession (JStr ''b'') (demo_record ''b'') (Fin 2) demo_vault), Inl StoreConflict)" by (metis prod.collapse)
  have "(case mget (sessions demo_vault) (JStr ''b'') of Some s \<Rightarrow> \<not> isExpiredRecord s (Fin 2) | None \<Rightarrow> False)" by code_simp
  then obtain s where "mget (sessions demo_vault) (JStr ''b'') = Some s" "\<not> isExpiredRecord s (Fin 2)"
    by (auto split: option.splits)
  from rejected_rotation_keeps_live [OF demo_vault_inv r this] r show ?thesis by metis
qed

lemma logical_revocation_exact_witness:
  "\<exists>v'. deleteSessionsByLogicalSessionId (JStr ''a'') (Fin 3) demo_vault = (v', 1) \<and>
    mget (sessions v') (JStr ''b'') = None"
proof -
  have n: "snd (deleteSessionsByLogicalSessionId (JStr ''a'') (Fin 3) demo_vault) = 1" by code_simp
  then have d: "deleteSessionsByLogicalSessionId (JStr ''a'') (Fin 3) demo_vault =
      (fst (deleteSessionsByLogicalSessionId (JStr ''a'') (Fin 3) demo_vault), 1)" by (metis prod.collapse)
  have "(case mget (sessions demo_vault) (JStr ''b'') of Some s \<Rightarrow> lineage s = JStr ''a'' | None \<Rightarrow> True)" by code_simp
  with logical_revocation_exact [OF demo_vault_inv d, of "JStr ''b''"] d show ?thesis
    by (auto split: option.splits)
qed

lemma subject_revocation_exact_witness:
  "\<exists>v'. deleteSessionsBySubject (JStr ''u'') (Fin 3) demo_vault = (v', 1) \<and> mget (sessions v') (JStr ''b'') = None"
proof -
  have n: "snd (deleteSessionsBySubject (JStr ''u'') (Fin 3) demo_vault) = 1" by code_simp
  then have d: "deleteSessionsBySubject (JStr ''u'') (Fin 3) demo_vault =
      (fst (deleteSessionsBySubject (JStr ''u'') (Fin 3) demo_vault), 1)" by (metis prod.collapse)
  have "(case mget (sessions demo_vault) (JStr ''b'') of
      Some s \<Rightarrow> jprop s ''subject'' = JStr ''u'' \<and> matchesProviderScope s (toSubjectDeleteInput (JStr ''u'')) | None \<Rightarrow> True)" by code_simp
  with subject_revocation_exact [OF demo_vault_inv d, of "JStr ''b''"] d show ?thesis
    by (auto split: option.splits simp: toSubjectDeleteInput_def)
qed

theorem alias_deletion_revokes_lineage_witness:
  "\<not> lineage_live (sessions (deleteSession (JStr ''a'') (Fin 3) (Fin 3) demo_vault)) (JStr ''a'') (Fin 3) \<and>
    mget (sessions (deleteSession (JStr ''a'') (Fin 3) (Fin 3) demo_vault)) (JStr ''a'') = None"
  using alias_deletion_revokes_lineage [OF demo_vault_inv demo_alias, of "Fin 3" "''a''" "Fin 3"]
  by (simp add: isExpiredRecord_def)

definition demo_logout :: "string \<Rightarrow> int \<Rightarrow> int \<Rightarrow> vault_call" where
  "demo_logout k t now = ConsumeJti (JObj [(''jti'', JStr k), (''expiresAt'', jint t)]) (of_integer now)"

definition demo_logouts :: "vault_call list" where
  "demo_logouts = [demo_logout ''j'' 20 10, demo_logout ''j'' 25 15, demo_logout ''j'' 30 20]"

lemma logout_token_accepted_once_witness:
  "\<exists>m. 0 < m \<and> m \<le> 2 \<and> jti_until (demo_logouts ! 0) \<le> jti_clock (demo_logouts ! m)"
proof (rule logout_token_accepted_once)
  show "(0 :: nat) < 2" "(2 :: nat) < length demo_logouts" by (simp_all add: demo_logouts_def)
  show "jti_key (demo_logouts ! 0) = jti_key (demo_logouts ! 2)" by (simp add: demo_logouts_def demo_logout_def jti_key_def)
  show "snd (run_calls jti_step demo_logouts empty_vault) ! 0" "snd (run_calls jti_step demo_logouts empty_vault) ! 2"
    by code_simp+
qed

theorem sweep_bounded_witness:
  "\<exists>m' s' w'. pruneMapBatch [(JStr ''a'', JObj [(''expiresAt'', jint 1)])] createMapSweepState createMemoryStoreSweepWork (Fin 5) = (m', s', w') \<and>
    slots_read w' \<le> slots_read createMemoryStoreSweepWork + 64"
proof -
  obtain m' s' w' where p: "pruneMapBatch [(JStr ''a'', JObj [(''expiresAt'', jint 1)])] createMapSweepState createMemoryStoreSweepWork (Fin 5) = (m', s', w')"
    by (metis prod_cases3)
  moreover have "wf_map [(JStr ''a'', JObj [(''expiresAt'', jint 1)])]" by (simp add: wf_map_def)
  ultimately show ?thesis using sweep_bounded by blast
qed

end
