(* ===== verification/VaultReplay.thy ===== *)
theory VaultReplay
  imports VaultBinding ReplayLedger
begin

text \<open>
  DPoP proof reservations of the memory vault store, dpop-replay.ts of
  packages/express-oidc-vault-memory-store, with \<open>reserveDpopProof\<close> of index.ts. The heap is that of
  \<open>ExpiryHeap\<close>; deadlines are safe integers, while the clock may return any finite number, so that they
  are compared as rationals (the difference \<open>expiresAt - now\<close> is taken exactly).
\<close>

record dpop_row =
  dpop_replayKey :: string
  dpop_expiresAt :: int

record dpop_store =
  dpop_rows :: "dpop_row hstore"
  dpop_maxEntries :: int

definition dpop_deadline :: "dpop_row \<Rightarrow> rat" where
  "dpop_deadline r = of_int (dpop_expiresAt r)"

text \<open>The constructor, and the limit of the vault store's own constructor.\<close>

definition createDpopReplay :: "jsval \<Rightarrow> vault_error + dpop_store" where
  "createDpopReplay options =
     (let m = jprop options ''dpopReplayMaxEntries''
      in case as_safe (if m = JUndef then jint 100000 else m) of
           None \<Rightarrow> Inl TypeError
         | Some n \<Rightarrow> if n \<le> 0 then Inl TypeError else Inr \<lparr>dpop_rows = empty_hstore, dpop_maxEntries = n\<rparr>)"

text \<open>The checks before the store is touched: no row when the proof is not to be reserved.\<close>

definition dpop_input :: "jsval \<Rightarrow> rat \<Rightarrow> dpop_row option" where
  "dpop_input input now =
     (case (jprop input ''replayKey'', as_safe (jprop input ''expiresAt'')) of
        (JStr k, Some t) \<Rightarrow>
          (if of_int t \<le> now \<or> of_int t - now > 360000 then None
           else Some \<lparr>dpop_replayKey = k, dpop_expiresAt = t\<rparr>)
      | _ \<Rightarrow> None)"

definition reserveDpopProof :: "jsval \<Rightarrow> jsnum \<Rightarrow> dpop_store \<Rightarrow> dpop_store \<times> (vault_error + bool)" where
  "reserveDpopProof input clk st =
     (case clk of
        Fin now \<Rightarrow>
          (case dpop_input input now of
             None \<Rightarrow> (st, Inr False)
           | Some r \<Rightarrow>
               (case admit dpop_replayKey dpop_deadline (dpop_maxEntries st) now r (dpop_rows st) of
                  None \<Rightarrow> (st, Inl UndefinedRead)
                | Some (rows, Live) \<Rightarrow> (st\<lparr>dpop_rows := rows\<rparr>, Inr False)
                | Some (rows, Full) \<Rightarrow> (st\<lparr>dpop_rows := rows\<rparr>, Inl ReplayCapacity)
                | Some (rows, Admitted) \<Rightarrow> (st\<lparr>dpop_rows := rows\<rparr>, Inr True)))
      | _ \<Rightarrow> (st, Inl StoreError))"

section \<open>Invariant and contract\<close>

definition dpop_inv :: "dpop_store \<Rightarrow> bool" where
  "dpop_inv st \<longleftrightarrow> heap_inv dpop_replayKey dpop_deadline (dpop_rows st) \<and>
     int (hsize (dpop_rows st)) \<le> dpop_maxEntries st \<and> 0 < dpop_maxEntries st"

lemma dpop_input_parts:
  "dpop_input input now = Some r \<Longrightarrow> jprop input ''replayKey'' = JStr (dpop_replayKey r) \<and>
     as_safe (jprop input ''expiresAt'') = Some (dpop_expiresAt r) \<and> now < dpop_deadline r \<and>
     dpop_deadline r - now \<le> 360000"
  by (auto simp: dpop_input_def dpop_deadline_def split: jsval.splits option.splits if_splits)

lemma dpop_cases:
  assumes inv: "dpop_inv st"
  obtains (refused) out where "reserveDpopProof input clk st = (st, out)" "out = Inl StoreError \<or> out = Inr False"
  | (admission) now r rows out where "clk = Fin now" "dpop_input input now = Some r"
      "heap_inv dpop_replayKey dpop_deadline rows"
      "admission_effect dpop_replayKey dpop_deadline (dpop_maxEntries st) now r (dpop_rows st) rows out"
      "reserveDpopProof input clk st = (st\<lparr>dpop_rows := rows\<rparr>,
         case out of Live \<Rightarrow> Inr False | Full \<Rightarrow> Inl ReplayCapacity | Admitted \<Rightarrow> Inr True)"
proof (cases "\<exists>now r. clk = Fin now \<and> dpop_input input now = Some r")
  case False
  with refused show ?thesis by (cases clk) (auto simp: reserveDpopProof_def split: option.split)
next
  case True
  then obtain now r where p: "clk = Fin now" "dpop_input input now = Some r" by blast
  obtain rows out where "admit dpop_replayKey dpop_deadline (dpop_maxEntries st) now r (dpop_rows st) = Some (rows, out)"
      "heap_inv dpop_replayKey dpop_deadline rows"
      "admission_effect dpop_replayKey dpop_deadline (dpop_maxEntries st) now r (dpop_rows st) rows out"
    using admit_spec [of dpop_replayKey dpop_deadline "dpop_rows st" "dpop_maxEntries st" now r] inv
    by (auto simp: dpop_inv_def)
  with p show ?thesis
    by (intro admission [of now r rows out]) (auto simp: reserveDpopProof_def split: admission.splits)
qed

lemma dpop_inv_reserve:
  assumes inv: "dpop_inv st"
  shows "dpop_inv (fst (reserveDpopProof input clk st))"
  using inv
proof (cases rule: dpop_cases [of st input clk])
  case (admission now r rows out)
  have "int (hsize rows) \<le> dpop_maxEntries st"
    using admission(4) inv unfolding admission_effect_def dpop_inv_def by (cases out) auto
  with inv admission show ?thesis by (simp add: dpop_inv_def)
qed (use inv in simp_all)

text \<open>A call is a clock reading and its input. A reading that is no finite number reserves nothing.\<close>

type_synonym dpop_call = "jsnum \<times> jsval"

definition dpop_step :: "dpop_call \<Rightarrow> dpop_store \<Rightarrow> dpop_store \<times> (vault_error + bool)" where
  "dpop_step c = reserveDpopProof (snd c) (fst c)"

definition dpop_clock :: "dpop_call \<Rightarrow> rat" where
  "dpop_clock c = (case fst c of Fin now \<Rightarrow> now | _ \<Rightarrow> 0)"

definition dpop_key :: "dpop_call \<Rightarrow> string" where
  "dpop_key c = (case jprop (snd c) ''replayKey'' of JStr k \<Rightarrow> k | _ \<Rightarrow> [])"

definition dpop_until :: "dpop_call \<Rightarrow> rat" where
  "dpop_until c = (case as_safe (jprop (snd c) ''expiresAt'') of Some n \<Rightarrow> of_int n | None \<Rightarrow> 0)"

definition dpop_recorded :: "dpop_store \<Rightarrow> string \<Rightarrow> rat option" where
  "dpop_recorded st = filed dpop_deadline (dpop_rows st)"

lemma dpop_call_parts:
  "fst c = Fin now \<Longrightarrow> dpop_input (snd c) now = Some r \<Longrightarrow>
     now = dpop_clock c \<and> dpop_replayKey r = dpop_key c \<and> dpop_deadline r = dpop_until c"
  by (auto simp: dpop_clock_def dpop_key_def dpop_until_def dpop_deadline_def dest!: dpop_input_parts)

lemma dpop_records:
  assumes inv: "dpop_inv st" and won: "snd (dpop_step c st) = Inr True"
  shows "dpop_recorded (fst (dpop_step c st)) (dpop_key c) = Some (dpop_until c)"
  using inv
proof (cases rule: dpop_cases [of st "snd c" "fst c"])
  case (admission now r rows out)
  from won admission(5) have "out = Admitted" by (cases out) (simp_all add: dpop_step_def)
  with admission(4) have "contents rows (dpop_replayKey r) = Some r" unfolding admission_effect_def by blast
  with admission(5) dpop_call_parts [OF admission(1,2)] show ?thesis
    by (simp add: dpop_step_def dpop_recorded_def filed_def)
qed (use won in \<open>auto simp: dpop_step_def\<close>)

lemma dpop_refuses:
  assumes inv: "dpop_inv st" and old: "dpop_recorded st (dpop_key c) = Some t" "dpop_clock c < t"
  shows "snd (dpop_step c st) \<noteq> Inr True"
  using inv
proof (cases rule: dpop_cases [of st "snd c" "fst c"])
  case (admission now r rows out)
  from old have "live dpop_deadline now (dpop_rows st) (dpop_replayKey r)"
    using dpop_call_parts [OF admission(1,2)] by (auto simp: live_def dpop_recorded_def filed_def)
  with admission(4) have "out = Live" unfolding admission_effect_def by blast
  with admission(5) show ?thesis by (simp add: dpop_step_def)
qed (auto simp: dpop_step_def)

lemma dpop_keeps:
  assumes inv: "dpop_inv st" and old: "dpop_recorded st k = Some t" "dpop_clock c < t"
  shows "dpop_recorded (fst (dpop_step c st)) k = Some t"
  using inv
proof (cases rule: dpop_cases [of st "snd c" "fst c"])
  case (admission now r rows out)
  from old obtain q where "contents (dpop_rows st) k = Some q" "dpop_deadline q = t" "now < t"
    using dpop_call_parts [OF admission(1,2)] by (auto simp: dpop_recorded_def filed_def)
  with admission(4) have "contents rows k = Some q" unfolding admission_effect_def by blast
  with admission(5) \<open>dpop_deadline q = t\<close> show ?thesis
    by (simp add: dpop_step_def dpop_recorded_def filed_def)
qed (use old in \<open>auto simp: dpop_step_def\<close>)

interpretation dpop: replay_ledger dpop_step "\<lambda>out. out = Inr True" dpop_key dpop_clock dpop_until
    dpop_inv dpop_recorded
  by unfold_locales
     (use dpop_inv_reserve dpop_records dpop_refuses dpop_keeps in \<open>auto simp: dpop_step_def\<close>)

lemma createDpop_inv: "createDpopReplay opts = Inr st \<Longrightarrow> dpop_inv st"
  by (auto simp: createDpopReplay_def dpop_inv_def Let_def split: if_splits option.splits)
     (auto simp: empty_hstore_def)

section \<open>At most once\<close>

definition dpop_demo :: dpop_store where
  "dpop_demo = \<lparr>dpop_rows = empty_hstore, dpop_maxEntries = 2\<rparr>"

definition dpop_demo_call :: "int \<Rightarrow> string \<Rightarrow> int \<Rightarrow> dpop_call" where
  "dpop_demo_call now k t = (of_integer now, JObj [(''replayKey'', JStr k), (''expiresAt'', jint t)])"

lemma dpop_demo_inv: "dpop_inv dpop_demo"
  by (simp add: dpop_inv_def dpop_demo_def) (simp add: empty_hstore_def)

text \<open>A DPoP proof is accepted at most once until its deadline: from a freshly constructed store,
  whatever other calls come between, a key whose reservation was granted is granted again only after the
  store's clock has read the deadline that the first call asked for.\<close>

lemma dpop_proof_reserved_once:
  assumes "createDpopReplay opts = Inr st" "i < j" "j < length cs" "dpop_key (cs ! i) = dpop_key (cs ! j)"
    "snd (run_calls dpop_step cs st) ! i = Inr True" "snd (run_calls dpop_step cs st) ! j = Inr True"
  shows "\<exists>m. i < m \<and> m \<le> j \<and> dpop_until (cs ! i) \<le> dpop_clock (cs ! m)"
  by (rule dpop.at_most_once [OF createDpop_inv [OF assms(1)] assms(2-6)])

definition dpop_demo_calls :: "dpop_call list" where
  "dpop_demo_calls = [dpop_demo_call 10 ''k'' 20, dpop_demo_call 15 ''k'' 25, dpop_demo_call 20 ''k'' 30]"

lemma dpop_demo_outcomes:
  "snd (run_calls dpop_step dpop_demo_calls dpop_demo) = [Inr True, Inr False, Inr True]"
  by code_simp

lemma dpop_demo_created: "createDpopReplay (JObj [(''dpopReplayMaxEntries'', jint 2)]) = Inr dpop_demo"
  by (simp add: createDpopReplay_def dpop_demo_def is_safe_def MAX_SAFE_INTEGER_def Let_def)

lemma dpop_proof_reserved_once_witness:
  "\<exists>m. 0 < m \<and> m \<le> 2 \<and> dpop_until (dpop_demo_calls ! 0) \<le> dpop_clock (dpop_demo_calls ! m)"
proof -
  have "dpop_key (dpop_demo_calls ! 0) = dpop_key (dpop_demo_calls ! 2)" by code_simp
  moreover have "snd (run_calls dpop_step dpop_demo_calls dpop_demo) ! 0 = Inr True"
      "snd (run_calls dpop_step dpop_demo_calls dpop_demo) ! 2 = Inr True"
    unfolding dpop_demo_outcomes by simp_all
  moreover have "(2 :: nat) < length dpop_demo_calls" by (simp add: dpop_demo_calls_def)
  ultimately show ?thesis
    using dpop_proof_reserved_once [OF dpop_demo_created, of 0 2 dpop_demo_calls] by simp
qed

end
