(* ===== verification/VaultTickets.thy ===== *)
theory VaultTickets
  imports VaultReplay OneTime AttestCodec
begin

text \<open>
  Logout navigation tickets of the memory vault store: logout-ticket-validation.ts, logout-tickets.ts, and
  \<open>createLogoutNavigationTicket\<close> and \<open>consumeLogoutNavigationTicket\<close> of index.ts, in
  packages/express-oidc-vault-memory-store. The URL parser is a parameter: \<open>pu s\<close> is what \<open>new URL(s)\<close>
  gives, or \<open>None\<close> when it throws. The heap is that of \<open>ExpiryHeap\<close>, with the ticket ID as its key.
\<close>

section \<open>Validation\<close>

record parsed_url =
  pu_protocol :: string
  pu_username :: string
  pu_password :: string
  pu_hash :: string
  pu_href :: string

type_synonym url_parser = "string \<Rightarrow> parsed_url option"

definition TICKET_PREFIX :: string where
  "TICKET_PREFIX = ''logout-navigation:v1:''"

definition unsafe_url_char :: "char \<Rightarrow> bool" where
  "unsafe_url_char c \<longleftrightarrow> is_ws c \<or> c = CHR 0x5C \<or> char_between 0 31 c \<or> char_between 127 159 c"

definition usableEpoch :: "jsval \<Rightarrow> int option" where
  "usableEpoch v = (case as_safe v of Some n \<Rightarrow> if \<bar>n\<bar> \<le> 8640000000000000 then Some n else None | None \<Rightarrow> None)"

definition ticketNow :: "jsval \<Rightarrow> vault_error + int" where
  "ticketNow now = (case usableEpoch now of None \<Rightarrow> Inl StoreError | Some n \<Rightarrow> Inr n)"

definition captureTicketIdentity :: "jsval \<Rightarrow> jsval" where
  "captureTicketIdentity input =
     JObj [(''namespace'', jprop input ''namespace''), (''ticketHash'', jprop input ''ticketHash'')]"

definition validTicketIdentity :: "jsval \<Rightarrow> bool" where
  "validTicketIdentity input \<longleftrightarrow>
     (case (jprop input ''namespace'', jprop input ''ticketHash'') of
        (JStr ns, JStr h) \<Rightarrow> starts_with ns TICKET_PREFIX \<and> hash_text (drop (length TICKET_PREFIX) ns) \<and> hash_text h
      | _ \<Rightarrow> False)"

definition captureTicket :: "jsval \<Rightarrow> jsval" where
  "captureTicket input =
     JObj [(''namespace'', jprop input ''namespace''), (''ticketHash'', jprop input ''ticketHash''),
       (''upstreamLogoutUrl'', jprop input ''upstreamLogoutUrl''), (''createdAt'', jprop input ''createdAt''),
       (''expiresAt'', jprop input ''expiresAt'')]"

text \<open>The patterns \<open>/^https?:\/\//i\<close> (the text after the scheme) and \<open>/^https?:\/\/[^/?#]*@/i\<close>.\<close>

definition after_scheme :: "string \<Rightarrow> string option" where
  "after_scheme u =
     (if map to_lower (take 7 u) = ''http://'' then Some (drop 7 u)
      else if map to_lower (take 8 u) = ''https://'' then Some (drop 8 u) else None)"

definition has_credentials :: "string \<Rightarrow> bool" where
  "has_credentials rest \<longleftrightarrow> CHR ''@'' \<in> set (takeWhile (\<lambda>c. c \<notin> {CHR ''/'', CHR ''?'', CHR ''#''}) rest)"

definition url_text_ok :: "string \<Rightarrow> bool" where
  "url_text_ok u \<longleftrightarrow>
     (case after_scheme u of
        None \<Rightarrow> False
      | Some rest \<Rightarrow> \<not> has_credentials rest \<and> \<not> list_ex unsafe_url_char u \<and> utf8ByteLength u \<le> 16384)"

definition url_ok :: "url_parser \<Rightarrow> string \<Rightarrow> bool" where
  "url_ok pu u \<longleftrightarrow>
     (case pu u of
        None \<Rightarrow> False
      | Some p \<Rightarrow> (pu_protocol p = ''https:'' \<or> pu_protocol p = ''http:'') \<and> pu_username p = [] \<and> pu_password p = [] \<and>
          pu_hash p = [] \<and> CHR ''#'' \<notin> set u \<and> utf8ByteLength (pu_href p) \<le> 16384)"

text \<open>\<open>validTicket(record, now?)\<close>: \<open>now\<close> is optional.\<close>

definition validTicket :: "url_parser \<Rightarrow> jsval \<Rightarrow> int option \<Rightarrow> bool" where
  "validTicket pu r now \<longleftrightarrow>
     isRecord r \<and> length (own_keys r) = 5 \<and> validTicketIdentity r \<and>
     (case (usableEpoch (jprop r ''createdAt''), usableEpoch (jprop r ''expiresAt''), jprop r ''upstreamLogoutUrl'') of
        (Some c, Some e, JStr u) \<Rightarrow>
          \<not> e - c < 1000 \<and> \<not> e - c > 120000 \<and>
          (case now of Some n \<Rightarrow> \<not> e \<le> n \<and> \<not> e - n > 120000 | None \<Rightarrow> True) \<and>
          url_text_ok u \<and> url_ok pu u
      | _ \<Rightarrow> False)"

definition assertTicket :: "url_parser \<Rightarrow> jsval \<Rightarrow> int option \<Rightarrow> vault_error + unit" where
  "assertTicket pu r now = guard TypeError (validTicket pu r now)"

definition ticketLimit :: "jsval \<Rightarrow> vault_error + int" where
  "ticketLimit v =
     (case as_safe (if v = JUndef then jint 10000 else v) of
        None \<Rightarrow> Inl TypeError
      | Some m \<Rightarrow> if m \<le> 0 then Inl TypeError else Inr m)"

definition text_of :: "jsval \<Rightarrow> string" where
  "text_of v = (case v of JStr s \<Rightarrow> s | _ \<Rightarrow> [])"

definition ticketId :: "jsval \<Rightarrow> string" where
  "ticketId i = text_of (jprop i ''namespace'') @ '':'' @ text_of (jprop i ''ticketHash'')"

section \<open>The store\<close>

record ticket_entry =
  te_id :: string
  te_record :: jsval

record ticket_store =
  tk_rows :: "ticket_entry hstore"
  tk_maxEntries :: int

definition te_expiresAt :: "ticket_entry \<Rightarrow> int" where
  "te_expiresAt e = (case as_safe (jprop (te_record e) ''expiresAt'') of Some n \<Rightarrow> n | None \<Rightarrow> 0)"

definition createTicketStore :: "jsval \<Rightarrow> vault_error + ticket_store" where
  "createTicketStore options =
     andthen (ticketLimit (jprop options ''logoutNavigationMaxEntries'')) (\<lambda>m.
     Inr \<lparr>tk_rows = empty_hstore, tk_maxEntries = m\<rparr>)"

definition ticket_cleanup :: "int \<Rightarrow> ticket_entry hstore \<Rightarrow> ticket_entry hstore option" where
  "ticket_cleanup now rows = sweep te_id te_expiresAt 64 now rows"

text \<open>\<open>create(record, now)\<close>, after the removal of an entry of the same ID.\<close>

definition ticket_file :: "int \<Rightarrow> ticket_entry \<Rightarrow> ticket_entry hstore \<Rightarrow> ticket_store \<Rightarrow> ticket_store \<times> (vault_error + unit)" where
  "ticket_file now e rows st =
     (case ticket_cleanup now rows of
        None \<Rightarrow> (st, Inl UndefinedRead)
      | Some rows' \<Rightarrow>
          (if int (hsize rows') \<ge> tk_maxEntries st then (st\<lparr>tk_rows := rows'\<rparr>, Inl TicketCapacity)
           else (case heap_insert te_id te_expiresAt e rows' of
                   None \<Rightarrow> (st, Inl UndefinedRead)
                 | Some rows'' \<Rightarrow> (st\<lparr>tk_rows := rows''\<rparr>, Inr ()))))"

definition ticket_create :: "url_parser \<Rightarrow> jsval \<Rightarrow> jsval \<Rightarrow> ticket_store \<Rightarrow> ticket_store \<times> (vault_error + unit)" where
  "ticket_create pu r clk st =
     (case andthen (ticketNow clk) (\<lambda>now. andthen (assertTicket pu r (Some now)) (\<lambda>_. Inr now)) of
        Inl e \<Rightarrow> (st, Inl e)
      | Inr now \<Rightarrow>
          (let entry = \<lparr>te_id = ticketId r, te_record = r\<rparr>
           in case lookup_row (tk_rows st) (te_id entry) of
                None \<Rightarrow> ticket_file now entry (tk_rows st) st
              | Some row \<Rightarrow>
                  (if validTicket pu (te_record (content row)) (Some now) then (st, Inl StoreConflict)
                   else (case heap_remove te_id te_expiresAt (index row) (tk_rows st) of
                           None \<Rightarrow> (st, Inl UndefinedRead)
                         | Some rows \<Rightarrow> ticket_file now entry rows st))))"

definition createLogoutNavigationTicket :: "url_parser \<Rightarrow> jsval \<Rightarrow> jsval \<Rightarrow> ticket_store \<Rightarrow> ticket_store \<times> (vault_error + unit)" where
  "createLogoutNavigationTicket pu input clk st = ticket_create pu (captureTicket input) clk st"

definition ticket_consume :: "url_parser \<Rightarrow> jsval \<Rightarrow> jsval \<Rightarrow> ticket_store \<Rightarrow> ticket_store \<times> (vault_error + jsval option)" where
  "ticket_consume pu input clk st =
     (case ticketNow clk of
        Inl e \<Rightarrow> (st, Inl e)
      | Inr now \<Rightarrow>
          (let selected = lookup_row (tk_rows st) (ticketId input)
           in case (case selected of
                      None \<Rightarrow> Some (tk_rows st)
                    | Some row \<Rightarrow> heap_remove te_id te_expiresAt (index row) (tk_rows st)) of
                None \<Rightarrow> (st, Inl UndefinedRead)
              | Some rows \<Rightarrow>
                  (case ticket_cleanup now rows of
                     None \<Rightarrow> (st\<lparr>tk_rows := rows\<rparr>, Inl UndefinedRead)
                   | Some rows' \<Rightarrow>
                       (st\<lparr>tk_rows := rows'\<rparr>,
                        Inr (case selected of
                               Some row \<Rightarrow>
                                 (if validTicket pu (te_record (content row)) (Some now) \<and>
                                     ticketId (te_record (content row)) = ticketId input
                                  then Some (te_record (content row)) else None)
                             | None \<Rightarrow> None)))))"

definition consumeLogoutNavigationTicket ::
  "url_parser \<Rightarrow> jsval \<Rightarrow> jsval \<Rightarrow> ticket_store \<Rightarrow> ticket_store \<times> (vault_error + jsval option)" where
  "consumeLogoutNavigationTicket pu input clk st =
     (if \<not> validTicketIdentity (captureTicketIdentity input) then (st, Inr None)
      else ticket_consume pu (captureTicketIdentity input) clk st)"

section \<open>Invariant\<close>

definition ticket_inv :: "url_parser \<Rightarrow> ticket_store \<Rightarrow> bool" where
  "ticket_inv pu st \<longleftrightarrow>
     heap_inv te_id te_expiresAt (tk_rows st) \<and> int (hsize (tk_rows st)) \<le> tk_maxEntries st \<and> 0 < tk_maxEntries st \<and>
     (\<forall>k e. contents (tk_rows st) k = Some e \<longrightarrow> te_id e = ticketId (te_record e) \<and> validTicket pu (te_record e) None)"

lemma ticket_cleanup_spec:
  assumes "heap_inv te_id te_expiresAt rows"
  obtains rows' where "ticket_cleanup now rows = Some rows'" "heap_inv te_id te_expiresAt rows'"
    "swept te_expiresAt 64 now rows rows'"
  using sweep_spec [OF assms, of 64 now] by (auto simp: ticket_cleanup_def)

text \<open>Filing an entry under an ID that holds none.\<close>

lemma ticket_file_cases:
  assumes inv: "heap_inv te_id te_expiresAt rows" and new: "contents rows (te_id e) = None"
  obtains (full) rows' where "ticket_file now e rows st = (st\<lparr>tk_rows := rows'\<rparr>, Inl TicketCapacity)"
      "heap_inv te_id te_expiresAt rows'" "swept te_expiresAt 64 now rows rows'"
  | (filed) rows' rows'' where "ticket_file now e rows st = (st\<lparr>tk_rows := rows''\<rparr>, Inr ())"
      "heap_inv te_id te_expiresAt rows''" "swept te_expiresAt 64 now rows rows'"
      "contents rows'' = (contents rows')(te_id e \<mapsto> e)" "int (hsize rows'') \<le> tk_maxEntries st"
proof -
  obtain rows' where r: "ticket_cleanup now rows = Some rows'" "heap_inv te_id te_expiresAt rows'"
      "swept te_expiresAt 64 now rows rows'"
    using ticket_cleanup_spec [OF inv] .
  show ?thesis
  proof (cases "int (hsize rows') \<ge> tk_maxEntries st")
    case True
    with r full show ?thesis by (simp add: ticket_file_def)
  next
    case False
    have "contents rows' (te_id e) = None" using sweptD(3) [OF r(3) new] .
    then obtain rows'' where "heap_insert te_id te_expiresAt e rows' = Some rows''" "heap_inv te_id te_expiresAt rows''"
        "contents rows'' = (contents rows')(te_id e \<mapsto> e)" "hsize rows'' = Suc (hsize rows')"
      using heap_insert_spec [OF r(2)] by metis
    with r False show ?thesis by (intro filed [of rows'' rows']) (simp_all add: ticket_file_def)
  qed
qed

lemma validTicket_static: "validTicket pu r (Some n) \<Longrightarrow> validTicket pu r None"
  by (auto simp: validTicket_def split: option.splits jsval.splits)

text \<open>What a creation does to the filed tickets.\<close>

definition creation_effect :: "jsval \<Rightarrow> ticket_store \<Rightarrow> ticket_store \<Rightarrow> vault_error + unit \<Rightarrow> bool" where
  "creation_effect r st st' out \<longleftrightarrow>
     tk_maxEntries st' = tk_maxEntries st \<and> heap_inv te_id te_expiresAt (tk_rows st') \<and>
     int (hsize (tk_rows st')) \<le> tk_maxEntries st \<and>
     (\<forall>k e. contents (tk_rows st') k = Some e \<longrightarrow> contents (tk_rows st) k = Some e \<or>
        out = Inr () \<and> k = ticketId r \<and> e = \<lparr>te_id = k, te_record = r\<rparr>) \<and>
     (out = Inr () \<longrightarrow> contents (tk_rows st') (ticketId r) = Some \<lparr>te_id = ticketId r, te_record = r\<rparr>)"

lemma ticket_file_effect:
  assumes inv: "heap_inv te_id te_expiresAt rows" and new: "contents rows (ticketId r) = None"
    and old: "\<And>k e. contents rows k = Some e \<Longrightarrow> contents (tk_rows st) k = Some e"
    and size: "int (hsize rows) \<le> tk_maxEntries st"
    and out: "ticket_file now \<lparr>te_id = ticketId r, te_record = r\<rparr> rows st = (st', out)"
  shows "creation_effect r st st' out"
proof -
  have n: "contents rows (te_id \<lparr>te_id = ticketId r, te_record = r\<rparr>) = None" using new by simp
  from inv n show ?thesis
  proof (cases rule: ticket_file_cases [of rows "\<lparr>te_id = ticketId r, te_record = r\<rparr>" now st])
    case (full rows')
    have "contents (tk_rows st) k = Some e" if "contents rows' k = Some e" for k e
      using sweptD(1) [OF full(3) that] old by blast
    moreover have "int (hsize rows') \<le> tk_maxEntries st" using sweptD(4) [OF full(3)] size by simp
    ultimately show ?thesis using full out by (auto simp: creation_effect_def)
  next
    case (filed rows' rows'')
    have "contents (tk_rows st) k = Some e" if "contents rows' k = Some e" for k e
      using sweptD(1) [OF filed(3) that] old by blast
    then show ?thesis using filed out by (auto simp: creation_effect_def split: if_splits)
  qed
qed

lemma ticket_create_effect:
  assumes inv: "ticket_inv pu st" and out: "ticket_create pu r clk st = (st', res)"
  shows "creation_effect r st st' res" and "res = Inr () \<Longrightarrow> \<exists>now. ticketNow clk = Inr now \<and> validTicket pu r (Some now)"
    and "res = Inl e \<Longrightarrow> e \<in> {StoreError, TypeError, StoreConflict, TicketCapacity}"
proof -
  have hi: "heap_inv te_id te_expiresAt (tk_rows st)" and size: "int (hsize (tk_rows st)) \<le> tk_maxEntries st"
    using inv by (simp_all add: ticket_inv_def)
  have refused: "creation_effect r st st (Inl e)" for e using hi size by (simp add: creation_effect_def)
  have "creation_effect r st st' res \<and> (res = Inr () \<longrightarrow> (\<exists>now. ticketNow clk = Inr now \<and> validTicket pu r (Some now))) \<and>
    (\<forall>e. res = Inl e \<longrightarrow> e \<in> {StoreError, TypeError, StoreConflict, TicketCapacity})"
  proof (cases "andthen (ticketNow clk) (\<lambda>now. andthen (assertTicket pu r (Some now)) (\<lambda>_. Inr now))")
    case (Inl e)
    then have "e \<in> {StoreError, TypeError}"
      by (auto simp: andthen_def ticketNow_def assertTicket_def guard_def split: sum.splits option.splits if_splits)
    with Inl out refused show ?thesis by (auto simp: ticket_create_def)
  next
    case (Inr now)
    then have now: "ticketNow clk = Inr now" "validTicket pu r (Some now)"
      by (auto simp: andthen_Inr assertTicket_def)
    let ?e = "\<lparr>te_id = ticketId r, te_record = r\<rparr>"
    have filing: "creation_effect r st st' res \<and> (\<forall>e. res = Inl e \<longrightarrow> e = TicketCapacity)"
      if "heap_inv te_id te_expiresAt rows" "contents rows (ticketId r) = None"
        "\<And>k e. contents rows k = Some e \<Longrightarrow> contents (tk_rows st) k = Some e" "hsize rows \<le> hsize (tk_rows st)"
        "ticket_file now ?e rows st = (st', res)" for rows
    proof -
      have "int (hsize rows) \<le> tk_maxEntries st" using that(4) size by simp
      from ticket_file_effect [OF that(1,2,3) this that(5)] have "creation_effect r st st' res" .
      moreover have "contents rows (te_id ?e) = None" using that(2) by simp
      ultimately show ?thesis using that(5) by (elim ticket_file_cases [OF that(1), of ?e now st]) auto
    qed
    show ?thesis
    proof (cases "lookup_row (tk_rows st) (ticketId r)")
      case None
      then have "contents (tk_rows st) (ticketId r) = None" by (simp add: contents_def)
      with filing [OF hi] None Inr out now show ?thesis by (auto simp: ticket_create_def)
    next
      case (Some row)
      have sh: "shared_rows te_id (tk_rows st)" using hi by (simp add: heap_inv_def)
      note row = lookup_row_at [OF sh Some]
      obtain rows where rows: "heap_remove te_id te_expiresAt (index row) (tk_rows st) = Some rows"
          "heap_inv te_id te_expiresAt rows" "contents rows = (contents (tk_rows st))(te_id (content row) := None)"
          "Suc (hsize rows) = hsize (tk_rows st)"
        using heap_remove_spec [OF hi row(2)] by metis
      show ?thesis
      proof (cases "validTicket pu (te_record (content row)) (Some now)")
        case True
        with Some Inr out refused show ?thesis by (auto simp: ticket_create_def)
      next
        case False
        have "ticket_file now ?e rows st = (st', res)"
          using False Some Inr out rows(1) by (simp add: ticket_create_def)
        moreover have "contents (tk_rows st) k = Some e" if "contents rows k = Some e" for k e
          using that rows(3) by (simp split: if_splits)
        ultimately have "creation_effect r st st' res \<and> (\<forall>e. res = Inl e \<longrightarrow> e = TicketCapacity)"
          using filing [OF rows(2)] rows(3,4) row(3) by simp
        with now show ?thesis by blast
      qed
    qed
  qed
  then show "creation_effect r st st' res"
    and "res = Inr () \<Longrightarrow> \<exists>now. ticketNow clk = Inr now \<and> validTicket pu r (Some now)"
    and "res = Inl e \<Longrightarrow> e \<in> {StoreError, TypeError, StoreConflict, TicketCapacity}" by blast+
qed

lemma ticket_create_inv:
  assumes inv: "ticket_inv pu st"
  shows "ticket_inv pu (fst (ticket_create pu r clk st))"
proof -
  obtain st' res where out: "ticket_create pu r clk st = (st', res)" by fastforce
  note e = ticket_create_effect(1,2) [OF inv out]
  have "validTicket pu r None" if "res = Inr ()" using e(2) [OF that] validTicket_static by blast
  then have "te_id x = ticketId (te_record x) \<and> validTicket pu (te_record x) None" if "contents (tk_rows st') k = Some x" for k x
    using e(1) that inv unfolding creation_effect_def ticket_inv_def by fastforce
  with e(1) inv out show ?thesis unfolding ticket_inv_def creation_effect_def by simp
qed

text \<open>A consumption: what it takes out and what it gives.\<close>

lemma ticket_consume_effect:
  assumes inv: "ticket_inv pu st" and out: "ticket_consume pu i clk st = (st', res)"
  shows "ticket_inv pu st'"
    and "ticketNow clk = Inr now \<Longrightarrow> contents (tk_rows st') (ticketId i) = None"
    and "contents (tk_rows st') k = Some e \<Longrightarrow> contents (tk_rows st) k = Some e"
    and "ticketNow clk = Inr now \<Longrightarrow> res = Inr (case contents (tk_rows st) (ticketId i) of
        Some e \<Rightarrow> if validTicket pu (te_record e) (Some now) then Some (te_record e) else None | None \<Rightarrow> None)"
proof -
  have hi: "heap_inv te_id te_expiresAt (tk_rows st)" using inv by (simp add: ticket_inv_def)
  have sh: "shared_rows te_id (tk_rows st)" using hi by (simp add: heap_inv_def)
  have "ticket_inv pu st' \<and>
    (\<forall>now. ticketNow clk = Inr now \<longrightarrow> contents (tk_rows st') (ticketId i) = None \<and>
       res = Inr (case contents (tk_rows st) (ticketId i) of
        Some e \<Rightarrow> if validTicket pu (te_record e) (Some now) then Some (te_record e) else None | None \<Rightarrow> None)) \<and>
    (\<forall>k e. contents (tk_rows st') k = Some e \<longrightarrow> contents (tk_rows st) k = Some e)"
  proof (cases "ticketNow clk")
    case (Inl e)
    with inv out show ?thesis by (auto simp: ticket_consume_def)
  next
    case (Inr now)
    let ?sel = "lookup_row (tk_rows st) (ticketId i)"
    obtain rows where rows: "(case ?sel of None \<Rightarrow> Some (tk_rows st)
          | Some row \<Rightarrow> heap_remove te_id te_expiresAt (index row) (tk_rows st)) = Some rows"
        "heap_inv te_id te_expiresAt rows" "contents rows = (contents (tk_rows st))(ticketId i := None)"
        "hsize rows \<le> hsize (tk_rows st)"
    proof (cases ?sel)
      case None
      then have "contents (tk_rows st) = (contents (tk_rows st))(ticketId i := None)" by (auto simp: contents_def)
      with None hi that show ?thesis by simp
    next
      case (Some row)
      note row = lookup_row_at [OF sh Some]
      obtain rows where "heap_remove te_id te_expiresAt (index row) (tk_rows st) = Some rows" "heap_inv te_id te_expiresAt rows"
          "contents rows = (contents (tk_rows st))(te_id (content row) := None)" "Suc (hsize rows) = hsize (tk_rows st)"
        by (rule heap_remove_spec [OF hi row(2)])
      with Some row(3) show ?thesis by (intro that) auto
    qed
    obtain rows' where r: "ticket_cleanup now rows = Some rows'" "heap_inv te_id te_expiresAt rows'"
        "swept te_expiresAt 64 now rows rows'"
      using ticket_cleanup_spec [OF rows(2)] .
    have st': "st' = st\<lparr>tk_rows := rows'\<rparr>" using out Inr rows(1) r(1) by (simp add: ticket_consume_def Let_def)
    have old: "contents (tk_rows st) k = Some e \<and> k \<noteq> ticketId i" if "contents rows' k = Some e" for k e
      using sweptD(1) [OF r(3) that] rows(3) by (auto split: if_splits)
    have "hsize rows' \<le> hsize (tk_rows st)" using sweptD(4) [OF r(3)] rows(4) by simp
    then have "ticket_inv pu st'" using inv r(2) old unfolding ticket_inv_def st' by auto
    moreover have "contents rows' (ticketId i) = None" using old by (metis not_Some_eq)
    moreover have "ticketId (te_record (content row)) = ticketId i" if "?sel = Some row" for row
    proof -
      have "contents (tk_rows st) (ticketId i) = Some (content row)" using that by (simp add: contents_def)
      with inv lookup_row_at(3) [OF sh that] show ?thesis unfolding ticket_inv_def by metis
    qed
    ultimately show ?thesis
      using out Inr rows(1) r(1) old st'
      by (auto simp: ticket_consume_def Let_def contents_def split: option.splits)
  qed
  then show "ticket_inv pu st'"
    and "ticketNow clk = Inr now \<Longrightarrow> contents (tk_rows st') (ticketId i) = None"
    and "contents (tk_rows st') k = Some e \<Longrightarrow> contents (tk_rows st) k = Some e"
    and "ticketNow clk = Inr now \<Longrightarrow> res = Inr (case contents (tk_rows st) (ticketId i) of
        Some e \<Rightarrow> if validTicket pu (te_record e) (Some now) then Some (te_record e) else None | None \<Rightarrow> None)"
    by blast+
qed

section \<open>Calls\<close>

datatype ticket_call = CreateTicket jsval jsval | ConsumeTicket jsval jsval

text \<open>A call with its input and clock reading; a creation answers nothing.\<close>

fun ticket_step :: "url_parser \<Rightarrow> ticket_call \<Rightarrow> ticket_store \<Rightarrow> ticket_store \<times> (vault_error + jsval option)" where
  "ticket_step pu (CreateTicket i clk) st = apsnd (map_sum id (\<lambda>_. None)) (createLogoutNavigationTicket pu i clk st)"
| "ticket_step pu (ConsumeTicket i clk) st = consumeLogoutNavigationTicket pu i clk st"

fun created_ticket :: "ticket_call \<Rightarrow> string option" where
  "created_ticket (CreateTicket i _) = Some (ticketId i)"
| "created_ticket _ = None"

fun consumed_ticket :: "ticket_call \<Rightarrow> string option" where
  "consumed_ticket (ConsumeTicket i _) = Some (ticketId i)"
| "consumed_ticket _ = None"

definition ticket_given :: "vault_error + jsval option \<Rightarrow> bool" where
  "ticket_given out \<longleftrightarrow> (case out of Inr (Some _) \<Rightarrow> True | _ \<Rightarrow> False)"

lemma ticketId_capture [simp]: "ticketId (captureTicket i) = ticketId i" "ticketId (captureTicketIdentity i) = ticketId i"
  by (simp_all add: ticketId_def captureTicket_def captureTicketIdentity_def)

lemma ticket_consume_given:
  assumes inv: "ticket_inv pu st" and out: "snd (consumeLogoutNavigationTicket pu i clk st) = Inr (Some r)"
  shows "\<exists>now. ticketNow clk = Inr now \<and> contents (tk_rows st) (ticketId i) = Some \<lparr>te_id = ticketId i, te_record = r\<rparr> \<and>
    validTicket pu r (Some now) \<and> contents (tk_rows (fst (consumeLogoutNavigationTicket pu i clk st))) (ticketId i) = None"
proof -
  let ?i = "captureTicketIdentity i"
  obtain st' where c: "ticket_consume pu ?i clk st = (st', Inr (Some r))" "consumeLogoutNavigationTicket pu i clk st = ticket_consume pu ?i clk st"
    using out by (cases "ticket_consume pu ?i clk st") (auto simp: consumeLogoutNavigationTicket_def split: if_splits)
  obtain now where now: "ticketNow clk = Inr now" using c(1) by (cases "ticketNow clk") (simp_all add: ticket_consume_def)
  note e = ticket_consume_effect(2,4) [OF inv c(1) now]
  have "\<exists>x. contents (tk_rows st) (ticketId i) = Some x \<and> validTicket pu (te_record x) (Some now) \<and> te_record x = r"
  proof (cases "contents (tk_rows st) (ticketId i)")
    case None
    from e(2) [unfolded ticketId_capture None option.case] show ?thesis by simp
  next
    case (Some x)
    from e(2) [unfolded ticketId_capture Some option.case] show ?thesis using Some by (simp split: if_splits)
  qed
  then obtain x where x: "contents (tk_rows st) (ticketId i) = Some x" "validTicket pu r (Some now)" "te_record x = r"
    by blast
  have "shared_rows te_id (tk_rows st)" using inv by (simp add: ticket_inv_def heap_inv_def)
  from contents_key [OF this x(1)] have "x = \<lparr>te_id = ticketId i, te_record = r\<rparr>" using x(3) by (cases x) simp
  with x now e(1) c show ?thesis by simp
qed

lemma ticket_step_inv: "ticket_inv pu st \<Longrightarrow> ticket_inv pu (fst (ticket_step pu c st))"
  using ticket_consume_effect(1) [OF _ prod.collapse [symmetric]]
  by (cases c) (auto simp: createLogoutNavigationTicket_def consumeLogoutNavigationTicket_def ticket_create_inv)

lemma ticket_stays_out:
  assumes inv: "ticket_inv pu st" and out: "contents (tk_rows st) k = None" and c: "created_ticket c \<noteq> Some k"
  shows "contents (tk_rows (fst (ticket_step pu c st))) k = None"
proof (cases c)
  case (CreateTicket i clk)
  have "creation_effect (captureTicket i) st (fst (ticket_create pu (captureTicket i) clk st)) (snd (ticket_create pu (captureTicket i) clk st))"
    by (rule ticket_create_effect(1) [OF inv]) simp
  with out c show ?thesis
    unfolding creation_effect_def by (simp add: CreateTicket createLogoutNavigationTicket_def) (metis not_Some_eq option.distinct(1))
next
  case (ConsumeTicket i clk)
  have "contents (tk_rows (fst (ticket_consume pu (captureTicketIdentity i) clk st))) k = None"
  proof (rule ccontr)
    assume "\<not> ?thesis"
    then obtain e where "contents (tk_rows (fst (ticket_consume pu (captureTicketIdentity i) clk st))) k = Some e" by blast
    from ticket_consume_effect(3) [OF inv prod.collapse [symmetric] this] out show False by simp
  qed
  with ConsumeTicket out show ?thesis by (simp add: consumeLogoutNavigationTicket_def)
qed

lemma consumed_ticket_D: "consumed_ticket c = Some k \<Longrightarrow> \<exists>i clk. c = ConsumeTicket i clk \<and> k = ticketId i"
  by (cases c) auto

lemma ticket_given_D: "ticket_given out \<Longrightarrow> \<exists>r. out = Inr (Some r)"
  by (auto simp: ticket_given_def split: sum.splits option.splits)

lemma given_parts:
  assumes "ticket_inv pu st" "consumed_ticket c = Some k" "ticket_given (snd (ticket_step pu c st))"
  shows "contents (tk_rows st) k \<noteq> None \<and> contents (tk_rows (fst (ticket_step pu c st))) k = None"
proof -
  obtain i clk where c: "c = ConsumeTicket i clk" "k = ticketId i" using consumed_ticket_D [OF assms(2)] by blast
  obtain r where "snd (consumeLogoutNavigationTicket pu i clk st) = Inr (Some r)"
    using ticket_given_D [OF assms(3)] c by auto
  from ticket_consume_given [OF assms(1) this] c show ?thesis by auto
qed

interpretation tickets: one_time "ticket_step pu" "ticket_inv pu" created_ticket consumed_ticket ticket_given
    "\<lambda>st k. contents (tk_rows st) k \<noteq> None" for pu
proof
  fix st c k
  show "ticket_inv pu st \<Longrightarrow> ticket_inv pu (fst (ticket_step pu c st))" by (rule ticket_step_inv)
  show "contents (tk_rows st) k \<noteq> None"
    if "ticket_inv pu st" "consumed_ticket c = Some k" "ticket_given (snd (ticket_step pu c st))"
    using given_parts [OF that] by simp
  show "\<not> contents (tk_rows (fst (ticket_step pu c st))) k \<noteq> None"
    if "ticket_inv pu st" "consumed_ticket c = Some k" "ticket_given (snd (ticket_step pu c st))"
    using given_parts [OF that] by simp
  show "\<not> contents (tk_rows (fst (ticket_step pu c st))) k \<noteq> None"
    if "ticket_inv pu st" "\<not> contents (tk_rows st) k \<noteq> None" "created_ticket c \<noteq> Some k"
    using ticket_stays_out [OF that(1) _ that(3)] that(2) by simp
qed

lemma createTicketStore_inv: "createTicketStore opts = Inr st \<Longrightarrow> ticket_inv pu st"
  by (auto simp: createTicketStore_def ticketLimit_def andthen_Inr ticket_inv_def split: option.splits if_splits)
     (auto simp: empty_hstore_def)

text \<open>C18: A logout navigation ticket is handed out at most once per creation: in any run from a fresh
  store, between two consumptions that are given the ticket of the same ID it was created again.\<close>

theorem ticket_consumed_once:
  assumes "createTicketStore opts = Inr st" "i < j" "j < length cs"
    and "consumed_ticket (cs ! i) = Some k" "consumed_ticket (cs ! j) = Some k"
    and "ticket_given (snd (run_calls (ticket_step pu) cs st) ! i)" "ticket_given (snd (run_calls (ticket_step pu) cs st) ! j)"
  shows "\<exists>m. i < m \<and> m < j \<and> created_ticket (cs ! m) = Some k"
  by (rule tickets.consumed_once [OF createTicketStore_inv [OF assms(1)] assms(2-7)])

lemma given_back:
  assumes inv: "ticket_inv pu st" and cr: "createLogoutNavigationTicket pu input clk st = (st', Inr ())"
    and now: "ticketNow clk' = Inr now" and ok: "validTicket pu (captureTicket input) (Some now)"
  shows "snd (consumeLogoutNavigationTicket pu input clk' st') = Inr (Some (captureTicket input))"
proof -
  have st': "ticket_create pu (captureTicket input) clk st = (st', Inr ())"
    using cr by (simp add: createLogoutNavigationTicket_def)
  have c: "contents (tk_rows st') (ticketId input) = Some \<lparr>te_id = ticketId input, te_record = captureTicket input\<rparr>"
    using ticket_create_effect(1) [OF inv st'] by (simp add: creation_effect_def)
  have inv': "ticket_inv pu st'" using ticket_create_inv [OF inv, of "captureTicket input" clk] st' by simp
  have "validTicketIdentity (captureTicketIdentity input)"
    using ok by (simp add: validTicket_def validTicketIdentity_def captureTicket_def captureTicketIdentity_def)
  moreover obtain st2 out where co: "ticket_consume pu (captureTicketIdentity input) clk' st' = (st2, out)" by (meson surj_pair)
  have "out = Inr (Some (captureTicket input))"
    using ticket_consume_effect(4) [OF inv' co now] c ok by simp
  ultimately show ?thesis by (simp add: consumeLogoutNavigationTicket_def co)
qed

text \<open>A ticket that was created is given back as it was, for as long as it is valid: its first
  consumption, at a time when the ticket is not expired and not too far from expiry, answers the five
  captured fields.\<close>

lemma created_ticket_given_back:
  assumes inv: "ticket_inv pu st" and cr: "createLogoutNavigationTicket pu input clk st = (st', Inr ())"
    and now: "ticketNow clk' = Inr now" and ok: "validTicket pu (captureTicket input) (Some now)"
  shows "snd (consumeLogoutNavigationTicket pu input clk' st') = Inr (Some (captureTicket input))"
  using assms by (rule given_back)

section \<open>A small ticket store\<close>

definition demo_hash :: string where
  "demo_hash = replicate 43 CHR ''A''"

definition demo_url :: url_parser where
  "demo_url u = Some \<lparr>pu_protocol = ''https:'', pu_username = [], pu_password = [], pu_hash = [], pu_href = u\<rparr>"

definition demo_ticket :: "int \<Rightarrow> jsval" where
  "demo_ticket t = JObj [(''namespace'', JStr (TICKET_PREFIX @ demo_hash)), (''ticketHash'', JStr demo_hash),
     (''upstreamLogoutUrl'', JStr ''https://op.example/logout''), (''createdAt'', jint t), (''expiresAt'', jint (t + 60000))]"

definition demo_tickets :: ticket_store where
  "demo_tickets = \<lparr>tk_rows = empty_hstore, tk_maxEntries = 2\<rparr>"

lemma demo_tickets_created: "createTicketStore (JObj [(''logoutNavigationMaxEntries'', jint 2)]) = Inr demo_tickets"
  by (simp add: createTicketStore_def ticketLimit_def demo_tickets_def is_safe_def MAX_SAFE_INTEGER_def)

definition demo_ticket_calls :: "ticket_call list" where
  "demo_ticket_calls = [CreateTicket (demo_ticket 1000) (jint 1000), ConsumeTicket (demo_ticket 1000) (jint 2000),
     CreateTicket (demo_ticket 4000) (jint 4000), ConsumeTicket (demo_ticket 4000) (jint 5000)]"

lemma demo_ticket_outcomes:
  "map (\<lambda>out. (case out of Inl _ \<Rightarrow> False | Inr _ \<Rightarrow> True, ticket_given out)) (snd (run_calls (ticket_step demo_url) (take 3 demo_ticket_calls) demo_tickets)) =
     [(True, False), (True, True), (True, False)]"
  by code_simp

lemma demo_tickets_inv: "ticket_inv demo_url demo_tickets"
  by (rule createTicketStore_inv [OF demo_tickets_created])

lemma demo_ticket_valid: "ticketNow (jint 5000) = Inr 5000" "validTicket demo_url (captureTicket (demo_ticket 4000)) (Some 5000)"
  by code_simp+

lemma demo_second_given: "ticket_given (snd (run_calls (ticket_step demo_url) demo_ticket_calls demo_tickets) ! 3)"
proof -
  define st where "st = fst (run_calls (ticket_step demo_url) (take 2 demo_ticket_calls) demo_tickets)"
  have inv: "ticket_inv demo_url st"
    unfolding st_def by (rule run_calls_invariant [where ok = "ticket_inv demo_url"]) (rule demo_tickets_inv, rule ticket_step_inv)
  have "case snd (ticket_step demo_url (CreateTicket (demo_ticket 4000) (jint 4000)) st) of Inl _ \<Rightarrow> False | Inr _ \<Rightarrow> True"
    using demo_ticket_outcomes by (simp add: demo_ticket_calls_def st_def)
  then have "createLogoutNavigationTicket demo_url (demo_ticket 4000) (jint 4000) st =
      (fst (createLogoutNavigationTicket demo_url (demo_ticket 4000) (jint 4000) st), Inr ())"
    by (cases "createLogoutNavigationTicket demo_url (demo_ticket 4000) (jint 4000) st"; cases "snd (createLogoutNavigationTicket demo_url (demo_ticket 4000) (jint 4000) st)") simp_all
  from given_back [OF inv this demo_ticket_valid] show ?thesis
    by (simp add: demo_ticket_calls_def st_def ticket_given_def)
qed

theorem ticket_consumed_once_witness:
  "\<exists>m. 1 < m \<and> m < 3 \<and> created_ticket (demo_ticket_calls ! m) = Some (ticketId (demo_ticket 1000))"
proof -
  have n: "length demo_ticket_calls = 4" by (simp add: demo_ticket_calls_def)
  have g: "ticket_given (snd (run_calls (ticket_step demo_url) demo_ticket_calls demo_tickets) ! 1)"
    "ticket_given (snd (run_calls (ticket_step demo_url) demo_ticket_calls demo_tickets) ! 3)"
    using demo_ticket_outcomes demo_second_given by (simp_all add: demo_ticket_calls_def)
  have "consumed_ticket (demo_ticket_calls ! 1) = Some (ticketId (demo_ticket 1000))"
    "consumed_ticket (demo_ticket_calls ! 3) = Some (ticketId (demo_ticket 1000))"
    by (simp_all add: demo_ticket_calls_def demo_ticket_def ticketId_def)
  moreover have "(1 :: nat) < 3" "3 < length demo_ticket_calls" using n by simp_all
  ultimately show ?thesis using g by (intro ticket_consumed_once [OF demo_tickets_created])
qed

lemma created_ticket_given_back_witness:
  "snd (consumeLogoutNavigationTicket demo_url (demo_ticket 1000) (jint 2000)
      (fst (createLogoutNavigationTicket demo_url (demo_ticket 1000) (jint 1000) demo_tickets))) =
    Inr (Some (captureTicket (demo_ticket 1000)))"
proof (rule created_ticket_given_back)
  show "ticket_inv demo_url demo_tickets" by (rule demo_tickets_inv)
  have "snd (createLogoutNavigationTicket demo_url (demo_ticket 1000) (jint 1000) demo_tickets) = Inr ()" by code_simp
  then show "createLogoutNavigationTicket demo_url (demo_ticket 1000) (jint 1000) demo_tickets =
      (fst (createLogoutNavigationTicket demo_url (demo_ticket 1000) (jint 1000) demo_tickets), Inr ())"
    by (metis prod.collapse)
  show "ticketNow (jint 2000) = Inr 2000" by code_simp
  show "validTicket demo_url (captureTicket (demo_ticket 1000)) (Some 2000)" by code_simp
qed

end
