(* ===== verification/AccessComplexity.thy ===== *)
theory AccessComplexity
  imports Prelude
begin

text \<open>
  The request complexity limits, request-complexity.ts of packages/access-router. The walk over a request
  body is the code's, with its counters as explicit state; the message texts are constructors that carry
  the number or the key of the message.
\<close>

section \<open>Limits\<close>

record complexity_limits =
  maxDepth :: int
  maxNodes :: int
  maxLogicalClauses :: int
  maxInValues :: int
  maxBulkItems :: int
  maxIncludeCount :: int
  maxSubQueryCount :: int
  maxBulkConcurrency :: int
  maxHookConcurrency :: int
  maxCorrelatedQueries :: int
  maxCorrelatedDepth :: int

definition defaultRequestComplexity :: complexity_limits where
  "defaultRequestComplexity = \<lparr>maxDepth = 8, maxNodes = 500, maxLogicalClauses = 50, maxInValues = 100,
     maxBulkItems = 100, maxIncludeCount = 10, maxSubQueryCount = 10, maxBulkConcurrency = 10,
     maxHookConcurrency = 10, maxCorrelatedQueries = 100, maxCorrelatedDepth = 5\<rparr>"

definition normalizePositiveInteger :: "jsval \<Rightarrow> int \<Rightarrow> int" where
  "normalizePositiveInteger v fallback = (case as_safe v of Some n \<Rightarrow> if n > 0 then n else fallback | None \<Rightarrow> fallback)"

definition resolveRequestComplexity :: "jsval \<Rightarrow> complexity_limits" where
  "resolveRequestComplexity options =
     (let pick = (\<lambda>k d. normalizePositiveInteger (jprop options k) d); df = defaultRequestComplexity
      in \<lparr>maxDepth = pick ''maxDepth'' (maxDepth df), maxNodes = pick ''maxNodes'' (maxNodes df),
          maxLogicalClauses = pick ''maxLogicalClauses'' (maxLogicalClauses df),
          maxInValues = pick ''maxInValues'' (maxInValues df), maxBulkItems = pick ''maxBulkItems'' (maxBulkItems df),
          maxIncludeCount = pick ''maxIncludeCount'' (maxIncludeCount df),
          maxSubQueryCount = pick ''maxSubQueryCount'' (maxSubQueryCount df),
          maxBulkConcurrency = pick ''maxBulkConcurrency'' (maxBulkConcurrency df),
          maxHookConcurrency = pick ''maxHookConcurrency'' (maxHookConcurrency df),
          maxCorrelatedQueries = pick ''maxCorrelatedQueries'' (maxCorrelatedQueries df),
          maxCorrelatedDepth = pick ''maxCorrelatedDepth'' (maxCorrelatedDepth df)\<rparr>)"

section \<open>The walk\<close>

datatype complexity_scope = RequestScope | FilterScope

datatype complexity_detail =
    NodeBudget int
  | DepthLimit int
  | LogicalBudget int
  | InLimit int
  | UnsupportedKey string
  | IncludeLimit int
  | SubQueryLimit int

datatype path_part = Key string | Index nat

fun part_text :: "path_part \<Rightarrow> string" where
  "part_text (Key k) = k"
| "part_text (Index i) = digits i"

definition pointer :: "path_part list \<Rightarrow> string" where
  "pointer path = (if path = [] then ''#'' else ''#/'' @ join_with CHR ''/'' (map part_text path))"

record complexity_error =
  ce_detail :: complexity_detail
  ce_pointer :: string

record visit_state =
  vs_errors :: "complexity_error list"
  vs_nodes :: int
  vs_logicalClauses :: int
  vs_includeCount :: int
  vs_subQueryCount :: int

definition pushError :: "complexity_detail \<Rightarrow> path_part list \<Rightarrow> visit_state \<Rightarrow> visit_state" where
  "pushError d path s =
     (if vs_errors s = [] then s\<lparr>vs_errors := [\<lparr>ce_detail = d, ce_pointer = pointer path\<rparr>]\<rparr> else s)"

definition logical_key :: "string option \<Rightarrow> bool" where
  "logical_key pk \<longleftrightarrow> pk = Some ''$and'' \<or> pk = Some ''$or'' \<or> pk = Some ''$nor''"

definition dangerous_key :: "string \<Rightarrow> bool" where
  "dangerous_key k \<longleftrightarrow> k = ''__proto__'' \<or> k = ''prototype'' \<or> k = ''constructor''"

definition include_size :: "jsval \<Rightarrow> int" where
  "include_size child = (case child of JArr xs \<Rightarrow> int (length xs) | _ \<Rightarrow> 1)"

text \<open>
  The checks before a node is entered, before the elements of an array and before the value of an entry:
  the state with the counters raised, or the state that ends the walk.
\<close>

definition enter_node :: "complexity_limits \<Rightarrow> path_part list \<Rightarrow> int \<Rightarrow> visit_state \<Rightarrow> visit_state" where
  "enter_node l path depth s =
     (let s = s\<lparr>vs_nodes := vs_nodes s + 1\<rparr>
      in if vs_nodes s > maxNodes l then pushError (NodeBudget (maxNodes l)) path s
         else if depth > maxDepth l then pushError (DepthLimit (maxDepth l)) path s
         else s)"

definition enter_array :: "complexity_limits \<Rightarrow> jsval list \<Rightarrow> path_part list \<Rightarrow> string option \<Rightarrow> visit_state \<Rightarrow> visit_state" where
  "enter_array l xs path parentKey s =
     (let s = (if logical_key parentKey then s\<lparr>vs_logicalClauses := vs_logicalClauses s + int (length xs)\<rparr> else s)
      in if logical_key parentKey \<and> vs_logicalClauses s > maxLogicalClauses l
         then pushError (LogicalBudget (maxLogicalClauses l)) path s
         else if parentKey = Some ''$in'' \<and> int (length xs) > maxInValues l
         then pushError (InLimit (maxInValues l)) path s
         else s)"

definition enter_entry :: "complexity_limits \<Rightarrow> complexity_scope \<Rightarrow> string \<Rightarrow> jsval \<Rightarrow> path_part list \<Rightarrow> visit_state \<Rightarrow> visit_state" where
  "enter_entry l sc key child path s =
     (if dangerous_key key then pushError (UnsupportedKey key) (path @ [Key key]) s
      else
        (let counted = sc = RequestScope \<and> key = ''include'';
             s = (if counted then s\<lparr>vs_includeCount := vs_includeCount s + include_size child\<rparr> else s)
         in if counted \<and> vs_includeCount s > maxIncludeCount l
            then pushError (IncludeLimit (maxIncludeCount l)) (path @ [Key key]) s
            else
              (let sub = key = ''$$sq'';
                   s = (if sub then s\<lparr>vs_subQueryCount := vs_subQueryCount s + 1\<rparr> else s)
               in if sub \<and> vs_subQueryCount s > maxSubQueryCount l
                  then pushError (SubQueryLimit (maxSubQueryCount l)) (path @ [Key key]) s
                  else s)))"

function (sequential) visit :: "complexity_limits \<Rightarrow> complexity_scope \<Rightarrow> jsval \<Rightarrow> path_part list \<Rightarrow> int \<Rightarrow> string option \<Rightarrow>
    visit_state \<Rightarrow> visit_state"
  and visit_items :: "complexity_limits \<Rightarrow> complexity_scope \<Rightarrow> jsval list \<Rightarrow> nat \<Rightarrow> path_part list \<Rightarrow> int \<Rightarrow>
    string option \<Rightarrow> visit_state \<Rightarrow> visit_state"
  and visit_entries :: "complexity_limits \<Rightarrow> complexity_scope \<Rightarrow> (string \<times> jsval) list \<Rightarrow> path_part list \<Rightarrow> int \<Rightarrow>
    visit_state \<Rightarrow> visit_state" where
  "visit l sc v path depth parentKey s =
     (if vs_errors s \<noteq> [] then s
      else
        (let s = enter_node l path depth s
         in if vs_errors s \<noteq> [] then s
            else
              (case v of
                 JArr xs \<Rightarrow>
                   (let s = enter_array l xs path parentKey s
                    in if vs_errors s \<noteq> [] then s else visit_items l sc xs 0 path depth parentKey s)
               | JObj ps \<Rightarrow> visit_entries l sc ps path depth s
               | _ \<Rightarrow> s)))"
| "visit_items l sc [] i path depth parentKey s = s"
| "visit_items l sc (x # xs) i path depth parentKey s =
     (let s = visit l sc x (path @ [Index i]) (depth + 1) parentKey s
      in if vs_errors s \<noteq> [] then s else visit_items l sc xs (Suc i) path depth parentKey s)"
| "visit_entries l sc [] path depth s = s"
| "visit_entries l sc ((key, child) # rest) path depth s =
     (let s = enter_entry l sc key child path s
      in if vs_errors s \<noteq> [] then s
         else
           (let s = visit l sc child (path @ [Key key]) (depth + 1) (Some key) s
            in if vs_errors s \<noteq> [] then s else visit_entries l sc rest path depth s))"
  by pat_completeness auto

termination
  by (relation "measure (case_sum (\<lambda>(l, sc, v, _). size v) (case_sum (\<lambda>(l, sc, xs, _). size_list size xs)
        (\<lambda>(l, sc, ps, _). size_list (size_prod (\<lambda>_. 0) size) ps)))") simp_all

definition initial_visit :: visit_state where
  "initial_visit = \<lparr>vs_errors = [], vs_nodes = 0, vs_logicalClauses = 0, vs_includeCount = 0, vs_subQueryCount = 0\<rparr>"

definition validateRequestComplexity :: "jsval \<Rightarrow> jsval \<Rightarrow> complexity_scope \<Rightarrow> complexity_error list" where
  "validateRequestComplexity v options sc =
     vs_errors (visit (resolveRequestComplexity options) sc v [] 0 None initial_visit)"

section \<open>What the walk measures\<close>

fun nodes :: "jsval \<Rightarrow> int" where
  "nodes (JArr xs) = 1 + sum_list (map nodes xs)"
| "nodes (JObj ps) = 1 + sum_list (map (\<lambda>p. nodes (snd p)) ps)"
| "nodes _ = 1"

text \<open>No node deeper than \<open>n\<close> levels below the root.\<close>

fun within_depth :: "int \<Rightarrow> jsval \<Rightarrow> bool" where
  "within_depth n (JArr xs) = (0 \<le> n \<and> list_all (within_depth (n - 1)) xs)"
| "within_depth n (JObj ps) = (0 \<le> n \<and> list_all (\<lambda>p. within_depth (n - 1) (snd p)) ps)"
| "within_depth n _ = (0 \<le> n)"

fun logical_clauses :: "string option \<Rightarrow> jsval \<Rightarrow> int" where
  "logical_clauses pk (JArr xs) =
     (if logical_key pk then int (length xs) else 0) + sum_list (map (logical_clauses pk) xs)"
| "logical_clauses pk (JObj ps) = sum_list (map (\<lambda>p. logical_clauses (Some (fst p)) (snd p)) ps)"
| "logical_clauses pk _ = 0"

fun in_bounded :: "int \<Rightarrow> string option \<Rightarrow> jsval \<Rightarrow> bool" where
  "in_bounded n pk (JArr xs) = ((pk = Some ''$in'' \<longrightarrow> int (length xs) \<le> n) \<and> list_all (in_bounded n pk) xs)"
| "in_bounded n pk (JObj ps) = list_all (\<lambda>p. in_bounded n (Some (fst p)) (snd p)) ps"
| "in_bounded n pk _ = True"

fun keys_safe :: "jsval \<Rightarrow> bool" where
  "keys_safe (JArr xs) = list_all keys_safe xs"
| "keys_safe (JObj ps) = list_all (\<lambda>p. \<not> dangerous_key (fst p) \<and> keys_safe (snd p)) ps"
| "keys_safe _ = True"

fun include_count :: "complexity_scope \<Rightarrow> jsval \<Rightarrow> int" where
  "include_count sc (JArr xs) = sum_list (map (include_count sc) xs)"
| "include_count sc (JObj ps) = sum_list (map (\<lambda>p.
     (if sc = RequestScope \<and> fst p = ''include'' then include_size (snd p) else 0) + include_count sc (snd p)) ps)"
| "include_count sc _ = 0"

fun subqueries :: "jsval \<Rightarrow> int" where
  "subqueries (JArr xs) = sum_list (map subqueries xs)"
| "subqueries (JObj ps) = sum_list (map (\<lambda>p. (if fst p = ''$$sq'' then 1 else 0) + subqueries (snd p)) ps)"
| "subqueries _ = 0"

section \<open>The walk computes the measures\<close>

definition fits :: "complexity_limits \<Rightarrow> int \<Rightarrow> int \<Rightarrow> int \<Rightarrow> int \<Rightarrow> visit_state \<Rightarrow> bool" where
  "fits l n lg inc sub s \<longleftrightarrow> vs_nodes s + n \<le> maxNodes l \<and> vs_logicalClauses s + lg \<le> maxLogicalClauses l \<and>
     vs_includeCount s + inc \<le> maxIncludeCount l \<and> vs_subQueryCount s + sub \<le> maxSubQueryCount l"

definition bump :: "int \<Rightarrow> int \<Rightarrow> int \<Rightarrow> int \<Rightarrow> visit_state \<Rightarrow> visit_state" where
  "bump n lg inc sub s = s\<lparr>vs_nodes := vs_nodes s + n, vs_logicalClauses := vs_logicalClauses s + lg,
     vs_includeCount := vs_includeCount s + inc, vs_subQueryCount := vs_subQueryCount s + sub\<rparr>"

lemma bump_simps [simp]:
  "vs_errors (bump n lg inc sub s) = vs_errors s" "bump 0 0 0 0 s = s"
  "bump a b c d (bump n lg inc sub s) = bump (n + a) (lg + b) (inc + c) (sub + d) s"
  by (simp_all add: bump_def ac_simps)

lemma fits_bump [simp]: "fits l a b c d (bump n lg inc sub s) \<longleftrightarrow> fits l (n + a) (lg + b) (inc + c) (sub + d) s"
  by (auto simp: fits_def bump_def ac_simps)

lemma fits_less: "fits l (n + a) (lg + b) (inc + c) (sub + d) s \<Longrightarrow> 0 \<le> a \<Longrightarrow> 0 \<le> b \<Longrightarrow> 0 \<le> c \<Longrightarrow> 0 \<le> d \<Longrightarrow> fits l n lg inc sub s"
  by (simp add: fits_def)

lemma include_size_nonneg [simp]: "0 \<le> include_size v"
  by (simp add: include_size_def split: jsval.split)

lemma nodes_nonneg: "0 \<le> nodes v"
  by (induction v rule: nodes.induct) (auto intro!: sum_list_nonneg add_nonneg_nonneg)

lemma logical_nonneg: "0 \<le> logical_clauses pk v"
  by (induction pk v rule: logical_clauses.induct) (auto intro!: sum_list_nonneg add_nonneg_nonneg)

lemma include_nonneg: "0 \<le> include_count sc v"
  by (induction sc v rule: include_count.induct) (auto intro!: sum_list_nonneg add_nonneg_nonneg)

lemma subqueries_nonneg: "0 \<le> subqueries v"
  by (induction v rule: subqueries.induct) (auto intro!: sum_list_nonneg add_nonneg_nonneg)

lemmas measures_nonneg = nodes_nonneg logical_nonneg include_nonneg subqueries_nonneg

abbreviation total :: "('a \<Rightarrow> int) \<Rightarrow> 'a list \<Rightarrow> int" where
  "total f xs \<equiv> sum_list (map f xs)"

lemma total_nonneg: "0 \<le> total nodes vs" "0 \<le> total (logical_clauses pk) vs" "0 \<le> total (include_count sc) vs" "0 \<le> total subqueries vs"
  "0 \<le> total (\<lambda>p. nodes (snd p)) ps" "0 \<le> total (\<lambda>p. logical_clauses (Some (fst p)) (snd p)) ps"
  "0 \<le> total (\<lambda>p. (if sc = RequestScope \<and> fst p = ''include'' then include_size (snd p) else 0) + include_count sc (snd p)) ps"
  "0 \<le> total (\<lambda>p. (if fst p = ''$$sq'' then 1 else 0) + subqueries (snd p)) ps"
  by (auto intro!: sum_list_nonneg add_nonneg_nonneg simp: measures_nonneg)

text \<open>
  The outcome of a part of the walk: the state with the part's counts, when they fit and nothing else is
  wrong with it, and an error otherwise.
\<close>

definition outcome :: "complexity_limits \<Rightarrow> int \<Rightarrow> int \<Rightarrow> int \<Rightarrow> int \<Rightarrow> bool \<Rightarrow> visit_state \<Rightarrow> visit_state \<Rightarrow> bool" where
  "outcome l n lg inc sub good s r \<longleftrightarrow>
     (if fits l n lg inc sub s \<and> good then r = bump n lg inc sub s else vs_errors r \<noteq> [])"

lemma pushError_errors [simp]: "vs_errors (pushError d path s) \<noteq> []"
  by (simp add: pushError_def)

lemma enter_node_outcome:
  "vs_errors s = [] \<Longrightarrow> fits l 0 0 0 0 s \<Longrightarrow> outcome l 1 0 0 0 (depth \<le> maxDepth l) s (enter_node l path depth s)"
  by (auto simp: outcome_def enter_node_def fits_def bump_def Let_def)

lemma enter_array_outcome:
  "vs_errors s = [] \<Longrightarrow> fits l 0 0 0 0 s \<Longrightarrow>
     outcome l 0 (if logical_key pk then int (length xs) else 0) 0 0
       (pk = Some ''$in'' \<longrightarrow> int (length xs) \<le> maxInValues l) s (enter_array l xs path pk s)"
  by (auto simp: outcome_def enter_array_def fits_def bump_def Let_def)

lemma enter_entry_outcome:
  "vs_errors s = [] \<Longrightarrow> fits l 0 0 0 0 s \<Longrightarrow>
     outcome l 0 0 (if sc = RequestScope \<and> key = ''include'' then include_size child else 0) (if key = ''$$sq'' then 1 else 0)
       (\<not> dangerous_key key) s (enter_entry l sc key child path s)"
  by (auto simp: outcome_def enter_entry_def fits_def bump_def Let_def)

text \<open>Two parts of the walk, one after the other.\<close>

lemma outcome_then:
  assumes one: "outcome l n lg inc sub good s r" and ok: "vs_errors s = []"
    and two: "vs_errors r = [] \<Longrightarrow> fits l 0 0 0 0 r \<Longrightarrow> outcome l a b c d good' r q"
    and nonneg: "0 \<le> a" "0 \<le> b" "0 \<le> c" "0 \<le> d"
  shows "outcome l (n + a) (lg + b) (inc + c) (sub + d) (good \<and> good') s (if vs_errors r \<noteq> [] then r else q)"
proof (cases "fits l n lg inc sub s \<and> good")
  case True
  then have r: "r = bump n lg inc sub s" "vs_errors r = []" using one ok by (simp_all add: outcome_def)
  with True have "fits l 0 0 0 0 r" by simp
  from two [OF r(2) this] True r show ?thesis by (simp add: outcome_def)
next
  case False
  then have "vs_errors r \<noteq> []" using one by (simp add: outcome_def)
  with False fits_less [OF _ nonneg] show ?thesis by (auto simp: outcome_def)
qed

lemma outcome_eq:
  "outcome l n lg inc sub good s r \<Longrightarrow> n = n' \<Longrightarrow> lg = lg' \<Longrightarrow> inc = inc' \<Longrightarrow> sub = sub' \<Longrightarrow> good = good' \<Longrightarrow> r = r' \<Longrightarrow>
     outcome l n' lg' inc' sub' good' s r'"
  by simp

lemma visit_outcome:
  "vs_errors s = [] \<Longrightarrow> fits l 0 0 0 0 s \<Longrightarrow>
     outcome l (nodes v) (logical_clauses pk v) (include_count sc v) (subqueries v)
       (within_depth (maxDepth l - depth) v \<and> in_bounded (maxInValues l) pk v \<and> keys_safe v) s (visit l sc v path depth pk s)"
  and items_outcome:
  "vs_errors s = [] \<Longrightarrow> fits l 0 0 0 0 s \<Longrightarrow>
     outcome l (total nodes xs) (total (logical_clauses pk) xs) (total (include_count sc) xs) (total subqueries xs)
       (list_all (within_depth (maxDepth l - depth - 1)) xs \<and> list_all (in_bounded (maxInValues l) pk) xs \<and> list_all keys_safe xs)
       s (visit_items l sc xs i path depth pk s)"
  and entries_outcome:
  "vs_errors s = [] \<Longrightarrow> fits l 0 0 0 0 s \<Longrightarrow>
     outcome l (total (\<lambda>p. nodes (snd p)) ps) (total (\<lambda>p. logical_clauses (Some (fst p)) (snd p)) ps)
       (total (\<lambda>p. (if sc = RequestScope \<and> fst p = ''include'' then include_size (snd p) else 0) + include_count sc (snd p)) ps)
       (total (\<lambda>p. (if fst p = ''$$sq'' then 1 else 0) + subqueries (snd p)) ps)
       (list_all (\<lambda>p. within_depth (maxDepth l - depth - 1) (snd p)) ps \<and>
        list_all (\<lambda>p. in_bounded (maxInValues l) (Some (fst p)) (snd p)) ps \<and>
        list_all (\<lambda>p. \<not> dangerous_key (fst p) \<and> keys_safe (snd p)) ps)
       s (visit_entries l sc ps path depth s)"
proof (induction l sc v path depth pk s and l sc xs i path depth pk s and l sc ps path depth s
    rule: visit_visit_items_visit_entries.induct)
  case (1 l sc v path depth pk s)
  define e where "e = enter_node l path depth s"
  note zero = enter_node_outcome [OF "1.prems", of depth path, folded e_def]
  have step: "visit l sc v path depth pk s = (if vs_errors e \<noteq> [] then e else
      (case v of
         JArr xs \<Rightarrow> (if vs_errors (enter_array l xs path pk e) \<noteq> [] then enter_array l xs path pk e
           else visit_items l sc xs 0 path depth pk (enter_array l xs path pk e))
       | JObj ps \<Rightarrow> visit_entries l sc ps path depth e
       | _ \<Rightarrow> e))"
    using "1.prems"(1) by (cases v) (simp_all add: e_def Let_def)
  show ?case
  proof (cases v)
    case (JArr xs)
    define a where "a = enter_array l xs path pk e"
    have rest: "outcome l (0 + total nodes xs) ((if logical_key pk then int (length xs) else 0) + total (logical_clauses pk) xs)
        (0 + total (include_count sc) xs) (0 + total subqueries xs)
        ((pk = Some ''$in'' \<longrightarrow> int (length xs) \<le> maxInValues l) \<and>
         (list_all (within_depth (maxDepth l - depth - 1)) xs \<and> list_all (in_bounded (maxInValues l) pk) xs \<and> list_all keys_safe xs))
        e (if vs_errors a \<noteq> [] then a else visit_items l sc xs 0 path depth pk a)"
      if e: "vs_errors e = []" "fits l 0 0 0 0 e"
      using enter_array_outcome [OF e, of pk xs path, folded a_def] "1.IH"(1) [OF _ e_def _ JArr a_def] "1.prems"(1) e
      by (intro outcome_then total_nonneg) simp_all
    show ?thesis
      by (rule outcome_eq, rule outcome_then [OF zero "1.prems"(1) rest])
         (auto simp: step [unfolded JArr] JArr a_def simp del: visit.simps intro!: add_nonneg_nonneg total_nonneg)
  next
    case (JObj ps)
    have rest: "outcome l (total (\<lambda>p. nodes (snd p)) ps) (total (\<lambda>p. logical_clauses (Some (fst p)) (snd p)) ps)
       (total (\<lambda>p. (if sc = RequestScope \<and> fst p = ''include'' then include_size (snd p) else 0) + include_count sc (snd p)) ps)
       (total (\<lambda>p. (if fst p = ''$$sq'' then 1 else 0) + subqueries (snd p)) ps)
       (list_all (\<lambda>p. within_depth (maxDepth l - depth - 1) (snd p)) ps \<and>
        list_all (\<lambda>p. in_bounded (maxInValues l) (Some (fst p)) (snd p)) ps \<and>
        list_all (\<lambda>p. \<not> dangerous_key (fst p) \<and> keys_safe (snd p)) ps)
       e (visit_entries l sc ps path depth e)"
      if "vs_errors e = []" "fits l 0 0 0 0 e"
      using "1.IH"(2) [OF _ e_def _ JObj] "1.prems"(1) that by simp
    show ?thesis
      by (rule outcome_eq, rule outcome_then [OF zero "1.prems"(1) rest])
         (auto simp: step [unfolded JObj] JObj simp del: visit.simps intro!: total_nonneg)
  qed (use zero step in \<open>simp_all split: if_splits del: visit.simps\<close>)
next
  case (2 l sc i path depth pk s)
  then show ?case by (simp add: outcome_def)
next
  case (3 l sc x xs i path depth pk s)
  note one = "3.IH"(1) [OF "3.prems"]
  show ?case
    by (rule outcome_eq, rule outcome_then [OF one "3.prems"(1) "3.IH"(2) [OF refl] total_nonneg(1-4)])
       (auto simp: Let_def diff_diff_eq)
next
  case (4 l sc path depth s)
  then show ?case by (simp add: outcome_def)
next
  case (5 l sc key child rest path depth s)
  define e where "e = enter_entry l sc key child path s"
  note zero = enter_entry_outcome [OF "5.prems", of sc key child path, folded e_def]
  define r where "r = visit l sc child (path @ [Key key]) (depth + 1) (Some key) e"
  have rest: "outcome l (nodes child + total (\<lambda>p. nodes (snd p)) rest)
      (logical_clauses (Some key) child + total (\<lambda>p. logical_clauses (Some (fst p)) (snd p)) rest)
      (include_count sc child + total (\<lambda>p. (if sc = RequestScope \<and> fst p = ''include'' then include_size (snd p) else 0) + include_count sc (snd p)) rest)
      (subqueries child + total (\<lambda>p. (if fst p = ''$$sq'' then 1 else 0) + subqueries (snd p)) rest)
      ((within_depth (maxDepth l - (depth + 1)) child \<and> in_bounded (maxInValues l) (Some key) child \<and> keys_safe child) \<and>
       (list_all (\<lambda>p. within_depth (maxDepth l - depth - 1) (snd p)) rest \<and>
        list_all (\<lambda>p. in_bounded (maxInValues l) (Some (fst p)) (snd p)) rest \<and>
        list_all (\<lambda>p. \<not> dangerous_key (fst p) \<and> keys_safe (snd p)) rest))
      e (if vs_errors r \<noteq> [] then r else visit_entries l sc rest path depth r)"
    if e: "vs_errors e = []" "fits l 0 0 0 0 e"
    using "5.IH"(1) [OF e_def, folded r_def] "5.IH"(2) [OF e_def _ r_def] e
    by (intro outcome_then total_nonneg) simp_all
  show ?case
    by (rule outcome_eq, rule outcome_then [OF zero "5.prems"(1) rest])
       (auto simp: Let_def diff_diff_eq e_def r_def intro!: add_nonneg_nonneg measures_nonneg total_nonneg)
qed

lemma resolved_positive:
  "1 \<le> maxDepth (resolveRequestComplexity opts) \<and> 1 \<le> maxNodes (resolveRequestComplexity opts) \<and>
   1 \<le> maxLogicalClauses (resolveRequestComplexity opts) \<and> 1 \<le> maxInValues (resolveRequestComplexity opts) \<and>
   1 \<le> maxIncludeCount (resolveRequestComplexity opts) \<and> 1 \<le> maxSubQueryCount (resolveRequestComplexity opts)"
  by (auto simp: resolveRequestComplexity_def normalizePositiveInteger_def defaultRequestComplexity_def Let_def
      split: option.split)

text \<open>The walk never reads more than one node past its budget, whatever the request.\<close>

lemma node_budget_step: "vs_nodes (enter_node l path depth s) = vs_nodes s + 1"
  "vs_nodes (enter_array l xs path pk s) = vs_nodes s" "vs_nodes (enter_entry l sc key child path s) = vs_nodes s"
  by (simp_all add: enter_node_def enter_array_def enter_entry_def pushError_def Let_def)

lemma enter_node_budget: "vs_errors (enter_node l path depth s) = [] \<Longrightarrow> vs_nodes s + 1 \<le> maxNodes l"
  by (auto simp: enter_node_def Let_def split: if_splits)

lemma visit_work:
  "vs_nodes s \<le> maxNodes l \<Longrightarrow> vs_nodes (visit l sc v path depth pk s) \<le> maxNodes l + 1 \<and>
     (vs_errors (visit l sc v path depth pk s) = [] \<longrightarrow> vs_nodes (visit l sc v path depth pk s) \<le> maxNodes l)"
  and items_work:
  "vs_nodes s \<le> maxNodes l \<Longrightarrow> vs_nodes (visit_items l sc xs i path depth pk s) \<le> maxNodes l + 1 \<and>
     (vs_errors (visit_items l sc xs i path depth pk s) = [] \<longrightarrow> vs_nodes (visit_items l sc xs i path depth pk s) \<le> maxNodes l)"
  and entries_work:
  "vs_nodes s \<le> maxNodes l \<Longrightarrow> vs_nodes (visit_entries l sc ps path depth s) \<le> maxNodes l + 1 \<and>
     (vs_errors (visit_entries l sc ps path depth s) = [] \<longrightarrow> vs_nodes (visit_entries l sc ps path depth s) \<le> maxNodes l)"
proof (induction l sc v path depth pk s and l sc xs i path depth pk s and l sc ps path depth s
    rule: visit_visit_items_visit_entries.induct)
  case (1 l sc v path depth pk s)
  then show ?case
    using enter_node_budget [of l path depth s]
    by (cases v) (auto simp: Let_def node_budget_step)
qed (auto simp: Let_def node_budget_step)

text \<open>C19: The complexity check accepts exactly the requests within every limit: the total number of nodes,
  the nesting depth, the logical clauses, the length of every \<open>$in\<close> array, the included items, the
  sub-queries (their payloads counted too), and no key that reaches a prototype.\<close>

theorem complexity_check_exact:
  "validateRequestComplexity v opts sc = [] \<longleftrightarrow>
    nodes v \<le> maxNodes (resolveRequestComplexity opts) \<and> within_depth (maxDepth (resolveRequestComplexity opts)) v \<and>
    logical_clauses None v \<le> maxLogicalClauses (resolveRequestComplexity opts) \<and>
    in_bounded (maxInValues (resolveRequestComplexity opts)) None v \<and>
    include_count sc v \<le> maxIncludeCount (resolveRequestComplexity opts) \<and>
    subqueries v \<le> maxSubQueryCount (resolveRequestComplexity opts) \<and> keys_safe v"
proof -
  let ?l = "resolveRequestComplexity opts"
  have "fits ?l 0 0 0 0 initial_visit" using resolved_positive [of opts] by (simp add: fits_def initial_visit_def)
  moreover have "vs_errors initial_visit = []" by (simp add: initial_visit_def)
  ultimately have "outcome ?l (nodes v) (logical_clauses None v) (include_count sc v) (subqueries v)
      (within_depth (maxDepth ?l - 0) v \<and> in_bounded (maxInValues ?l) None v \<and> keys_safe v) initial_visit
      (visit ?l sc v [] 0 None initial_visit)"
    by (intro visit_outcome)
  then show ?thesis
    by (auto simp: outcome_def validateRequestComplexity_def fits_def initial_visit_def bump_def split: if_splits)
qed

text \<open>The check itself is bounded: it visits at most one node more than the node limit, also on a
  request it rejects.\<close>

lemma complexity_work_bounded:
  "vs_nodes (visit (resolveRequestComplexity opts) sc v [] 0 None initial_visit) \<le> maxNodes (resolveRequestComplexity opts) + 1"
  using visit_work [of initial_visit "resolveRequestComplexity opts" sc v "[]" 0 None] resolved_positive [of opts]
  by (simp add: initial_visit_def del: visit.simps)

end
