(* ===== verification/OperationAccess.thy ===== *)
theory OperationAccess
  imports Prelude
begin

text \<open>
  The choice of the guard of an operation, operation-access.ts of packages/access-router: the readers of
  stored options, the selection of one guard, and the check of an option update. An absent guard is
  \<open>undefined\<close>; a guard is a boolean, a permission, a list of permissions or a function.
\<close>

declare split_on.simps [simp del]

definition operations :: "string list" where
  "operations = [''new'', ''list'', ''read'', ''create'', ''update'', ''upsert'', ''delete'', ''count'', ''distinct'']"

definition subOperations :: "string list" where
  "subOperations = [''list'', ''read'', ''create'', ''update'', ''delete'']"

definition members :: "string list" where
  "members = [''default'', ''basic'', ''advanced'', ''root'']"

definition removedAccesses :: "string list" where
  "removedAccesses = concat (map (\<lambda>operation. [''basic'' @ operation, ''advanced'' @ operation])
     [''List'', ''Read'', ''Create'', ''Update'', ''Upsert'', ''Count'', ''Distinct''])"

text \<open>\<open>keys[i]\<close> of a split path: \<open>None\<close> out of range.\<close>

definition key_at :: "string list \<Rightarrow> nat \<Rightarrow> string option" where
  "key_at keys i = (if i < length keys then Some (keys ! i) else None)"

definition has_key :: "string list \<Rightarrow> string option \<Rightarrow> bool" where
  "has_key names k = (case k of Some n \<Rightarrow> n \<in> set names | None \<Rightarrow> False)"

abbreviation dots :: "string \<Rightarrow> string list" where
  "dots s \<equiv> split_on CHR ''.'' s"

definition isRemovedOperationAccess :: "string option \<Rightarrow> bool" where
  "isRemovedOperationAccess access = has_key removedAccesses access"

definition isOperationAccessMemberPath :: "string \<Rightarrow> bool" where
  "isOperationAccessMemberPath access =
     (let keys = dots access
      in if has_key operations (key_at keys 0) \<and> has_key members (key_at keys 1) then True
         else key_at keys 0 = Some ''subs'' \<and> key_at keys 1 \<noteq> Some [] \<and> has_key subOperations (key_at keys 2) \<and>
              has_key members (key_at keys 3))"

section \<open>Stored options\<close>

text \<open>An own data property of a value of type \<open>object\<close>: of a record, or of an array.\<close>

fun index_slot :: "nat \<Rightarrow> jsval list \<Rightarrow> string \<Rightarrow> jsval option" where
  "index_slot i [] part = None"
| "index_slot i (x # xs) part = (if digits i = part then Some x else index_slot (Suc i) xs part)"

definition own_slot :: "jsval \<Rightarrow> string \<Rightarrow> jsval option" where
  "own_slot v part =
     (case v of
        JObj ps \<Rightarrow> map_of ps part
      | JArr xs \<Rightarrow>
          (if part = ''length'' then Some (jint (int (length xs)))
           else index_slot 0 xs part)
      | _ \<Rightarrow> None)"

fun read_path :: "jsval \<Rightarrow> string list \<Rightarrow> jsval" where
  "read_path v [] = v"
| "read_path v (part # parts) = (case own_slot v part of None \<Rightarrow> JUndef | Some w \<Rightarrow> read_path w parts)"

definition readOwnOption :: "jsval \<Rightarrow> string \<Rightarrow> jsval" where
  "readOwnOption options key = read_path options (dots key)"

record access_readers =
  readOption :: "string \<Rightarrow> jsval"
  readDefaultOption :: "(string \<Rightarrow> jsval) option"

definition createOperationAccessReaders :: "jsval \<Rightarrow> jsval \<Rightarrow> access_readers" where
  "createOperationAccessReaders options defaults =
     \<lparr>readOption = readOwnOption options,
      readDefaultOption = (if defaults = JUndef then None else Some (readOwnOption defaults))\<rparr>"

definition read_default :: "access_readers \<Rightarrow> string \<Rightarrow> jsval" where
  "read_default rd key = (case readDefaultOption rd of None \<Rightarrow> JUndef | Some f \<Rightarrow> f key)"

section \<open>Guards\<close>

definition scalarGuard :: "jsval \<Rightarrow> jsval" where
  "scalarGuard v =
     (case v of
        JUndef \<Rightarrow> JUndef
      | JBool b \<Rightarrow> v
      | JStr s \<Rightarrow> v
      | JFun f \<Rightarrow> v
      | JArr xs \<Rightarrow> if list_all is_str xs then v else JBool False
      | _ \<Rightarrow> JBool False)"

definition operationDefault :: "jsval \<Rightarrow> jsval" where
  "operationDefault v =
     (case v of
        JObj ps \<Rightarrow>
          (if list_ex (\<lambda>key. key \<notin> set members) (map fst ps) then JBool False
           else scalarGuard (readOwnOption v ''default''))
      | _ \<Rightarrow> scalarGuard v)"

definition exact_option :: "access_readers \<Rightarrow> string \<Rightarrow> jsval" where
  "exact_option rd key = (let v = readOption rd key in if v = JUndef then read_default rd key else v)"

definition contextGuard :: "access_readers \<Rightarrow> string option \<Rightarrow> string \<Rightarrow> bool \<Rightarrow> jsval" where
  "contextGuard rd context key supported =
     (case context of
        None \<Rightarrow> JUndef
      | Some c \<Rightarrow> if supported then scalarGuard (exact_option rd (key @ ''.'' @ c)) else JUndef)"

text \<open>The part of the selection after the sub-document branch.\<close>

definition select_operation :: "access_readers \<Rightarrow> string option \<Rightarrow> string \<Rightarrow> jsval" where
  "select_operation rd context access =
     (let operationKey = ''operationAccess.'' @ access;
          selected = contextGuard rd context operationKey (access \<in> set operations)
      in if selected \<noteq> JUndef then selected
         else
           (let operation = readOption rd operationKey;
                guard = (if operation = JUndef then JUndef
                         else if access \<in> set operations then operationDefault operation else scalarGuard operation)
            in if guard \<noteq> JUndef then guard
               else
                 (let outerDefault = readOption rd ''operationAccess.default''
                  in if outerDefault \<noteq> JUndef then scalarGuard outerDefault
                     else
                       (let outer = readOption rd ''operationAccess''
                        in if outer \<noteq> JUndef then scalarGuard outer
                           else
                             (let inherited = read_default rd operationKey
                              in if access \<in> set operations then operationDefault inherited
                                 else scalarGuard inherited)))))"

definition select_subdocument :: "access_readers \<Rightarrow> string option \<Rightarrow> string \<Rightarrow> string list \<Rightarrow> jsval" where
  "select_subdocument rd context baseAccess keys =
     (let fieldKey = ''operationAccess.subs.'' @ keys ! 1;
          operationKey = ''operationAccess.'' @ baseAccess;
          supported = length keys = 3 \<and> keys ! 2 \<in> set subOperations;
          selected = contextGuard rd context operationKey supported
      in if selected \<noteq> JUndef then selected
         else
           (let operation = exact_option rd operationKey;
                guard = (if operation = JUndef then JUndef
                         else if supported then operationDefault operation else scalarGuard operation)
            in if guard \<noteq> JUndef then guard
               else
                 (let field = exact_option rd fieldKey
                  in if field \<noteq> JUndef then scalarGuard field
                     else select_operation rd context (keys ! 2))))"

definition selectOperationAccessGuard :: "access_readers \<Rightarrow> string \<Rightarrow> string option \<Rightarrow> bool \<Rightarrow> jsval" where
  "selectOperationAccessGuard rd baseAccess context subdocuments =
     (let keys = dots baseAccess
      in if isRemovedOperationAccess (Some baseAccess) \<or> isOperationAccessMemberPath baseAccess \<or>
            key_at keys 0 = Some ''subs'' \<and> isRemovedOperationAccess (key_at keys 2)
         then JBool False
         else if context \<noteq> None \<and> context \<notin> {Some ''basic'', Some ''advanced'', Some ''root''} then JBool False
         else if subdocuments \<and> key_at keys 0 = Some ''subs''
         then (if length keys < 3 \<or> key_at keys 1 = Some [] then JBool False
               else select_subdocument rd context baseAccess keys)
         else select_operation rd context baseAccess)"

definition resolveRouteOperationAccess ::
  "(jsval \<Rightarrow> bool) \<Rightarrow> access_readers \<Rightarrow> string \<Rightarrow> string option \<Rightarrow> bool \<Rightarrow> bool" where
  "resolveRouteOperationAccess canActivate rd baseAccess context subdocuments =
     (let guard = selectOperationAccessGuard rd baseAccess context subdocuments
      in if guard = JUndef then False else canActivate guard)"

section \<open>Checking an update\<close>

text \<open>A rejection names the prefix and the removed key.\<close>

datatype access_error = RemovedKey string string

definition rejectRemovedKey :: "string \<Rightarrow> string \<Rightarrow> access_error + unit" where
  "rejectRemovedKey key pre = Inl (RemovedKey pre key)"

fun first_error :: "(access_error + unit) list \<Rightarrow> access_error + unit" where
  "first_error [] = Inr ()"
| "first_error (r # rs) = andthen r (\<lambda>_. first_error rs)"

definition assertOperationNode :: "jsval \<Rightarrow> string \<Rightarrow> access_error + unit" where
  "assertOperationNode node pre =
     (case node of
        JObj ps \<Rightarrow>
          andthen (first_error (map (\<lambda>key. if key \<in> set (map fst ps) then rejectRemovedKey key pre else Inr ()) removedAccesses))
            (\<lambda>_. first_error (map (\<lambda>key.
               if isRemovedOperationAccess (Some (hd (dots key))) then rejectRemovedKey (hd (dots key)) pre else Inr ())
               (map fst ps)))
      | _ \<Rightarrow> Inr ())"

function (sequential) assertOperationAccessUpdate :: "string \<Rightarrow> jsval \<Rightarrow> access_error + unit"
  and update_properties :: "(string \<times> jsval) list \<Rightarrow> access_error + unit"
  and update_fields :: "(string \<times> jsval) list \<Rightarrow> access_error + unit" where
  "assertOperationAccessUpdate key value =
     (let path = dots key
      in if hd path \<noteq> ''operationAccess'' then Inr ()
         else if isRemovedOperationAccess (key_at path 1) then rejectRemovedKey (path ! 1) ''operationAccess.''
         else if key_at path 1 = Some ''subs'' \<and> length path \<ge> 4 \<and> isRemovedOperationAccess (key_at path 3)
         then rejectRemovedKey (path ! 3) (''operationAccess.subs.'' @ path ! 2 @ ''.'')
         else if length path = 1
         then andthen (assertOperationNode value ''operationAccess.'') (\<lambda>_.
           (case value of JObj ps \<Rightarrow> update_properties ps | _ \<Rightarrow> Inr ()))
         else if length path = 2 \<and> path ! 1 = ''subs''
         then (case value of JObj ps \<Rightarrow> update_fields ps | _ \<Rightarrow> Inr ())
         else if length path = 3 \<and> path ! 1 = ''subs'' then assertOperationNode value (key @ ''.'')
         else Inr ())"
| "update_properties [] = Inr ()"
| "update_properties ((property, v) # ps) =
     andthen (if property = ''subs'' \<or> starts_with property ''subs.''
              then assertOperationAccessUpdate (''operationAccess.'' @ property) v else Inr ())
       (\<lambda>_. update_properties ps)"
| "update_fields [] = Inr ()"
| "update_fields ((field, v) # ps) =
     andthen (assertOperationAccessUpdate (''operationAccess.subs.'' @ field) v) (\<lambda>_. update_fields ps)"
  by pat_completeness auto

termination
  by (relation "measure (case_sum (\<lambda>(_, v). size v)
        (case_sum (size_list (size_prod (\<lambda>_. 0) size)) (size_list (size_prod (\<lambda>_. 0) size))))") simp_all

declare assertOperationAccessUpdate.simps [simp del]

definition assertOperationAccessOptions :: "jsval \<Rightarrow> access_error + unit" where
  "assertOperationAccessOptions options =
     (case options of
        JObj ps \<Rightarrow>
          first_error (map (\<lambda>(key, v).
            if key = ''operationAccess'' \<or> starts_with key ''operationAccess.'' then assertOperationAccessUpdate key v else Inr ()) ps)
      | _ \<Rightarrow> Inr ())"

section \<open>Guards are well formed\<close>

definition guard_value :: "jsval \<Rightarrow> bool" where
  "guard_value v \<longleftrightarrow> (case v of JUndef \<Rightarrow> True | JBool _ \<Rightarrow> True | JStr _ \<Rightarrow> True | JFun _ \<Rightarrow> True
     | JArr xs \<Rightarrow> list_all is_str xs | _ \<Rightarrow> False)"

lemma guard_value_scalar [simp]: "guard_value (scalarGuard v)" "guard_value (JBool b)" "guard_value JUndef"
  by (simp_all add: guard_value_def scalarGuard_def split: jsval.split)

lemma guard_value_operation [simp]: "guard_value (operationDefault v)"
  by (simp add: operationDefault_def split: jsval.split)

lemma guard_value_context [simp]: "guard_value (contextGuard rd context key supported)"
  by (simp add: contextGuard_def split: option.split)

lemma scalarGuard_undefined [simp]: "scalarGuard v = JUndef \<longleftrightarrow> v = JUndef" "scalarGuard JUndef = JUndef"
  by (simp_all add: scalarGuard_def split: jsval.split)

lemma operationDefault_undefined [simp]: "operationDefault JUndef = JUndef"
  by (simp add: operationDefault_def)

lemma guard_value_select: "guard_value (select_operation rd context access)"
  by (simp add: select_operation_def Let_def)

section \<open>The order of the guards\<close>

text \<open>The reference: the first defined one of a list of candidates.\<close>

fun first_defined :: "jsval list \<Rightarrow> jsval" where
  "first_defined [] = JUndef"
| "first_defined (g # gs) = (if g \<noteq> JUndef then g else first_defined gs)"

definition operation_guard :: "bool \<Rightarrow> jsval \<Rightarrow> jsval" where
  "operation_guard known v = (if known then operationDefault v else scalarGuard v)"

definition operation_candidates :: "access_readers \<Rightarrow> string option \<Rightarrow> string \<Rightarrow> jsval list" where
  "operation_candidates rd context access =
     [contextGuard rd context (''operationAccess.'' @ access) (access \<in> set operations),
      operation_guard (access \<in> set operations) (readOption rd (''operationAccess.'' @ access)),
      scalarGuard (readOption rd ''operationAccess.default''),
      scalarGuard (readOption rd ''operationAccess''),
      operation_guard (access \<in> set operations) (read_default rd (''operationAccess.'' @ access))]"

definition subdocument_candidates :: "access_readers \<Rightarrow> string option \<Rightarrow> string \<Rightarrow> string \<Rightarrow> bool \<Rightarrow> jsval list" where
  "subdocument_candidates rd context baseAccess field supported =
     [contextGuard rd context (''operationAccess.'' @ baseAccess) supported,
      operation_guard supported (exact_option rd (''operationAccess.'' @ baseAccess)),
      scalarGuard (exact_option rd (''operationAccess.subs.'' @ field))]"

lemma select_operation_first: "select_operation rd context access = first_defined (operation_candidates rd context access)"
  by (simp add: select_operation_def operation_candidates_def operation_guard_def Let_def)

lemma first_defined_append: "first_defined (xs @ ys) = (if first_defined xs \<noteq> JUndef then first_defined xs else first_defined ys)"
  by (induction xs) simp_all

lemma select_subdocument_first:
  "select_subdocument rd context baseAccess keys =
     first_defined (subdocument_candidates rd context baseAccess (keys ! 1) (length keys = 3 \<and> keys ! 2 \<in> set subOperations) @
       operation_candidates rd context (keys ! 2))"
  by (simp add: select_subdocument_def subdocument_candidates_def operation_guard_def Let_def select_operation_first)

lemma guard_value_first: "list_all guard_value gs \<Longrightarrow> guard_value (first_defined gs)"
  by (induction gs) simp_all

lemma guard_value_subdocument: "guard_value (select_subdocument rd context baseAccess keys)"
  by (simp add: select_subdocument_def Let_def guard_value_select)

text \<open>Whatever is stored, the selection gives no guard or a well-formed one: a boolean, a permission,
  a list of permissions or a function. A stored value of any other shape denies.\<close>

lemma selected_guard_wellformed: "guard_value (selectOperationAccessGuard rd baseAccess context subdocuments)"
  by (simp add: selectOperationAccessGuard_def Let_def guard_value_select guard_value_subdocument)

text \<open>C20: The selection is the first defined guard of a fixed order: for an operation its member of the
  context, the operation's own guard, the outer default, the whole guard, and the guard of the model
  defaults; a sub-document operation has its own member, guard and field guard before these. Nothing that
  is defined is ever skipped.\<close>

theorem selection_order_exact:
  assumes "\<not> isRemovedOperationAccess (Some baseAccess)" "\<not> isOperationAccessMemberPath baseAccess"
    and "\<not> (key_at (dots baseAccess) 0 = Some ''subs'' \<and> isRemovedOperationAccess (key_at (dots baseAccess) 2))"
    and "context = None \<or> context \<in> {Some ''basic'', Some ''advanced'', Some ''root''}"
  shows "selectOperationAccessGuard rd baseAccess context subdocuments =
    (if subdocuments \<and> hd (dots baseAccess) = ''subs''
     then if length (dots baseAccess) < 3 \<or> dots baseAccess ! 1 = [] then JBool False
          else first_defined
            (subdocument_candidates rd context baseAccess (dots baseAccess ! 1)
               (length (dots baseAccess) = 3 \<and> dots baseAccess ! 2 \<in> set subOperations) @
             operation_candidates rd context (dots baseAccess ! 2))
     else first_defined (operation_candidates rd context baseAccess))"
proof -
  have h: "key_at (dots baseAccess) 0 = Some (hd (dots baseAccess))"
    by (cases "dots baseAccess") (simp_all add: key_at_def)
  have k: "length (dots baseAccess) < 3 \<or> key_at (dots baseAccess) 1 = Some [] \<longleftrightarrow>
      length (dots baseAccess) < 3 \<or> dots baseAccess ! 1 = []"
    by (auto simp: key_at_def)
  have c: "\<not> (context \<noteq> None \<and> context \<notin> {Some ''basic'', Some ''advanced'', Some ''root''})"
    using assms(4) by blast
  show ?thesis
    unfolding selectOperationAccessGuard_def Let_def select_operation_first select_subdocument_first if_not_P [OF c] k
    using assms(1-3) h by auto
qed

lemma reader_candidates:
  assumes "readDefaultOption rd = None" "\<And>key. readOption rd key = JUndef"
  shows "selectOperationAccessGuard rd baseAccess context subdocuments \<in> {JUndef, JBool False}"
  using assms
  by (auto simp: selectOperationAccessGuard_def Let_def select_operation_first select_subdocument_first first_defined_append
      operation_candidates_def subdocument_candidates_def operation_guard_def contextGuard_def exact_option_def read_default_def
      split: option.split)

text \<open>Closed by default: with nothing stored no route is open, and a retired operation name or a path
  to a member of a guard is denied whatever is stored.\<close>

lemma access_closed_by_default:
  assumes "\<not> canActivate (JBool False)"
    and "isRemovedOperationAccess (Some baseAccess) \<or> isOperationAccessMemberPath baseAccess \<or>
      readDefaultOption rd = None \<and> (\<forall>key. readOption rd key = JUndef)"
  shows "\<not> resolveRouteOperationAccess canActivate rd baseAccess context subdocuments"
  using assms reader_candidates [of rd baseAccess "context" subdocuments]
  by (auto simp: resolveRouteOperationAccess_def Let_def selectOperationAccessGuard_def)

section \<open>Accepted updates\<close>

lemma first_error_ok: "first_error rs = Inr () \<longleftrightarrow> list_all (\<lambda>r. r = Inr ()) rs"
  by (induction rs) (auto simp: andthen_Inr)

lemma assertOperationNode_ok:
  "assertOperationNode (JObj ps) pre = Inr () \<Longrightarrow> access \<in> set removedAccesses \<Longrightarrow> access \<notin> set (map fst ps)"
  by (auto simp: assertOperationNode_def andthen_Inr first_error_ok list_all_iff rejectRemovedKey_def split: if_splits)

lemma digits_not_letter: "c \<in> set (digits n) \<Longrightarrow> \<not> is_lower c"
proof (induction n rule: digits.induct)
  case (1 n)
  have low: "\<not> is_lower (char_of (48 + m))" if "m < 10" for m :: nat
    using that by (simp add: is_lower_def char_between_def)
  show ?case
    using 1 low [of n] low [of "n mod 10"] by (subst (asm) digits.simps) (auto split: if_splits)
qed

lemma no_index:
  assumes "part \<noteq> ''length''" "is_lower (hd part)" "part \<noteq> []"
  shows "own_slot (JArr xs) part = None"
proof -
  have d: "digits i \<noteq> part" for i using digits_not_letter [of "hd part" i] assms(2,3) by (metis hd_in_set)
  have "index_slot i xs part = None" for i by (induction xs arbitrary: i) (simp_all add: d)
  then show ?thesis using assms(1) by (simp add: own_slot_def)
qed

lemma own_slot_some:
  assumes "own_slot v part = Some w" "part \<noteq> ''length''" "is_lower (hd part)" "part \<noteq> []"
  obtains ps where "v = JObj ps" "(part, w) \<in> set ps"
proof (cases v)
  case (JArr xs)
  with assms no_index [OF assms(2-4)] show ?thesis by simp
qed (use assms that in \<open>auto simp: own_slot_def dest: map_of_SomeD\<close>)

lemma removed_shape: "access \<in> set removedAccesses \<Longrightarrow> access \<noteq> ''length'' \<and> is_lower (hd access) \<and> access \<noteq> [] \<and> dots access = [access]"
proof -
  have "list_all (\<lambda>a. a \<noteq> ''length'' \<and> is_lower (hd a) \<and> a \<noteq> [] \<and> dots a = [a]) removedAccesses" by code_simp
  then show "access \<in> set removedAccesses \<Longrightarrow> access \<noteq> ''length'' \<and> is_lower (hd access) \<and> access \<noteq> [] \<and> dots access = [access]"
    by (simp add: list_all_iff)
qed

lemma dots_append: "CHR ''.'' \<notin> set a \<Longrightarrow> dots (a @ CHR ''.'' # b) = a # dots b"
  by (induction a) (auto simp: split_on.simps)

lemma dots_plain: "CHR ''.'' \<notin> set a \<Longrightarrow> dots a = [a]"
  by (induction a) (auto simp: split_on.simps)

lemma node_no_removed:
  assumes "assertOperationNode v pre = Inr ()" "access \<in> set removedAccesses"
  shows "own_slot v access = None"
proof (rule ccontr)
  assume "own_slot v access \<noteq> None"
  then obtain w where w: "own_slot v access = Some w" by blast
  obtain ps where "v = JObj ps" "(access, w) \<in> set ps"
    using own_slot_some [OF w] removed_shape [OF assms(2)] by blast
  with assertOperationNode_ok [OF _ assms(2), of ps pre] assms(1) show False by force
qed

lemma update_properties_ok:
  "update_properties ps = Inr () \<Longrightarrow> (''subs'', w) \<in> set ps \<Longrightarrow> assertOperationAccessUpdate (''operationAccess.'' @ ''subs'') w = Inr ()"
  by (induction ps) (auto simp: andthen_Inr)

lemma update_fields_ok:
  "update_fields ps = Inr () \<Longrightarrow> (field, w) \<in> set ps \<Longrightarrow> assertOperationAccessUpdate (''operationAccess.subs.'' @ field) w = Inr ()"
  by (induction ps) (auto simp: andthen_Inr)

lemma dots_literals: "dots ''operationAccess'' = [''operationAccess'']" "dots (''operationAccess.'' @ ''subs'') = [''operationAccess'', ''subs'']"
  "\<not> isRemovedOperationAccess (Some ''subs'')"
  by code_simp+

lemma dots_below:
  "dots (''operationAccess.'' @ part) = ''operationAccess'' # dots part"
  "dots (''operationAccess.subs.'' @ part) = ''operationAccess'' # ''subs'' # dots part"
  using dots_append [of "''operationAccess''" part] dots_append [of "''operationAccess''" "''subs.'' @ part"] dots_append [of "''subs''" part]
  by simp_all

lemma update_whole:
  assumes "assertOperationAccessUpdate ''operationAccess'' v = Inr ()"
  shows "assertOperationNode v ''operationAccess.'' = Inr ()"
    and "v = JObj ps \<Longrightarrow> (''subs'', w) \<in> set ps \<Longrightarrow> assertOperationAccessUpdate (''operationAccess.'' @ ''subs'') w = Inr ()"
  using assms unfolding assertOperationAccessUpdate.simps [of "''operationAccess''" v] dots_literals
  by (auto simp: Let_def andthen_Inr isRemovedOperationAccess_def has_key_def key_at_def dest: update_properties_ok)

lemma update_subs:
  assumes "assertOperationAccessUpdate (''operationAccess.'' @ ''subs'') (JObj ps) = Inr ()" "(field, w) \<in> set ps"
  shows "assertOperationAccessUpdate (''operationAccess.subs.'' @ field) w = Inr ()"
  using assms dots_literals(3) unfolding assertOperationAccessUpdate.simps [of "''operationAccess.'' @ ''subs''" "JObj ps"] dots_literals
  by (auto simp: Let_def key_at_def dest: update_fields_ok)

lemma update_field:
  assumes "assertOperationAccessUpdate (''operationAccess.subs.'' @ field) w = Inr ()" "CHR ''.'' \<notin> set field"
  shows "assertOperationNode w ((''operationAccess.subs.'' @ field) @ ''.'') = Inr ()"
  using assms(1) dots_literals(3)
  unfolding assertOperationAccessUpdate.simps [of "''operationAccess.subs.'' @ field" w] dots_below dots_plain [OF assms(2)]
  by (simp add: Let_def key_at_def)

text \<open>An accepted option update stores no guard under a retired operation name, neither of the model nor
  of a field of its sub-documents: the retired names read as absent.\<close>

lemma accepted_options_no_retired:
  assumes ok: "assertOperationAccessOptions options = Inr ()" and access: "access \<in> set removedAccesses"
  shows "readOwnOption options (''operationAccess.'' @ access) = JUndef \<and>
    (\<forall>entries field. readOwnOption options ''operationAccess.subs'' = JObj entries \<and> CHR ''.'' \<notin> set field \<longrightarrow>
       readOwnOption options (''operationAccess.subs.'' @ field @ ''.'' @ access) = JUndef)"
proof (cases "own_slot options ''operationAccess''")
  case None
  then show ?thesis unfolding readOwnOption_def dots_below by simp
next
  case (Some v)
  have lower: "is_lower (hd ''operationAccess'')" "is_lower (hd ''subs'')" by code_simp+
  obtain ps where ps: "options = JObj ps" "(''operationAccess'', v) \<in> set ps"
    by (rule own_slot_some [OF Some _ lower(1)]) simp_all
  have up: "assertOperationAccessUpdate ''operationAccess'' v = Inr ()"
    using ok ps by (force simp: assertOperationAccessOptions_def first_error_ok list_all_iff)
  note whole = update_whole [OF up]
  have "readOwnOption options (''operationAccess.'' @ access) = JUndef"
    using removed_shape [OF access] node_no_removed [OF whole(1) access] Some unfolding readOwnOption_def dots_below by simp
  moreover have "readOwnOption options (''operationAccess.subs.'' @ field @ ''.'' @ access) = JUndef"
    if entries: "readOwnOption options ''operationAccess.subs'' = JObj entries" and field: "CHR ''.'' \<notin> set field" for entries field
  proof -
    have sub: "own_slot v ''subs'' = Some (JObj entries)"
      using entries Some dots_literals(2) by (simp add: readOwnOption_def split: option.splits)
    obtain vs where vs: "v = JObj vs" "(''subs'', JObj entries) \<in> set vs"
      by (rule own_slot_some [OF sub _ lower(2)]) simp_all
    note subs = whole(2) [OF vs]
    have "own_slot w access = None" if "map_of entries field = Some w" for w
      using node_no_removed [OF update_field [OF update_subs [OF subs map_of_SomeD [OF that]] field] access] .
    then show ?thesis
      using Some sub dots_append [OF field, of access] removed_shape [OF access]
      unfolding readOwnOption_def dots_below by (simp add: own_slot_def [of "JObj entries"] split: option.split)
  qed
  ultimately show ?thesis by blast
qed

section \<open>Examples\<close>

definition demo_options :: jsval where
  "demo_options = JObj [(''operationAccess'', JObj [(''list'', JObj [(''default'', JBool True), (''root'', JStr ''admin'')]),
     (''subs'', JObj [(''items'', JObj [(''read'', JBool True)])])])]"

theorem selection_order_exact_witness:
  "selectOperationAccessGuard (createOperationAccessReaders demo_options JUndef) ''list'' (Some ''root'') False =
    first_defined (operation_candidates (createOperationAccessReaders demo_options JUndef) (Some ''root'') ''list'') \<and>
   selectOperationAccessGuard (createOperationAccessReaders demo_options JUndef) ''list'' (Some ''root'') False = JStr ''admin''"
proof
  have "\<not> isRemovedOperationAccess (Some ''list'')" "\<not> isOperationAccessMemberPath ''list''"
    "\<not> (key_at (dots ''list'') 0 = Some ''subs'' \<and> isRemovedOperationAccess (key_at (dots ''list'') 2))" by code_simp+
  from selection_order_exact [OF this, of "Some ''root''" _ False]
  show "selectOperationAccessGuard (createOperationAccessReaders demo_options JUndef) ''list'' (Some ''root'') False =
    first_defined (operation_candidates (createOperationAccessReaders demo_options JUndef) (Some ''root'') ''list'')" by simp
  show "selectOperationAccessGuard (createOperationAccessReaders demo_options JUndef) ''list'' (Some ''root'') False = JStr ''admin''"
    by code_simp
qed

theorem access_closed_by_default_witness:
  "\<not> resolveRouteOperationAccess (\<lambda>g. g = JBool True)
     (createOperationAccessReaders (JObj [(''operationAccess'', JBool True)]) JUndef) ''basicList'' None False"
  by (rule access_closed_by_default, simp, rule disjI1) code_simp

lemma accepted_options_no_retired_witness:
  "readOwnOption demo_options ''operationAccess.basicRead'' = JUndef \<and>
   readOwnOption demo_options ''operationAccess.subs.items.basicRead'' = JUndef"
proof -
  have ok: "assertOperationAccessOptions demo_options = Inr ()" by code_simp
  have name: "''basicRead'' \<in> set removedAccesses" by code_simp
  have subs: "readOwnOption demo_options ''operationAccess.subs'' = JObj [(''items'', JObj [(''read'', JBool True)])]" by code_simp
  have plain: "CHR ''.'' \<notin> set ''items''" by simp
  note r = accepted_options_no_retired [OF ok name]
  have "readOwnOption demo_options (''operationAccess.subs.'' @ ''items'' @ ''.'' @ ''basicRead'') = JUndef"
    using conjunct2 [OF r] subs plain by blast
  then show ?thesis using conjunct1 [OF r] by simp
qed

end
