(* ===== verification/FilterPolicy.thy ===== *)
theory FilterPolicy
  imports JsText "HOL-Library.List_Lexorder" "HOL-Library.Char_ord"
begin

text \<open>
  The composition of row filters, core-shared.ts of packages/access-router: normalising a filter,
  intersecting filters (\<open>$and\<close> flattened, equal clauses dropped, clauses without conflict merged), and the
  filter of one access, composed of the caller's filter, an override and the base filter of the model or a
  service scope. What a clause \<open>{field: condition}\<close> matches is the database's: a parameter \<open>leaf\<close>.

  A filter value is a \<open>fval\<close>: the JavaScript values the code tells apart. \<open>FOther\<close> is any other value (a
  function, a BSON value), numbered up to deep equality. The text \<open>String(number)\<close> is a parameter.
\<close>

section \<open>Filter values\<close>

datatype fval =
    FUndef
  | FNull
  | FBool bool
  | FNum jsnum
  | FBigInt int
  | FStr string
  | FRegExp string string
  | FDate jsnum
  | FOther nat
  | FArr "fval list"
  | FObj "(string \<times> fval) list"

text \<open>A value with the keys of every object sorted: \<open>isDeepStrictEqual\<close> does not see their order.\<close>

fun normal :: "fval \<Rightarrow> fval" where
  "normal (FArr xs) = FArr (map normal xs)"
| "normal (FObj ps) = FObj (sort_key fst (map (\<lambda>(k, v). (k, normal v)) ps))"
| "normal v = v"

definition isDeepStrictEqual :: "fval \<Rightarrow> fval \<Rightarrow> bool" where
  "isDeepStrictEqual a b \<longleftrightarrow> normal a = normal b"

text \<open>\<open>Some xs\<close> for a filter whose only key is \<open>$and\<close>, with an array of clauses \<open>xs\<close>.\<close>

fun isAndFilter :: "fval \<Rightarrow> fval list option" where
  "isAndFilter (FObj [(k, FArr xs)]) = (if k = ''$and'' then Some xs else None)"
| "isAndFilter _ = None"

fun isMergeableClause :: "fval \<Rightarrow> bool" where
  "isMergeableClause (FObj ps) = list_all (\<lambda>(k, v). \<not> starts_with k ''$'') ps"
| "isMergeableClause _ = False"

section \<open>The key of a clause\<close>

text \<open>\<open>JSON.stringify\<close> of an array, of its members' texts; and of an array of strings.\<close>

definition json_list :: "string list \<Rightarrow> string" where
  "json_list ts = CHR ''['' # join_with CHR '','' ts @ [CHR '']'']"

definition json_strings :: "string list \<Rightarrow> string" where
  "json_strings ss = json_list (map json_quote ss)"

definition int_text :: "int \<Rightarrow> string" where
  "int_text n = (if n < 0 then CHR ''-'' # digits (nat (- n)) else digits (nat n))"

fun dedupeKey :: "(jsnum \<Rightarrow> string) \<Rightarrow> fval \<Rightarrow> string option" where
  "dedupeKey num (FRegExp pattern flags) = Some (''regexp:'' @ json_strings [pattern, flags])"
| "dedupeKey num (FDate t) = Some (''date:'' @ num t)"
| "dedupeKey num (FArr xs) =
     (let entries = map (dedupeKey num) xs
      in if None \<in> set entries then None else Some (''array:'' @ json_strings (map the entries)))"
| "dedupeKey num (FObj ps) =
     (let entries = sort_key fst (map (\<lambda>(k, v). (k, dedupeKey num v)) ps)
      in if None \<in> set (map snd entries) then None
         else Some (''object:'' @ json_list (map (\<lambda>(k, e). json_strings [k, the e]) entries)))"
| "dedupeKey num FNull = Some ''null''"
| "dedupeKey num (FStr s) = Some (''string:'' @ json_quote s)"
| "dedupeKey num (FBool b) = Some (if b then ''boolean:true'' else ''boolean:false'')"
| "dedupeKey num (FNum x) = Some (''number:'' @ num x)"
| "dedupeKey num (FBigInt n) = Some (''bigint:'' @ int_text n)"
| "dedupeKey num FUndef = Some ''undefined:undefined''"
| "dedupeKey num (FOther n) = None"

section \<open>Normalisation and intersection\<close>

text \<open>The first loop: \<open>None\<close> where the code returns \<open>false\<close>. The clauses are normalised already.\<close>

fun collect_clauses :: "fval list \<Rightarrow> fval list option" where
  "collect_clauses [] = Some []"
| "collect_clauses (c # cs) =
     (if c = FBool False then None
      else if c = FNull then collect_clauses cs
      else (case isAndFilter c of
              Some xs \<Rightarrow> map_option (append xs) (collect_clauses cs)
            | None \<Rightarrow> map_option (Cons c) (collect_clauses cs)))"

fun dedupe_clauses :: "(jsnum \<Rightarrow> string) \<Rightarrow> string list \<Rightarrow> fval list \<Rightarrow> fval list" where
  "dedupe_clauses num seen [] = []"
| "dedupe_clauses num seen (c # cs) =
     (case dedupeKey num c of
        Some k \<Rightarrow> (if k \<in> set seen then dedupe_clauses num seen cs else c # dedupe_clauses num (k # seen) cs)
      | None \<Rightarrow> c # dedupe_clauses num seen cs)"

definition can_merge :: "(string \<times> fval) list \<Rightarrow> (string \<times> fval) list \<Rightarrow> bool" where
  "can_merge merged ps \<longleftrightarrow>
     list_all (\<lambda>(k, v). case mget merged k of Some w \<Rightarrow> isDeepStrictEqual w v | None \<Rightarrow> True) ps"

text \<open>\<open>Object.assign\<close>: to assign to \<open>__proto__\<close> sets the prototype, so that key is lost.\<close>

definition assign_entry :: "(string \<times> fval) list \<Rightarrow> string \<times> fval \<Rightarrow> (string \<times> fval) list" where
  "assign_entry m p = (if fst p = ''__proto__'' then m else mput (fst p) (snd p) m)"

definition assign_entries :: "(string \<times> fval) list \<Rightarrow> (string \<times> fval) list \<Rightarrow> (string \<times> fval) list" where
  "assign_entries merged ps = foldl assign_entry merged ps"

fun entries_of :: "fval \<Rightarrow> (string \<times> fval) list" where
  "entries_of (FObj ps) = ps"
| "entries_of _ = []"

fun merge_clauses :: "(string \<times> fval) list \<Rightarrow> fval list \<Rightarrow> (string \<times> fval) list \<times> fval list" where
  "merge_clauses merged [] = (merged, [])"
| "merge_clauses merged (c # cs) =
     (if isMergeableClause c \<and> can_merge merged (entries_of c)
      then merge_clauses (assign_entries merged (entries_of c)) cs
      else apsnd (Cons c) (merge_clauses merged cs))"

definition optimizeAndFilter :: "(jsnum \<Rightarrow> string) \<Rightarrow> fval list \<Rightarrow> fval" where
  "optimizeAndFilter num normalized =
     (case collect_clauses normalized of
        None \<Rightarrow> FBool False
      | Some clauses \<Rightarrow>
          (let (merged, remaining) = merge_clauses [] (dedupe_clauses num [] clauses);
               finals = (if merged = [] then remaining else FObj merged # remaining)
           in case finals of
                [] \<Rightarrow> FNull
              | [c] \<Rightarrow> c
              | _ \<Rightarrow> FObj [(''$and'', FArr finals)]))"

fun normalizeFilter :: "(jsnum \<Rightarrow> string) \<Rightarrow> fval \<Rightarrow> fval" where
  "normalizeFilter num (FBool False) = FBool False"
| "normalizeFilter num (FObj []) = FNull"
| "normalizeFilter num (FObj [(k, FArr xs)]) =
     (if k = ''$and'' then optimizeAndFilter num (map (normalizeFilter num) xs) else FObj [(k, FArr xs)])"
| "normalizeFilter num (FObj ps) = FObj ps"
| "normalizeFilter num _ = FNull"

text \<open>The operator \<open>filter ?? {}\<close>.\<close>

definition or_empty :: "fval \<Rightarrow> fval" where
  "or_empty f = (if f = FNull \<or> f = FUndef then FObj [] else f)"

definition intersectFilters :: "(jsnum \<Rightarrow> string) \<Rightarrow> fval list \<Rightarrow> fval" where
  "intersectFilters num filters = or_empty (optimizeAndFilter num (map (normalizeFilter num) filters))"
 
section \<open>What a filter matches\<close>

text \<open>
  \<open>false\<close> matches no document, a value without clauses every document, an object the documents that
  satisfy all its entries; \<open>$and\<close> is the conjunction of its members.
\<close>

fun sat :: "(string \<Rightarrow> fval \<Rightarrow> 'd \<Rightarrow> bool) \<Rightarrow> 'd \<Rightarrow> fval \<Rightarrow> bool" where
  "sat leaf d (FBool b) = b"
| "sat leaf d (FObj ps) =
     list_all (\<lambda>(k, v). case v of
         FArr xs \<Rightarrow> (if k = ''$and'' then list_all (sat leaf d) xs else leaf k v d)
       | _ \<Rightarrow> leaf k v d) ps"
| "sat leaf d _ = True"



text \<open>The keys of an object are distinct and none is \<open>__proto__\<close>, in the value and in all it holds.\<close>

fun wf_value :: "fval \<Rightarrow> bool" where
  "wf_value (FArr xs) = list_all wf_value xs"
| "wf_value (FObj ps) = (wf_map ps \<and> ''__proto__'' \<notin> fst ` set ps \<and> list_all (\<lambda>(k, v). wf_value v) ps)"
| "wf_value v = True"

section \<open>Equal keys of clauses come from equal clauses\<close>


















section \<open>Normalisation keeps what a filter matches\<close>




























section \<open>The conditions of a filter\<close>

text \<open>
  The database compares embedded documents in key order, and the code does not. So the conditions \<open>{field: condition}\<close>
  of filters are looked at themselves: a filter matches when nothing in it is \<open>false\<close> and all of them hold.
\<close>

fun conditions :: "fval \<Rightarrow> (string \<times> fval) list" where
  "conditions (FObj ps) =
     concat (map (\<lambda>(k, v). case v of
         FArr xs \<Rightarrow> (if k = ''$and'' then concat (map conditions xs) else [(k, v)])
       | _ \<Rightarrow> [(k, v)]) ps)"
| "conditions _ = []"

abbreviation conditions_of :: "fval list \<Rightarrow> (string \<times> fval) set" where
  "conditions_of fs \<equiv> (\<Union>f \<in> set fs. set (conditions f))"






lemma conditions_and [simp]: "set (conditions (FObj [(''$and'', FArr xs)])) = conditions_of xs"
  by simp











section \<open>The filter of one access\<close>

text \<open>
  The rows a service may see: those of the base filter of the model, every row, or the rows of a fixed
  scope. The override and the base filter are application functions: an override is its result for a
  filter, a base filter is the identity of the function with its result for this request. A row cache
  keeps the base filter with the identity of the function it came from.
\<close>

datatype row_scope = RequestRows | UnrestrictedRows | ScopeRows fval

type_synonym row_cache = "(string, nat \<times> fval) jsmap"

record filter_parts =
  fp_transformed :: fval
  fp_scope :: fval
  fp_filter :: fval

definition resolveAccessFilterParts ::
  "(jsnum \<Rightarrow> string) \<Rightarrow> (string \<Rightarrow> (fval \<Rightarrow> fval) option) \<Rightarrow> (string \<Rightarrow> (nat \<times> fval) option) \<Rightarrow> string \<Rightarrow> string \<Rightarrow>
   row_scope \<Rightarrow> fval \<Rightarrow> row_cache \<Rightarrow> row_cache \<times> filter_parts" where
  "resolveAccessFilterParts num getOverride getBase cacheKey access rows f cache =
     (let nextFilter = normalizeFilter num f
      in if nextFilter = FBool False \<or> rows = ScopeRows (FBool False)
         then (cache, \<lparr>fp_transformed = FBool False, fp_scope = FBool False, fp_filter = FBool False\<rparr>)
         else
           (let overrideFilterFn = getOverride (''overrideFilter.'' @ access);
                baseFilterFn = (if rows = RequestRows then getBase (''baseFilter.'' @ access) else None);
                nextFilter = (case overrideFilterFn of Some g \<Rightarrow> normalizeFilter num (g nextFilter) | None \<Rightarrow> nextFilter)
            in if nextFilter = FBool False
               then (cache, \<lparr>fp_transformed = FBool False, fp_scope = FObj [], fp_filter = FBool False\<rparr>)
               else if rows \<noteq> RequestRows
               then (let scope = (case rows of ScopeRows s \<Rightarrow> s | _ \<Rightarrow> FObj [])
                     in (cache, \<lparr>fp_transformed = or_empty nextFilter, fp_scope = scope,
                                 fp_filter = intersectFilters num [nextFilter, scope]\<rparr>))
               else
                 (case baseFilterFn of
                    None \<Rightarrow> (cache, \<lparr>fp_transformed = or_empty nextFilter, fp_scope = FObj [],
                                     fp_filter = or_empty nextFilter\<rparr>)
                  | Some (resolver, result) \<Rightarrow>
                      (let reusable = (case mget cache cacheKey of Some (r, _) \<Rightarrow> r = resolver | None \<Rightarrow> False);
                           baseFilter = normalizeFilter num
                             (if reusable then (case mget cache cacheKey of Some (_, cached) \<Rightarrow> cached | None \<Rightarrow> FUndef)
                              else result);
                           cache' = (if reusable then cache else mput cacheKey (resolver, baseFilter) cache)
                       in (cache', \<lparr>fp_transformed = or_empty nextFilter, fp_scope = or_empty baseFilter,
                                    fp_filter = intersectFilters num [baseFilter, nextFilter]\<rparr>)))))"

definition resolveAccessFilter ::
  "(jsnum \<Rightarrow> string) \<Rightarrow> (string \<Rightarrow> (fval \<Rightarrow> fval) option) \<Rightarrow> (string \<Rightarrow> (nat \<times> fval) option) \<Rightarrow> string \<Rightarrow> string \<Rightarrow>
   row_scope \<Rightarrow> fval \<Rightarrow> row_cache \<Rightarrow> row_cache \<times> fval" where
  "resolveAccessFilter num getOverride getBase cacheKey access rows f cache =
     apsnd fp_filter (resolveAccessFilterParts num getOverride getBase cacheKey access rows f cache)"

text \<open>The filter that selects one document by its identifier.\<close>

definition resolveIdentifierFilter :: "jsval \<Rightarrow> (string \<Rightarrow> fval) option \<Rightarrow> string \<Rightarrow> fval" where
  "resolveIdentifierFilter idField resolveIdFilter ident =
     (case resolveIdFilter of
        Some g \<Rightarrow> g ident
      | None \<Rightarrow> (case idField of JStr field \<Rightarrow> FObj [(field, FStr ident)] | _ \<Rightarrow> FObj [(''_id'', FStr ident)]))"






lemma or_empty_sat [simp]: "wf_value (or_empty f) = wf_value f" "sat leaf d (or_empty f) = sat leaf d f"
  by (auto simp: or_empty_def)





section \<open>Properties\<close>



text \<open>
  The order of nested keys matters to a database that compares embedded documents field by field in
  order: of two scopes that differ in nothing else, only the first is kept.
\<close>

lemma nested_key_order_dropped:
  "intersectFilters num
     [FObj [(''meta'', FObj [(''a'', FBool True), (''b'', FBool True)])],
      FObj [(''meta'', FObj [(''b'', FBool True), (''a'', FBool True)])]]
   = FObj [(''meta'', FObj [(''a'', FBool True), (''b'', FBool True)])]"
  by code_simp

text \<open>\<open>Object.assign\<close> loses a condition on a field of the name \<open>__proto__\<close>.\<close>

lemma proto_condition_dropped:
  "intersectFilters num [FObj [(''__proto__'', FStr ''a''), (''b'', FStr ''c'')]] = FObj [(''b'', FStr ''c'')]"
  by code_simp

section \<open>Witnesses\<close>













end
