(* ===== verification/SortPolicy.thy ===== *)
theory SortPolicy
  imports Prelude
begin

text \<open>
  The sort argument of a list request, helpers/sort-policy.ts of packages/access-router: its four shapes (a
  string, an object, an array of pairs, a \<open>Map\<close>), their normal form, and the strict and the stripping check
  against the fields a caller may sort by.
\<close>

section \<open>Normal form\<close>

datatype sort_input = SortValue jsval | SortMap "(jsval \<times> jsval) list"

datatype sort_direction = Asc | Desc

record sort_field =
  sf_field :: string
  sf_direction :: sort_direction

text \<open>Every error points to \<open>#/sort\<close>.\<close>

datatype sort_error =
    InvalidSortField jsval
  | InvalidSortEntry
  | InvalidSortOrder string
  | SortNotAllowed string

definition validSortOrders :: "jsval list" where
  "validSortOrders = [jint 1, jint (- 1), JStr ''asc'', JStr ''ascending'', JStr ''desc'', JStr ''descending'']"

definition sortDirection :: "jsval \<Rightarrow> sort_direction" where
  "sortDirection order =
     (if order = jint (- 1) \<or> order = JStr ''desc'' \<or> order = JStr ''descending'' then Desc else Asc)"

text \<open>\<open>[A-Za-z_][A-Za-z0-9_$]*\<close>, separated by dots.\<close>

definition path_segment :: "string \<Rightarrow> bool" where
  "path_segment p \<longleftrightarrow>
     (case p of
        [] \<Rightarrow> False
      | c # cs \<Rightarrow> (is_upper c \<or> is_lower c \<or> c = CHR ''_'') \<and>
          list_all (\<lambda>c. is_upper c \<or> is_lower c \<or> is_digit c \<or> c = CHR ''_'' \<or> c = CHR ''$'') cs)"

definition field_path :: "string \<Rightarrow> bool" where
  "field_path s = list_all path_segment (split_on CHR ''.'' s)"

fun isValidFieldPath :: "jsval \<Rightarrow> bool" where
  "isValidFieldPath (JStr s) = field_path s"
| "isValidFieldPath _ = False"

definition isFieldAllowed :: "string \<Rightarrow> string list \<Rightarrow> bool" where
  "isFieldAllowed field allowedFields \<longleftrightarrow> field \<in> set (allowedFields @ [''id'', ''_id''])"

text \<open>\<open>isVirtualPath\<close> answers \<open>None\<close> when it throws.\<close>

definition excludeVirtualsFromAllowedSortFields :: "string list \<Rightarrow> (string \<Rightarrow> bool option) \<Rightarrow> string list" where
  "excludeVirtualsFromAllowedSortFields allowedFields isVirtualPath =
     filter (\<lambda>field. case isVirtualPath field of Some virtual \<Rightarrow> \<not> virtual | None \<Rightarrow> True) allowedFields"

text \<open>\<open>s.split(/[P]+/)\<close>: one cut per maximal run of separators; and \<open>filter(Boolean)\<close> of the pieces.\<close>

fun split_run :: "(char \<Rightarrow> bool) \<Rightarrow> string \<Rightarrow> string list" where
  "split_run P [] = [[]]"
| "split_run P (x # xs) =
     (if P x then (if xs \<noteq> [] \<and> P (hd xs) then split_run P xs else [] # split_run P xs)
      else (case split_run P xs of [] \<Rightarrow> [[x]] | w # ws \<Rightarrow> (x # w) # ws))"

definition split_words :: "(char \<Rightarrow> bool) \<Rightarrow> string \<Rightarrow> string list" where
  "split_words P s = filter (\<lambda>w. w \<noteq> []) (split_run P s)"

definition parse_token :: "string \<Rightarrow> sort_field" where
  "parse_token raw =
     (if starts_with raw ''-'' then \<lparr>sf_field = drop 1 raw, sf_direction = Desc\<rparr>
      else \<lparr>sf_field = raw, sf_direction = Asc\<rparr>)"

definition normalize_string :: "string \<Rightarrow> sort_field list \<times> sort_error list" where
  "normalize_string s =
     (let raws = split_words is_ws (js_trim s);
          errors = map (\<lambda>raw. InvalidSortField (JStr raw))
            (filter (\<lambda>raw. \<not> isValidFieldPath (JStr (sf_field (parse_token raw)))) raws)
      in (if errors \<noteq> [] then [] else map parse_token raws, errors))"

text \<open>The entries of a value that is not a string: those of a \<open>Map\<close>, of an array, or \<open>Object.entries\<close>.\<close>

fun sort_entries :: "sort_input \<Rightarrow> jsval list" where
  "sort_entries (SortMap m) = map (\<lambda>(k, v). JArr [k, v]) m"
| "sort_entries (SortValue (JArr xs)) = xs"
| "sort_entries (SortValue (JObj ps)) = map (\<lambda>(k, v). JArr [JStr k, v]) ps"
| "sort_entries (SortValue (JBytes bs)) =
     map (\<lambda>(i, b). JArr [JStr (digits i), jint (uint b)]) (enumerate 0 bs)"
| "sort_entries (SortValue v) = []"

fun parse_entry :: "jsval \<Rightarrow> sort_error + sort_field" where
  "parse_entry (JArr [field, order]) =
     (if \<not> isValidFieldPath field then Inl (InvalidSortField field)
      else (case field of
              JStr f \<Rightarrow>
                (if order \<notin> set validSortOrders then Inl (InvalidSortOrder f)
                 else Inr \<lparr>sf_field = f, sf_direction = sortDirection order\<rparr>)
            | _ \<Rightarrow> Inl (InvalidSortField field)))"
| "parse_entry _ = Inl InvalidSortEntry"

fun parse_entries :: "jsval list \<Rightarrow> sort_field list \<times> sort_error list" where
  "parse_entries [] = ([], [])"
| "parse_entries (e # es) =
     (case parse_entry e of
        Inl err \<Rightarrow> apsnd (Cons err) (parse_entries es)
      | Inr f \<Rightarrow> apfst (Cons f) (parse_entries es))"

definition normalizeSort :: "sort_input \<Rightarrow> sort_field list \<times> sort_error list" where
  "normalizeSort sort_arg =
     (if sort_arg \<in> {SortValue JNull, SortValue JUndef, SortValue (JStr [])} then ([], [])
      else (case sort_arg of
              SortValue (JStr s) \<Rightarrow> normalize_string s
            | _ \<Rightarrow> (let (fields, errors) = parse_entries (sort_entries sort_arg)
                   in (if errors \<noteq> [] then [] else fields, errors))))"

definition validateSortFields :: "sort_input \<Rightarrow> string list \<Rightarrow> sort_error list" where
  "validateSortFields sort_arg allowedFields =
     (let (fields, errors) = normalizeSort sort_arg
      in if errors \<noteq> [] then errors
         else map (SortNotAllowed \<circ> sf_field) (filter (\<lambda>f. \<not> isFieldAllowed (sf_field f) allowedFields) fields))"

definition normalizeSortForOrderBy :: "sort_input \<Rightarrow> string list \<times> sort_direction list" where
  "normalizeSortForOrderBy sort_arg =
     (let fields = fst (normalizeSort sort_arg) in (map sf_field fields, map sf_direction fields))"

section \<open>Stripping\<close>

record sanitized_sort =
  ss_sort :: sort_input
  ss_stripped :: "string list"
  ss_errors :: "sort_error list"

definition direction_text :: "sort_direction \<Rightarrow> string" where
  "direction_text d = (case d of Asc \<Rightarrow> ''asc'' | Desc \<Rightarrow> ''desc'')"

definition field_token :: "sort_field \<Rightarrow> string" where
  "field_token f = (if sf_direction f = Desc then CHR ''-'' # sf_field f else sf_field f)"

definition field_pair :: "sort_field \<Rightarrow> string \<times> jsval" where
  "field_pair f = (sf_field f, JStr (direction_text (sf_direction f)))"

text \<open>The kept fields in the shape of the input. \<open>Object.fromEntries\<close> and \<open>new Map\<close> keep the last value of a key.\<close>

definition rebuild_sort :: "sort_input \<Rightarrow> sort_field list \<Rightarrow> sort_input" where
  "rebuild_sort sort_arg kept =
     (case sort_arg of
        SortValue (JStr _) \<Rightarrow> SortValue (JStr (join_with CHR '' '' (map field_token kept)))
      | SortMap _ \<Rightarrow> SortMap (foldl (\<lambda>m f. mput (JStr (sf_field f)) (snd (field_pair f)) m) [] kept)
      | SortValue (JArr _) \<Rightarrow> SortValue (JArr (map (\<lambda>f. JArr [JStr (sf_field f), snd (field_pair f)]) kept))
      | SortValue _ \<Rightarrow> SortValue (JObj (foldl (\<lambda>m f. mput (sf_field f) (snd (field_pair f)) m) [] kept)))"

definition sanitizeSortFields :: "sort_input \<Rightarrow> string list \<Rightarrow> sanitized_sort" where
  "sanitizeSortFields sort_arg allowedFields =
     (let (fields, errors) = normalizeSort sort_arg
      in if errors \<noteq> [] then \<lparr>ss_sort = SortValue JUndef, ss_stripped = [], ss_errors = errors\<rparr>
         else
           (let allowed = (\<lambda>f. sf_field f \<in> set (allowedFields @ [''id'', ''_id'']));
                kept = filter allowed fields;
                stripped = map sf_field (filter (\<lambda>f. \<not> allowed f) fields)
            in \<lparr>ss_sort = (if stripped = [] then sort_arg else if kept = [] then SortValue JUndef else rebuild_sort sort_arg kept),
                ss_stripped = stripped, ss_errors = []\<rparr>))"

text \<open>An object has one property per key, a \<open>Map\<close> one entry per key.\<close>

fun sort_input_ok :: "sort_input \<Rightarrow> bool" where
  "sort_input_ok (SortMap m) = wf_map m"
| "sort_input_ok (SortValue (JObj ps)) = wf_map ps"
| "sort_input_ok (SortValue v) = True"

section \<open>The stripped argument reads back as the allowed fields\<close>

lemma split_run_ne [simp]: "split_run P s \<noteq> []"
  by (induction s) (auto split: list.split)

lemma split_run_word: "list_all (Not \<circ> P) w \<Longrightarrow> split_run P w = [w]"
  by (induction w) auto

lemma split_run_append:
  "list_all (Not \<circ> P) w \<Longrightarrow> P c \<Longrightarrow> s = [] \<or> \<not> P (hd s) \<Longrightarrow> split_run P (w @ c # s) = w # split_run P s"
  by (induction w) auto

definition plain_word :: "(char \<Rightarrow> bool) \<Rightarrow> string \<Rightarrow> bool" where
  "plain_word P w \<longleftrightarrow> w \<noteq> [] \<and> list_all (Not \<circ> P) w"

lemma split_words_join:
  "P c \<Longrightarrow> list_all (plain_word P) ws \<Longrightarrow> split_words P (join_with c ws) = ws"
proof (induction c ws rule: join_with.induct)
  case (3 c s t ss)
  have "hd (join_with c (t # ss)) = hd t" using 3(3) by (cases ss) (auto simp: plain_word_def)
  then have "\<not> P (hd (join_with c (t # ss)))"
    using 3(3) by (cases t) (auto simp: plain_word_def)
  then have "split_run P (s @ c # join_with c (t # ss)) = s # split_run P (join_with c (t # ss))"
    using 3(2,3) by (intro split_run_append) (auto simp: plain_word_def)
  with 3 show ?case by (simp add: split_words_def plain_word_def)
qed (auto simp: split_words_def split_run_word plain_word_def)

lemma last_join: "ws \<noteq> [] \<Longrightarrow> list_all (\<lambda>w. w \<noteq> []) ws \<Longrightarrow> join_with c ws \<noteq> [] \<and> last (join_with c ws) = last (last ws) \<and> hd (join_with c ws) = hd (hd ws)"
  by (induction c ws rule: join_with.induct) auto

lemma js_trim_plain: "s \<noteq> [] \<Longrightarrow> \<not> is_ws (hd s) \<Longrightarrow> \<not> is_ws (last s) \<Longrightarrow> js_trim s = s"
proof -
  assume s: "s \<noteq> []" "\<not> is_ws (hd s)" "\<not> is_ws (last s)"
  then have "dropWhile is_ws s = s" "dropWhile is_ws (rev s) = rev s"
    unfolding dropWhile_eq_self_iff by (simp_all add: hd_rev)
  then show ?thesis by (simp add: js_trim_def)
qed

lemma plain_ends: "plain_word P w \<Longrightarrow> \<not> P (hd w) \<and> \<not> P (last w)"
  by (auto simp: plain_word_def list_all_iff)

lemma trim_join: "list_all (plain_word is_ws) ws \<Longrightarrow> js_trim (join_with CHR '' '' ws) = join_with CHR '' '' ws"
proof (cases "ws = []")
  case False
  assume ws: "list_all (plain_word is_ws) ws"
  then have "list_all (\<lambda>w. w \<noteq> []) ws" by (auto simp: list_all_iff plain_word_def)
  from last_join [OF False this, of "CHR '' ''"] show ?thesis
    using ws False by (intro js_trim_plain) (auto simp: list_all_iff dest: plain_ends)
qed (simp add: js_trim_def)

lemma set_join: "set (join_with c ws) \<subseteq> insert c (\<Union> (set ` set ws))"
  by (induction c ws rule: join_with.induct) auto

lemma path_chars: "path_segment p \<Longrightarrow> p \<noteq> [] \<and> list_all (\<lambda>c. \<not> is_ws c \<and> c \<noteq> CHR ''-'') p \<and> \<not> is_digit (hd p)"
  by (cases p) (auto simp: path_segment_def list_all_iff is_ws_def is_upper_def is_lower_def is_digit_def char_between_def)

lemma field_path_chars: "field_path s \<Longrightarrow> s \<noteq> [] \<and> list_all (\<lambda>c. \<not> is_ws c) s \<and> hd s \<noteq> CHR ''-'' \<and> \<not> is_digit (hd s)"
proof -
  assume "field_path s"
  then have segs: "list_all path_segment (split_on CHR ''.'' s)" by (simp add: field_path_def)
  then have "list_all (\<lambda>w. w \<noteq> []) (split_on CHR ''.'' s)"
    by (auto simp: list_all_iff path_segment_def)
  note ends = last_join [OF split_on_ne this, of "CHR ''.''", unfolded join_split]
  have head: "path_segment (hd (split_on CHR ''.'' s))" using segs by (simp add: list_all_iff)
  have "set s \<subseteq> insert CHR ''.'' (\<Union> (set ` set (split_on CHR ''.'' s)))"
    using set_join [of "CHR ''.''" "split_on CHR ''.'' s"] by (simp add: join_split)
  then have "\<forall>c \<in> set s. \<not> is_ws c"
    using segs path_chars by (fastforce simp: list_all_iff is_ws_def)
  then show ?thesis
    using ends path_chars [OF head] by (auto simp: list_all_iff)
qed

lemma field_token_plain: "field_path (sf_field f) \<Longrightarrow> plain_word is_ws (field_token f) \<and> parse_token (field_token f) = f"
  using field_path_chars [of "sf_field f"]
  by (cases f; cases "sf_direction f"; cases "sf_field f") (auto simp: field_token_def plain_word_def parse_token_def starts_with_def is_ws_def list_all_iff
    split: sort_direction.splits)


definition valid_fields :: "sort_field list \<Rightarrow> bool" where
  "valid_fields fs = list_all (\<lambda>f. field_path (sf_field f)) fs"

lemma normalize_tokens:
  assumes "valid_fields fs"
  shows "normalize_string (join_with CHR '' '' (map field_token fs)) = (fs, [])"
proof -
  have *: "plain_word is_ws (field_token f)" "parse_token (field_token f) = f" if "f \<in> set fs" for f
    using assms that field_token_plain by (auto simp: valid_fields_def list_all_iff)
  then have "list_all (plain_word is_ws) (map field_token fs)" by (auto simp: list_all_iff)
  then have "split_words is_ws (js_trim (join_with CHR '' '' (map field_token fs))) = map field_token fs"
    by (simp add: trim_join split_words_join is_ws_def)
  moreover have "map (parse_token \<circ> field_token) fs = fs" using * by (intro map_idI) auto
  moreover have "filter (\<lambda>raw. \<not> isValidFieldPath (JStr (sf_field (parse_token raw)))) (map field_token fs) = []"
    using * assms by (auto simp: filter_empty_conv valid_fields_def list_all_iff)
  ultimately show ?thesis by (simp add: normalize_string_def)
qed

lemma direction_read: "sortDirection (JStr (direction_text d)) = d" "JStr (direction_text d) \<in> set validSortOrders"
  by (cases d; simp add: sortDirection_def direction_text_def validSortOrders_def)+

lemma parse_pairs:
  "valid_fields fs \<Longrightarrow> parse_entries (map (\<lambda>f. JArr [JStr (sf_field f), snd (field_pair f)]) fs) = (fs, [])"
  by (induction fs) (simp_all add: valid_fields_def field_pair_def direction_read)

lemma parse_entry_valid: "parse_entry e = Inr f \<Longrightarrow> field_path (sf_field f) \<and> (\<exists>v. e = JArr [JStr (sf_field f), v])"
  by (induction e rule: parse_entry.induct) (auto split: jsval.splits if_splits)

definition entry_key :: "jsval \<Rightarrow> jsval" where
  "entry_key e = (case e of JArr (k # _) \<Rightarrow> k | _ \<Rightarrow> JUndef)"

lemma parse_entries_valid:
  "parse_entries es = (fs, []) \<Longrightarrow> valid_fields fs \<and> map (\<lambda>f. JStr (sf_field f)) fs = map entry_key es"
proof (induction es arbitrary: fs)
  case (Cons e es)
  obtain gs errs where rest: "parse_entries es = (gs, errs)" by fastforce
  with Cons.prems obtain f where "parse_entry e = Inr f" "fs = f # gs" "errs = []"
    by (auto split: sum.splits)
  with Cons.IH [of gs] rest show ?case
    by (auto simp: valid_fields_def entry_key_def dest!: parse_entry_valid)
qed (simp add: valid_fields_def)

text \<open>A sort argument without errors that is not a string: the entries parse.\<close>

lemma normalize_entries:
  "normalizeSort s = (fs, []) \<Longrightarrow> fs \<noteq> [] \<Longrightarrow> (\<nexists>t. s = SortValue (JStr t)) \<Longrightarrow> parse_entries (sort_entries s) = (fs, [])"
  by (auto simp: normalizeSort_def Let_def split: if_splits sort_input.splits jsval.splits prod.splits)

lemma normalize_valid: "normalizeSort s = (fs, []) \<Longrightarrow> valid_fields fs"
proof (cases "\<exists>t. s = SortValue (JStr t)")
  case True
  assume "normalizeSort s = (fs, [])"
  with True show ?thesis
    by (auto simp: normalizeSort_def normalize_string_def valid_fields_def list_all_iff Let_def filter_empty_conv split: if_splits)
next
  case False
  assume "normalizeSort s = (fs, [])"
  with False show ?thesis
    using normalize_entries [of s fs] parse_entries_valid [of "sort_entries s" fs]
    by (cases "fs = []") (auto simp: valid_fields_def)
qed

lemma mput_new: "k \<notin> fst ` set m \<Longrightarrow> mput k v m = m @ [(k, v)]"
  by (induction m) auto

lemma foldl_mput_distinct:
  "distinct (map k fs) \<Longrightarrow> fst ` set m \<inter> k ` set fs = {} \<Longrightarrow> foldl (\<lambda>m f. mput (k f) (v f) m) m fs = m @ map (\<lambda>f. (k f, v f)) fs"
proof (induction fs arbitrary: m)
  case (Cons f fs)
  then have "mput (k f) (v f) m = m @ [(k f, v f)]" by (intro mput_new) auto
  with Cons show ?case by auto
qed simp

lemma digits_no_path: "\<not> field_path (digits n)"
proof -
  have "is_digit (hd (digits n)) \<and> digits n \<noteq> []"
  proof (induction n rule: digits.induct)
    case (1 n)
    have "is_digit (char_of (48 + n))" if "n < 10" using that by (simp add: is_digit_def char_between_def)
    with 1 show ?case by (subst (1 2) digits.simps) auto
  qed
  then show ?thesis using field_path_chars by blast
qed

lemma normalize_distinct:
  assumes "normalizeSort s = (fs, [])" "sort_input_ok s" "\<nexists>t. s = SortValue (JStr t)" "\<nexists>xs. s = SortValue (JArr xs)"
  shows "distinct (map sf_field fs)"
proof (cases "fs = []")
  case False
  have valid: "valid_fields fs" and keys: "map JStr (map sf_field fs) = map entry_key (sort_entries s)"
    using parse_entries_valid [OF normalize_entries [OF assms(1) False assms(3)]] by (auto simp: comp_def)
  have "distinct (map entry_key (sort_entries s))"
  proof (cases s)
    case (SortMap m)
    then have "map entry_key (sort_entries s) = map fst m" by (auto simp: entry_key_def)
    moreover have "distinct (map fst m)" using assms(2) SortMap by (simp add: wf_map_def)
    ultimately show ?thesis by metis
  next
    case (SortValue v)
    show ?thesis
    proof (cases v)
      case (JObj ps)
      then have "map entry_key (sort_entries s) = map JStr (map fst ps)" using SortValue by (auto simp: entry_key_def)
      moreover have "distinct (map JStr (map fst ps))"
        using assms(2) SortValue JObj by (simp add: wf_map_def distinct_map inj_on_def)
      ultimately show ?thesis by metis
    next
      case (JBytes bs)
      then have "sort_entries s = [] \<or> JStr (digits 0) \<in> set (map JStr (map sf_field fs))"
        unfolding keys using SortValue by (cases bs) (auto simp: entry_key_def)
      moreover have "sf_field f \<noteq> digits 0" if "f \<in> set fs" for f
        using valid that digits_no_path [of 0] by (auto simp: valid_fields_def list_all_iff)
      ultimately show ?thesis by fastforce
    qed (use SortValue assms in auto)
  qed
  then show ?thesis by (metis keys distinct_map)
qed simp

lemma normalize_failed: "snd (normalizeSort s) \<noteq> [] \<Longrightarrow> fst (normalizeSort s) = []"
  by (auto simp: normalizeSort_def normalize_string_def Let_def split: if_splits sort_input.splits jsval.splits prod.splits)

lemma normalize_undefined [simp]: "normalizeSort (SortValue JUndef) = ([], [])"
  by (simp add: normalizeSort_def)

lemma normalize_rebuilt:
  assumes ok: "sort_input_ok s" and n: "normalizeSort s = (fs, [])" and kept: "kept \<noteq> []" "kept = filter P fs"
  shows "normalizeSort (rebuild_sort s kept) = (kept, [])"
proof -
  have fs: "fs \<noteq> []" using kept by auto
  have valid: "valid_fields kept" using normalize_valid [OF n] kept by (simp add: valid_fields_def list_all_iff)
  have pairs: "parse_entries (map (\<lambda>f. JArr [JStr (sf_field f), snd (field_pair f)]) kept) = (kept, [])"
    by (rule parse_pairs [OF valid])
  have dist: "distinct (map sf_field kept)" if "\<nexists>t. s = SortValue (JStr t)" "\<nexists>xs. s = SortValue (JArr xs)"
    using normalize_distinct [OF n ok that] kept by (simp add: distinct_map_filter)
  show ?thesis
  proof (cases s)
    case (SortMap m)
    have "foldl (\<lambda>m f. mput (JStr (sf_field f)) (snd (field_pair f)) m) [] kept = map (\<lambda>f. (JStr (sf_field f), snd (field_pair f))) kept"
      using dist SortMap foldl_mput_distinct [of "\<lambda>f. JStr (sf_field f)" kept "[]"] by (simp add: distinct_map inj_on_def)
    then show ?thesis using SortMap pairs by (simp add: rebuild_sort_def normalizeSort_def comp_def)
  next
    case (SortValue v)
    show ?thesis
    proof (cases v)
      case (JStr t)
      obtain f gs where k: "kept = f # gs" using kept(1) by (cases kept) auto
      have "field_token f \<noteq> []" using field_token_plain [of f] valid k by (simp add: valid_fields_def plain_word_def)
      then have "join_with CHR '' '' (map field_token kept) \<noteq> []" using k by (cases gs) auto
      then show ?thesis
        using SortValue JStr normalize_tokens [OF valid] by (simp add: rebuild_sort_def normalizeSort_def)
    next
      case (JArr xs)
      then show ?thesis using SortValue pairs by (simp add: rebuild_sort_def normalizeSort_def)
    qed (use SortValue n fs dist pairs foldl_mput_distinct [of sf_field kept "[]" "\<lambda>f. snd (field_pair f)"] in
        \<open>auto simp: rebuild_sort_def normalizeSort_def comp_def\<close>)
  qed
qed

text \<open>The four shapes of the type \<open>Sort\<close>.\<close>

datatype sort_kind = StringShape | PairsShape | MapShape | ObjectShape

fun sort_shape :: "sort_input \<Rightarrow> sort_kind" where
  "sort_shape (SortMap m) = MapShape"
| "sort_shape (SortValue (JStr s)) = StringShape"
| "sort_shape (SortValue (JArr xs)) = PairsShape"
| "sort_shape (SortValue v) = ObjectShape"

lemma rebuilt_shape: "sort_shape (rebuild_sort s kept) = sort_shape s"
  by (cases s rule: sort_shape.cases) (simp_all add: rebuild_sort_def)

section \<open>Properties\<close>

text \<open>C23: Stripping a sort argument, in any of its shapes, leaves an argument that reads back as exactly the
  allowed fields of the original, in order and with their directions, that the strict check accepts, and that
  strips nothing and reports no error exactly when the strict check accepts the original. The argument keeps its
  shape as long as a field is left; without errors it is untouched when nothing is stripped, and undefined when all is.\<close>

theorem sanitized_sort_exact:
  assumes "sort_input_ok s"
  shows "normalizeSort (ss_sort (sanitizeSortFields s allowed)) = (filter (\<lambda>f. isFieldAllowed (sf_field f) allowed) (fst (normalizeSort s)), []) \<and>
    validateSortFields (ss_sort (sanitizeSortFields s allowed)) allowed = [] \<and>
    ss_stripped (sanitizeSortFields s allowed) = map sf_field (filter (\<lambda>f. \<not> isFieldAllowed (sf_field f) allowed) (fst (normalizeSort s))) \<and>
    ss_errors (sanitizeSortFields s allowed) = snd (normalizeSort s) \<and>
    (validateSortFields s allowed = [] \<longleftrightarrow> ss_stripped (sanitizeSortFields s allowed) = [] \<and> ss_errors (sanitizeSortFields s allowed) = []) \<and>
    (fst (normalizeSort (ss_sort (sanitizeSortFields s allowed))) \<noteq> [] \<longrightarrow>
       sort_shape (ss_sort (sanitizeSortFields s allowed)) = sort_shape s) \<and>
    (snd (normalizeSort s) = [] \<longrightarrow>
       (ss_stripped (sanitizeSortFields s allowed) = [] \<longrightarrow> ss_sort (sanitizeSortFields s allowed) = s) \<and>
       (ss_stripped (sanitizeSortFields s allowed) \<noteq> [] \<and> \<not> (\<exists>f \<in> set (fst (normalizeSort s)). isFieldAllowed (sf_field f) allowed) \<longrightarrow>
         ss_sort (sanitizeSortFields s allowed) = SortValue JUndef))"
proof (cases "snd (normalizeSort s) = []")
  case False
  then show ?thesis
    using normalize_failed [OF False] by (simp add: sanitizeSortFields_def validateSortFields_def case_prod_beta)
next
  case True
  define fs where "fs = fst (normalizeSort s)"
  then have n: "normalizeSort s = (fs, [])" using True by (metis prod.collapse)
  define kept where "kept = filter (\<lambda>f. isFieldAllowed (sf_field f) allowed) fs"
  define rest where "rest = filter (\<lambda>f. \<not> isFieldAllowed (sf_field f) allowed) fs"
  have all: "rest = [] \<Longrightarrow> kept = fs"
    unfolding kept_def rest_def by (auto simp: filter_empty_conv intro: filter_True)
  have clean: "sanitizeSortFields s allowed =
      \<lparr>ss_sort = (if rest = [] then s else if kept = [] then SortValue JUndef else rebuild_sort s kept),
       ss_stripped = map sf_field rest, ss_errors = []\<rparr>"
    by (simp add: sanitizeSortFields_def n kept_def rest_def isFieldAllowed_def)
  have "normalizeSort (ss_sort (sanitizeSortFields s allowed)) = (kept, [])"
    using normalize_rebuilt [OF assms n _ kept_def] all n clean by simp
  moreover have "validateSortFields s allowed = [] \<longleftrightarrow> rest = []"
    by (simp add: validateSortFields_def n rest_def)
  moreover have "kept \<noteq> [] \<Longrightarrow> sort_shape (ss_sort (sanitizeSortFields s allowed)) = sort_shape s"
    by (simp add: clean rebuilt_shape)
  moreover have "\<not> (\<exists>f \<in> set fs. isFieldAllowed (sf_field f) allowed) \<Longrightarrow> kept = []"
    by (simp add: kept_def)
  moreover have "filter (\<lambda>f. \<not> isFieldAllowed (sf_field f) allowed) kept = []" by (simp add: kept_def)
  ultimately show ?thesis
    using n clean by (simp add: validateSortFields_def kept_def [symmetric] rest_def [symmetric])
qed

text \<open>A strict check that reports no error admits only fields that the caller may sort by.\<close>

lemma validated_sort_allowed:
  "validateSortFields s allowed = [] \<Longrightarrow> f \<in> set (fst (normalizeSort s)) \<Longrightarrow>
    sf_field f \<in> set allowed \<union> {''id'', ''_id''} \<and> field_path (sf_field f)"
  using normalize_valid [of s "fst (normalizeSort s)"] normalize_failed [of s]
  by (cases "normalizeSort s")
    (auto simp: validateSortFields_def filter_empty_conv isFieldAllowed_def valid_fields_def list_all_iff split: if_splits)

theorem sanitized_sort_exact_witness:
  "ss_sort (sanitizeSortFields (SortValue (JStr '' -rank secret  name'')) [''name'', ''rank'']) = SortValue (JStr ''-rank name'') \<and>
   sort_shape (SortValue (JStr ''-rank name'')) = sort_shape (SortValue (JStr '' -rank secret  name'')) \<and>
   validateSortFields (SortValue (JStr ''-rank name'')) [''name'', ''rank''] = []"
proof -
  have s: "ss_sort (sanitizeSortFields (SortValue (JStr '' -rank secret  name'')) [''name'', ''rank'']) = SortValue (JStr ''-rank name'')"
    by code_simp
  from sanitized_sort_exact [of "SortValue (JStr '' -rank secret  name'')" "[''name'', ''rank'']"] s
  show ?thesis by simp
qed

end
