(* ===== verification/AccessQuery.thy ===== *)
theory AccessQuery
  imports SortPolicy JsText
begin

text \<open>
  Query parameters of the access router, helpers/query.ts of packages/access-router: pagination, the sort
  string and the forms of a field selection.
\<close>

section \<open>Pagination\<close>







text \<open>The product of two safe integers is exact where it is safe, and rounds to an unsafe number where it is not.\<close>

definition page_skip :: "int \<Rightarrow> int \<Rightarrow> int" where
  "page_skip npage limit =
     (if npage > 1
      then (let derived = (npage - 1) * limit in if is_safe derived then derived else MAX_SAFE_INTEGER)
      else 0)"



section \<open>Sort strings and selections\<close>

definition parseSortString :: "string \<Rightarrow> string \<times> sort_direction" where
  "parseSortString s =
     (if s = [] then ([], Asc) else if starts_with s ''-'' then (drop 1 s, Desc) else (s, Asc))"

text \<open>The class \<open>[\s,]\<close>.\<close>

definition is_separator :: "char \<Rightarrow> bool" where
  "is_separator c \<longleftrightarrow> is_ws c \<or> c = CHR '',''"

datatype select_param = NoSelect | OneSelect string | ManySelect "string list"

definition parseSelectParam :: "select_param \<Rightarrow> string list option" where
  "parseSelectParam select =
     (case select of
        NoSelect \<Rightarrow> None
      | _ \<Rightarrow> (let values = (case select of ManySelect vs \<Rightarrow> vs | OneSelect v \<Rightarrow> [v] | NoSelect \<Rightarrow> []);
                 names = concat (map (split_words is_separator) values)
             in if names \<noteq> [] then Some names else None))"

fun normalizeSelect :: "jsval \<Rightarrow> string list" where
  "normalizeSelect (JArr xs) = concat (map normalizeSelect xs)"
| "normalizeSelect (JObj ps) =
     concat (map (\<lambda>(key, val). if val = jint 1 then [key] else if val = jint (- 1) then [CHR ''-'' # key] else []) ps)"
| "normalizeSelect (JStr s) = filter (\<lambda>v. v \<noteq> []) (map js_trim (split_run is_separator s))"
| "normalizeSelect _ = []"

datatype select_mode = SelectAll | SelectInclude | SelectExclude

definition isEffectivelyEmptySelect :: "jsval \<Rightarrow> bool" where
  "isEffectivelyEmptySelect select \<longleftrightarrow> length (normalizeSelect (nullish select JNull)) = 0"

definition getVirtualSelectMode :: "string list \<Rightarrow> select_mode" where
  "getVirtualSelectMode normalized =
     (if length normalized = 0 then SelectAll
      else if list_all (\<lambda>v. starts_with v ''-'') normalized then SelectExclude else SelectInclude)"

definition hasIdExclusion :: "string list \<Rightarrow> bool" where
  "hasIdExclusion normalized \<longleftrightarrow> ''-_id'' \<in> set normalized"

section \<open>Lemmas\<close>




lemma page_skip_bounds: "1 \<le> limit \<Longrightarrow> 0 \<le> page_skip npage limit \<and> is_safe (page_skip npage limit)"
  by (auto simp: page_skip_def Let_def is_safe_def MAX_SAFE_INTEGER_def)

lemma split_run_pieces: "w \<in> set (split_run P s) \<Longrightarrow> list_all (Not \<circ> P) w"
proof (induction s arbitrary: w)
  case (Cons x s)
  then show ?case by (cases "split_run P s") (auto split: if_splits)
qed simp

lemma trimmed_piece: "w \<in> set (split_run is_separator s) \<Longrightarrow> js_trim w = w"
proof (cases "w = []")
  case False
  assume "w \<in> set (split_run is_separator s)"
  then have "list_all (\<lambda>c. \<not> is_ws c) w" using split_run_pieces by (fastforce simp: list_all_iff is_separator_def)
  with False show ?thesis by (intro js_trim_plain) (auto simp: list_all_iff)
qed (simp add: js_trim_def)

lemma normalizeSelect_text: "normalizeSelect (JStr s) = split_words is_separator s"
proof -
  have "map js_trim (split_run is_separator s) = split_run is_separator s"
    using trimmed_piece by (intro map_idI) auto
  then show ?thesis by (simp add: split_words_def)
qed

lemma some_unless_empty: "(if xs \<noteq> [] then Some xs else None) = (case xs of [] \<Rightarrow> None | names \<Rightarrow> Some names)"
  by (cases xs) simp_all

section \<open>Properties\<close>


text \<open>A select parameter of a request and the same text given to a service name the same fields.\<close>

lemma select_forms_agree:
  "parseSelectParam (OneSelect s) = (case normalizeSelect (JStr s) of [] \<Rightarrow> None | names \<Rightarrow> Some names) \<and>
   parseSelectParam (ManySelect ss) = (case normalizeSelect (JArr (map JStr ss)) of [] \<Rightarrow> None | names \<Rightarrow> Some names)"
  unfolding parseSelectParam_def
  by (simp add: normalizeSelect_text comp_def some_unless_empty del: normalizeSelect.simps(3))



end
