(* ===== verification/FieldRules.thy ===== *)
theory FieldRules
  imports AccessQuery
begin

text \<open>
  Field rules of packages/access-router: permission.ts, the validator of helpers/index.ts, the classification
  and evaluation of output rules (acl/field-authorization.ts), the fields a request may see
  (\<open>collectSchemaFields\<close> and \<open>evaluateRouteGuard\<close> of core-shared.ts), the selection of a request
  (acl/select-resolution.ts) and document grants (acl/document-grants.ts).

  A rule is a boolean, a text of permissions that are all required, an array of alternatives, or a function.
  What an application function returns for a request is a parameter \<open>call\<close>: \<open>None\<close> when it throws. Grants of a
  document are the list of its keys and booleans.
\<close>

section \<open>Permissions\<close>

fun truthy :: "jsval \<Rightarrow> bool" where
  "truthy JUndef = False"
| "truthy JNull = False"
| "truthy (JBool b) = b"
| "truthy (JNum x) = (x \<noteq> NaN \<and> x \<noteq> Fin 0)"
| "truthy (JStr s) = (s \<noteq> [])"
| "truthy _ = True"

type_synonym permission_set = "(string \<times> bool) list"

definition newPermission :: "(string \<times> jsval) list \<Rightarrow> permission_set" where
  "newPermission permissions = map (\<lambda>(k, v). (k, v = JBool True)) permissions"

definition hasKey :: "permission_set \<Rightarrow> string \<Rightarrow> bool" where
  "hasKey p permission \<longleftrightarrow> permission \<in> set (map fst p)"

definition has_permission :: "permission_set \<Rightarrow> string \<Rightarrow> bool" where
  "has_permission p permission \<longleftrightarrow> map_of p permission = Some True"

datatype permission_arg = OnePermission string | ManyPermissions "string list"

definition normalizePermissionArgs :: "permission_arg \<Rightarrow> string list \<Rightarrow> string list" where
  "normalizePermissionArgs arg permissions =
     (case arg of ManyPermissions ps \<Rightarrow> ps | OnePermission p \<Rightarrow> p # permissions)"

definition hasAny :: "permission_set \<Rightarrow> permission_arg \<Rightarrow> string list \<Rightarrow> bool" where
  "hasAny p arg permissions = list_ex (has_permission p) (normalizePermissionArgs arg permissions)"

definition hasAll :: "permission_set \<Rightarrow> permission_arg \<Rightarrow> string list \<Rightarrow> bool" where
  "hasAll p arg permissions = list_all (has_permission p) (normalizePermissionArgs arg permissions)"

section \<open>The validator\<close>

definition stringHandler :: "(string \<Rightarrow> bool) \<Rightarrow> string \<Rightarrow> bool" where
  "stringHandler fn key = list_all fn (split_on CHR '' '' (js_trim key))"

fun item_allowed :: "(string \<Rightarrow> bool) \<Rightarrow> jsval \<Rightarrow> bool" where
  "item_allowed fn (JStr s) = stringHandler fn s"
| "item_allowed fn (JArr xs) = list_ex (item_allowed fn) xs"
| "item_allowed fn _ = False"

definition arrayHandler :: "(string \<Rightarrow> bool) \<Rightarrow> jsval list \<Rightarrow> bool" where
  "arrayHandler fn arr = list_ex (item_allowed fn) arr"

section \<open>Rules of output fields\<close>

definition extractScopedOutputRule :: "jsval \<Rightarrow> string \<Rightarrow> string \<Rightarrow> jsval" where
  "extractScopedOutputRule schema field access =
     (if \<not> truthy schema \<or> \<not> has_own schema field then JUndef
      else (let raw = jprop schema field in if has_own raw access then jprop raw access else raw))"

text \<open>The path as its segments: joining and splitting the rest of a path changes nothing.\<close>

fun rule_entries :: "jsval \<Rightarrow> string list \<Rightarrow> string \<Rightarrow> string \<Rightarrow> (string \<times> jsval) list" where
  "rule_entries schema [] access pre = []"
| "rule_entries schema (head # rest) access pre =
     (let path = join_with CHR ''.'' (head # rest)
      in if \<not> truthy schema then [(pre @ path, JUndef)]
         else if has_own schema path then [(pre @ path, extractScopedOutputRule schema path access)]
         else
           (let rule = extractScopedOutputRule schema head access;
                sub = jprop (jprop schema head) ''sub''
            in if rest = [] \<or> \<not> truthy sub then [(pre @ head, rule)]
               else (pre @ head, rule) # rule_entries sub rest access (pre @ head @ ''.'')))"

definition extractOutputFieldRuleEntries :: "jsval \<Rightarrow> string \<Rightarrow> string \<Rightarrow> string \<Rightarrow> (string \<times> jsval) list" where
  "extractOutputFieldRuleEntries schema path access pre = rule_entries schema (split_on CHR ''.'' path) access pre"

definition extractOutputFieldRules :: "jsval \<Rightarrow> string \<Rightarrow> string \<Rightarrow> jsval list" where
  "extractOutputFieldRules schema path access = map snd (extractOutputFieldRuleEntries schema path access [])"

definition stripModelPermissionPrefix :: "string \<Rightarrow> string \<Rightarrow> string" where
  "stripModelPermissionPrefix key pre = (if pre \<noteq> [] \<and> starts_with key pre then drop (length pre) key else key)"

datatype field_policy = RequestFields | GrantFields "string list" | UnrestrictedFields

definition hasExplicitFieldGrant :: "field_policy option \<Rightarrow> string \<Rightarrow> bool" where
  "hasExplicitFieldGrant policy path =
     (case policy of
        Some UnrestrictedFields \<Rightarrow> True
      | Some (GrantFields paths) \<Rightarrow> list_ex (\<lambda>grant. path = grant \<or> starts_with path (grant @ ''.'')) paths
      | _ \<Rightarrow> False)"

definition hasDescendantFieldGrant :: "field_policy option \<Rightarrow> string \<Rightarrow> bool" where
  "hasDescendantFieldGrant policy path =
     (case policy of Some (GrantFields paths) \<Rightarrow> list_ex (\<lambda>grant. starts_with grant (path @ ''.'')) paths | _ \<Rightarrow> False)"

datatype field_state = Granted | Deferred | Denied

text \<open>A text rule or an array rule under a set of keys.\<close>

definition rule_passes :: "(string \<Rightarrow> bool) \<Rightarrow> jsval \<Rightarrow> bool" where
  "rule_passes fn rule = (case rule of JStr s \<Rightarrow> stringHandler fn s | JArr xs \<Rightarrow> arrayHandler fn xs | _ \<Rightarrow> False)"

definition classifyRequestFieldRule :: "jsval \<Rightarrow> (string \<Rightarrow> bool) \<Rightarrow> string \<Rightarrow> field_state" where
  "classifyRequestFieldRule rule has pre =
     (case rule of
        JBool b \<Rightarrow> (if b then Granted else Denied)
      | JFun _ \<Rightarrow> Deferred
      | _ \<Rightarrow>
          (if rule_passes has rule then Granted
           else if rule_passes (\<lambda>key. has key \<or> pre = [] \<or> starts_with key pre) rule then Deferred
           else Denied))"

definition prepareRequestFieldRule :: "jsval \<Rightarrow> (string \<Rightarrow> bool) \<Rightarrow> string \<Rightarrow> field_state \<times> bool option" where
  "prepareRequestFieldRule rule has pre =
     (let state = classifyRequestFieldRule rule has pre;
          invariant = (if state = Denied \<and> pre \<noteq> [] then classifyRequestFieldRule rule has [] else state)
      in (state, if invariant = Deferred then None else Some (invariant = Granted)))"

definition combineFieldAuthorizationStates :: "field_state list \<Rightarrow> field_state" where
  "combineFieldAuthorizationStates states =
     (if Denied \<in> set states then Denied else if Deferred \<in> set states then Deferred else Granted)"

definition classifyEffectiveFieldAuthorization ::
  "string \<Rightarrow> jsval list \<Rightarrow> field_policy option \<Rightarrow> (string \<Rightarrow> bool) \<Rightarrow> string \<Rightarrow> field_state" where
  "classifyEffectiveFieldAuthorization path rules outputFields has pre =
     (if hasExplicitFieldGrant outputFields path then Granted
      else combineFieldAuthorizationStates (map (\<lambda>rule. classifyRequestFieldRule rule has pre) rules))"

text \<open>The decision on a fetched document, with its grants.\<close>

definition granted_key :: "(string \<Rightarrow> bool) \<Rightarrow> (string \<times> bool) list \<Rightarrow> string \<Rightarrow> string \<Rightarrow> bool" where
  "granted_key has grants pre key \<longleftrightarrow> has key \<or> map_of grants (stripModelPermissionPrefix key pre) = Some True"

definition evaluateNonFunctionAccessRule :: "jsval \<Rightarrow> (string \<Rightarrow> bool) \<Rightarrow> (string \<times> bool) list \<Rightarrow> string \<Rightarrow> bool" where
  "evaluateNonFunctionAccessRule rule has grants pre =
     (case rule of JBool b \<Rightarrow> b | _ \<Rightarrow> rule_passes (granted_key has grants pre) rule)"

type_synonym rule_call = "nat \<Rightarrow> (string \<times> bool) list \<Rightarrow> jsval option"

definition evaluateScopedAccessRule ::
  "rule_call \<Rightarrow> jsval \<Rightarrow> (string \<Rightarrow> bool) \<Rightarrow> (string \<times> bool) list \<Rightarrow> string \<Rightarrow> bool" where
  "evaluateScopedAccessRule call rule has grants pre =
     (case rule of
        JFun f \<Rightarrow> (case call f grants of Some v \<Rightarrow> truthy v | None \<Rightarrow> False)
      | _ \<Rightarrow> evaluateNonFunctionAccessRule rule has grants pre)"

definition evaluateEffectiveFieldAuthorization ::
  "rule_call \<Rightarrow> string \<Rightarrow> jsval list \<Rightarrow> field_policy option \<Rightarrow> (string \<Rightarrow> bool) \<Rightarrow> (string \<times> bool) list \<Rightarrow> string \<Rightarrow> bool" where
  "evaluateEffectiveFieldAuthorization call path rules outputFields has grants pre =
     (hasExplicitFieldGrant outputFields path \<or>
      list_all (\<lambda>rule. evaluateScopedAccessRule call rule has grants pre) rules)"

section \<open>Fields of a request\<close>

text \<open>\<open>None\<close>: a function of a rule throws.\<close>

definition schema_field_allowed :: "rule_call \<Rightarrow> (string \<Rightarrow> bool) \<Rightarrow> (string \<times> bool) list \<Rightarrow> jsval \<Rightarrow> bool option" where
  "schema_field_allowed call has grants rule =
     (case rule of
        JBool b \<Rightarrow> Some b
      | JStr s \<Rightarrow> Some (stringHandler has s)
      | JArr xs \<Rightarrow> Some (arrayHandler has xs)
      | JFun f \<Rightarrow> map_option truthy (call f grants)
      | _ \<Rightarrow> Some False)"

fun collect_fields :: "(string \<Rightarrow> bool option) \<Rightarrow> string list \<Rightarrow> string list option" where
  "collect_fields allowed [] = Some []"
| "collect_fields allowed (key # keys) =
     (case allowed key of
        None \<Rightarrow> None
      | Some b \<Rightarrow> map_option (\<lambda>fs. if b then key # fs else fs) (collect_fields allowed keys))"

fun own_names :: "jsval \<Rightarrow> string list" where
  "own_names (JObj ps) = map fst ps"
| "own_names _ = []"

definition collectSchemaFields ::
  "rule_call \<Rightarrow> jsval \<Rightarrow> string \<Rightarrow> (string \<Rightarrow> bool) \<Rightarrow> (string \<times> bool) list \<Rightarrow> string list option" where
  "collectSchemaFields call permissionSchema access has grants =
     (if \<not> truthy permissionSchema then Some []
      else collect_fields (\<lambda>key. schema_field_allowed call has grants (extractScopedOutputRule permissionSchema key access))
             (own_names permissionSchema))"

definition evaluateRouteGuard :: "rule_call \<Rightarrow> permission_set \<Rightarrow> jsval \<Rightarrow> jsval option" where
  "evaluateRouteGuard call permissions routeGuard =
     (case routeGuard of
        JBool b \<Rightarrow> Some (JBool b)
      | JStr s \<Rightarrow> Some (JBool (stringHandler (has_permission permissions) s))
      | JArr xs \<Rightarrow> Some (JBool (arrayHandler (has_permission permissions) xs))
      | JFun f \<Rightarrow> call f []
      | _ \<Rightarrow> Some (JBool False))"


section \<open>Selections\<close>

fun occurs_in :: "string \<Rightarrow> string \<Rightarrow> bool" where
  "occurs_in part [] = (part = [])"
| "occurs_in part (c # cs) = (starts_with (c # cs) part \<or> occurs_in part cs)"

definition token_base :: "string \<Rightarrow> string" where
  "token_base token = (if starts_with token ''-'' then drop 1 token else token)"

definition stripVirtuals :: "string list \<Rightarrow> string list \<Rightarrow> string list" where
  "stripVirtuals names virtualNames =
     filter (\<lambda>token. \<not> occurs_in ''.sub.'' (token_base token) \<and> token_base token \<notin> set virtualNames) names"

definition stripVirtualKeysFromPermissionSchema :: "jsval \<Rightarrow> string list \<Rightarrow> jsval" where
  "stripVirtualKeysFromPermissionSchema permissionSchema virtualNames =
     (if \<not> truthy permissionSchema \<or> virtualNames = [] then permissionSchema
      else (case permissionSchema of
              JObj ps \<Rightarrow> JObj (filter (\<lambda>(key, v). key \<notin> set virtualNames) ps)
            | _ \<Rightarrow> permissionSchema))"

definition difference :: "string list \<Rightarrow> string list \<Rightarrow> string list" where
  "difference xs ys = filter (\<lambda>x. x \<notin> set ys) xs"

text \<open>First occurrences, in order.\<close>

fun uniq :: "'a list \<Rightarrow> 'a list" where
  "uniq [] = []"
| "uniq (x # xs) = x # filter (\<lambda>y. y \<noteq> x) (uniq xs)"

definition intersection :: "string list \<Rightarrow> string list \<Rightarrow> string list" where
  "intersection xs ys = filter (\<lambda>x. x \<in> set ys) (uniq xs)"

datatype select_scope = ModelScope | DataScope

definition select_fields :: "select_scope \<Rightarrow> string list \<Rightarrow> string list \<Rightarrow> string list" where
  "select_fields mode normalizedSelect names =
     (case mode of
        ModelScope \<Rightarrow>
          (if normalizedSelect = [] then names
           else
             (let excludeid = ''-_id'' \<in> set normalizedSelect
              in if list_all (\<lambda>v. starts_with v ''-'') normalizedSelect
                 then difference names (map (drop 1) normalizedSelect) @ (if excludeid then [''-_id''] else [])
                 else intersection normalizedSelect (names @ [if excludeid then ''-_id'' else ''_id''])))
      | DataScope \<Rightarrow> intersection normalizedSelect names)"

definition resolveSelectForRequest ::
  "rule_call \<Rightarrow> jsval \<Rightarrow> string \<Rightarrow> jsval \<Rightarrow> (string \<Rightarrow> bool) \<Rightarrow> (string \<times> bool) list \<Rightarrow> select_scope \<Rightarrow> string list \<Rightarrow> string list option" where
  "resolveSelectForRequest call permissionSchema access targetFields has grants mode virtualNames =
     (let normalizedSelect = stripVirtuals (normalizeSelect targetFields) virtualNames;
          persistedSchema = stripVirtualKeysFromPermissionSchema permissionSchema virtualNames
      in if \<not> truthy persistedSchema then Some []
         else map_option (select_fields mode normalizedSelect) (collectSchemaFields call persistedSchema access has grants))"

section \<open>Document grants\<close>

text \<open>Grants that were admitted before are recognised by identity; a proxy is not a value of the model.\<close>

datatype grant_source = OwnedGrants "(string \<times> bool) list" | RawGrants jsval

datatype grants_error = NotPlainRecord | ProtectedGrantKey | TooManyGrants | NotBooleanGrant

definition protectedKeys :: "string list" where
  "protectedKeys = [''__proto__'', ''constructor'', ''prototype'', ''_doc'', ''$__'', ''__v'', ''_permissions'', ''_view'', ''_edit'']"

fun admit_facts :: "string \<Rightarrow> (string \<times> jsval) list \<Rightarrow> grants_error + (string \<times> bool) list" where
  "admit_facts metadataField [] = Inr []"
| "admit_facts metadataField ((key, v) # ps) =
     (if key \<in> set protectedKeys \<or> key = metadataField then Inl ProtectedGrantKey
      else (case v of
              JBool b \<Rightarrow> andthen (admit_facts metadataField ps) (\<lambda>facts. Inr ((key, b) # facts))
            | _ \<Rightarrow> Inl NotBooleanGrant))"

definition normalizeDocumentGrants :: "grant_source \<Rightarrow> string \<Rightarrow> grants_error + (string \<times> bool) list" where
  "normalizeDocumentGrants src metadataField =
     (case src of
        OwnedGrants facts \<Rightarrow> (if metadataField \<in> set (map fst facts) then Inl ProtectedGrantKey else Inr facts)
      | RawGrants (JObj ps) \<Rightarrow> (if length ps + 1 > 20000 then Inl TooManyGrants else admit_facts metadataField ps)
      | RawGrants _ \<Rightarrow> Inl NotPlainRecord)"

definition documentGrantsFromMetadata :: "grant_source \<Rightarrow> string \<Rightarrow> grants_error + (string \<times> bool) list" where
  "documentGrantsFromMetadata src metadataField =
     (case src of
        OwnedGrants facts \<Rightarrow>
          normalizeDocumentGrants (RawGrants (JObj (map (\<lambda>(k, b). (k, JBool b)) (filter (\<lambda>(k, b). k \<notin> {''_view'', ''_edit''}) facts)))) metadataField
      | RawGrants (JObj ps) \<Rightarrow>
          normalizeDocumentGrants (RawGrants (JObj (filter (\<lambda>(k, v). k \<notin> {''_view'', ''_edit''}) ps))) metadataField
      | RawGrants v \<Rightarrow> normalizeDocumentGrants (RawGrants v) metadataField)"

definition collectModelRequestFields ::
  "rule_call \<Rightarrow> jsval \<Rightarrow> string \<Rightarrow> permission_set \<Rightarrow> grant_source option \<Rightarrow> string \<Rightarrow> grants_error + string list option" where
  "collectModelRequestFields call permissionSchema access permissions grants pre =
     andthen (case grants of None \<Rightarrow> Inr [] | Some src \<Rightarrow> normalizeDocumentGrants src ''_permissions'') (\<lambda>facts.
     Inr (collectSchemaFields call permissionSchema access
       (\<lambda>key. has_permission permissions key \<or>
         map_of facts (if starts_with key pre then drop (length pre) key else key) = Some True) facts))"

section \<open>Rules are monotone in the keys held\<close>

lemma stringHandler_mono: "(\<And>k. f k \<Longrightarrow> g k) \<Longrightarrow> stringHandler f s \<Longrightarrow> stringHandler g s"
  by (auto simp: stringHandler_def list_all_iff)

lemma item_mono: "(\<And>k. f k \<Longrightarrow> g k) \<Longrightarrow> item_allowed f x \<Longrightarrow> item_allowed g x"
  by (induction f x rule: item_allowed.induct) (auto simp: list_ex_iff intro: stringHandler_mono)

lemma rule_mono: "(\<And>k. f k \<Longrightarrow> g k) \<Longrightarrow> rule_passes f rule \<Longrightarrow> rule_passes g rule"
  using item_mono [of f g] stringHandler_mono [of f g]
  by (auto simp: rule_passes_def arrayHandler_def list_ex_iff split: jsval.splits)

text \<open>The keys a rule mentions: on them two sets of keys need to agree.\<close>

definition text_keys :: "string \<Rightarrow> string list" where
  "text_keys s = split_on CHR '' '' (js_trim s)"

fun item_keys :: "jsval \<Rightarrow> string list" where
  "item_keys (JStr s) = text_keys s"
| "item_keys (JArr xs) = concat (map item_keys xs)"
| "item_keys _ = []"

lemma item_cong: "(\<And>k. k \<in> set (item_keys x) \<Longrightarrow> f k = g k) \<Longrightarrow> item_allowed f x = item_allowed g x"
proof (induction f x rule: item_allowed.induct)
  case (1 fn s)
  then show ?case by (auto simp: stringHandler_def text_keys_def list_all_iff)
next
  case (2 fn xs)
  then have "item_allowed fn x = item_allowed g x" if "x \<in> set xs" for x using that by auto
  then show ?case by (auto simp: list_ex_iff)
qed simp_all

lemma rule_cong: "(\<And>k. k \<in> set (item_keys rule) \<Longrightarrow> f k = g k) \<Longrightarrow> rule_passes f rule = rule_passes g rule"
  using item_cong [of rule f g] by (auto simp: rule_passes_def arrayHandler_def split: jsval.splits)

text \<open>The grants that give every key a rule mentions.\<close>

definition all_grants :: "jsval \<Rightarrow> string \<Rightarrow> (string \<times> bool) list" where
  "all_grants rule pre = map (\<lambda>k. (stripModelPermissionPrefix k pre, True)) (item_keys rule)"

lemma mget_keyed: "x \<in> set ks \<Longrightarrow> mget (map (\<lambda>k. (f k, True)) ks) (f x) = Some True"
  by (induction ks) auto

lemma all_grants_give: "k \<in> set (item_keys rule) \<Longrightarrow> granted_key has (all_grants rule pre) pre k"
  using mget_keyed [of k "item_keys rule" "\<lambda>k. stripModelPermissionPrefix k pre"]
  by (simp add: granted_key_def all_grants_def)

definition function_rule :: "jsval \<Rightarrow> bool" where
  "function_rule rule = (case rule of JFun _ \<Rightarrow> True | _ \<Rightarrow> False)"

lemma decision_cases:
  "snd (prepareRequestFieldRule rule has pre) =
     (case rule of
        JBool b \<Rightarrow> Some b
      | JFun _ \<Rightarrow> None
      | _ \<Rightarrow> if rule_passes has rule then Some True else if rule_passes (\<lambda>_. True) rule then None else Some False)"
proof -
  have "rule_passes (\<lambda>key. has key \<or> pre = [] \<or> starts_with key pre) rule \<Longrightarrow> rule_passes (\<lambda>_. True) rule"
    by (rule rule_mono) auto
  then show ?thesis
    by (auto simp: prepareRequestFieldRule_def classifyRequestFieldRule_def Let_def split: jsval.split)
qed

lemma evaluation_cases:
  "\<not> function_rule rule \<Longrightarrow> evaluateScopedAccessRule call rule has grants pre =
     (case rule of JBool b \<Rightarrow> b | _ \<Rightarrow> rule_passes (granted_key has grants pre) rule)"
  by (auto simp: evaluateScopedAccessRule_def evaluateNonFunctionAccessRule_def function_rule_def split: jsval.splits)

section \<open>Properties\<close>

text \<open>C25: The decision taken on a rule before the document is fetched is final: a rule that is no function has
  the decision \<open>b\<close> exactly when its evaluation is \<open>b\<close> for every document grants, so an undecided rule is one
  that some grants admit and others refuse.\<close>

theorem prepared_decision_exact:
  assumes "\<not> function_rule rule"
  shows "snd (prepareRequestFieldRule rule has pre) = Some b \<longleftrightarrow>
    (\<forall>grants. evaluateScopedAccessRule call rule has grants pre = b)"
proof (cases "\<exists>c. rule = JBool c")
  case True
  then show ?thesis using assms by (auto simp: decision_cases evaluation_cases)
next
  case False
  then have eval: "evaluateScopedAccessRule call rule has grants pre = rule_passes (granted_key has grants pre) rule" for grants
    using evaluation_cases [OF assms] by (cases rule) simp_all
  have dec: "snd (prepareRequestFieldRule rule has pre) =
      (if rule_passes has rule then Some True else if rule_passes (\<lambda>_. True) rule then None else Some False)"
    using False assms decision_cases [of rule has pre] by (cases rule) (simp_all add: function_rule_def)
  have none: "rule_passes (granted_key has [] pre) rule = rule_passes has rule"
    by (rule rule_cong) (simp add: granted_key_def)
  have every: "rule_passes (granted_key has (all_grants rule pre) pre) rule = rule_passes (\<lambda>_. True) rule"
    by (rule rule_cong) (simp add: all_grants_give)
  have up: "rule_passes has rule \<Longrightarrow> rule_passes (granted_key has g pre) rule"
    and down: "rule_passes (granted_key has g pre) rule \<Longrightarrow> rule_passes (\<lambda>_. True) rule" for g
    by (erule rule_mono [rotated], simp add: granted_key_def)+
  show ?thesis
    unfolding eval dec using none every up down by (cases b) (auto; metis)+
qed


text \<open>A field whose request classification is \<open>granted\<close> is granted on every document.\<close>

lemma granted_stays_granted:
  assumes "classifyEffectiveFieldAuthorization path rules outputFields has pre = Granted"
  shows "evaluateEffectiveFieldAuthorization call path rules outputFields has grants pre"
proof -
  have "evaluateScopedAccessRule call rule has grants pre" if "classifyRequestFieldRule rule has pre = Granted" for rule
  proof -
    have "\<not> function_rule rule" "snd (prepareRequestFieldRule rule has pre) = Some True"
      using that by (auto simp: prepareRequestFieldRule_def function_rule_def classifyRequestFieldRule_def split: jsval.splits)
    moreover have "rule_passes has rule \<Longrightarrow> rule_passes (granted_key has grants pre) rule"
      by (erule rule_mono [rotated]) (simp add: granted_key_def)
    ultimately show ?thesis
      using that by (auto simp: evaluation_cases classifyRequestFieldRule_def split: jsval.splits if_splits)
  qed
  moreover have "combineFieldAuthorizationStates states = Granted \<Longrightarrow> s \<in> set states \<Longrightarrow> s = Granted" for states s
    by (cases s) (auto simp: combineFieldAuthorizationStates_def split: if_splits)
  ultimately show ?thesis
    using assms by (fastforce simp: classifyEffectiveFieldAuthorization_def evaluateEffectiveFieldAuthorization_def
      list_all_iff split: if_splits)
qed

lemma collect_fields_iff:
  "collect_fields allowed keys = Some names \<Longrightarrow> f \<in> set names \<longleftrightarrow> f \<in> set keys \<and> allowed f = Some True"
  by (induction keys arbitrary: names) (auto split: option.splits if_splits)

lemma set_uniq [simp]: "set (uniq xs) = set xs"
  by (induction xs) auto

lemma select_fields_within:
  "f \<in> set (select_fields mode sel names) \<Longrightarrow> f \<in> set names \<or> f = ''-_id'' \<or> f = ''_id'' \<and> f \<in> set sel"
  by (auto simp: select_fields_def Let_def difference_def intersection_def split: select_scope.splits if_splits)

lemma stripped_select: "f \<in> set (stripVirtuals names vs) \<Longrightarrow> token_base f \<notin> set vs"
  by (simp add: stripVirtuals_def)

text \<open>C26: A selection holds, apart from the identifier marks, only fields of the schema whose rule admits
  them, and no virtual field.\<close>

theorem selection_within_rules:
  assumes "resolveSelectForRequest call schema access targetFields has grants mode virtualNames = Some names"
    and "f \<in> set names" "f \<noteq> ''-_id''"
  shows "f \<notin> set virtualNames \<and>
    (f = ''_id'' \<or> has_own schema f \<and>
      schema_field_allowed call has grants
        (extractScopedOutputRule (stripVirtualKeysFromPermissionSchema schema virtualNames) f access) = Some True)"
proof -
  let ?persisted = "stripVirtualKeysFromPermissionSchema schema virtualNames"
  obtain cols where cols: "collectSchemaFields call ?persisted access has grants = Some cols"
      "names = select_fields mode (stripVirtuals (normalizeSelect targetFields) virtualNames) cols" "truthy ?persisted"
    using assms(1,2) by (auto simp: resolveSelectForRequest_def Let_def split: if_splits)
  then consider "f \<in> set cols" | "f = ''_id''" "f \<in> set (stripVirtuals (normalizeSelect targetFields) virtualNames)"
    using assms(2,3) select_fields_within by blast
  then show ?thesis
  proof cases
    case 1
    then have "f \<in> set (own_names ?persisted)" and
      "schema_field_allowed call has grants (extractScopedOutputRule ?persisted f access) = Some True"
      using cols(1,3) by (auto simp: collectSchemaFields_def collect_fields_iff)
    moreover from this(1) have "has_own schema f" "f \<notin> set virtualNames"
      by (cases schema; auto simp: stripVirtualKeysFromPermissionSchema_def split: if_splits)+
    ultimately show ?thesis by blast
  next
    case 2
    then show ?thesis using stripped_select [of f] by (simp add: token_base_def starts_with_def)
  qed
qed

section \<open>Witnesses\<close>

definition demo_has :: "string \<Rightarrow> bool" where
  "demo_has k \<longleftrightarrow> k = ''staff''"

theorem prepared_decision_exact_witness:
  "evaluateScopedAccessRule (\<lambda>f g. None) (JArr [JStr ''staff'', JStr ''doc.owner'']) demo_has [] ''doc.'' \<and>
   snd (prepareRequestFieldRule (JStr ''staff doc.owner'') demo_has ''doc.'') = None \<and>
   \<not> (\<forall>grants. evaluateScopedAccessRule (\<lambda>f g. None) (JStr ''staff doc.owner'') demo_has grants ''doc.'' = False)"
proof -
  have rules: "\<not> function_rule (JArr [JStr ''staff'', JStr ''doc.owner''])" "\<not> function_rule (JStr ''staff doc.owner'')"
    by (simp_all add: function_rule_def)
  have "snd (prepareRequestFieldRule (JArr [JStr ''staff'', JStr ''doc.owner'']) demo_has ''doc.'') = Some True" by code_simp
  moreover have "snd (prepareRequestFieldRule (JStr ''staff doc.owner'') demo_has ''doc.'') = None" by code_simp
  ultimately show ?thesis
    using prepared_decision_exact [OF rules(1), of demo_has "''doc.''" True "\<lambda>f g. None"]
      prepared_decision_exact [OF rules(2), of demo_has "''doc.''" False "\<lambda>f g. None"] by simp
qed

definition demo_schema :: jsval where
  "demo_schema = JObj [(''name'', JObj [(''list'', JStr ''staff''), (''read'', JBool True)]), (''secret'', JStr ''root''),
     (''full'', JBool True)]"

theorem selection_within_rules_witness:
  "''name'' \<notin> set [''full''] \<and> has_own demo_schema ''name''"
proof -
  have run: "resolveSelectForRequest (\<lambda>f g. None) demo_schema ''list'' (JStr ''name secret full'') demo_has [] ModelScope [''full'']
      = Some [''name'']" by code_simp
  from selection_within_rules [OF run, of "''name''"] show ?thesis by simp
qed

end
