(* ===== verification/Admission.thy ===== *)
theory Admission
  imports Prelude "HOL-Library.Multiset"
begin

text \<open>
  Bounded concurrency, helpers/concurrency.ts of packages/access-router: the permit pool \<open>FifoAdmission\<close>, and
  the workers of \<open>mapWithConcurrencyLimit\<close>. An awaited operation may settle at any time, so an execution is a
  sequence of events in any order: \<open>work_step\<close> for the pool, \<open>map_step\<close> for the workers.
\<close>

section \<open>The permit pool\<close>

record 'a pool =
  pl_limit :: int
  pl_activeWork :: int
  pl_waiters :: "'a list"

definition newPool :: "int \<Rightarrow> 'a pool" where
  "newPool limit = \<lparr>pl_limit = limit, pl_activeWork = 0, pl_waiters = []\<rparr>"

text \<open>The start of \<open>run\<close>: \<open>True\<close> when the operation gets a permit at once. Its \<open>finally\<close> block: the waiter
  that the permit goes to.\<close>

definition run_enter :: "'a \<Rightarrow> 'a pool \<Rightarrow> 'a pool \<times> bool" where
  "run_enter a p =
     (if pl_activeWork p \<ge> pl_limit p then (p\<lparr>pl_waiters := pl_waiters p @ [a]\<rparr>, False)
      else (p\<lparr>pl_activeWork := pl_activeWork p + 1\<rparr>, True))"

definition run_finally :: "'a pool \<Rightarrow> 'a pool \<times> 'a option" where
  "run_finally p =
     (case pl_waiters p of
        w # ws \<Rightarrow> (p\<lparr>pl_waiters := ws\<rparr>, Some w)
      | [] \<Rightarrow> (p\<lparr>pl_activeWork := pl_activeWork p - 1\<rparr>, None))"

text \<open>\<open>RequestConcurrencyScheduler\<close>.\<close>

definition newScheduler :: "int \<Rightarrow> 'a pool" where
  "newScheduler limit = newPool (max 1 limit)"

text \<open>\<open>normalizeHookConcurrencyLimit\<close>: a finite integer of at least one.\<close>

fun floor_number :: "jsval \<Rightarrow> jsnum" where
  "floor_number (JNum (Fin q)) = of_integer \<lfloor>q\<rfloor>"
| "floor_number (JNum x) = x"
| "floor_number _ = NaN"

definition normalizeHookConcurrencyLimit :: "jsval \<Rightarrow> jsnum \<Rightarrow> int" where
  "normalizeHookConcurrencyLimit limit fallback =
     (case safe_int (floor_number limit) of
        Some parsed \<Rightarrow> (if parsed \<ge> 1 then parsed
                     else (case safe_int fallback of Some n \<Rightarrow> if n \<ge> 1 then n else 10 | None \<Rightarrow> 10))
      | None \<Rightarrow> (case safe_int fallback of Some n \<Rightarrow> if n \<ge> 1 then n else 10 | None \<Rightarrow> 10))"

text \<open>
  The pool in use: the operations that hold a permit, with the operations that arrived and those that were
  given a permit so far, each in order.
\<close>

record 'a work = "'a pool" +
  wk_holders :: "'a list"
  wk_arrived :: "'a list"
  wk_granted :: "'a list"

datatype 'a work_event = Arrive 'a | Settle 'a

inductive work_step :: "'a work \<Rightarrow> 'a work_event \<Rightarrow> 'a work \<Rightarrow> bool" where
  arrive_now: "run_enter a (pool.truncate s) = (p, True) \<Longrightarrow>
    work_step s (Arrive a) (pool.extend p \<lparr>wk_holders = wk_holders s @ [a], wk_arrived = wk_arrived s @ [a],
      wk_granted = wk_granted s @ [a]\<rparr>)"
| arrive_waits: "run_enter a (pool.truncate s) = (p, False) \<Longrightarrow>
    work_step s (Arrive a) (pool.extend p \<lparr>wk_holders = wk_holders s, wk_arrived = wk_arrived s @ [a],
      wk_granted = wk_granted s\<rparr>)"
| settle_transfers: "a \<in> set (wk_holders s) \<Longrightarrow> run_finally (pool.truncate s) = (p, Some b) \<Longrightarrow>
    work_step s (Settle a) (pool.extend p \<lparr>wk_holders = remove1 a (wk_holders s) @ [b], wk_arrived = wk_arrived s,
      wk_granted = wk_granted s @ [b]\<rparr>)"
| settle_releases: "a \<in> set (wk_holders s) \<Longrightarrow> run_finally (pool.truncate s) = (p, None) \<Longrightarrow>
    work_step s (Settle a) (pool.extend p \<lparr>wk_holders = remove1 a (wk_holders s), wk_arrived = wk_arrived s,
      wk_granted = wk_granted s\<rparr>)"

inductive_cases arrive_cases: "work_step s (Arrive a) s'"
inductive_cases settle_cases: "work_step s (Settle a) s'"

inductive work_run :: "'a work \<Rightarrow> 'a work_event list \<Rightarrow> 'a work \<Rightarrow> bool" where
  run_start: "work_run s [] s"
| run_step: "work_run s es s' \<Longrightarrow> work_step s' e s'' \<Longrightarrow> work_run s (es @ [e]) s''"

definition work_init :: "int \<Rightarrow> 'a work" where
  "work_init limit = pool.extend (newPool limit) \<lparr>wk_holders = [], wk_arrived = [], wk_granted = []\<rparr>"

text \<open>
  The invariant: the count of permits in use is the number of holders, at most the limit; a permit is idle
  only when nobody waits; permits were granted in the order of arrival.
\<close>

definition work_inv :: "'a work \<Rightarrow> bool" where
  "work_inv s \<longleftrightarrow> 0 < pl_limit s \<and> pl_activeWork s = int (length (wk_holders s)) \<and> pl_activeWork s \<le> pl_limit s \<and>
     (pl_waiters s \<noteq> [] \<longrightarrow> pl_activeWork s = pl_limit s) \<and> wk_arrived s = wk_granted s @ pl_waiters s"

lemmas pool_defs = run_enter_def run_finally_def pool.defs

lemma work_step_inv: "work_step s e s' \<Longrightarrow> work_inv s \<Longrightarrow> work_inv s' \<and> pl_limit s' = pl_limit s"
  by (induction rule: work_step.induct)
    (auto simp: work_inv_def pool_defs length_remove1 of_nat_diff Suc_le_eq split: if_splits list.splits dest!: length_pos_if_in_set)

lemma work_run_inv: "work_run s es s' \<Longrightarrow> work_inv s \<Longrightarrow> work_inv s' \<and> pl_limit s' = pl_limit s"
  by (induction rule: work_run.induct) (auto dest: work_step_inv)

lemma work_init_inv: "0 < limit \<Longrightarrow> work_inv (work_init limit)"
  by (simp add: work_inv_def work_init_def newPool_def pool.defs)

definition settles :: "'a work_event list \<Rightarrow> nat" where
  "settles es = length (filter (\<lambda>e. case e of Settle _ \<Rightarrow> True | Arrive _ \<Rightarrow> False) es)"

lemma work_step_logs:
  "work_step s e s' \<Longrightarrow> (\<exists>xs. wk_arrived s' = wk_arrived s @ xs) \<and> length (wk_granted s) \<le> length (wk_granted s') \<and>
    (\<forall>a. e = Settle a \<longrightarrow> pl_waiters s = [] \<or> length (wk_granted s') = Suc (length (wk_granted s)))"
  by (induction rule: work_step.induct) (auto simp: pool_defs split: if_splits list.splits)

lemma work_run_logs:
  "work_run s es s' \<Longrightarrow> work_inv s \<Longrightarrow> (\<exists>xs. wk_arrived s' = wk_arrived s @ xs) \<and>
     min (length (wk_arrived s)) (length (wk_granted s) + settles es) \<le> length (wk_granted s')"
proof (induction rule: work_run.induct)
  case (run_start s)
  then show ?case by (simp add: settles_def)
next
  case (run_step s es s' e s'')
  note IH = run_step.IH [OF run_step.prems]
  have inv: "work_inv s'" using work_run_inv [OF run_step.hyps(1) run_step.prems] by blast
  note step = work_step_logs [OF run_step.hyps(2)]
  have "min (length (wk_arrived s)) (length (wk_granted s) + settles (es @ [e])) \<le> length (wk_granted s'')"
  proof (cases e)
    case (Settle a)
    then have "settles (es @ [e]) = Suc (settles es)" by (simp add: settles_def)
    moreover have "pl_waiters s' = [] \<Longrightarrow> length (wk_arrived s) \<le> length (wk_granted s')"
      using inv IH by (auto simp: work_inv_def)
    ultimately show ?thesis using IH step Settle by auto
  next
    case (Arrive a)
    then show ?thesis using IH step by (auto simp: settles_def)
  qed
  then show ?case using IH step by auto
qed

text \<open>C27: The pool never has more operations in progress than its limit, an idle permit means that nobody
  waits, and permits are granted in the order of arrival.\<close>

theorem permits_bounded_fifo:
  assumes "0 < limit" "work_run (work_init limit) es s"
  shows "int (length (wk_holders s)) \<le> limit \<and> (pl_waiters s = [] \<or> int (length (wk_holders s)) = limit) \<and>
    wk_arrived s = wk_granted s @ pl_waiters s"
  using work_run_inv [OF assms(2) work_init_inv [OF assms(1)]]
  by (auto simp: work_inv_def work_init_def newPool_def pool.defs)

text \<open>C28: No waiter is lost or overtaken: the operation at position \<open>k\<close> of the queue has its permit once more
  than \<open>k\<close> operations have settled, whatever arrives in between; and while an operation waits, some
  operation holds a permit and may settle.\<close>

theorem waiters_are_served:
  assumes "0 < limit" "work_run (work_init limit) es s" "k < length (pl_waiters s)"
    and "work_run s es' s'" "k < settles es'"
  shows "wk_granted s' ! (length (wk_granted s) + k) = pl_waiters s ! k \<and>
    length (wk_granted s) + k < length (wk_granted s') \<and>
    (\<exists>a s''. work_step s (Settle a) s'')"
proof -
  have inv: "work_inv s" using work_run_inv [OF assms(2) work_init_inv [OF assms(1)]] by blast
  then have inv': "work_inv s'" using work_run_inv [OF assms(4)] by blast
  obtain xs where arrived: "wk_arrived s' = wk_arrived s @ xs"
    and served: "min (length (wk_arrived s)) (length (wk_granted s) + settles es') \<le> length (wk_granted s')"
    using work_run_logs [OF assms(4) inv] by blast
  have s: "wk_arrived s = wk_granted s @ pl_waiters s" and s': "wk_arrived s' = wk_granted s' @ pl_waiters s'"
    using inv inv' by (simp_all add: work_inv_def)
  have less: "length (wk_granted s) + k < length (wk_granted s')" using served assms(3,5) s by simp
  then have "wk_granted s' ! (length (wk_granted s) + k) = wk_arrived s' ! (length (wk_granted s) + k)"
    using s' by (simp add: nth_append)
  also have "\<dots> = pl_waiters s ! k" using arrived s assms(3) by (simp add: nth_append)
  finally have nth: "wk_granted s' ! (length (wk_granted s) + k) = pl_waiters s ! k" .
  have "wk_holders s \<noteq> []" using inv assms(3) by (auto simp: work_inv_def)
  then obtain a where a: "a \<in> set (wk_holders s)" by (cases "wk_holders s") auto
  obtain p b where "run_finally (pool.truncate s) = (p, b)" by fastforce
  with a have "\<exists>s''. work_step s (Settle a) s''"
    by (cases b) (blast intro: settle_releases settle_transfers)+
  with nth less show ?thesis by blast
qed

section \<open>Workers of a bounded map\<close>

text \<open>
  A worker is between two items, waits for the outcome of the item at an index, or has returned. The
  iteratee's outcome for an item is a parameter: \<open>Inl\<close> is a rejection.
\<close>

datatype worker = Free | Awaiting nat | Returned

record ('e, 'o) bounded_map =
  bm_results :: "'o option list"
  bm_cursor :: nat
  bm_failure :: "'e option"
  bm_workers :: "worker list"

definition worker_count :: "int \<Rightarrow> nat \<Rightarrow> nat" where
  "worker_count limit items = nat (min (max limit 1) (if items = 0 then 1 else int items))"

definition map_start :: "int \<Rightarrow> nat \<Rightarrow> ('e, 'o) bounded_map" where
  "map_start limit items = \<lparr>bm_results = replicate items None, bm_cursor = 0, bm_failure = None,
     bm_workers = replicate (worker_count limit items) Free\<rparr>"

text \<open>A free worker takes the next item, or returns; the outcome of an item arrives.\<close>

definition take_item :: "nat \<Rightarrow> ('e, 'o) bounded_map \<Rightarrow> ('e, 'o) bounded_map" where
  "take_item w m =
     (if bm_failure m = None \<and> bm_cursor m < length (bm_results m)
      then m\<lparr>bm_workers := (bm_workers m)[w := Awaiting (bm_cursor m)], bm_cursor := Suc (bm_cursor m)\<rparr>
      else m\<lparr>bm_workers := (bm_workers m)[w := Returned]\<rparr>)"

definition settle_item :: "nat \<Rightarrow> nat \<Rightarrow> 'e + 'o \<Rightarrow> ('e, 'o) bounded_map \<Rightarrow> ('e, 'o) bounded_map" where
  "settle_item w i out m =
     (case out of
        Inr v \<Rightarrow> m\<lparr>bm_results := (bm_results m)[i := Some v], bm_workers := (bm_workers m)[w := Free]\<rparr>
      | Inl e \<Rightarrow> m\<lparr>bm_failure := (if bm_failure m = None then Some e else bm_failure m),
                  bm_workers := (bm_workers m)[w := Returned]\<rparr>)"

inductive map_step :: "(nat \<Rightarrow> 'e + 'o) \<Rightarrow> ('e, 'o) bounded_map \<Rightarrow> ('e, 'o) bounded_map \<Rightarrow> bool" for out where
  step_take: "w < length (bm_workers m) \<Longrightarrow> bm_workers m ! w = Free \<Longrightarrow> map_step out m (take_item w m)"
| step_settle: "w < length (bm_workers m) \<Longrightarrow> bm_workers m ! w = Awaiting i \<Longrightarrow> map_step out m (settle_item w i (out i) m)"

inductive map_run :: "(nat \<Rightarrow> 'e + 'o) \<Rightarrow> nat \<Rightarrow> ('e, 'o) bounded_map \<Rightarrow> ('e, 'o) bounded_map \<Rightarrow> bool" for out where
  map_run_start: "map_run out 0 m m"
| map_run_step: "map_run out n m m' \<Longrightarrow> map_step out m' m'' \<Longrightarrow> map_run out (Suc n) m m''"

text \<open>All workers have returned: the failure is thrown, or the results are returned.\<close>

definition map_settled :: "('e, 'o) bounded_map \<Rightarrow> bool" where
  "map_settled m = list_all (\<lambda>w. w = Returned) (bm_workers m)"

definition mapWithConcurrencyLimit :: "('e, 'o) bounded_map \<Rightarrow> 'e + 'o option list" where
  "mapWithConcurrencyLimit m = (case bm_failure m of Some e \<Rightarrow> Inl e | None \<Rightarrow> Inr (bm_results m))"

text \<open>Every item before the cursor is awaited or has its outcome; a failure is an outcome; the workers stop
  early only on a failure.\<close>

definition map_inv :: "(nat \<Rightarrow> 'e + 'o) \<Rightarrow> nat \<Rightarrow> ('e, 'o) bounded_map \<Rightarrow> bool" where
  "map_inv out items m \<longleftrightarrow> length (bm_results m) = items \<and> bm_cursor m \<le> items \<and>
     (\<forall>i. Awaiting i \<in> set (bm_workers m) \<longrightarrow> i < bm_cursor m) \<and>
     (\<forall>i < items. bm_results m ! i \<noteq> None \<longrightarrow> i < bm_cursor m \<and> map_option Inr (bm_results m ! i) = Some (out i)) \<and>
     (\<forall>i < bm_cursor m. Awaiting i \<in> set (bm_workers m) \<or> bm_results m ! i \<noteq> None \<or> bm_failure m \<noteq> None) \<and>
     (\<forall>e. bm_failure m = Some e \<longrightarrow> (\<exists>i < items. out i = Inl e)) \<and>
     (Returned \<in> set (bm_workers m) \<longrightarrow> bm_failure m \<noteq> None \<or> bm_cursor m = items)"

lemma set_update_other: "x \<in> set xs \<Longrightarrow> x \<noteq> xs ! w \<Longrightarrow> x \<in> set (xs[w := y])"
  by (metis in_set_conv_nth length_list_update nth_list_update_neq)

lemma set_update_cases: "x \<in> set (xs[w := y]) \<Longrightarrow> x = y \<or> x \<in> set xs"
  using set_update_subset_insert by fastforce

lemma take_item_inv:
  assumes "w < length (bm_workers m)" "bm_workers m ! w = Free" "map_inv out items m"
  shows "map_inv out items (take_item w m)"
proof (cases "bm_failure m = None \<and> bm_cursor m < length (bm_results m)")
  case True
  have "Awaiting (bm_cursor m) \<in> set ((bm_workers m)[w := Awaiting (bm_cursor m)])"
    using assms(1) by (simp add: set_update_memI)
  moreover have "Awaiting i \<in> set (bm_workers m) \<Longrightarrow> Awaiting i \<in> set ((bm_workers m)[w := Awaiting (bm_cursor m)])" for i
    using assms(2) by (simp add: set_update_other)
  ultimately show ?thesis
    using True assms(3) unfolding map_inv_def take_item_def
    by (auto simp: less_Suc_eq dest!: set_update_cases)
next
  case False
  have "Awaiting i \<in> set (bm_workers m) \<Longrightarrow> Awaiting i \<in> set ((bm_workers m)[w := Returned])" for i
    using assms(2) by (simp add: set_update_other)
  with False assms(3) show ?thesis
    unfolding map_inv_def take_item_def by (auto dest!: set_update_cases)
qed

lemma settle_item_inv:
  assumes "w < length (bm_workers m)" "bm_workers m ! w = Awaiting i" "map_inv out items m"
  shows "map_inv out items (settle_item w i (out i) m)"
proof -
  have i: "i < bm_cursor m" "i < items" using assms nth_mem [of w "bm_workers m"] by (auto simp: map_inv_def)
  have keep: "Awaiting j \<in> set (bm_workers m) \<Longrightarrow> j \<noteq> i \<Longrightarrow> Awaiting j \<in> set ((bm_workers m)[w := y])" for j y
    using assms(2) by (simp add: set_update_other)
  show ?thesis
  proof (cases "out i")
    case (Inl e)
    then show ?thesis
      using assms(3) i unfolding map_inv_def settle_item_def by (auto dest!: set_update_cases intro: exI [of _ i])
  next
    case (Inr v)
    then show ?thesis
      using assms(3) i keep unfolding map_inv_def settle_item_def
      by (auto simp: nth_list_update dest!: set_update_cases)
  qed
qed

lemma map_step_inv: "map_step out m m' \<Longrightarrow> map_inv out items m \<Longrightarrow> map_inv out items m' \<and> length (bm_workers m') = length (bm_workers m)"
  by (induction rule: map_step.induct)
    (auto simp: take_item_inv settle_item_inv, simp_all add: take_item_def settle_item_def split: sum.splits)

fun worker_weight :: "worker \<Rightarrow> nat" where
  "worker_weight Free = 1"
| "worker_weight (Awaiting i) = 2"
| "worker_weight Returned = 0"

definition map_measure :: "('e, 'o) bounded_map \<Rightarrow> nat" where
  "map_measure m = 3 * (length (bm_results m) - bm_cursor m) +
     sum_list (map worker_weight (bm_workers m))"

lemma weight_update:
  fixes f :: "worker \<Rightarrow> nat"
  assumes "w < length ws"
  shows "sum_list (map f (ws[w := y])) + f (ws ! w) = sum_list (map f ws) + f y"
proof -
  have "f (ws ! w) \<le> sum_list (map f ws)" using assms by (intro member_le_sum_list) simp_all
  then show ?thesis using assms by (simp add: map_update sum_list_update)
qed

lemma map_step_decreases: "map_step out m m' \<Longrightarrow> map_inv out items m \<Longrightarrow> map_measure m' < map_measure m"
proof (induction rule: map_step.induct)
  case (step_take w m)
  note weight = weight_update [OF step_take.hyps(1), of worker_weight]
  from weight [of Returned] weight [of "Awaiting (bm_cursor m)"] step_take.hyps(2)
  show ?case by (auto simp: map_measure_def take_item_def)
next
  case (step_settle w m i)
  note weight = weight_update [OF step_settle.hyps(1), of worker_weight]
  from weight [of Returned] weight [of Free] step_settle.hyps(2)
  show ?case by (auto simp: map_measure_def settle_item_def split: sum.split)
qed

lemma map_start_inv: "map_inv out items (map_start limit items)"
  by (auto simp: map_inv_def map_start_def)

lemma map_run_spec:
  "map_run out n m m' \<Longrightarrow> map_inv out items m \<Longrightarrow>
    map_inv out items m' \<and> length (bm_workers m') = length (bm_workers m) \<and> n + map_measure m' \<le> map_measure m"
proof (induction rule: map_run.induct)
  case (map_run_step n m m' m'')
  then show ?case using map_step_inv [OF map_run_step.hyps(2)] map_step_decreases [OF map_run_step.hyps(2)] by fastforce
qed simp

lemma worker_count_pos: "0 < worker_count limit items \<and> int (worker_count limit items) \<le> max limit 1"
  by (auto simp: worker_count_def)

lemma length_workers [simp]: "length (bm_workers (map_start limit items)) = worker_count limit items"
  by (simp add: map_start_def)

text \<open>C29: Every run of a bounded map, whatever the order in which the items settle, ends: it makes at most
  three steps per item and one per worker, and as long as a worker has not returned a step is possible.\<close>

theorem bounded_map_ends:
  assumes "map_run out n (map_start limit items) m"
  shows "n \<le> 3 * items + worker_count limit items \<and> (map_settled m \<or> (\<exists>m'. map_step out m m'))"
proof -
  have "map_measure (map_start limit items :: ('a, 'b) bounded_map) = 3 * items + worker_count limit items"
    by (simp add: map_measure_def map_start_def sum_list_replicate)
  moreover have "map_settled m \<or> (\<exists>m'. map_step out m m')"
  proof (cases "map_settled m")
    case False
    then obtain w where "w < length (bm_workers m)" "bm_workers m ! w \<noteq> Returned"
      by (auto simp: map_settled_def list_all_length)
    then show ?thesis by (cases "bm_workers m ! w") (auto intro: step_take step_settle)
  qed simp
  ultimately show ?thesis using map_run_spec [OF assms map_start_inv] by simp
qed

text \<open>C30: A bounded map refines the plain map: when all workers have returned it has every outcome at its own
  index, or, when an item is rejected, the rejection of one of the items; and at no time are more items in
  progress than the limit allows.\<close>

theorem bounded_map_refines_map:
  assumes "map_run out n (map_start limit items) m"
  shows "int (length (filter (\<lambda>w. \<exists>i. w = Awaiting i) (bm_workers m))) \<le> max limit 1 \<and>
    (map_settled m \<longrightarrow>
      (if \<forall>i < items. \<exists>v. out i = Inr v
       then mapWithConcurrencyLimit m = Inr (map (\<lambda>i. Some (projr (out i))) [0..<items])
       else \<exists>i < items. \<exists>e. out i = Inl e \<and> mapWithConcurrencyLimit m = Inl e))"
proof -
  have inv: "map_inv out items m" and len: "length (bm_workers m) = worker_count limit items"
    using map_run_spec [OF assms map_start_inv] by simp_all
  have "length (filter (\<lambda>w. \<exists>i. w = Awaiting i) (bm_workers m)) \<le> worker_count limit items"
    using length_filter_le len by metis
  then have bound: "int (length (filter (\<lambda>w. \<exists>i. w = Awaiting i) (bm_workers m))) \<le> max limit 1"
    using worker_count_pos [of limit items] by linarith
  show ?thesis
  proof (intro conjI impI bound)
    assume fin: "map_settled m"
    have ret: "Returned \<in> set (bm_workers m)"
      using fin len worker_count_pos [of limit items] by (cases "bm_workers m") (auto simp: map_settled_def)
    have no: "Awaiting i \<notin> set (bm_workers m)" for i using fin by (auto simp: map_settled_def list_all_iff)
    have all: "bm_failure m = None \<Longrightarrow> i < items \<Longrightarrow> \<exists>v. bm_results m ! i = Some v \<and> out i = Inr v" for i
      using inv ret no unfolding map_inv_def by (metis not_None_eq option.inject option.simps(9))
    show "if \<forall>i < items. \<exists>v. out i = Inr v
       then mapWithConcurrencyLimit m = Inr (map (\<lambda>i. Some (projr (out i))) [0..<items])
       else \<exists>i < items. \<exists>e. out i = Inl e \<and> mapWithConcurrencyLimit m = Inl e"
    proof (cases "bm_failure m")
      case (Some e)
      then obtain i where "i < items" "out i = Inl e" using inv by (auto simp: map_inv_def)
      then show ?thesis using Some by (auto simp: mapWithConcurrencyLimit_def)
    next
      case None
      have "bm_results m = map (\<lambda>i. Some (projr (out i))) [0..<items]"
      proof (rule nth_equalityI)
        show "length (bm_results m) = length (map (\<lambda>i. Some (projr (out i))) [0..<items])"
          using inv by (simp add: map_inv_def)
        fix i assume "i < length (bm_results m)"
        then show "bm_results m ! i = map (\<lambda>i. Some (projr (out i))) [0..<items] ! i"
          using all [OF None, of i] inv by (auto simp: map_inv_def)
      qed
      then show ?thesis using None all [OF None] by (auto simp: mapWithConcurrencyLimit_def)
    qed
  qed
qed

section \<open>Witnesses\<close>

definition demo_pool :: "int \<Rightarrow> nat list \<Rightarrow> nat list \<Rightarrow> nat list \<Rightarrow> nat list \<Rightarrow> nat work" where
  "demo_pool active waiters holders arrived granted =
     \<lparr>pl_limit = 1, pl_activeWork = active, pl_waiters = waiters, wk_holders = holders, wk_arrived = arrived, wk_granted = granted\<rparr>"

lemma demo_arrivals: "work_run (work_init 1) [Arrive 1, Arrive 2] (demo_pool 1 [2] [1] [1, 2] [1])"
proof -
  have init: "work_init 1 = demo_pool 0 [] [] [] []"
    by (simp add: work_init_def newPool_def pool.defs demo_pool_def)
  have "work_step (demo_pool 0 [] [] [] []) (Arrive 1) (demo_pool 1 [] [1] [1] [1])"
    using arrive_now [of 1 "demo_pool 0 [] [] [] []"] by (simp add: demo_pool_def pool_defs)
  then have one: "work_run (work_init 1) [Arrive 1] (demo_pool 1 [] [1] [1] [1])"
    using run_step [OF run_start] unfolding init by force
  have "work_step (demo_pool 1 [] [1] [1] [1]) (Arrive 2) (demo_pool 1 [2] [1] [1, 2] [1])"
    using arrive_waits [of 2 "demo_pool 1 [] [1] [1] [1]"] by (simp add: demo_pool_def pool_defs)
  from run_step [OF one this] show ?thesis by simp
qed

lemma demo_settled: "work_run (demo_pool 1 [2] [1] [1, 2] [1]) [Settle 1] (demo_pool 1 [] [2] [1, 2] [1, 2])"
proof -
  have "work_step (demo_pool 1 [2] [1] [1, 2] [1]) (Settle 1) (demo_pool 1 [] [2] [1, 2] [1, 2])"
    using settle_transfers [of 1 "demo_pool 1 [2] [1] [1, 2] [1]"] by (simp add: demo_pool_def pool_defs)
  from run_step [OF run_start this] show ?thesis by simp
qed

theorem permits_bounded_fifo_witness:
  "int (length (wk_holders (demo_pool 1 [2] [1] [1, 2] [1]))) \<le> 1"
  using permits_bounded_fifo [OF _ demo_arrivals] by simp

theorem waiters_are_served_witness:
  "wk_granted (demo_pool 1 [] [2] [1, 2] [1, 2]) ! 1 = 2"
  using waiters_are_served [OF _ demo_arrivals _ demo_settled, of 0]
  by (simp add: settles_def demo_pool_def)

definition demo_out :: "nat \<Rightarrow> string + nat" where
  "demo_out i = Inr (i + 10)"

lemma demo_map_run:
  "map_run demo_out 3 (map_start 2 1)
     \<lparr>bm_results = [Some 10], bm_cursor = 1, bm_failure = None, bm_workers = [Returned]\<rparr>"
proof -
  let ?s = "\<lambda>r c w. \<lparr>bm_results = [r], bm_cursor = c, bm_failure = None, bm_workers = [w]\<rparr> :: (string, nat) bounded_map"
  have init: "map_start 2 1 = ?s None 0 Free" by (simp add: map_start_def worker_count_def)
  have 1: "map_step demo_out (?s None 0 Free) (?s None 1 (Awaiting 0))"
    using map_step.step_take [of 0 "?s None 0 Free" demo_out] by (simp add: take_item_def)
  have 2: "map_step demo_out (?s None 1 (Awaiting 0)) (?s (Some 10) 1 Free)"
    using map_step.step_settle [of 0 "?s None 1 (Awaiting 0)" 0 demo_out] by (simp add: settle_item_def demo_out_def)
  have 3: "map_step demo_out (?s (Some 10) 1 Free) (?s (Some 10) 1 Returned)"
    using map_step.step_take [of 0 "?s (Some 10) 1 Free" demo_out] by (simp add: take_item_def)
  show ?thesis
    using map_run_step [OF map_run_step [OF map_run_step [OF map_run_start 1] 2] 3] init by (simp add: numeral_3_eq_3)
qed

theorem bounded_map_ends_witness: "(3 :: nat) \<le> 3 * 1 + worker_count 2 1"
  using bounded_map_ends [OF demo_map_run] by simp

theorem bounded_map_refines_map_witness:
  "mapWithConcurrencyLimit \<lparr>bm_results = [Some 10], bm_cursor = 1, bm_failure = None, bm_workers = [Returned]\<rparr>
    = (Inr [Some 10] :: string + nat option list)"
  using bounded_map_refines_map [OF demo_map_run] by (simp add: map_settled_def demo_out_def)

end
