(* ===== verification/HookGate.thy ===== *)
theory HookGate
  imports Admission
begin

text \<open>
  The shared gate of hook chains, \<open>SharedHookGate\<close> of helpers/concurrency.ts of packages/access-router. Outside a
  hook a call takes a root permit; inside a live hook of the same gate it is admitted as the one child branch of that
  hook's frame. A frame closes when its operation settles and returns its permit when its children have returned.

  Calls are numbered. The asynchronous context of a call is the list of the frames around it, innermost first, each
  with the gate that owns it. What happens between two awaits is one step; steps of different calls interleave in any
  order, so that the order of promise callbacks is not fixed.
\<close>

record hook_frame =
  hf_depth :: nat
  hf_open :: bool
  hf_children :: "nat pool"
  hf_pending :: int

text \<open>
  A call waits for its permit, runs its operation, drains its children after the operation settled, has given its
  permit back (a nested call still has to tell its parent) or has returned.
\<close>

datatype hook_phase = Queued | Running | Draining | Released | Complete

record hook_call =
  hc_owner :: "nat option"
  hc_phase :: hook_phase

record hook_gate =
  hg_roots :: "nat pool"
  hg_frames :: "nat \<Rightarrow> hook_frame option"
  hg_calls :: "nat \<Rightarrow> hook_call option"

definition MAX_HOOK_DEPTH :: nat where
  "MAX_HOOK_DEPTH = 64"

definition newHookGate :: "jsval \<Rightarrow> hook_gate" where
  "newHookGate limit = \<lparr>hg_roots = newPool (normalizeHookConcurrencyLimit limit (of_integer 10)),
     hg_frames = (\<lambda>_. None), hg_calls = (\<lambda>_. None)\<rparr>"

text \<open>The innermost frame of this gate in a context, when it is open.\<close>

definition live_parent :: "'g \<Rightarrow> ('g \<times> nat) list \<Rightarrow> hook_gate \<Rightarrow> (nat \<times> hook_frame) option" where
  "live_parent this ctxt s =
     (case dropWhile (\<lambda>f. fst f \<noteq> this) ctxt of
        [] \<Rightarrow> None
      | (_, p) # _ \<Rightarrow>
          (case hg_frames s p of
             None \<Rightarrow> None
           | Some f \<Rightarrow> if hf_open f then Some (p, f) else None))"

text \<open>The start of \<open>invoke\<close>: a new frame, and the operation runs.\<close>

definition invoke_begin :: "nat \<Rightarrow> nat option \<Rightarrow> nat \<Rightarrow> hook_gate \<Rightarrow> hook_gate" where
  "invoke_begin c parent depth s = s\<lparr>
     hg_frames := (hg_frames s)(c \<mapsto> \<lparr>hf_depth = depth, hf_open = True, hf_children = newPool 1, hf_pending = 0\<rparr>),
     hg_calls := (hg_calls s)(c \<mapsto> \<lparr>hc_owner = parent, hc_phase = Running\<rparr>)\<rparr>"

definition depth_below :: "nat option \<Rightarrow> hook_gate \<Rightarrow> nat" where
  "depth_below parent s =
     (case parent of None \<Rightarrow> 1
      | Some p \<Rightarrow> (case hg_frames s p of None \<Rightarrow> 1 | Some f \<Rightarrow> hf_depth f + 1))"

text \<open>The pool that admits the calls below a parent.\<close>

definition pool_at :: "nat option \<Rightarrow> hook_gate \<Rightarrow> nat pool" where
  "pool_at parent s =
     (case parent of None \<Rightarrow> hg_roots s
      | Some p \<Rightarrow> (case hg_frames s p of None \<Rightarrow> newPool 1 | Some f \<Rightarrow> hf_children f))"

definition set_pool :: "nat option \<Rightarrow> nat pool \<Rightarrow> hook_gate \<Rightarrow> hook_gate" where
  "set_pool parent q s =
     (case parent of None \<Rightarrow> s\<lparr>hg_roots := q\<rparr>
      | Some p \<Rightarrow> s\<lparr>hg_frames := (hg_frames s)(p := map_option (\<lambda>f. f\<lparr>hf_children := q\<rparr>) (hg_frames s p))\<rparr>)"

definition add_pending :: "nat \<Rightarrow> int \<Rightarrow> hook_gate \<Rightarrow> hook_gate" where
  "add_pending p n s =
     s\<lparr>hg_frames := (hg_frames s)(p := map_option (\<lambda>f. f\<lparr>hf_pending := hf_pending f + n\<rparr>) (hg_frames s p))\<rparr>"

text \<open>Entering a pool: the operation is invoked at once, or the call waits.\<close>

definition enter_pool :: "nat \<Rightarrow> nat option \<Rightarrow> hook_gate \<Rightarrow> hook_gate" where
  "enter_pool c parent s =
     (let (q, now) = run_enter c (pool_at parent s); s1 = set_pool parent q s
      in if now then invoke_begin c parent (depth_below parent s) s1
         else s1\<lparr>hg_calls := (hg_calls s1)(c \<mapsto> \<lparr>hc_owner = parent, hc_phase = Queued\<rparr>)\<rparr>)"

text \<open>The start of \<open>run\<close>; \<open>None\<close> is the \<open>RangeError\<close> of a chain that is too deep.\<close>

definition hook_run :: "'g \<Rightarrow> ('g \<times> nat) list \<Rightarrow> nat \<Rightarrow> hook_gate \<Rightarrow> hook_gate option" where
  "hook_run this ctxt c s =
     (case live_parent this ctxt s of
        None \<Rightarrow> Some (enter_pool c None s)
      | Some (p, f) \<Rightarrow>
          if hf_depth f \<ge> MAX_HOOK_DEPTH then None
          else Some (enter_pool c (Some p) (add_pending p 1 s)))"

text \<open>The operation of a call settles: its frame takes no more children.\<close>

definition hook_settle :: "nat \<Rightarrow> hook_gate \<Rightarrow> hook_gate" where
  "hook_settle c s = s\<lparr>
     hg_frames := (hg_frames s)(c := map_option (\<lambda>f. f\<lparr>hf_open := False\<rparr>) (hg_frames s c)),
     hg_calls := (hg_calls s)(c := map_option (\<lambda>h. h\<lparr>hc_phase := Draining\<rparr>) (hg_calls s c))\<rparr>"

text \<open>The drained call gives its permit back, to the oldest waiter of its pool if there is one.\<close>

definition hook_release :: "nat \<Rightarrow> nat option \<Rightarrow> hook_gate \<Rightarrow> hook_gate" where
  "hook_release c parent s =
     (let (q, nxt) = run_finally (pool_at parent s); s1 = set_pool parent q s;
          s2 = s1\<lparr>hg_calls := (hg_calls s1)(c \<mapsto>
                 \<lparr>hc_owner = parent, hc_phase = (if parent = None then Complete else Released)\<rparr>)\<rparr>
      in case nxt of None \<Rightarrow> s2 | Some w \<Rightarrow> invoke_begin w parent (depth_below parent s) s2)"

text \<open>A nested call returns: the \<open>finally\<close> block of \<open>run\<close>.\<close>

definition hook_return :: "nat \<Rightarrow> nat \<Rightarrow> hook_gate \<Rightarrow> hook_gate" where
  "hook_return c p s =
     (add_pending p (- 1) s)\<lparr>hg_calls := (hg_calls s)(c \<mapsto> \<lparr>hc_owner = Some p, hc_phase = Complete\<rparr>)\<rparr>"

text \<open>One step of one call.\<close>

datatype 'g hook_event = Call "('g \<times> nat) list" nat | Settles nat | Releases nat | Returns nat

definition in_phase :: "hook_gate \<Rightarrow> nat \<Rightarrow> nat option \<Rightarrow> hook_phase \<Rightarrow> bool" where
  "in_phase s c parent ph \<longleftrightarrow> hg_calls s c = Some \<lparr>hc_owner = parent, hc_phase = ph\<rparr>"

inductive hook_step :: "'g \<Rightarrow> hook_gate \<Rightarrow> 'g hook_event \<Rightarrow> hook_gate \<Rightarrow> bool" for this where
  step_call: "hg_calls s c = None \<Longrightarrow> hook_run this ctxt c s = Some s' \<Longrightarrow> hook_step this s (Call ctxt c) s'"
| step_refused: "hg_calls s c = None \<Longrightarrow> hook_run this ctxt c s = None \<Longrightarrow> hook_step this s (Call ctxt c) s"
| step_settle: "in_phase s c parent Running \<Longrightarrow> hook_step this s (Settles c) (hook_settle c s)"
| step_release: "in_phase s c parent Draining \<Longrightarrow> hg_frames s c = Some f \<Longrightarrow> hf_pending f = 0 \<Longrightarrow>
    hook_step this s (Releases c) (hook_release c parent s)"
| step_return: "in_phase s c (Some p) Released \<Longrightarrow> hook_step this s (Returns c) (hook_return c p s)"

inductive hook_reachable :: "'g \<Rightarrow> jsval \<Rightarrow> hook_gate \<Rightarrow> bool" for this limit where
  gate_start: "hook_reachable this limit (newHookGate limit)"
| gate_step: "hook_reachable this limit s \<Longrightarrow> hook_step this s e s' \<Longrightarrow> hook_reachable this limit s'"

section \<open>The invariant\<close>

definition phase_of :: "hook_gate \<Rightarrow> nat \<Rightarrow> hook_phase option" where
  "phase_of s c = map_option hc_phase (hg_calls s c)"

definition below :: "hook_gate \<Rightarrow> nat option \<Rightarrow> hook_phase set \<Rightarrow> nat set" where
  "below s parent phs = {c. \<exists>ph\<in>phs. in_phase s c parent ph}"

abbreviation active :: "hook_gate \<Rightarrow> nat option \<Rightarrow> nat set" where
  "active s parent \<equiv> below s parent {Running, Draining}"

definition pool_ok :: "int \<Rightarrow> hook_gate \<Rightarrow> nat option \<Rightarrow> bool" where
  "pool_ok limit s parent \<longleftrightarrow>
     pl_limit (pool_at parent s) = limit \<and> pl_activeWork (pool_at parent s) = int (card (active s parent)) \<and>
     int (card (active s parent)) \<le> limit \<and>
     distinct (pl_waiters (pool_at parent s)) \<and> set (pl_waiters (pool_at parent s)) = below s parent {Queued} \<and>
     (pl_waiters (pool_at parent s) \<noteq> [] \<longrightarrow> int (card (active s parent)) = limit)"

text \<open>
  The pools count the active calls below them; a frame is there as long as its call was admitted, counts the calls below
  it that have not returned, and is open while its operation runs; a call that has not returned has an active parent.
\<close>

definition pools_ok :: "int \<Rightarrow> hook_gate \<Rightarrow> bool" where
  "pools_ok limit s \<longleftrightarrow> pool_ok limit s None \<and> (\<forall>p. hg_frames s p \<noteq> None \<longrightarrow> pool_ok 1 s (Some p))"

definition unreturned :: "hook_gate \<Rightarrow> nat \<Rightarrow> nat set" where
  "unreturned s p = below s (Some p) {Queued, Running, Draining, Released}"

definition frames_ok :: "hook_gate \<Rightarrow> bool" where
  "frames_ok s \<longleftrightarrow>
     (\<forall>c. hg_frames s c = None \<longleftrightarrow> phase_of s c = None \<or> phase_of s c = Some Queued) \<and>
     (\<forall>p f. hg_frames s p = Some f \<longrightarrow>
        hf_pending f = int (card (unreturned s p)) \<and> (hf_open f \<longleftrightarrow> phase_of s p = Some Running))"

definition parents_ok :: "hook_gate \<Rightarrow> bool" where
  "parents_ok s \<longleftrightarrow>
     (\<forall>c p ph. in_phase s c (Some p) ph \<longrightarrow>
        hg_frames s p \<noteq> None \<and> (ph = Complete \<or> phase_of s p = Some Running \<or> phase_of s p = Some Draining))"

definition depths_ok :: "hook_gate \<Rightarrow> bool" where
  "depths_ok s \<longleftrightarrow>
     (\<forall>c parent ph. in_phase s c parent ph \<longrightarrow> depth_below parent s \<le> MAX_HOOK_DEPTH) \<and>
     (\<forall>c parent ph f. in_phase s c parent ph \<and> hg_frames s c = Some f \<longrightarrow> hf_depth f = depth_below parent s)"

definition gate_inv :: "int \<Rightarrow> hook_gate \<Rightarrow> bool" where
  "gate_inv limit s \<longleftrightarrow> 1 \<le> limit \<and> finite (dom (hg_calls s)) \<and> pools_ok limit s \<and> frames_ok s \<and> parents_ok s \<and> depths_ok s"

lemma phase_update:
  assumes "hg_calls s' = (hg_calls s)(c \<mapsto> \<lparr>hc_owner = q, hc_phase = ph\<rparr>)"
  shows "phase_of s' d = (if d = c then Some ph else phase_of s d)"
    and "in_phase s' d q' ph' \<longleftrightarrow> (if d = c then q' = q \<and> ph' = ph else in_phase s d q' ph')"
    and "below s' parent phs = (if parent = q \<and> ph \<in> phs then insert c (below s parent phs) else below s parent phs - {c})"
  using assms by (auto simp: phase_of_def in_phase_def below_def)

lemma in_phase_of: "in_phase s c parent ph \<Longrightarrow> phase_of s c = Some ph"
  by (simp add: in_phase_def phase_of_def)

lemma phase_of_in: "phase_of s c = Some ph \<Longrightarrow> \<exists>parent. in_phase s c parent ph"
  by (auto simp: in_phase_def phase_of_def) (metis hook_call.surjective old.unit.exhaust)

lemma in_phase_unique: "in_phase s c parent ph \<Longrightarrow> in_phase s c q ph' \<longleftrightarrow> q = parent \<and> ph' = ph"
  by (auto simp: in_phase_def)

lemma in_phase_below: "in_phase s c parent ph \<Longrightarrow> c \<in> below s q phs \<longleftrightarrow> q = parent \<and> ph \<in> phs"
  by (auto simp: in_phase_def below_def)

lemma finite_below [simp]: "finite (dom (hg_calls s)) \<Longrightarrow> finite (below s parent phs)"
  by (rule finite_subset [of _ "dom (hg_calls s)"]) (auto simp: below_def in_phase_def)

lemma pool_at_eq: "pool_at parent s' = pool_at parent s" if "hg_roots s' = hg_roots s"
    "\<And>p. parent = Some p \<Longrightarrow> map_option hf_children (hg_frames s' p) = map_option hf_children (hg_frames s p)"
  using that by (cases parent) (auto simp: pool_at_def split: option.splits)

lemma depth_below_eq: "depth_below parent s' = depth_below parent s"
  if "\<And>p. parent = Some p \<Longrightarrow> map_option hf_depth (hg_frames s' p) = map_option hf_depth (hg_frames s p)"
  using that by (cases parent) (auto simp: depth_below_def split: option.splits)

lemma card_less_one:
  assumes "c \<in> A" "finite A"
  shows "int (card A - Suc 0) = int (card A) - 1" "Suc (card A - Suc 0) = card A"
  using assms by (cases "card A"; auto simp: card_eq_0_iff)+

text \<open>Settling.\<close>

lemma settle_inv:
  assumes inv: "gate_inv limit s" and c: "in_phase s c parent Running"
  shows "gate_inv limit (hook_settle c s)"
proof -
  let ?s = "hook_settle c s"
  have calls: "hg_calls ?s = (hg_calls s)(c \<mapsto> \<lparr>hc_owner = parent, hc_phase = Draining\<rparr>)"
    using c by (simp add: hook_settle_def in_phase_def)
  have frames: "hg_frames ?s = (hg_frames s)(c := map_option (\<lambda>f. f\<lparr>hf_open := False\<rparr>) (hg_frames s c))"
    by (simp add: hook_settle_def)
  have none: "hg_frames ?s p = None \<longleftrightarrow> hg_frames s p = None" for p by (simp add: frames)
  note ph = phase_update [OF calls]
  have same: "below ?s q phs = below s q phs" if "Running \<in> phs \<longleftrightarrow> Draining \<in> phs" for q phs
    using in_phase_below [OF c] that by (auto simp: ph)
  have pool: "pool_at q ?s = pool_at q s" for q
    by (rule pool_at_eq) (simp_all add: hook_settle_def option.map_comp comp_def)
  have depth: "depth_below q ?s = depth_below q s" for q
    by (rule depth_below_eq) (simp add: frames option.map_comp comp_def)
  have pools: "pool_ok n ?s q = pool_ok n s q" for n q by (simp add: pool_ok_def pool same)
  show ?thesis
    unfolding gate_inv_def
  proof (intro conjI)
    show "1 \<le> limit" "finite (dom (hg_calls ?s))" using inv by (simp_all add: gate_inv_def calls)
    show "pools_ok limit ?s" using inv by (simp add: gate_inv_def pools_ok_def pools none)
    have unr: "unreturned ?s q = unreturned s q" for q by (simp add: unreturned_def same)
    show "frames_ok ?s"
      using inv in_phase_of [OF c]
      by (auto simp: gate_inv_def frames_ok_def none unr ph frames split: if_splits)
    have old: "hg_frames s p \<noteq> None \<and> (k = Complete \<or> phase_of s p = Some Running \<or> phase_of s p = Some Draining)"
      if "in_phase s d (Some p) k" for d p k
      using inv that by (auto simp: gate_inv_def parents_ok_def)
    show "parents_ok ?s"
      unfolding parents_ok_def
    proof (intro allI impI)
      fix d p k assume d: "in_phase ?s d (Some p) k"
      show "hg_frames ?s p \<noteq> None \<and> (k = Complete \<or> phase_of ?s p = Some Running \<or> phase_of ?s p = Some Draining)"
      proof (cases "d = c")
        case True
        with d c have "in_phase s c (Some p) Running" by (simp add: ph)
        from old [OF this] show ?thesis by (auto simp: none ph)
      next
        case False
        with d have "in_phase s d (Some p) k" by (simp add: ph)
        from old [OF this] show ?thesis by (auto simp: none ph)
      qed
    qed
    show "depths_ok ?s"
      using inv c by (auto simp: gate_inv_def depths_ok_def frames depth ph split: if_splits)
  qed
qed


text \<open>
  What the other steps do to the frames: the pool below a parent changes, its count of pending calls too, and a call may
  begin there.
\<close>

definition frames_change :: "hook_gate \<Rightarrow> hook_gate \<Rightarrow> nat option \<Rightarrow> nat pool \<Rightarrow> int \<Rightarrow> nat option \<Rightarrow> bool" where
  "frames_change s s' parent q n nxt \<longleftrightarrow>
     hg_roots s' = (if parent = None then q else hg_roots s) \<and>
     (\<forall>p. hg_frames s' p =
        (if nxt = Some p
         then Some \<lparr>hf_depth = depth_below parent s, hf_open = True, hf_children = newPool 1, hf_pending = 0\<rparr>
         else map_option (\<lambda>f. if parent = Some p then f\<lparr>hf_children := q, hf_pending := hf_pending f + n\<rparr> else f)
                (hg_frames s p)))"

lemma frames_change_pool:
  assumes ch: "frames_change s s' parent q n nxt" and "\<And>p. parent = Some p \<Longrightarrow> hg_frames s p \<noteq> None" and "nxt = None \<or> parent \<noteq> nxt"
  shows "pool_at r s' = (if r = parent then q else if r \<noteq> None \<and> r = nxt then newPool 1 else pool_at r s)"
proof (cases r)
  case None
  with ch show ?thesis by (simp add: frames_change_def pool_at_def)
next
  case (Some p)
  then show ?thesis using assms by (auto simp: frames_change_def pool_at_def split: option.splits)
qed

lemma frames_change_depth:
  assumes ch: "frames_change s s' parent q n nxt" and "nxt = None \<or> r \<noteq> nxt"
  shows "depth_below r s' = depth_below r s"
proof (rule depth_below_eq)
  fix p assume "r = Some p"
  with assms have "nxt \<noteq> Some p" by auto
  with ch show "map_option hf_depth (hg_frames s' p) = map_option hf_depth (hg_frames s p)"
    by (auto simp: frames_change_def option.map_comp comp_def intro: option.map_cong)
qed

lemma frames_change_none:
  "frames_change s s' parent q n nxt \<Longrightarrow> hg_frames s' p = None \<longleftrightarrow> nxt \<noteq> Some p \<and> hg_frames s p = None"
  by (auto simp: frames_change_def)

text \<open>The calls that such a step may move: all of them below the parent, and none with calls of its own to wait for.\<close>

definition calls_change :: "hook_gate \<Rightarrow> hook_gate \<Rightarrow> nat option \<Rightarrow> nat option \<Rightarrow> nat set \<Rightarrow> bool" where
  "calls_change s s' parent nxt C \<longleftrightarrow>
     finite C \<and> (\<forall>d. d \<notin> C \<longrightarrow> hg_calls s' d = hg_calls s d) \<and>
     (\<forall>d\<in>C. parent \<noteq> Some d \<and> (\<forall>q k. in_phase s d q k \<longrightarrow> q = parent \<and> k \<noteq> Running) \<and> unreturned s d = {}) \<and>
     (\<forall>d\<in>C. \<exists>k. in_phase s' d parent k \<and> (k = Queued \<longleftrightarrow> hg_frames s' d = None) \<and> (k = Running \<longleftrightarrow> nxt = Some d)) \<and>
     (\<forall>w. nxt = Some w \<longrightarrow> w \<in> C \<and> hg_frames s w = None)"

lemma calls_change_other:
  assumes "calls_change s s' parent nxt C" "q \<noteq> parent"
  shows "below s' q phs = below s q phs"
proof -
  have "in_phase s' d q k \<longleftrightarrow> in_phase s d q k" for d k
  proof (cases "d \<in> C")
    case True
    with assms have "\<not> in_phase s d q k" by (auto simp: calls_change_def)
    moreover from True assms obtain k' where "in_phase s' d parent k'" by (auto simp: calls_change_def)
    ultimately show ?thesis using assms(2) by (simp add: in_phase_unique)
  next
    case False
    with assms show ?thesis by (simp add: calls_change_def in_phase_def)
  qed
  then show ?thesis by (simp add: below_def)
qed

lemma calls_change_phase: "calls_change s s' parent nxt C \<Longrightarrow> d \<notin> C \<Longrightarrow> phase_of s' d = phase_of s d \<and> in_phase s' d q k = in_phase s d q k"
  by (simp add: calls_change_def phase_of_def in_phase_def)

lemma no_frame_no_child: "parents_ok s \<Longrightarrow> hg_frames s p = None \<Longrightarrow> below s (Some p) phs = {}"
  unfolding parents_ok_def below_def by blast


lemma change_inv:
  assumes inv: "gate_inv limit s" and fr: "frames_change s s' parent q n nxt" and ca: "calls_change s s' parent nxt C"
    and par: "\<And>p. parent = Some p \<Longrightarrow> hg_frames s p \<noteq> None \<and> (phase_of s p = Some Running \<or> phase_of s p = Some Draining)"
    and depth: "depth_below parent s \<le> MAX_HOOK_DEPTH"
    and pool: "pool_ok (if parent = None then limit else 1) s' parent"
    and pending: "\<And>p. parent = Some p \<Longrightarrow> int (card (unreturned s' p)) = int (card (unreturned s p)) + n"
  shows "gate_inv limit s'"
proof -
  have lim: "1 \<le> limit" and fin: "finite (dom (hg_calls s))" and pools: "pools_ok limit s" and frames: "frames_ok s"
    and parents: "parents_ok s" and depths: "depths_ok s"
    using inv by (simp_all add: gate_inv_def)
  have sep: "nxt = None \<or> parent \<noteq> nxt" and new: "\<And>w. nxt = Some w \<Longrightarrow> w \<in> C \<and> hg_frames s w = None"
    using ca by (auto simp: calls_change_def)
  have finC: "finite C" and out: "\<And>d. d \<notin> C \<Longrightarrow> hg_calls s' d = hg_calls s d"
    using ca by (auto simp: calls_change_def)
  note none = frames_change_none [OF fr] and other = calls_change_other [OF ca] and same = calls_change_phase [OF ca]
  have at: "pool_at r s' = (if r = parent then q else if r \<noteq> None \<and> r = nxt then newPool 1 else pool_at r s)" for r
    by (rule frames_change_pool [OF fr _ sep]) (use par in blast)
  have dep: "depth_below r s' = depth_below r s" if "nxt = None \<or> r \<noteq> nxt" for r
    by (rule frames_change_depth [OF fr that])
  have moved: "\<exists>k. in_phase s' d parent k \<and> (k = Queued \<longleftrightarrow> hg_frames s' d = None) \<and> (k = Running \<longleftrightarrow> nxt = Some d)"
    if "d \<in> C" for d
    using ca that by (auto simp: calls_change_def)
  have was: "parent \<noteq> Some d \<and> phase_of s d \<noteq> Some Running \<and> unreturned s d = {}" if "d \<in> C" for d
    using ca that by (fastforce simp: calls_change_def dest!: phase_of_in)
  have childless: "below s' (Some w) phs = {}" if "nxt = Some w" for w phs
    using other [of "Some w" phs] no_frame_no_child [OF parents] new [OF that] sep that by auto
  have "dom (hg_calls s') \<subseteq> dom (hg_calls s) \<union> C" using out by (auto simp: dom_def)
  then have fin': "finite (dom (hg_calls s'))" using fin finC by (meson finite_UnI finite_subset)
  have "pool_ok m s' r" if "r \<noteq> parent" "r = None \<or> r \<noteq> nxt" "pool_ok m s r" for m r
    using that by (auto simp: pool_ok_def at other)
  moreover have "pool_ok 1 s' (Some w)" if "nxt = Some w" for w
    using that sep by (auto simp: pool_ok_def at childless newPool_def)
  ultimately have pools': "pools_ok limit s'"
    using pools pool sep unfolding pools_ok_def none by (metis option.distinct(1))
  have frame: "hf_pending f = int (card (unreturned s p)) \<and> (hf_open f \<longleftrightarrow> phase_of s p = Some Running)"
    if "hg_frames s p = Some f" for p f
    using frames that by (simp add: frames_ok_def)
  have "hg_frames s' d = None \<longleftrightarrow> phase_of s' d = None \<or> phase_of s' d = Some Queued" for d
  proof (cases "d \<in> C")
    case True
    then show ?thesis using moved [OF True] by (auto dest!: in_phase_of)
  next
    case False
    with new same [OF False] frames show ?thesis by (auto simp: frames_ok_def none)
  qed
  moreover have "hf_pending f = int (card (unreturned s' p)) \<and> (hf_open f \<longleftrightarrow> phase_of s' p = Some Running)"
    if f: "hg_frames s' p = Some f" for p f
  proof (cases "nxt = Some p")
    case True
    with fr f have "hf_pending f = 0 \<and> hf_open f" by (auto simp: frames_change_def)
    moreover from moved [of p] new [OF True] True have "phase_of s' p = Some Running" by (auto dest!: in_phase_of)
    ultimately show ?thesis by (simp add: unreturned_def childless [OF True])
  next
    case False
    with fr f obtain g where g: "hg_frames s p = Some g"
      and fg: "f = (if parent = Some p then g\<lparr>hf_children := q, hf_pending := hf_pending g + n\<rparr> else g)"
      by (auto simp: frames_change_def)
    have "hf_open f = hf_open g" by (simp add: fg)
    moreover have "phase_of s' p = Some Running \<longleftrightarrow> phase_of s p = Some Running"
      using moved [of p] was [of p] same [of p] False by (cases "p \<in> C") (auto dest!: in_phase_of)
    moreover have "hf_pending f = int (card (unreturned s' p))"
    proof (cases "parent = Some p")
      case True
      with frame [OF g] pending [OF True] show ?thesis by (simp add: fg)
    next
      case False
      then have "Some p \<noteq> parent" by auto
      from other [OF this] frame [OF g] False show ?thesis by (simp add: fg unreturned_def)
    qed
    ultimately show ?thesis using frame [OF g] by simp
  qed
  ultimately have frames': "frames_ok s'" unfolding frames_ok_def by blast
  have active: "phase_of s' p = Some Running \<or> phase_of s' p = Some Draining"
    if "phase_of s p = Some Running \<or> phase_of s p = Some Draining" "unreturned s p \<noteq> {} \<or> parent = Some p" for p
    using that was [of p] same [of p] by (cases "p \<in> C") auto
  have "hg_frames s' p \<noteq> None \<and> (k = Complete \<or> phase_of s' p = Some Running \<or> phase_of s' p = Some Draining)"
    if d: "in_phase s' d (Some p) k" for d p k
  proof (cases "d \<in> C")
    case True
    with moved [OF True] d have "parent = Some p" by (auto simp: in_phase_unique)
    with par [OF this] active [of p] show ?thesis by (auto simp: none)
  next
    case False
    with d same have old: "in_phase s d (Some p) k" by simp
    with parents have "hg_frames s p \<noteq> None \<and> (k = Complete \<or> phase_of s p = Some Running \<or> phase_of s p = Some Draining)"
      unfolding parents_ok_def by blast
    moreover have "unreturned s p \<noteq> {}" if "k \<noteq> Complete"
      using old that by (cases k) (auto simp: unreturned_def below_def)
    ultimately show ?thesis using active [of p] by (auto simp: none)
  qed
  then have parents': "parents_ok s'" unfolding parents_ok_def by blast
  have at_parent: "depth_below r s' = depth_below r s" if "in_phase s' d r k" for d r k
  proof (rule dep)
    show "nxt = None \<or> r \<noteq> nxt"
    proof (cases "d \<in> C")
      case True
      with moved [OF True] that sep show ?thesis by (auto simp: in_phase_unique)
    next
      case False
      with that same have "in_phase s d r k" by simp
      with parents new show ?thesis unfolding parents_ok_def by (metis option.exhaust)
    qed
  qed
  have "depth_below r s' \<le> MAX_HOOK_DEPTH \<and> (hg_frames s' d = Some f \<longrightarrow> hf_depth f = depth_below r s')"
    if d: "in_phase s' d r k" for d r k f
  proof (intro conjI impI)
    have old: "\<exists>k'. in_phase s d r k'" if "d \<notin> C \<or> hg_frames s d \<noteq> None"
    proof (cases "d \<in> C")
      case True
      with that frames obtain q' k' where s: "in_phase s d q' k'"
        unfolding frames_ok_def by (metis option.exhaust phase_of_in)
      moreover have "q' = parent" using s ca True by (auto simp: calls_change_def)
      moreover have "r = parent" using moved [OF True] d by (auto simp: in_phase_unique)
      ultimately show ?thesis by blast
    next
      case False
      with d same show ?thesis by blast
    qed
    show "depth_below r s' \<le> MAX_HOOK_DEPTH"
    proof (cases "d \<in> C")
      case True
      then have "r = parent" using moved [OF True] d by (auto simp: in_phase_unique)
      with depth at_parent [OF d] show ?thesis by simp
    next
      case False
      with old depths at_parent [OF d] show ?thesis unfolding depths_ok_def by metis
    qed
    assume f: "hg_frames s' d = Some f"
    show "hf_depth f = depth_below r s'"
    proof (cases "nxt = Some d")
      case True
      with new [OF True] moved [of d] d have "r = parent" by (auto simp: in_phase_unique)
      with True fr f at_parent [OF d] show ?thesis by (auto simp: frames_change_def)
    next
      case False
      with fr f obtain g where g: "hg_frames s d = Some g" "hf_depth f = hf_depth g" by (auto simp: frames_change_def)
      with old depths at_parent [OF d] show ?thesis unfolding depths_ok_def by (metis option.distinct(1))
    qed
  qed
  then have depths': "depths_ok s'" unfolding depths_ok_def by blast
  show ?thesis using lim fin' pools' frames' parents' depths' by (simp add: gate_inv_def)
qed


text \<open>A call.\<close>

definition counted :: "nat option \<Rightarrow> hook_gate \<Rightarrow> hook_gate" where
  "counted parent s = (case parent of None \<Rightarrow> s | Some p \<Rightarrow> add_pending p 1 s)"

lemma counted_simps [simp]:
  "hg_calls (counted parent s) = hg_calls s" "hg_roots (counted parent s) = hg_roots s"
  "pool_at r (counted parent s) = pool_at r s" "depth_below r (counted parent s) = depth_below r s"
  by (cases parent; auto simp: counted_def add_pending_def pool_at_def depth_below_def split: option.splits)+

lemma pool_okD: "gate_inv limit s \<Longrightarrow> (\<And>p. parent = Some p \<Longrightarrow> hg_frames s p \<noteq> None) \<Longrightarrow>
    pool_ok (if parent = None then limit else 1) s parent"
  by (cases parent) (auto simp: gate_inv_def pools_ok_def)

lemma new_call_below: "hg_calls s c = None \<Longrightarrow> c \<notin> below s q phs"
  by (auto simp: below_def in_phase_def)

lemma enter_inv:
  assumes inv: "gate_inv limit s" and c: "hg_calls s c = None"
    and par: "\<And>p. parent = Some p \<Longrightarrow> hg_frames s p \<noteq> None \<and> phase_of s p = Some Running"
    and depth: "depth_below parent s \<le> MAX_HOOK_DEPTH"
  shows "gate_inv limit (enter_pool c parent (counted parent s))"
proof -
  let ?s = "enter_pool c parent (counted parent s)" and ?n = "if parent = None then limit else 1"
  obtain q now where enter: "run_enter c (pool_at parent s) = (q, now)" by fastforce
  let ?nxt = "if now then Some c else None" and ?k = "if now then Running else Queued"
  have nof: "hg_frames s c = None" and fin: "finite (dom (hg_calls s))"
    using inv c by (auto simp: gate_inv_def frames_ok_def phase_of_def)
  with par have sep: "parent \<noteq> Some c" by auto
  have fr: "frames_change s ?s parent q 1 ?nxt"
    using nof sep enter
    by (cases parent) (auto simp: frames_change_def enter_pool_def invoke_begin_def set_pool_def counted_def add_pending_def
        depth_below_def pool_at_def option.map_comp option.map_ident comp_def split: option.splits)
  have calls: "hg_calls ?s = (hg_calls s)(c \<mapsto> \<lparr>hc_owner = parent, hc_phase = ?k\<rparr>)"
    using enter by (cases parent) (auto simp: enter_pool_def invoke_begin_def set_pool_def)
  note ph = phase_update [OF calls]
  have fresh: "c \<notin> below s r phs" for r phs by (rule new_call_below [OF c])
  have ca: "calls_change s ?s parent ?nxt {c}"
    using no_frame_no_child [OF _ nof] inv nof sep c
    by (auto simp: calls_change_def calls ph gate_inv_def unreturned_def frames_change_none [OF fr]) (simp_all add: in_phase_def)
  have at: "pool_at parent ?s = q"
    by (subst frames_change_pool [OF fr]) (use par sep in auto)
  have old: "pool_ok ?n s parent" by (rule pool_okD [OF inv]) (use par in blast)
  have "pool_ok n ?s parent" if "pool_ok n s parent" for n
    using that enter fresh fin unfolding pool_ok_def at by (auto simp: ph run_enter_def split: if_splits)
  note this [OF old]
  moreover have "int (card (unreturned ?s p)) = int (card (unreturned s p)) + 1" if "parent = Some p" for p
  proof -
    have "unreturned ?s p = insert c (unreturned s p)" unfolding unreturned_def ph by (simp add: that)
    with fresh fin show ?thesis by (simp add: unreturned_def)
  qed
  ultimately show ?thesis using change_inv [OF inv fr ca _ depth] par by blast
qed


text \<open>A drained call gives its permit back; a nested call returns.\<close>

lemma release_inv:
  assumes inv: "gate_inv limit s" and c: "in_phase s c parent Draining" and drained: "hg_frames s c = Some f" "hf_pending f = 0"
  shows "gate_inv limit (hook_release c parent s)"
proof -
  let ?s = "hook_release c parent s" and ?n = "if parent = None then limit else 1"
  let ?k = "if parent = None then Complete else Released"
  obtain q nxt where fin_q: "run_finally (pool_at parent s) = (q, nxt)" by fastforce
  have fin: "finite (dom (hg_calls s))" and frames: "frames_ok s" and parents: "parents_ok s"
    using inv by (simp_all add: gate_inv_def)
  have par: "hg_frames s p \<noteq> None \<and> (phase_of s p = Some Running \<or> phase_of s p = Some Draining)" if "parent = Some p" for p
    using parents c that unfolding parents_ok_def by blast
  have noc: "unreturned s c = {}"
    using frames drained fin by (simp add: frames_ok_def unreturned_def)
  have sep: "parent \<noteq> Some c" using noc in_phase_below [OF c] by (auto simp: unreturned_def)
  have old: "pool_ok ?n s parent" by (rule pool_okD [OF inv]) (use par in blast)
  then have ws: "set (pl_waiters (pool_at parent s)) = below s parent {Queued}" by (simp add: pool_ok_def)
  have w: "in_phase s w parent Queued" if "nxt = Some w" for w
    using that fin_q ws by (auto simp: run_finally_def below_def split: list.splits)
  have wf: "hg_frames s w = None \<and> w \<noteq> c \<and> parent \<noteq> Some w" if "nxt = Some w" for w
  proof -
    have "hg_frames s w = None" using frames in_phase_of [OF w [OF that]] by (simp add: frames_ok_def)
    with drained par show ?thesis by auto
  qed
  have fr: "frames_change s ?s parent q 0 nxt"
    using fin_q par wf
    by (cases parent) (auto simp: frames_change_def hook_release_def Let_def invoke_begin_def set_pool_def
        option.map_ident split: option.splits intro!: option.map_cong)
  have calls: "hg_calls ?s = (case nxt of None \<Rightarrow> (hg_calls s)(c \<mapsto> \<lparr>hc_owner = parent, hc_phase = ?k\<rparr>)
      | Some w \<Rightarrow> (hg_calls s)(c \<mapsto> \<lparr>hc_owner = parent, hc_phase = ?k\<rparr>, w \<mapsto> \<lparr>hc_owner = parent, hc_phase = Running\<rparr>))"
    using fin_q by (cases parent) (auto simp: hook_release_def Let_def invoke_begin_def set_pool_def split: option.splits)
  let ?m = "s\<lparr>hg_calls := (hg_calls s)(c \<mapsto> \<lparr>hc_owner = parent, hc_phase = ?k\<rparr>)\<rparr>"
  have ph0: "phase_of ?m d = (if d = c then Some ?k else phase_of s d)"
    "in_phase ?m d q' ph' \<longleftrightarrow> (if d = c then q' = parent \<and> ph' = ?k else in_phase s d q' ph')"
    "below ?m r phs = (if r = parent \<and> ?k \<in> phs then insert c (below s r phs) else below s r phs - {c})" for d q' ph' r phs
    by (rule phase_update [of ?m s]; simp)+
  have none: "hg_calls ?s = hg_calls ?m" if "nxt = None" using that calls by simp
  have ph1: "phase_of ?s = phase_of ?m" "in_phase ?s = in_phase ?m" "below ?s = below ?m" if "nxt = None"
    using none [OF that] by (auto simp: phase_of_def in_phase_def below_def fun_eq_iff)
  have ph2: "phase_of ?s d = (if d = w then Some Running else phase_of ?m d)"
    "in_phase ?s d q' ph' \<longleftrightarrow> (if d = w then q' = parent \<and> ph' = Running else in_phase ?m d q' ph')"
    "below ?s r phs = (if r = parent \<and> Running \<in> phs then insert w (below ?m r phs) else below ?m r phs - {w})"
    if "nxt = Some w" for w d q' ph' r phs
    using phase_update [of ?s ?m w parent Running] calls that by simp_all
  have at: "pool_at parent ?s = q"
    by (subst frames_change_pool [OF fr]) (use par wf in auto)
  have chain: "unreturned s d = {}" if "hg_frames s d = None" for d
    using no_frame_no_child [OF parents that] by (simp add: unreturned_def)
  have ca: "calls_change s ?s parent nxt (insert c (set_option nxt))"
  proof (cases nxt)
    case None
    then show ?thesis
      using c noc sep drained by (auto simp: calls_change_def none ph1 ph0 in_phase_unique [OF c] frames_change_none [OF fr])
  next
    case (Some v)
    note v = w [OF Some] wf [OF Some]
    show ?thesis
      using Some v chain [of v] c noc sep drained calls
      by (auto simp: calls_change_def ph2 [OF Some] ph0 in_phase_unique [OF c] in_phase_unique [OF v(1)] frames_change_none [OF fr])
  qed
  have inA: "c \<in> active s parent" "finite (active s parent)" using fin by (simp_all add: in_phase_below [OF c])
  have "pool_ok n ?s parent" if ok: "pool_ok n s parent" for n
  proof (cases nxt)
    case None
    then have "active ?s parent = active s parent - {c}" "below ?s parent {Queued} = below s parent {Queued}"
      by (auto simp: ph1 ph0 in_phase_below [OF c])
    with ok fin_q None inA show ?thesis
      unfolding pool_ok_def at by (auto simp: run_finally_def card_less_one split: list.splits)
  next
    case (Some v)
    note v = w [OF Some] wf [OF Some]
    have "active ?s parent = insert v (active s parent - {c})" "below ?s parent {Queued} = below s parent {Queued} - {v}"
      using v by (auto simp: ph2 [OF Some] ph0 in_phase_below [OF c])
    moreover have "card (insert v (active s parent - {c})) = card (active s parent)"
      using inA v in_phase_below [OF v(1), of parent "{Running, Draining}"] by (simp add: card_less_one)
    ultimately show ?thesis
      using ok fin_q Some unfolding pool_ok_def at by (auto simp: run_finally_def split: list.splits)
  qed
  note this [OF old]
  moreover have "below ?s parent phs = below s parent phs"
    if "{Queued, Running, Draining, Released} \<subseteq> phs" "Complete \<notin> phs" "parent \<noteq> None" for phs
  proof (cases nxt)
    case None
    show ?thesis using that in_phase_below [OF c, of parent phs] unfolding ph1 [OF None] ph0 by auto
  next
    case (Some v)
    show ?thesis
      using that in_phase_below [OF c, of parent phs] in_phase_below [OF w [OF Some], of parent phs]
      unfolding ph2 [OF Some] ph0 by auto
  qed
  then have "unreturned ?s p = unreturned s p" if "parent = Some p" for p using that by (simp add: unreturned_def)
  moreover have "depth_below parent s \<le> MAX_HOOK_DEPTH" using inv c unfolding gate_inv_def depths_ok_def by blast
  ultimately show ?thesis using change_inv [OF inv fr ca] par by simp
qed


lemma return_inv:
  assumes inv: "gate_inv limit s" and c: "in_phase s c (Some p) Released"
  shows "gate_inv limit (hook_return c p s)"
proof -
  let ?s = "hook_return c p s"
  have fin: "finite (dom (hg_calls s))" and parents: "parents_ok s" and frames: "frames_ok s"
    using inv by (simp_all add: gate_inv_def)
  have par: "hg_frames s p \<noteq> None \<and> (phase_of s p = Some Running \<or> phase_of s p = Some Draining)"
    using parents c unfolding parents_ok_def by blast
  have noc: "unreturned s c = {}"
    using parents in_phase_of [OF c] by (fastforce simp: unreturned_def below_def parents_ok_def)
  have sep: "p \<noteq> c" using par in_phase_of [OF c] by auto
  have fr: "frames_change s ?s (Some p) (pool_at (Some p) s) (- 1) None"
    using par by (auto simp: frames_change_def hook_return_def add_pending_def pool_at_def option.map_ident)
  have calls: "hg_calls ?s = (hg_calls s)(c \<mapsto> \<lparr>hc_owner = Some p, hc_phase = Complete\<rparr>)"
    by (simp add: hook_return_def)
  note ph = phase_update [OF calls]
  have "hg_frames s c \<noteq> None" using frames in_phase_of [OF c] by (simp add: frames_ok_def)
  then have ca: "calls_change s ?s (Some p) None {c}"
    using noc sep by (auto simp: calls_change_def calls ph in_phase_unique [OF c] frames_change_none [OF fr])
  have "pool_at (Some p) ?s = pool_at (Some p) s"
    by (subst frames_change_pool [OF fr]) (use par in auto)
  moreover have "below ?s (Some p) phs = below s (Some p) phs" if "Released \<notin> phs" "Complete \<notin> phs" for phs
    using that in_phase_below [OF c] by (auto simp: ph)
  moreover have "pool_ok 1 s (Some p)" using pool_okD [OF inv, of "Some p"] par by simp
  ultimately have "pool_ok 1 ?s (Some p)" by (simp add: pool_ok_def)
  moreover have "unreturned ?s p = unreturned s p - {c}" "c \<in> unreturned s p" "finite (unreturned s p)"
    using in_phase_below [OF c] fin by (auto simp: unreturned_def ph)
  then have "int (card (unreturned ?s p)) = int (card (unreturned s p)) + - 1"
    by (simp add: card_less_one)
  moreover have "depth_below (Some p) s \<le> MAX_HOOK_DEPTH" using inv c unfolding gate_inv_def depths_ok_def by blast
  ultimately show ?thesis using change_inv [OF inv fr ca] par by simp
qed


section \<open>What the gate promises\<close>

abbreviation gate_limit :: "jsval \<Rightarrow> int" where
  "gate_limit limit \<equiv> normalizeHookConcurrencyLimit limit (of_integer 10)"

lemma gate_limit_positive: "1 \<le> gate_limit limit"
  by (auto simp: normalizeHookConcurrencyLimit_def split: option.split)

lemma new_gate_inv: "gate_inv (gate_limit limit) (newHookGate limit)"
  using gate_limit_positive [of limit]
  by (simp add: gate_inv_def newHookGate_def pools_ok_def pool_ok_def frames_ok_def parents_ok_def depths_ok_def
      phase_of_def in_phase_def below_def pool_at_def newPool_def)

lemma run_call_inv:
  assumes inv: "gate_inv limit s" and c: "hg_calls s c = None" and run: "hook_run this ctxt c s = Some s'"
  shows "gate_inv limit s'"
proof (cases "live_parent this ctxt s")
  case None
  then have s': "s' = enter_pool c None (counted None s)" using run by (simp add: hook_run_def counted_def)
  have "depth_below None s \<le> MAX_HOOK_DEPTH" by (simp add: depth_below_def MAX_HOOK_DEPTH_def)
  then show ?thesis unfolding s' by (intro enter_inv [OF inv c]) simp_all
next
  case (Some pf)
  obtain p f where pf: "pf = (p, f)" by fastforce
  have f: "hg_frames s p = Some f" "hf_open f"
    using Some pf by (auto simp: live_parent_def split: list.splits option.splits if_splits)
  have depth: "hf_depth f < MAX_HOOK_DEPTH" and s': "s' = enter_pool c (Some p) (counted (Some p) s)"
    using run Some pf by (auto simp: hook_run_def counted_def split: if_splits)
  have "phase_of s p = Some Running" using inv f by (simp add: gate_inv_def frames_ok_def)
  moreover have "depth_below (Some p) s \<le> MAX_HOOK_DEPTH" using depth f by (simp add: depth_below_def)
  ultimately show ?thesis unfolding s' using f(1) by (intro enter_inv [OF inv c]) auto
qed

lemma hook_step_inv: "hook_step this s e s' \<Longrightarrow> gate_inv limit s \<Longrightarrow> gate_inv limit s'"
  by (induction rule: hook_step.induct) (auto intro: run_call_inv settle_inv release_inv return_inv)

lemma hook_reachable_inv: "hook_reachable this limit s \<Longrightarrow> gate_inv (gate_limit limit) s"
  by (induction rule: hook_reachable.induct) (rule new_gate_inv, erule (1) hook_step_inv)

text \<open>The active calls at a depth.\<close>

definition active_at :: "hook_gate \<Rightarrow> nat \<Rightarrow> nat set" where
  "active_at s n = {c. \<exists>parent ph. in_phase s c parent ph \<and> ph \<in> {Running, Draining} \<and> depth_below parent s = n}"

lemma active_frame: "gate_inv limit s \<Longrightarrow> in_phase s c parent ph \<Longrightarrow> ph \<noteq> Queued \<Longrightarrow> \<exists>f. hg_frames s c = Some f \<and> hf_depth f = depth_below parent s"
  using in_phase_of [of s c parent ph] unfolding gate_inv_def frames_ok_def depths_ok_def by (metis not_None_eq option.inject)

lemma depth_positive: "depth_below parent s \<noteq> 0"
  by (auto simp: depth_below_def split: option.split)

text \<open>
  At most \<open>limit\<close> calls are active at each depth, so that no more than \<open>limit\<close> branches run: the active children
  have different active parents. No call is deeper than the maximal depth.
\<close>

theorem branches_bounded:
  assumes "gate_inv limit s"
  shows "int (card (active_at s n)) \<le> limit \<and> (MAX_HOOK_DEPTH < n \<longrightarrow> active_at s n = {})"
proof
  have pools: "pools_ok limit s" and parents: "parents_ok s" and fin: "finite (dom (hg_calls s))" and lim: "1 \<le> limit"
    using assms by (simp_all add: gate_inv_def)
  have fin_at: "finite (active_at s n)" for n
    by (rule finite_subset [OF _ fin]) (auto simp: active_at_def in_phase_def)
  show "MAX_HOOK_DEPTH < n \<longrightarrow> active_at s n = {}"
    using assms unfolding gate_inv_def depths_ok_def active_at_def by fastforce
  show "int (card (active_at s n)) \<le> limit"
  proof (induction n)
    case 0
    have "active_at s 0 = {}" by (auto simp: active_at_def depth_positive)
    with lim show ?case by simp
  next
    case (Suc n)
    have parent: "\<exists>p. c \<in> active s (Some p) \<and> p \<in> active_at s n" if c: "c \<in> active_at s (Suc n)" "c \<notin> active s None" for c
    proof -
      obtain q ph where q: "in_phase s c q ph" "ph \<in> {Running, Draining}" "depth_below q s = Suc n"
        using c(1) by (auto simp: active_at_def)
      then obtain p where p: "q = Some p" using c(2) by (cases q) (auto simp: below_def)
      then have up: "hg_frames s p \<noteq> None" "phase_of s p = Some Running \<or> phase_of s p = Some Draining"
        using parents q unfolding parents_ok_def by blast+
      then obtain r k where r: "in_phase s p r k" "k \<in> {Running, Draining}" using phase_of_in by blast
      obtain f where f: "hg_frames s p = Some f" "hf_depth f = depth_below r s"
        using active_frame [OF assms r(1)] r(2) by auto
      have "depth_below r s = n" using q(3) p f by (simp add: depth_below_def)
      with r have "p \<in> active_at s n" by (auto simp: active_at_def)
      moreover have "c \<in> active s (Some p)" using q p by (auto simp: below_def)
      ultimately show ?thesis by blast
    qed
    show ?case
    proof (cases "n = 0")
      case True
      have "active_at s 0 = {}" by (auto simp: active_at_def depth_positive)
      with parent True have "active_at s (Suc n) \<subseteq> active s None" by blast
      then have "card (active_at s (Suc n)) \<le> card (active s None)" using fin by (intro card_mono) simp_all
      moreover have "int (card (active s None)) \<le> limit" using pools by (simp add: pools_ok_def pool_ok_def)
      ultimately show ?thesis by linarith
    next
      case False
      have root: "c \<notin> active s None" if "c \<in> active_at s (Suc n)" for c
        using that False by (auto simp: active_at_def below_def in_phase_def depth_below_def)
      have "\<forall>c \<in> active_at s (Suc n). \<exists>p. c \<in> active s (Some p) \<and> p \<in> active_at s n"
        using parent root by blast
      then obtain up where up: "\<forall>c \<in> active_at s (Suc n). c \<in> active s (Some (up c)) \<and> up c \<in> active_at s n" by metis
      have "inj_on up (active_at s (Suc n))"
      proof (rule inj_onI)
        fix c d assume cd: "c \<in> active_at s (Suc n)" "d \<in> active_at s (Suc n)" "up c = up d"
        then have both: "c \<in> active s (Some (up c))" "d \<in> active s (Some (up c))" using up by metis+
        have "up c \<in> active_at s n" using up cd(1) by blast
        then obtain r k where "in_phase s (up c) r k" "k \<noteq> Queued" by (auto simp: active_at_def)
        from active_frame [OF assms this] have "pool_ok 1 s (Some (up c))" using pools unfolding pools_ok_def by auto
        then have "card (active s (Some (up c))) \<le> 1" by (simp add: pool_ok_def)
        then show "c = d" using both fin by (metis card_le_Suc0_iff_eq finite_below One_nat_def)
      qed
      then have "card (active_at s (Suc n)) \<le> card (active_at s n)"
        using up fin_at by (intro card_inj_on_le [of up]) auto
      with Suc show ?thesis by linarith
    qed
  qed
qed


text \<open>Progress: as long as a call has not returned, one that was made can take a step, and none of them waits for a new call.\<close>

lemma released_nested: "hook_reachable this limit s \<Longrightarrow> \<not> in_phase s c None Released"
proof (induction arbitrary: c rule: hook_reachable.induct)
  case gate_start
  show ?case by (simp add: newHookGate_def in_phase_def)
next
  case (gate_step s e s')
  from gate_step.hyps(2) show ?case
  proof cases
    case (step_call d ctxt)
    have "\<not> in_phase (enter_pool d parent (counted parent s)) c None Released" for parent
      using gate_step.IH
      by (cases "run_enter d (pool_at parent s)"; cases parent)
         (auto simp: enter_pool_def Let_def invoke_begin_def set_pool_def in_phase_def split: if_splits)
    then have "\<not> in_phase (enter_pool d None s) c None Released" "\<not> in_phase (enter_pool d (Some p) (add_pending p 1 s)) c None Released" for p
      by (metis counted_def option.case)+
    then show ?thesis
      using step_call(3) by (auto simp: hook_run_def split: option.splits prod.splits if_splits)
  next
    case (step_release d parent f)
    then show ?thesis
      using gate_step.IH
      by (cases "run_finally (pool_at parent s)"; cases parent)
         (auto simp: hook_release_def Let_def invoke_begin_def set_pool_def in_phase_def split: option.splits if_splits)
  qed (use gate_step.IH in \<open>auto simp: hook_settle_def hook_return_def in_phase_def add_pending_def split: if_splits\<close>)
qed

lemma waiting_active:
  assumes "gate_inv limit s" "in_phase s c q Queued"
  obtains d where "d \<in> active s q"
proof -
  have "pool_ok (if q = None then limit else 1) s q"
    by (rule pool_okD [OF assms(1)]) (use assms in \<open>auto simp: gate_inv_def parents_ok_def\<close>)
  moreover have "c \<in> below s q {Queued}" using in_phase_below [OF assms(2)] by simp
  ultimately have "int (card (active s q)) = (if q = None then limit else 1)"
    by (auto simp: pool_ok_def)
  moreover have "1 \<le> limit" using assms(1) by (simp add: gate_inv_def)
  ultimately have "card (active s q) \<noteq> 0" by (auto split: if_splits)
  then show ?thesis using that by (metis all_not_in_conv card.empty)
qed

theorem gate_progress:
  assumes reach: "hook_reachable this limit s" and call: "in_phase s c q k" "k \<noteq> Complete"
  shows "\<exists>e s'. hook_step this s e s' \<and> (\<forall>ctxt d. e \<noteq> Call ctxt d)"
proof (rule ccontr)
  assume stuck: "\<not> ?thesis"
  have inv: "gate_inv (gate_limit limit) s" using reach by (rule hook_reachable_inv)
  then have frames: "frames_ok s" and fin: "finite (dom (hg_calls s))" by (simp_all add: gate_inv_def)
  have running: "\<not> in_phase s d r Running" for d r using stuck step_settle [of s d r this] by blast
  have released: "\<not> in_phase s d r Released" for d r
    using stuck released_nested [OF reach, of d] step_return [of s d _ this] by (cases r) blast+
  have child: "\<exists>d. in_phase s d (Some p) Draining" if p: "in_phase s p r Draining" for p r
  proof -
    obtain f where f: "hg_frames s p = Some f" using active_frame [OF inv p] by auto
    have "hf_pending f \<noteq> 0" using stuck step_release [OF p f, of this] by blast
    then have "unreturned s p \<noteq> {}" using frames f by (auto simp: frames_ok_def)
    then obtain d k' where d: "in_phase s d (Some p) k'" "k' \<in> {Queued, Running, Draining, Released}"
      by (auto simp: unreturned_def below_def)
    show ?thesis
    proof (cases "k' = Queued")
      case True
      with d(1) obtain e where "e \<in> active s (Some p)" using waiting_active [OF inv] by blast
      with running show ?thesis by (auto simp: below_def)
    next
      case False
      with d running released show ?thesis by auto
    qed
  qed
  obtain p r where p: "in_phase s p r Draining"
  proof (cases "k = Queued")
    case True
    with call(1) obtain d where "d \<in> active s q" using waiting_active [OF inv] by blast
    with running that show ?thesis by (auto simp: below_def)
  next
    case False
    then show ?thesis using call running released that by (cases k) auto
  qed
  have "\<exists>d r. in_phase s d r Draining \<and> depth_below r s \<ge> n" for n
  proof (induction n)
    case 0
    then show ?case using p by blast
  next
    case (Suc n)
    then obtain d r where d: "in_phase s d r Draining" "depth_below r s \<ge> n" by blast
    obtain f where "hg_frames s d = Some f" "hf_depth f = depth_below r s" using active_frame [OF inv d(1)] by auto
    then have "depth_below (Some d) s \<ge> Suc n" using d(2) by (simp add: depth_below_def)
    with child [OF d(1)] show ?case by blast
  qed
  then obtain d r where "in_phase s d r Draining" "depth_below r s \<ge> Suc MAX_HOOK_DEPTH" by blast
  then show False using inv unfolding gate_inv_def depths_ok_def by fastforce
qed

end
