(* ===== verification/JsValue.thy ===== *)
theory JsValue
  imports Prelude
begin

text \<open>
  The values of JavaScript, for code that walks untrusted input. An object is its own enumerable entries in the
  order of \<open>Object.entries\<close>; an array is its slots, \<open>None\<close> for a hole; a date is its time value, \<open>None\<close> for an
  invalid one; \<open>VInstance\<close> is any other object that is not plain, with its own entries. Values are finite trees:
  two references to one object are two equal values, and there are no cyclic values.
\<close>

datatype jsany =
    VUndef
  | VNull
  | VBool bool
  | VNum jsnum
  | VBigInt int
  | VStr string
  | VFun nat
  | VDate "int option"
  | VRegExp string string
  | VInstance nat "(string \<times> jsany) list"
  | VArr "jsany option list"
  | VObj "(string \<times> jsany) list"

fun isPlainObject :: "jsany \<Rightarrow> bool" where
  "isPlainObject (VObj _) = True"
| "isPlainObject _ = False"

text \<open>The nesting of containers.\<close>

fun depth_of :: "jsany \<Rightarrow> nat" and items_depth :: "jsany option list \<Rightarrow> nat" and entries_depth :: "(string \<times> jsany) list \<Rightarrow> nat"
where
  "depth_of (VArr xs) = Suc (items_depth xs)"
| "depth_of (VObj ps) = Suc (entries_depth ps)"
| "depth_of v = 0"
| "items_depth [] = 0"
| "items_depth (None # xs) = items_depth xs"
| "items_depth (Some x # xs) = max (depth_of x) (items_depth xs)"
| "entries_depth [] = 0"
| "entries_depth ((key, x) # ps) = max (depth_of x) (entries_depth ps)"

end
