(* ===== verification/RxFilter.thy ===== *)
theory RxFilter
  imports JsValue JsText
begin

text \<open>
  Filters of the RxDB models, query-compiler.ts of packages/mongoose-rxdb: the bounded copies of untrusted
  filters and builder inputs, and the translation of a filter to a selector.

  A value is finite, so the set of ancestors that stops a cyclic input has no counterpart. The depth that the
  code restores in its \<open>finally\<close> blocks is an argument, the
  node count is threaded. An error is a constructor without the path its text quotes.
\<close>

section \<open>Errors and limits\<close>

datatype filter_error =
    NotPlainObject | DangerousKey | UnsupportedTopLevel | OperandsNotArray | TooManyItems | OperandNotObject
  | MixedKeys | UnsupportedOperator | RegexRejected | InvalidDate | NotPlainValue | TooDeep | TooManyNodes
  | NullFilter | NotIterable

definition SAFE_OPERATORS :: "string list" where
  "SAFE_OPERATORS = [''$eq'', ''$gt'', ''$gte'', ''$lt'', ''$lte'', ''$ne'', ''$in'', ''$nin'', ''$exists'', ''$regex'', ''$options'']"

definition LOGICAL_OPERATORS :: "string list" where
  "LOGICAL_OPERATORS = [''$and'', ''$or'', ''$nor'']"

definition DANGEROUS_KEYS :: "string list" where
  "DANGEROUS_KEYS = [''__proto__'', ''prototype'', ''constructor'']"

definition MAX_FILTER_DEPTH :: nat where
  "MAX_FILTER_DEPTH = 20"

definition MAX_FILTER_NODES :: nat where
  "MAX_FILTER_NODES = 200"

definition MAX_LOGICAL_OPERANDS :: nat where
  "MAX_LOGICAL_OPERANDS = 50"

abbreviation dollar :: "string \<Rightarrow> bool" where
  "dollar key \<equiv> starts_with key ''$''"

section \<open>Dates\<close>

text \<open>The calendar date of a day number (day 0 is 1970-01-01), and \<open>toISOString\<close> of a time value.\<close>

definition civil_date :: "int \<Rightarrow> int \<times> int \<times> int" where
  "civil_date n =
     (let z = n + 719468;
          era = z div 146097;
          doe = z mod 146097;
          yoe = (doe - doe div 1460 + doe div 36524 - doe div 146096) div 365;
          doy = doe - (365 * yoe + yoe div 4 - yoe div 100);
          mp = (5 * doy + 2) div 153;
          month = (if mp < 10 then mp + 3 else mp - 9)
      in (yoe + era * 400 + (if month \<le> 2 then 1 else 0), month, doy - (153 * mp + 2) div 5 + 1))"

definition padded :: "nat \<Rightarrow> int \<Rightarrow> string" where
  "padded w n = (let t = digits (nat n) in replicate (w - length t) CHR ''0'' @ t)"

definition toISOString :: "int \<Rightarrow> string" where
  "toISOString ms =
     (let day = ms div 86400000; rest = ms mod 86400000
      in (case civil_date day of (year, month, date) \<Rightarrow>
           (if 0 \<le> year \<and> year \<le> 9999 then padded 4 year
            else (if year < 0 then CHR ''-'' else CHR ''+'') # padded 6 \<bar>year\<bar>) @
           CHR ''-'' # padded 2 month @ CHR ''-'' # padded 2 date @
           CHR ''T'' # padded 2 (rest div 3600000) @ CHR '':'' # padded 2 (rest div 60000 mod 60) @
           CHR '':'' # padded 2 (rest div 1000 mod 60) @ CHR ''.'' # padded 3 (rest mod 1000) @ ''Z''))"

definition normalizeDateOperand :: "int option \<Rightarrow> filter_error + string" where
  "normalizeDateOperand t = (case t of None \<Rightarrow> Inl InvalidDate | Some ms \<Rightarrow> Inr (toISOString ms))"

section \<open>The budget\<close>

definition enterFilterNode :: "nat \<Rightarrow> nat \<Rightarrow> filter_error + nat" where
  "enterFilterNode depth count =
     (if depth > MAX_FILTER_DEPTH then Inl TooDeep
      else if count + 1 > MAX_FILTER_NODES then Inl TooManyNodes else Inr (count + 1))"

definition countFilterEntry :: "nat \<Rightarrow> filter_error + nat" where
  "countFilterEntry count = (if count + 1 > MAX_FILTER_NODES then Inl TooManyNodes else Inr (count + 1))"

definition assertSafeKey :: "string \<Rightarrow> filter_error + unit" where
  "assertSafeKey key = guard DangerousKey (key \<notin> set DANGEROUS_KEYS)"

section \<open>Bounded copies\<close>

text \<open>
  The traversal that \<open>cloneLiteral\<close> and \<open>cloneBoundedValue\<close> share: they differ in what they do with a value
  that is neither an array nor a plain object, the argument \<open>atom\<close>.
\<close>

type_synonym atom_copy = "jsany \<Rightarrow> nat \<Rightarrow> filter_error + jsany \<times> nat"

fun copy_value :: "atom_copy \<Rightarrow> nat \<Rightarrow> jsany \<Rightarrow> nat \<Rightarrow> filter_error + jsany \<times> nat"
  and copy_items :: "atom_copy \<Rightarrow> nat \<Rightarrow> jsany option list \<Rightarrow> nat \<Rightarrow> filter_error + jsany option list \<times> nat"
  and copy_entries :: "atom_copy \<Rightarrow> nat \<Rightarrow> (string \<times> jsany) list \<Rightarrow> nat \<Rightarrow> filter_error + (string \<times> jsany) list \<times> nat"
where
  "copy_value atom depth (VArr xs) count =
     (if length xs > MAX_LOGICAL_OPERANDS then Inl TooManyItems
      else andthen (enterFilterNode (depth + 1) count) (\<lambda>c.
           andthen (copy_items atom (depth + 1) xs c) (\<lambda>(ys, c'). Inr (VArr ys, c'))))"
| "copy_value atom depth (VObj ps) count =
     andthen (enterFilterNode (depth + 1) count) (\<lambda>c.
     andthen (copy_entries atom (depth + 1) ps c) (\<lambda>(qs, c'). Inr (VObj qs, c')))"
| "copy_value atom depth v count = atom v count"
| "copy_items atom depth [] count = Inr ([], count)"
| "copy_items atom depth (None # xs) count =
     andthen (copy_items atom depth xs count) (\<lambda>(ys, c). Inr (None # ys, c))"
| "copy_items atom depth (Some x # xs) count =
     andthen (countFilterEntry count) (\<lambda>c.
     andthen (copy_value atom depth x c) (\<lambda>(y, c').
     andthen (copy_items atom depth xs c') (\<lambda>(ys, c''). Inr (Some y # ys, c''))))"
| "copy_entries atom depth [] count = Inr ([], count)"
| "copy_entries atom depth ((key, x) # ps) count =
     andthen (assertSafeKey key) (\<lambda>_.
     andthen (countFilterEntry count) (\<lambda>c.
     andthen (copy_value atom depth x c) (\<lambda>(y, c').
     andthen (copy_entries atom depth ps c') (\<lambda>(qs, c''). Inr ((key, y) # qs, c'')))))"

definition literal_atom :: atom_copy where
  "literal_atom v count =
     (case v of
        VRegExp _ _ \<Rightarrow> Inl RegexRejected
      | VDate t \<Rightarrow> andthen (normalizeDateOperand t) (\<lambda>text. Inr (VStr text, count))
      | VInstance _ _ \<Rightarrow> Inl NotPlainValue
      | _ \<Rightarrow> Inr (v, count))"

definition cloneLiteral :: "nat \<Rightarrow> jsany \<Rightarrow> nat \<Rightarrow> filter_error + jsany \<times> nat" where
  "cloneLiteral = copy_value literal_atom"

definition bounded_atom :: atom_copy where
  "bounded_atom v count =
     (case v of
        VDate _ \<Rightarrow> andthen (countFilterEntry count) (\<lambda>c. Inr (v, c))
      | VRegExp _ _ \<Rightarrow> andthen (countFilterEntry count) (\<lambda>c. Inr (v, c))
      | VInstance _ _ \<Rightarrow> Inl NotPlainValue
      | _ \<Rightarrow> Inr (v, count))"

definition cloneBoundedInput :: "jsany \<Rightarrow> filter_error + jsany" where
  "cloneBoundedInput v = andthen (copy_value bounded_atom 0 v 0) (\<lambda>(w, c). Inr w)"

section \<open>Sanitizing a filter\<close>

definition normalizeRegexOperator :: "filter_error + 'a" where
  "normalizeRegexOperator = Inl RegexRejected"

fun operator_entries :: "nat \<Rightarrow> (string \<times> jsany) list \<Rightarrow> nat \<Rightarrow> filter_error + (string \<times> jsany) list \<times> nat" where
  "operator_entries depth [] count = Inr ([], count)"
| "operator_entries depth ((operator, raw) # ps) count =
     andthen (assertSafeKey operator) (\<lambda>_.
     if operator \<notin> set SAFE_OPERATORS then Inl UnsupportedOperator
     else if operator = ''$options'' then operator_entries depth ps count
     else if operator = ''$regex'' then normalizeRegexOperator
     else andthen (cloneLiteral depth raw count) (\<lambda>(w, c).
          andthen (operator_entries depth ps c) (\<lambda>(qs, c'). Inr ((operator, w) # qs, c'))))"

definition normalizeFieldValue :: "nat \<Rightarrow> jsany \<Rightarrow> nat \<Rightarrow> filter_error + jsany \<times> nat" where
  "normalizeFieldValue depth v count =
     (case v of
        VRegExp _ _ \<Rightarrow> normalizeRegexOperator
      | VObj entries \<Rightarrow>
          (let operatorKeys = filter dollar (map fst entries)
           in if operatorKeys = [] then
                andthen (cloneLiteral depth v count) (\<lambda>(w, c). Inr (VObj [(''$eq'', w)], c))
              else if length operatorKeys \<noteq> length entries then Inl MixedKeys
              else andthen (operator_entries depth entries count) (\<lambda>(out, c).
                   if ''$options'' \<in> set (map fst entries) \<and> ''$regex'' \<notin> set (map fst entries) then Inl RegexRejected
                   else Inr (VObj out, c)))
      | _ \<Rightarrow> cloneLiteral depth v count)"

fun normalizeFilterObject :: "nat \<Rightarrow> jsany \<Rightarrow> nat \<Rightarrow> filter_error + jsany \<times> nat"
  and filter_entries :: "nat \<Rightarrow> (string \<times> jsany) list \<Rightarrow> nat \<Rightarrow> filter_error + (string \<times> jsany) list \<times> nat"
  and normalizeLogicalOperands :: "nat \<Rightarrow> jsany \<Rightarrow> nat \<Rightarrow> filter_error + jsany \<times> nat"
  and filter_operands :: "nat \<Rightarrow> jsany option list \<Rightarrow> nat \<Rightarrow> filter_error + jsany option list \<times> nat"
where
  "normalizeFilterObject depth (VObj ps) count =
     andthen (enterFilterNode depth count) (\<lambda>c.
     andthen (filter_entries depth ps c) (\<lambda>(qs, c'). Inr (VObj qs, c')))"
| "normalizeFilterObject depth v count = Inl NotPlainObject"
| "filter_entries depth [] count = Inr ([], count)"
| "filter_entries depth ((key, raw) # ps) count =
     andthen (assertSafeKey key) (\<lambda>_.
     andthen (countFilterEntry count) (\<lambda>c.
     andthen (if key \<in> set LOGICAL_OPERATORS then normalizeLogicalOperands depth raw c
              else if dollar key then Inl UnsupportedTopLevel
              else normalizeFieldValue depth raw c) (\<lambda>(w, c').
     andthen (filter_entries depth ps c') (\<lambda>(qs, c''). Inr ((key, w) # qs, c'')))))"
| "normalizeLogicalOperands depth (VArr xs) count =
     (if xs = [] then Inl OperandsNotArray
      else if length xs > MAX_LOGICAL_OPERANDS then Inl TooManyItems
      else andthen (filter_operands depth xs count) (\<lambda>(ys, c). Inr (VArr ys, c)))"
| "normalizeLogicalOperands depth v count = Inl OperandsNotArray"
| "filter_operands depth [] count = Inr ([], count)"
| "filter_operands depth (None # xs) count =
     andthen (filter_operands depth xs count) (\<lambda>(ys, c). Inr (None # ys, c))"
| "filter_operands depth (Some entry # xs) count =
     (if \<not> isPlainObject entry then Inl OperandNotObject
      else andthen (normalizeFilterObject (depth + 1) entry count) (\<lambda>(f, c).
           andthen (filter_operands depth xs c) (\<lambda>(ys, c'). Inr (Some f # ys, c'))))"

definition sanitizeFilter :: "jsany \<Rightarrow> filter_error + jsany" where
  "sanitizeFilter v =
     (if v = VUndef then Inr VUndef
      else andthen (normalizeFilterObject 0 v 0) (\<lambda>(f, c). Inr f))"

section \<open>The selector\<close>

text \<open>\<open>Object.entries\<close> of a value of type \<open>object\<close>.\<close>

fun index_entries :: "nat \<Rightarrow> jsany option list \<Rightarrow> (string \<times> jsany) list" where
  "index_entries i [] = []"
| "index_entries i (None # xs) = index_entries (Suc i) xs"
| "index_entries i (Some x # xs) = (digits i, x) # index_entries (Suc i) xs"

fun object_entries :: "jsany \<Rightarrow> (string \<times> jsany) list option" where
  "object_entries (VObj ps) = Some ps"
| "object_entries (VInstance _ ps) = Some ps"
| "object_entries (VArr xs) = Some (index_entries 0 xs)"
| "object_entries (VDate _) = Some []"
| "object_entries (VRegExp _ _) = Some []"
| "object_entries _ = None"

definition selector_operators :: "string list" where
  "selector_operators = [''$eq'', ''$ne'', ''$gt'', ''$gte'', ''$lt'', ''$lte'', ''$in'', ''$nin'', ''$exists'']"

fun translateOps :: "(string \<times> jsany) list \<Rightarrow> filter_error + (string \<times> jsany) list" where
  "translateOps [] = Inr []"
| "translateOps ((operator, v) # ps) =
     (if operator \<in> set selector_operators then andthen (translateOps ps) (\<lambda>out. Inr ((operator, v) # out))
      else if operator = ''$regex'' \<or> operator = ''$options'' then Inl RegexRejected
      else Inl UnsupportedOperator)"

definition hasOperator :: "(string \<times> jsany) list \<Rightarrow> bool" where
  "hasOperator ps = list_ex (\<lambda>(k, v). dollar k) ps"

definition translate_field :: "string \<Rightarrow> jsany \<Rightarrow> filter_error + jsany" where
  "translate_field k v =
     (case object_entries v of
        Some ps \<Rightarrow>
          (if k = ''_id'' \<and> ''$eq'' \<notin> set (map fst ps) then andthen (translateOps ps) (\<lambda>out. Inr (VObj out))
           else (case v of
                   VArr _ \<Rightarrow> Inr (VObj [(''$eq'', v)])
                 | _ \<Rightarrow>
                     (if hasOperator ps then andthen (translateOps ps) (\<lambda>out. Inr (VObj out))
                      else (case v of
                              VRegExp _ _ \<Rightarrow> Inl RegexRejected
                            | _ \<Rightarrow> Inr (VObj [(''$eq'', v)])))))
      | None \<Rightarrow> Inr (VObj [(''$eq'', v)]))"

text \<open>A filter that was normalised: its operands are arrays of objects, so the two error equations are not reached.\<close>

fun translateNormalized :: "jsany \<Rightarrow> filter_error + jsany"
  and translate_entries :: "(string \<times> jsany) list \<Rightarrow> filter_error + (string \<times> jsany) list"
  and translate_operands :: "jsany \<Rightarrow> filter_error + jsany"
  and translate_items :: "jsany option list \<Rightarrow> filter_error + jsany option list"
where
  "translateNormalized (VObj ps) = andthen (translate_entries ps) (\<lambda>qs. Inr (VObj qs))"
| "translateNormalized _ = Inl NotPlainObject"
| "translate_entries [] = Inr []"
| "translate_entries ((k, v) # ps) =
     andthen (if k \<in> set LOGICAL_OPERATORS then translate_operands v else translate_field k v) (\<lambda>w.
     andthen (translate_entries ps) (\<lambda>qs. Inr ((k, w) # qs)))"
| "translate_operands (VArr xs) = andthen (translate_items xs) (\<lambda>ys. Inr (VArr ys))"
| "translate_operands _ = Inl NotIterable"
| "translate_items [] = Inr []"
| "translate_items (None # xs) = andthen (translate_items xs) (\<lambda>ys. Inr (None # ys))"
| "translate_items (Some x # xs) =
     andthen (translateNormalized x) (\<lambda>y. andthen (translate_items xs) (\<lambda>ys. Inr (Some y # ys)))"

definition translateFilter :: "jsany \<Rightarrow> filter_error + jsany" where
  "translateFilter v =
     (if v = VUndef then Inr (VObj [])
      else if v = VNull then Inl NullFilter
      else andthen (normalizeFilterObject 0 v 0) (\<lambda>(f, c). translateNormalized f))"

section \<open>What an accepted value is\<close>

text \<open>
  The reference definitions: the shape of a value whose atoms satisfy \<open>ok\<close>, the nodes it counts for when an
  atom counts for \<open>w\<close>, and its image under a map of the atoms.
\<close>

definition safe_key :: "string \<Rightarrow> bool" where
  "safe_key key \<longleftrightarrow> key \<notin> set DANGEROUS_KEYS"

fun shaped :: "(jsany \<Rightarrow> bool) \<Rightarrow> jsany \<Rightarrow> bool"
  and shaped_items :: "(jsany \<Rightarrow> bool) \<Rightarrow> jsany option list \<Rightarrow> bool"
  and shaped_entries :: "(jsany \<Rightarrow> bool) \<Rightarrow> (string \<times> jsany) list \<Rightarrow> bool"
where
  "shaped ok (VArr xs) \<longleftrightarrow> length xs \<le> MAX_LOGICAL_OPERANDS \<and> shaped_items ok xs"
| "shaped ok (VObj ps) \<longleftrightarrow> shaped_entries ok ps"
| "shaped ok v \<longleftrightarrow> ok v"
| "shaped_items ok [] \<longleftrightarrow> True"
| "shaped_items ok (None # xs) \<longleftrightarrow> shaped_items ok xs"
| "shaped_items ok (Some x # xs) \<longleftrightarrow> shaped ok x \<and> shaped_items ok xs"
| "shaped_entries ok [] \<longleftrightarrow> True"
| "shaped_entries ok ((key, x) # ps) \<longleftrightarrow> safe_key key \<and> shaped ok x \<and> shaped_entries ok ps"

fun weight :: "(jsany \<Rightarrow> nat) \<Rightarrow> jsany \<Rightarrow> nat"
  and items_weight :: "(jsany \<Rightarrow> nat) \<Rightarrow> jsany option list \<Rightarrow> nat"
  and entries_weight :: "(jsany \<Rightarrow> nat) \<Rightarrow> (string \<times> jsany) list \<Rightarrow> nat"
where
  "weight w (VArr xs) = Suc (items_weight w xs)"
| "weight w (VObj ps) = Suc (entries_weight w ps)"
| "weight w v = w v"
| "items_weight w [] = 0"
| "items_weight w (None # xs) = items_weight w xs"
| "items_weight w (Some x # xs) = Suc (weight w x) + items_weight w xs"
| "entries_weight w [] = 0"
| "entries_weight w ((key, x) # ps) = Suc (weight w x) + entries_weight w ps"

fun image_of :: "(jsany \<Rightarrow> jsany) \<Rightarrow> jsany \<Rightarrow> jsany" where
  "image_of f (VArr xs) = VArr (map (map_option (image_of f)) xs)"
| "image_of f (VObj ps) = VObj (map (\<lambda>(k, x). (k, image_of f x)) ps)"
| "image_of f v = f v"

fun is_atom :: "jsany \<Rightarrow> bool" where
  "is_atom (VArr _) = False"
| "is_atom (VObj _) = False"
| "is_atom _ = True"

text \<open>The contract of the atoms: they are accepted within the budget, or refused.\<close>

locale bounded_copy =
  fixes atom :: atom_copy and ok :: "jsany \<Rightarrow> bool" and w :: "jsany \<Rightarrow> nat" and f :: "jsany \<Rightarrow> jsany"
  assumes atom_exact: "is_atom v \<Longrightarrow> n \<le> MAX_FILTER_NODES \<Longrightarrow>
    atom v n = Inr r \<longleftrightarrow> ok v \<and> n + w v \<le> MAX_FILTER_NODES \<and> r = (f v, n + w v)"
begin

lemma copy_exact:
  "depth \<le> MAX_FILTER_DEPTH \<Longrightarrow> n \<le> MAX_FILTER_NODES \<Longrightarrow>
     copy_value atom depth v n = Inr r \<longleftrightarrow> shaped ok v \<and> depth + depth_of v \<le> MAX_FILTER_DEPTH \<and>
       n + weight w v \<le> MAX_FILTER_NODES \<and> r = (image_of f v, n + weight w v)"
  "depth \<le> MAX_FILTER_DEPTH \<Longrightarrow> n \<le> MAX_FILTER_NODES \<Longrightarrow>
     copy_items atom depth xs n = Inr rs \<longleftrightarrow> shaped_items ok xs \<and> depth + items_depth xs \<le> MAX_FILTER_DEPTH \<and>
       n + items_weight w xs \<le> MAX_FILTER_NODES \<and> rs = (map (map_option (image_of f)) xs, n + items_weight w xs)"
  "depth \<le> MAX_FILTER_DEPTH \<Longrightarrow> n \<le> MAX_FILTER_NODES \<Longrightarrow>
     copy_entries atom depth ps n = Inr qs \<longleftrightarrow> shaped_entries ok ps \<and> depth + entries_depth ps \<le> MAX_FILTER_DEPTH \<and>
       n + entries_weight w ps \<le> MAX_FILTER_NODES \<and> qs = (map (\<lambda>(k, x). (k, image_of f x)) ps, n + entries_weight w ps)"
proof (induction v and xs and ps arbitrary: depth n r and depth n rs and depth n qs
    rule: depth_of_items_depth_entries_depth.induct)
  case (1 xs)
  then show ?case
    by (cases r) (auto simp: chain_Inr enterFilterNode_def split_def)
next
  case (2 ps)
  then show ?case
    by (cases r) (auto simp: chain_Inr enterFilterNode_def split_def)
next
  case (6 x xs)
  then show ?case
    by (cases rs) (auto simp: chain_Inr countFilterEntry_def split_def)
next
  case (8 key x ps)
  then show ?case
    by (cases qs) (auto simp: chain_Inr countFilterEntry_def assertSafeKey_def safe_key_def split_def)
qed (auto simp: atom_exact andthen_Inr split_def)

end

fun literal_ok :: "jsany \<Rightarrow> bool" where
  "literal_ok (VRegExp _ _) = False"
| "literal_ok (VDate t) = (t \<noteq> None)"
| "literal_ok (VInstance _ _) = False"
| "literal_ok _ = True"

fun stored_atom :: "jsany \<Rightarrow> jsany" where
  "stored_atom (VDate (Some ms)) = VStr (toISOString ms)"
| "stored_atom v = v"

fun not_instance :: "jsany \<Rightarrow> bool" where
  "not_instance (VInstance _ _) = False"
| "not_instance _ = True"

fun opaque_weight :: "jsany \<Rightarrow> nat" where
  "opaque_weight (VDate _) = 1"
| "opaque_weight (VRegExp _ _) = 1"
| "opaque_weight _ = 0"

abbreviation stored :: "jsany \<Rightarrow> jsany" where
  "stored \<equiv> image_of stored_atom"

abbreviation literal :: "jsany \<Rightarrow> bool" where
  "literal \<equiv> shaped literal_ok"

abbreviation literal_weight :: "jsany \<Rightarrow> nat" where
  "literal_weight \<equiv> weight (\<lambda>_. 0)"

interpretation lc: bounded_copy literal_atom literal_ok "\<lambda>_. 0" stored_atom
proof
  fix v n r assume "is_atom v" "n \<le> MAX_FILTER_NODES"
  then show "literal_atom v n = Inr r \<longleftrightarrow> literal_ok v \<and> n + 0 \<le> MAX_FILTER_NODES \<and> r = (stored_atom v, n + 0)"
    by (cases v) (auto simp: literal_atom_def normalizeDateOperand_def split: option.splits)
qed

interpretation bc: bounded_copy bounded_atom not_instance opaque_weight id
proof
  fix v n r assume "is_atom v" "n \<le> MAX_FILTER_NODES"
  then show "bounded_atom v n = Inr r \<longleftrightarrow> not_instance v \<and> n + opaque_weight v \<le> MAX_FILTER_NODES \<and> r = (id v, n + opaque_weight v)"
    by (cases v) (auto simp: bounded_atom_def countFilterEntry_def)
qed

lemma cloneLiteral_exact:
  "depth \<le> MAX_FILTER_DEPTH \<Longrightarrow> n \<le> MAX_FILTER_NODES \<Longrightarrow>
     cloneLiteral depth v n = Inr r \<longleftrightarrow> literal v \<and> depth + depth_of v \<le> MAX_FILTER_DEPTH \<and>
       n + literal_weight v \<le> MAX_FILTER_NODES \<and> r = (stored v, n + literal_weight v)"
  unfolding cloneLiteral_def by (rule lc.copy_exact(1))

lemma image_id [simp]: "image_of id v = v" "map (map_option (image_of id)) xs = xs" "map (\<lambda>(k :: string, x). (k, image_of id x)) ps = ps"
  by (induction v and xs and ps rule: depth_of_items_depth_entries_depth.induct) simp_all

section \<open>What an accepted filter is\<close>

text \<open>
  The condition on a field: a literal, or an object of supported operators with literals. \<open>$regex\<close> and
  \<open>$options\<close> are known operators that are always refused.
\<close>

definition has_dollar :: "(string \<times> jsany) list \<Rightarrow> bool" where
  "has_dollar ps \<longleftrightarrow> list_ex (\<lambda>(k, x). dollar k) ps"

definition field_shaped :: "jsany \<Rightarrow> bool" where
  "field_shaped v =
     (case v of
        VObj ps \<Rightarrow> (if has_dollar ps then list_all (\<lambda>(k, x). k \<in> set selector_operators \<and> literal x) ps else literal v)
      | _ \<Rightarrow> literal v)"

fun operands_depth :: "(jsany \<Rightarrow> nat) \<Rightarrow> (string \<times> jsany) list \<Rightarrow> nat" where
  "operands_depth d [] = 0"
| "operands_depth d ((k, x) # ps) = max (d x) (operands_depth d ps)"

definition field_depth :: "jsany \<Rightarrow> nat" where
  "field_depth v = (case v of VObj ps \<Rightarrow> (if has_dollar ps then operands_depth depth_of ps else depth_of v) | _ \<Rightarrow> depth_of v)"

definition field_weight :: "jsany \<Rightarrow> nat" where
  "field_weight v =
     (case v of VObj ps \<Rightarrow> (if has_dollar ps then sum_list (map (\<lambda>(k, x). literal_weight x) ps) else literal_weight v)
      | _ \<Rightarrow> literal_weight v)"

definition field_image :: "jsany \<Rightarrow> jsany" where
  "field_image v =
     (case v of
        VObj ps \<Rightarrow> VObj (if has_dollar ps then map (\<lambda>(k, x). (k, stored x)) ps else [(''$eq'', stored v)])
      | _ \<Rightarrow> stored v)"

fun filter_shaped :: "jsany \<Rightarrow> bool"
  and filter_entries_shaped :: "(string \<times> jsany) list \<Rightarrow> bool"
  and operand_list_shaped :: "jsany \<Rightarrow> bool"
  and operand_items_shaped :: "jsany option list \<Rightarrow> bool"
where
  "filter_shaped (VObj ps) \<longleftrightarrow> filter_entries_shaped ps"
| "filter_shaped _ \<longleftrightarrow> False"
| "filter_entries_shaped [] \<longleftrightarrow> True"
| "filter_entries_shaped ((key, v) # ps) \<longleftrightarrow> safe_key key \<and>
     (if key \<in> set LOGICAL_OPERATORS then operand_list_shaped v else \<not> dollar key \<and> field_shaped v) \<and> filter_entries_shaped ps"
| "operand_list_shaped (VArr xs) \<longleftrightarrow> xs \<noteq> [] \<and> length xs \<le> MAX_LOGICAL_OPERANDS \<and> operand_items_shaped xs"
| "operand_list_shaped _ \<longleftrightarrow> False"
| "operand_items_shaped [] \<longleftrightarrow> True"
| "operand_items_shaped (None # xs) \<longleftrightarrow> operand_items_shaped xs"
| "operand_items_shaped (Some x # xs) \<longleftrightarrow> filter_shaped x \<and> operand_items_shaped xs"

fun filter_depth :: "jsany \<Rightarrow> nat"
  and filter_entries_depth :: "(string \<times> jsany) list \<Rightarrow> nat"
  and operand_list_depth :: "jsany \<Rightarrow> nat"
  and operand_items_depth :: "jsany option list \<Rightarrow> nat"
where
  "filter_depth (VObj ps) = filter_entries_depth ps"
| "filter_depth _ = 0"
| "filter_entries_depth [] = 0"
| "filter_entries_depth ((key, v) # ps) =
     max (if key \<in> set LOGICAL_OPERATORS then operand_list_depth v else field_depth v) (filter_entries_depth ps)"
| "operand_list_depth (VArr xs) = operand_items_depth xs"
| "operand_list_depth _ = 0"
| "operand_items_depth [] = 0"
| "operand_items_depth (None # xs) = operand_items_depth xs"
| "operand_items_depth (Some x # xs) = max (Suc (filter_depth x)) (operand_items_depth xs)"

fun filter_weight :: "jsany \<Rightarrow> nat"
  and filter_entries_weight :: "(string \<times> jsany) list \<Rightarrow> nat"
  and operand_list_weight :: "jsany \<Rightarrow> nat"
  and operand_items_weight :: "jsany option list \<Rightarrow> nat"
where
  "filter_weight (VObj ps) = Suc (filter_entries_weight ps)"
| "filter_weight _ = 0"
| "filter_entries_weight [] = 0"
| "filter_entries_weight ((key, v) # ps) =
     Suc (if key \<in> set LOGICAL_OPERATORS then operand_list_weight v else field_weight v) + filter_entries_weight ps"
| "operand_list_weight (VArr xs) = operand_items_weight xs"
| "operand_list_weight _ = 0"
| "operand_items_weight [] = 0"
| "operand_items_weight (None # xs) = operand_items_weight xs"
| "operand_items_weight (Some x # xs) = filter_weight x + operand_items_weight xs"

text \<open>
  The count that the comment of \<open>sanitizeFilter\<close> describes is that of every container with its entries,
  \<open>literal_weight\<close> of the whole filter. What the code's count leaves out: the objects of operators with
  their entries, and the arrays of operands with theirs.
\<close>

definition field_uncounted :: "jsany \<Rightarrow> nat" where
  "field_uncounted v = (case v of VObj ps \<Rightarrow> (if has_dollar ps then Suc (length ps) else 0) | _ \<Rightarrow> 0)"

fun uncounted :: "jsany \<Rightarrow> nat"
  and entries_uncounted :: "(string \<times> jsany) list \<Rightarrow> nat"
  and operand_list_uncounted :: "jsany \<Rightarrow> nat"
  and operand_items_uncounted :: "jsany option list \<Rightarrow> nat"
where
  "uncounted (VObj ps) = entries_uncounted ps"
| "uncounted _ = 0"
| "entries_uncounted [] = 0"
| "entries_uncounted ((key, v) # ps) =
     (if key \<in> set LOGICAL_OPERATORS then operand_list_uncounted v else field_uncounted v) + entries_uncounted ps"
| "operand_list_uncounted (VArr xs) = Suc (operand_items_uncounted xs)"
| "operand_list_uncounted _ = 0"
| "operand_items_uncounted [] = 0"
| "operand_items_uncounted (None # xs) = operand_items_uncounted xs"
| "operand_items_uncounted (Some x # xs) = Suc (uncounted x) + operand_items_uncounted xs"

lemma field_weights: "literal_weight v = field_weight v + field_uncounted v"
proof (cases v)
  case (VObj ps)
  have "entries_weight (\<lambda>_. 0) ps = sum_list (map (\<lambda>(k, x). literal_weight x) ps) + length ps"
    by (induction ps) auto
  with VObj show ?thesis by (simp add: field_weight_def field_uncounted_def)
qed (simp_all add: field_weight_def field_uncounted_def)

lemma filter_weights:
  "filter_shaped v \<Longrightarrow> literal_weight v = filter_weight v + uncounted v"
  "filter_entries_shaped ps \<Longrightarrow> entries_weight (\<lambda>_. 0) ps = filter_entries_weight ps + entries_uncounted ps"
  "operand_list_shaped v \<Longrightarrow> literal_weight v = operand_list_weight v + operand_list_uncounted v"
  "operand_items_shaped xs \<Longrightarrow> items_weight (\<lambda>_. 0) xs = operand_items_weight xs + operand_items_uncounted xs"
proof (induction v and ps and v and xs
    rule: filter_depth_filter_entries_depth_operand_list_depth_operand_items_depth.induct)
  case (4 key v ps)
  then show ?case using field_weights [of v] by (cases "key \<in> set LOGICAL_OPERATORS") auto
qed simp_all

fun filter_image :: "jsany \<Rightarrow> jsany"
  and filter_entries_image :: "(string \<times> jsany) list \<Rightarrow> (string \<times> jsany) list"
  and operand_list_image :: "jsany \<Rightarrow> jsany"
  and operand_items_image :: "jsany option list \<Rightarrow> jsany option list"
where
  "filter_image (VObj ps) = VObj (filter_entries_image ps)"
| "filter_image v = v"
| "filter_entries_image [] = []"
| "filter_entries_image ((key, v) # ps) =
     (key, if key \<in> set LOGICAL_OPERATORS then operand_list_image v else field_image v) # filter_entries_image ps"
| "operand_list_image (VArr xs) = VArr (operand_items_image xs)"
| "operand_list_image v = v"
| "operand_items_image [] = []"
| "operand_items_image (None # xs) = None # operand_items_image xs"
| "operand_items_image (Some x # xs) = Some (filter_image x) # operand_items_image xs"

lemma selector_operator_dollar: "k \<in> set selector_operators \<Longrightarrow> dollar k"
  by (auto simp: selector_operators_def starts_with_def)

lemma safe_operators: "set SAFE_OPERATORS = insert ''$regex'' (insert ''$options'' (set selector_operators))"
  by (auto simp: SAFE_OPERATORS_def selector_operators_def)

lemma operator_safe: "k \<in> set SAFE_OPERATORS \<Longrightarrow> k \<notin> set DANGEROUS_KEYS"
  by (auto simp: SAFE_OPERATORS_def DANGEROUS_KEYS_def)

lemma selector_operator_plain: "''$regex'' \<notin> set selector_operators" "''$options'' \<notin> set selector_operators"
  by (simp_all add: selector_operators_def)

lemma operator_entries_regex: "''$regex'' \<in> set (map fst ps) \<Longrightarrow> operator_entries depth ps n \<noteq> Inr r"
  by (induction depth ps n arbitrary: r rule: operator_entries.induct)
    (auto simp: andthen_Inr normalizeRegexOperator_def simp del: set_map)

lemma operator_entries_exact:
  "depth \<le> MAX_FILTER_DEPTH \<Longrightarrow> n \<le> MAX_FILTER_NODES \<Longrightarrow> ''$options'' \<notin> fst ` set ps \<Longrightarrow>
     operator_entries depth ps n = Inr r \<longleftrightarrow>
       list_all (\<lambda>(k, x). k \<in> set selector_operators \<and> literal x) ps \<and> depth + operands_depth depth_of ps \<le> MAX_FILTER_DEPTH \<and>
       n + sum_list (map (\<lambda>(k, x). literal_weight x) ps) \<le> MAX_FILTER_NODES \<and>
       r = (map (\<lambda>(k, x). (k, stored x)) ps, n + sum_list (map (\<lambda>(k, x). literal_weight x) ps))"
proof (induction ps arbitrary: n r)
  case (Cons p ps)
  obtain k x where p: "p = (k, x)" by (cases p)
  show ?case
  proof (cases "k \<in> set selector_operators")
    case True
    then have "k \<in> set SAFE_OPERATORS" "k \<noteq> ''$regex''" "k \<noteq> ''$options''" "assertSafeKey k = Inr ()"
      using selector_operator_plain operator_safe [of k] by (auto simp: safe_operators assertSafeKey_def guard_def)
    with True Cons show ?thesis
      by (cases r) (auto simp: p chain_Inr cloneLiteral_exact split_def)
  next
    case False
    with Cons.prems show ?thesis
      by (auto simp: p chain_Inr safe_operators normalizeRegexOperator_def)
  qed
qed auto

lemma length_filter_Suc: "length (filter P xs) \<noteq> Suc (length xs)"
  using length_filter_le [of P xs] by linarith

lemma dollar_keys:
  "filter dollar (map fst ps) = [] \<longleftrightarrow> \<not> has_dollar ps"
  "length (filter dollar (map fst ps)) = length ps \<longleftrightarrow> list_all (\<lambda>(k, x). dollar k) ps"
proof -
  show "filter dollar (map fst ps) = [] \<longleftrightarrow> \<not> has_dollar ps"
    by (auto simp: has_dollar_def filter_empty_conv list_ex_iff)
  show "length (filter dollar (map fst ps)) = length ps \<longleftrightarrow> list_all (\<lambda>(k, x). dollar k) ps"
    by (induction ps) (auto simp: length_filter_Suc)
qed

lemma normalizeFieldValue_exact:
  assumes "depth \<le> MAX_FILTER_DEPTH" "n \<le> MAX_FILTER_NODES"
  shows "normalizeFieldValue depth v n = Inr r \<longleftrightarrow> field_shaped v \<and> depth + field_depth v \<le> MAX_FILTER_DEPTH \<and>
    n + field_weight v \<le> MAX_FILTER_NODES \<and> r = (field_image v, n + field_weight v)"
proof (cases v)
  case (VObj ps)
  have keys: "list_all (\<lambda>(k, x). k \<in> set selector_operators \<and> literal x) ps \<Longrightarrow>
      list_all (\<lambda>(k, x). dollar k) ps \<and> ''$options'' \<notin> fst ` set ps"
    using selector_operator_dollar selector_operator_plain(2) by (auto simp: list_all_iff)
  show ?thesis
  proof (cases "has_dollar ps")
    case False
    with VObj assms show ?thesis
      by (cases r) (auto simp: normalizeFieldValue_def dollar_keys andthen_Inr cloneLiteral_exact split_def
          field_shaped_def field_depth_def field_weight_def field_image_def simp del: depth_of.simps weight.simps shaped.simps image_of.simps)
  next
    case True
    then have ne: "filter dollar (map fst ps) \<noteq> []" by (simp add: dollar_keys)
    have "normalizeFieldValue depth v n = Inr r \<longleftrightarrow> list_all (\<lambda>(k, x). dollar k) ps \<and> ''$options'' \<notin> fst ` set ps \<and>
        (\<exists>out c. operator_entries depth ps n = Inr (out, c) \<and> r = (VObj out, c))"
      using ne operator_entries_regex [of ps depth n] dollar_keys(2) [of ps]
      by (auto simp: VObj normalizeFieldValue_def Let_def andthen_Inr split_def)
    then show ?thesis
      using True keys assms
      by (auto simp: VObj operator_entries_exact field_shaped_def field_depth_def field_weight_def field_image_def)
  qed
qed (use assms in \<open>auto simp: normalizeFieldValue_def normalizeRegexOperator_def cloneLiteral_exact field_shaped_def
    field_depth_def field_weight_def field_image_def\<close>)

lemma filter_exact:
  "depth \<le> MAX_FILTER_DEPTH + 1 \<Longrightarrow> n \<le> MAX_FILTER_NODES \<Longrightarrow>
     normalizeFilterObject depth v n = Inr r \<longleftrightarrow> filter_shaped v \<and> depth + filter_depth v \<le> MAX_FILTER_DEPTH \<and>
       n + filter_weight v \<le> MAX_FILTER_NODES \<and> r = (filter_image v, n + filter_weight v)"
  "depth \<le> MAX_FILTER_DEPTH \<Longrightarrow> n \<le> MAX_FILTER_NODES \<Longrightarrow>
     filter_entries depth ps n = Inr qs \<longleftrightarrow> filter_entries_shaped ps \<and> depth + filter_entries_depth ps \<le> MAX_FILTER_DEPTH \<and>
       n + filter_entries_weight ps \<le> MAX_FILTER_NODES \<and> qs = (filter_entries_image ps, n + filter_entries_weight ps)"
  "depth \<le> MAX_FILTER_DEPTH \<Longrightarrow> n \<le> MAX_FILTER_NODES \<Longrightarrow>
     normalizeLogicalOperands depth v n = Inr r \<longleftrightarrow> operand_list_shaped v \<and> depth + operand_list_depth v \<le> MAX_FILTER_DEPTH \<and>
       n + operand_list_weight v \<le> MAX_FILTER_NODES \<and> r = (operand_list_image v, n + operand_list_weight v)"
  "depth \<le> MAX_FILTER_DEPTH \<Longrightarrow> n \<le> MAX_FILTER_NODES \<Longrightarrow>
     filter_operands depth xs n = Inr ys \<longleftrightarrow> operand_items_shaped xs \<and> depth + operand_items_depth xs \<le> MAX_FILTER_DEPTH \<and>
       n + operand_items_weight xs \<le> MAX_FILTER_NODES \<and> ys = (operand_items_image xs, n + operand_items_weight xs)"
proof (induction v and ps and v and xs arbitrary: depth n r and depth n qs and depth n r and depth n ys
    rule: filter_depth_filter_entries_depth_operand_list_depth_operand_items_depth.induct)
  case (1 ps)
  then show ?case
    by (cases r) (auto simp: chain_Inr enterFilterNode_def split_def)
next
  case (4 key v ps)
  then show ?case
    by (cases qs) (auto simp: chain_Inr countFilterEntry_def assertSafeKey_def safe_key_def split_def normalizeFieldValue_exact)
next
  case (9 x xs)
  then show ?case
    by (cases ys; cases x) (auto simp: chain_Inr split_def)
qed (auto simp: andthen_Inr split_def)

lemma has_dollar_mapped [simp]: "has_dollar (map (\<lambda>(k, x). (k, g x)) ps) = has_dollar ps"
  by (induction ps) (auto simp: has_dollar_def)

lemmas image_defs = field_shaped_def field_depth_def field_weight_def field_image_def

lemma stored_stable:
  "literal v \<Longrightarrow> literal (stored v) \<and> stored (stored v) = stored v"
  "shaped_items literal_ok xs \<Longrightarrow> shaped_items literal_ok (map (map_option stored) xs) \<and>
     map (map_option stored) (map (map_option stored) xs) = map (map_option stored) xs"
  "shaped_entries literal_ok ps \<Longrightarrow> shaped_entries literal_ok (map (\<lambda>(k, x). (k, stored x)) ps) \<and>
     map (\<lambda>(k, x). (k, stored x)) (map (\<lambda>(k, x). (k, stored x)) ps) = map (\<lambda>(k, x). (k, stored x)) ps"
  by (induction v and xs and ps rule: depth_of_items_depth_entries_depth.induct) (auto simp: comp_def)

lemma stored_measures:
  "literal v \<Longrightarrow> depth_of (stored v) = depth_of v \<and> literal_weight (stored v) = literal_weight v"
  "shaped_items literal_ok xs \<Longrightarrow> items_depth (map (map_option stored) xs) = items_depth xs \<and>
     items_weight (\<lambda>_. 0) (map (map_option stored) xs) = items_weight (\<lambda>_. 0) xs"
  "shaped_entries literal_ok ps \<Longrightarrow> entries_depth (map (\<lambda>(k, x). (k, stored x)) ps) = entries_depth ps \<and>
     entries_weight (\<lambda>_. 0) (map (\<lambda>(k, x). (k, stored x)) ps) = entries_weight (\<lambda>_. 0) ps"
  by (induction v and xs and ps rule: depth_of_items_depth_entries_depth.induct) auto

lemma field_image_stable:
  assumes "field_shaped v"
  shows "field_shaped (field_image v) \<and> field_depth (field_image v) = field_depth v \<and>
    field_weight (field_image v) = field_weight v \<and> field_image (field_image v) = field_image v"
proof (cases "\<exists>ps. v = VObj ps")
  case False
  then have v: "field_image v = stored v" "literal v" "field_depth v = depth_of v" "field_weight v = literal_weight v" "\<nexists>ps. stored v = VObj ps"
    using assms by (cases v; auto simp: image_defs elim: stored_atom.elims)+
  then have "field_shaped (stored v) = literal (stored v)" "field_depth (stored v) = depth_of (stored v)"
    "field_weight (stored v) = literal_weight (stored v)" "field_image (stored v) = stored (stored v)"
    by (cases "stored v"; simp add: image_defs)+
  with v show ?thesis by (simp add: stored_stable stored_measures)
next
  case True
  then obtain ps where v: "v = VObj ps" by blast
  show ?thesis
  proof (cases "has_dollar ps")
    case False
    with assms v have "literal v" by (simp add: image_defs)
    moreover have "has_dollar [(''$eq'', x)]" "''$eq'' \<in> set selector_operators" for x
      by (simp_all add: has_dollar_def starts_with_def selector_operators_def)
    ultimately show ?thesis
      using False stored_stable(1) [of v] stored_measures(1) [of v] by (simp add: v image_defs)
  next
    case True
    with assms v have ok: "list_all (\<lambda>(k, x). k \<in> set selector_operators \<and> literal x) ps" by (simp add: image_defs)
    from ok have "list_all (\<lambda>(k, x). k \<in> set selector_operators \<and> literal x) (map (\<lambda>(k, x). (k, stored x)) ps) \<and>
        operands_depth depth_of (map (\<lambda>(k, x). (k, stored x)) ps) = operands_depth depth_of ps \<and>
        map (\<lambda>(k, x). literal_weight x) (map (\<lambda>(k, x). (k, stored x)) ps) = map (\<lambda>(k, x). literal_weight x) ps \<and>
        map (\<lambda>(k, x). (k, stored x)) (map (\<lambda>(k, x). (k, stored x)) ps) = map (\<lambda>(k, x). (k, stored x)) ps"
      by (induction ps) (auto simp: stored_stable stored_measures)
    with True show ?thesis
      by (simp only: v image_defs jsany.case if_True has_dollar_mapped)
  qed
qed

lemma filter_image_stable:
  "filter_shaped v \<Longrightarrow> filter_shaped (filter_image v) \<and> filter_depth (filter_image v) = filter_depth v \<and>
     filter_weight (filter_image v) = filter_weight v \<and> filter_image (filter_image v) = filter_image v"
  "filter_entries_shaped ps \<Longrightarrow> filter_entries_shaped (filter_entries_image ps) \<and>
     filter_entries_depth (filter_entries_image ps) = filter_entries_depth ps \<and>
     filter_entries_weight (filter_entries_image ps) = filter_entries_weight ps \<and>
     filter_entries_image (filter_entries_image ps) = filter_entries_image ps"
  "operand_list_shaped v \<Longrightarrow> operand_list_shaped (operand_list_image v) \<and>
     operand_list_depth (operand_list_image v) = operand_list_depth v \<and>
     operand_list_weight (operand_list_image v) = operand_list_weight v \<and> operand_list_image (operand_list_image v) = operand_list_image v"
  "operand_items_shaped xs \<Longrightarrow> operand_items_shaped (operand_items_image xs) \<and>
     operand_items_depth (operand_items_image xs) = operand_items_depth xs \<and>
     operand_items_weight (operand_items_image xs) = operand_items_weight xs \<and>
     operand_items_image (operand_items_image xs) = operand_items_image xs \<and> length (operand_items_image xs) = length xs"
proof (induction v and ps and v and xs
    rule: filter_depth_filter_entries_depth_operand_list_depth_operand_items_depth.induct)
  case (4 key v ps)
  then show ?case
    using field_image_stable [of v] by (cases "key \<in> set LOGICAL_OPERATORS") simp_all
next
  case (5 xs)
  then show ?case by (cases xs) (auto simp flip: length_greater_0_conv)
qed simp_all

section \<open>What a filter matches\<close>

text \<open>\<open>leaf field operator operand\<close>: the operator holds for the field of the document.\<close>

type_synonym leaf_match = "string \<Rightarrow> string \<Rightarrow> jsany \<Rightarrow> bool"

definition field_matches :: "leaf_match \<Rightarrow> string \<Rightarrow> jsany \<Rightarrow> bool" where
  "field_matches leaf k v =
     (case v of
        VObj ps \<Rightarrow> (if has_dollar ps then list_all (\<lambda>(op, x). leaf k op x) ps else leaf k ''$eq'' v)
      | _ \<Rightarrow> leaf k ''$eq'' v)"

fun matches :: "leaf_match \<Rightarrow> jsany \<Rightarrow> bool"
  and entries_match :: "leaf_match \<Rightarrow> (string \<times> jsany) list \<Rightarrow> bool"
  and all_match :: "leaf_match \<Rightarrow> jsany \<Rightarrow> bool"
  and some_match :: "leaf_match \<Rightarrow> jsany \<Rightarrow> bool"
  and items_all :: "leaf_match \<Rightarrow> jsany option list \<Rightarrow> bool"
  and items_some :: "leaf_match \<Rightarrow> jsany option list \<Rightarrow> bool"
where
  "matches leaf (VObj ps) = entries_match leaf ps"
| "matches leaf _ = False"
| "entries_match leaf [] = True"
| "entries_match leaf ((k, v) # ps) =
     ((if k = ''$and'' then all_match leaf v
       else if k = ''$or'' then some_match leaf v
       else if k = ''$nor'' then \<not> some_match leaf v
       else field_matches leaf k v) \<and> entries_match leaf ps)"
| "all_match leaf (VArr xs) = items_all leaf xs"
| "all_match leaf _ = False"
| "some_match leaf (VArr xs) = items_some leaf xs"
| "some_match leaf _ = False"
| "items_all leaf [] = True"
| "items_all leaf (None # xs) = items_all leaf xs"
| "items_all leaf (Some x # xs) = (matches leaf x \<and> items_all leaf xs)"
| "items_some leaf [] = False"
| "items_some leaf (None # xs) = items_some leaf xs"
| "items_some leaf (Some x # xs) = (matches leaf x \<or> items_some leaf xs)"

text \<open>
  The conditions on \<open>_id\<close> that are arrays are not translated like those of other fields. \<open>refused_id\<close>: one of
  them has an item. \<open>id_arrays_emptied\<close>: those without an item are replaced by the empty object.
\<close>

fun no_item :: "jsany option list \<Rightarrow> bool" where
  "no_item [] = True"
| "no_item (None # xs) = no_item xs"
| "no_item (Some x # xs) = False"

definition refused_condition :: "string \<Rightarrow> jsany \<Rightarrow> bool" where
  "refused_condition k v \<longleftrightarrow> k = ''_id'' \<and> (case v of VArr xs \<Rightarrow> \<not> no_item xs | _ \<Rightarrow> False)"

definition emptied_condition :: "string \<Rightarrow> jsany \<Rightarrow> jsany" where
  "emptied_condition k v = (case v of VArr xs \<Rightarrow> (if k = ''_id'' then VObj [] else v) | _ \<Rightarrow> v)"

fun refused_id :: "jsany \<Rightarrow> bool"
  and refused_id_entries :: "(string \<times> jsany) list \<Rightarrow> bool"
  and refused_id_operands :: "jsany \<Rightarrow> bool"
  and refused_id_items :: "jsany option list \<Rightarrow> bool"
where
  "refused_id (VObj ps) = refused_id_entries ps"
| "refused_id _ = False"
| "refused_id_entries [] = False"
| "refused_id_entries ((k, v) # ps) =
     ((if k \<in> set LOGICAL_OPERATORS then refused_id_operands v else refused_condition k v) \<or> refused_id_entries ps)"
| "refused_id_operands (VArr xs) = refused_id_items xs"
| "refused_id_operands _ = False"
| "refused_id_items [] = False"
| "refused_id_items (None # xs) = refused_id_items xs"
| "refused_id_items (Some x # xs) = (refused_id x \<or> refused_id_items xs)"

fun id_arrays_emptied :: "jsany \<Rightarrow> jsany"
  and id_entries_emptied :: "(string \<times> jsany) list \<Rightarrow> (string \<times> jsany) list"
  and id_operands_emptied :: "jsany \<Rightarrow> jsany"
  and id_items_emptied :: "jsany option list \<Rightarrow> jsany option list"
where
  "id_arrays_emptied (VObj ps) = VObj (id_entries_emptied ps)"
| "id_arrays_emptied v = v"
| "id_entries_emptied [] = []"
| "id_entries_emptied ((k, v) # ps) =
     (k, if k \<in> set LOGICAL_OPERATORS then id_operands_emptied v else emptied_condition k v) # id_entries_emptied ps"
| "id_operands_emptied (VArr xs) = VArr (id_items_emptied xs)"
| "id_operands_emptied v = v"
| "id_items_emptied [] = []"
| "id_items_emptied (None # xs) = None # id_items_emptied xs"
| "id_items_emptied (Some x # xs) = Some (id_arrays_emptied x) # id_items_emptied xs"

lemma no_item_image: "no_item (map (map_option g) xs) = no_item xs"
  by (induction xs rule: no_item.induct) simp_all

lemma index_entries_none: "index_entries i xs = [] \<longleftrightarrow> no_item xs"
  by (induction xs arbitrary: i rule: no_item.induct) simp_all

lemma index_entries_keys: "(k, x) \<in> set (index_entries i xs) \<Longrightarrow> \<exists>n. k = digits n"
  by (induction i xs rule: index_entries.induct) auto

lemma digits_not_operator: "digits n \<noteq> CHR ''$'' # s"
  using digits_all [of n] by (auto simp: is_digit_def char_between_def)

lemma translateOps_index:
  assumes "\<not> no_item xs"
  shows "translateOps (index_entries 0 xs) = Inl UnsupportedOperator"
proof -
  obtain n x ps where e: "index_entries 0 xs = (digits n, x) # ps"
    using assms index_entries_none [of 0 xs] index_entries_keys [of _ _ 0 xs]
    by (cases "index_entries 0 xs") (auto, metis)
  have "digits n \<notin> set selector_operators" "digits n \<noteq> ''$regex''" "digits n \<noteq> ''$options''"
    using digits_not_operator [of n] by (simp_all add: selector_operators_def)
  then show ?thesis by (simp add: e)
qed

lemma translateOps_supported: "list_all (\<lambda>(k, x). k \<in> set selector_operators) ps \<Longrightarrow> translateOps ps = Inr ps"
  by (induction ps) auto

lemma translate_field_image:
  assumes "field_shaped v" "\<nexists>xs. k = ''_id'' \<and> v = VArr xs"
  shows "\<exists>s. translate_field k (field_image v) = Inr s \<and>
    (\<forall>leaf. field_matches leaf k s = field_matches (\<lambda>k op x. leaf k op (stored x)) k v)"
proof (cases v)
  case (VObj ps)
  have eq: "''$eq'' \<in> set selector_operators" "dollar ''$eq''"
    by (simp_all add: selector_operators_def starts_with_def)
  show ?thesis
  proof (cases "has_dollar ps")
    case False
    with VObj eq show ?thesis
      by (simp add: translate_field_def field_image_def translateOps_supported field_matches_def has_dollar_def hasOperator_def)
  next
    case True
    then have dollars: "has_dollar (map (\<lambda>(k, x). (k, stored x)) ps)"
      by simp
    from True VObj assms have "list_all (\<lambda>(k, x). k \<in> set selector_operators) (map (\<lambda>(k, x). (k, stored x)) ps)"
      by (auto simp: field_shaped_def list_all_iff)
    then have "translate_field k (field_image v) = Inr (VObj (map (\<lambda>(k, x). (k, stored x)) ps))"
      using dollars True by (simp add: VObj translate_field_def field_image_def translateOps_supported hasOperator_def has_dollar_def [symmetric])
    with True dollars show ?thesis
      by (auto simp: VObj field_matches_def list_all_iff)
  qed
next
  case (VDate t)
  with assms show ?thesis
    by (auto simp: field_shaped_def translate_field_def field_image_def field_matches_def has_dollar_def starts_with_def)
qed (use assms in \<open>auto simp: field_shaped_def translate_field_def field_image_def field_matches_def has_dollar_def starts_with_def\<close>)

lemma translate_condition:
  assumes "field_shaped v"
  shows "refused_condition k v \<Longrightarrow> translate_field k (field_image v) = Inl UnsupportedOperator"
    and "\<not> refused_condition k v \<Longrightarrow> \<exists>s. translate_field k (field_image v) = Inr s \<and>
      (\<forall>leaf. field_matches leaf k s = field_matches (\<lambda>k op x. leaf k op (stored x)) k (emptied_condition k v))"
proof -
  have arr: "translate_field ''_id'' (field_image (VArr xs)) = andthen (translateOps (index_entries 0 (map (map_option stored) xs))) (\<lambda>out. Inr (VObj out))"
    for xs
  proof -
    have "''$eq'' \<notin> fst ` set (index_entries 0 (map (map_option stored) xs))"
      using index_entries_keys [of "''$eq''" _ 0 "map (map_option stored) xs"] digits_not_operator by (metis imageE prod.collapse)
    then show ?thesis by (simp add: translate_field_def field_image_def)
  qed
  show "translate_field k (field_image v) = Inl UnsupportedOperator" if "refused_condition k v"
  proof -
    from that obtain xs where "k = ''_id''" "v = VArr xs" "\<not> no_item xs"
      by (auto simp: refused_condition_def split: jsany.splits)
    then show ?thesis using translateOps_index [of "map (map_option stored) xs"] by (simp add: arr no_item_image)
  qed
  show "\<exists>s. translate_field k (field_image v) = Inr s \<and>
      (\<forall>leaf. field_matches leaf k s = field_matches (\<lambda>k op x. leaf k op (stored x)) k (emptied_condition k v))"
    if ok: "\<not> refused_condition k v"
  proof (cases "\<exists>xs. k = ''_id'' \<and> v = VArr xs")
    case True
    then obtain xs where "k = ''_id''" "v = VArr xs" "no_item xs" using ok by (auto simp: refused_condition_def)
    then have "index_entries 0 (map (map_option stored) xs) = []" by (simp add: index_entries_none no_item_image)
    then show ?thesis
      using \<open>k = ''_id''\<close> \<open>v = VArr xs\<close> by (simp add: arr emptied_condition_def field_matches_def has_dollar_def)
  next
    case False
    then have "emptied_condition k v = v" by (auto simp: emptied_condition_def split: jsany.splits)
    with translate_field_image [OF assms False] show ?thesis by simp
  qed
qed

lemma logical_keys: "k \<in> set LOGICAL_OPERATORS \<longleftrightarrow> k = ''$and'' \<or> k = ''$or'' \<or> k = ''$nor''"
  by (auto simp: LOGICAL_OPERATORS_def)

lemma operand_list_cases: "operand_list_shaped v \<Longrightarrow> (\<And>xs. v = VArr xs \<Longrightarrow> operand_items_shaped xs \<Longrightarrow> thesis) \<Longrightarrow> thesis"
  by (cases v) auto

lemma translate_image:
  "filter_shaped v \<Longrightarrow> \<not> refused_id v \<Longrightarrow> \<exists>s. translateNormalized (filter_image v) = Inr s \<and>
     (\<forall>leaf. matches leaf s = matches (\<lambda>k op x. leaf k op (stored x)) (id_arrays_emptied v))"
  "filter_entries_shaped ps \<Longrightarrow> \<not> refused_id_entries ps \<Longrightarrow> \<exists>s. translate_entries (filter_entries_image ps) = Inr s \<and>
     (\<forall>leaf. entries_match leaf s = entries_match (\<lambda>k op x. leaf k op (stored x)) (id_entries_emptied ps))"
  "operand_list_shaped w \<Longrightarrow> \<not> refused_id_operands w \<Longrightarrow> \<exists>s. translate_operands (operand_list_image w) = Inr s \<and>
     (\<forall>leaf. all_match leaf s = all_match (\<lambda>k op x. leaf k op (stored x)) (id_operands_emptied w) \<and>
             some_match leaf s = some_match (\<lambda>k op x. leaf k op (stored x)) (id_operands_emptied w))"
  "operand_items_shaped xs \<Longrightarrow> \<not> refused_id_items xs \<Longrightarrow> \<exists>s. translate_items (operand_items_image xs) = Inr s \<and>
     (\<forall>leaf. items_all leaf s = items_all (\<lambda>k op x. leaf k op (stored x)) (id_items_emptied xs) \<and>
             items_some leaf s = items_some (\<lambda>k op x. leaf k op (stored x)) (id_items_emptied xs))"
proof (induction v and ps and w and xs
    rule: filter_depth_filter_entries_depth_operand_list_depth_operand_items_depth.induct)
  case (4 key v ps)
  then obtain s where s: "translate_entries (filter_entries_image ps) = Inr s"
    "\<And>leaf. entries_match leaf s = entries_match (\<lambda>k op x. leaf k op (stored x)) (id_entries_emptied ps)"
    by auto
  show ?case
  proof (cases "key \<in> set LOGICAL_OPERATORS")
    case True
    with 4 obtain t where "translate_operands (operand_list_image v) = Inr t"
      "\<And>leaf. all_match leaf t = all_match (\<lambda>k op x. leaf k op (stored x)) (id_operands_emptied v) \<and>
             some_match leaf t = some_match (\<lambda>k op x. leaf k op (stored x)) (id_operands_emptied v)"
      by auto
    with s True show ?thesis by (auto simp: logical_keys)
  next
    case False
    then have names: "key \<noteq> ''$and''" "key \<noteq> ''$or''" "key \<noteq> ''$nor''" by (auto simp: logical_keys)
    from False 4 have "field_shaped v" "\<not> refused_condition key v" by auto
    from translate_condition(2) [OF this] obtain t where
      "translate_field key (field_image v) = Inr t"
      "\<And>leaf. field_matches leaf key t = field_matches (\<lambda>k op x. leaf k op (stored x)) key (emptied_condition key v)"
      by blast
    with s False names show ?thesis by simp
  qed
next
  case (5 xs)
  then obtain s where "translate_items (operand_items_image xs) = Inr s"
    "\<And>leaf. items_all leaf s = items_all (\<lambda>k op x. leaf k op (stored x)) (id_items_emptied xs) \<and>
             items_some leaf s = items_some (\<lambda>k op x. leaf k op (stored x)) (id_items_emptied xs)"
    by auto
  then show ?case by simp
next
  case (9 x xs)
  then obtain s t where "translateNormalized (filter_image x) = Inr t" "translate_items (operand_items_image xs) = Inr s"
    "\<And>leaf. matches leaf t = matches (\<lambda>k op x. leaf k op (stored x)) (id_arrays_emptied x)"
    "\<And>leaf. items_all leaf s = items_all (\<lambda>k op x. leaf k op (stored x)) (id_items_emptied xs) \<and>
             items_some leaf s = items_some (\<lambda>k op x. leaf k op (stored x)) (id_items_emptied xs)"
    by auto
  then show ?case by simp
qed auto

lemma translate_refused:
  "filter_shaped v \<Longrightarrow> refused_id v \<Longrightarrow> translateNormalized (filter_image v) = Inl UnsupportedOperator"
  "filter_entries_shaped ps \<Longrightarrow> refused_id_entries ps \<Longrightarrow> translate_entries (filter_entries_image ps) = Inl UnsupportedOperator"
  "operand_list_shaped w \<Longrightarrow> refused_id_operands w \<Longrightarrow> translate_operands (operand_list_image w) = Inl UnsupportedOperator"
  "operand_items_shaped xs \<Longrightarrow> refused_id_items xs \<Longrightarrow> translate_items (operand_items_image xs) = Inl UnsupportedOperator"
proof (induction v and ps and w and xs
    rule: filter_depth_filter_entries_depth_operand_list_depth_operand_items_depth.induct)
  case (4 key v ps)
  show ?case
  proof (cases "if key \<in> set LOGICAL_OPERATORS then refused_id_operands v else refused_condition key v")
    case True
    with 4 translate_condition(1) [of v key] show ?thesis by (auto split: if_splits)
  next
    case False
    then have "\<exists>t. (if key \<in> set LOGICAL_OPERATORS then translate_operands (operand_list_image v)
        else translate_field key (field_image v)) = Inr t"
      using 4(3) translate_image(3) [of v] translate_condition(2) [of v key] by (auto split: if_splits)
    moreover have "translate_entries (filter_entries_image ps) = Inl UnsupportedOperator"
      using 4 False by (auto split: if_splits)
    ultimately show ?thesis by (auto split: if_splits)
  qed
next
  case (9 x xs)
  then show ?case using translate_image(1) [of x] by (cases "refused_id x") auto
qed simp_all

section \<open>Properties\<close>

text \<open>C33: A filter is accepted exactly when it has the shape of a filter (supported operators, no regular
  expression, no dangerous key, no instance, operand and array lengths in bounds), its depth is within the limit, and
  its containers with their entries are within the node limit, not counting the objects of operators and the arrays of
  operands with their entries. So what is in the documented bounds, which count these too, is never refused for them.
  The result is the filter's image, with dates as their stored text and literals under \<open>$eq\<close>,
  and sanitizing the result again changes nothing. A builder input is copied unchanged or refused.\<close>

theorem sanitized_filter_exact:
  "(sanitizeFilter f = Inr g \<longleftrightarrow> (f = VUndef \<and> g = VUndef) \<or>
      (filter_shaped f \<and> filter_depth f \<le> MAX_FILTER_DEPTH \<and> literal_weight f \<le> MAX_FILTER_NODES + uncounted f \<and>
       g = filter_image f)) \<and>
   (sanitizeFilter f = Inr g \<longrightarrow> sanitizeFilter g = Inr g) \<and>
   (cloneBoundedInput v = Inr w \<longleftrightarrow>
      w = v \<and> shaped not_instance v \<and> depth_of v \<le> MAX_FILTER_DEPTH \<and> weight opaque_weight v \<le> MAX_FILTER_NODES)"
proof -
  have accepted: "sanitizeFilter f = Inr g \<longleftrightarrow> (f = VUndef \<and> g = VUndef) \<or>
      (filter_shaped f \<and> filter_depth f \<le> MAX_FILTER_DEPTH \<and> filter_weight f \<le> MAX_FILTER_NODES \<and> g = filter_image f)" for f g
    using filter_exact(1) [of 0 0 f] by (auto simp: sanitizeFilter_def andthen_Inr MAX_FILTER_DEPTH_def MAX_FILTER_NODES_def)
  moreover have "filter_weight f \<le> MAX_FILTER_NODES \<longleftrightarrow> literal_weight f \<le> MAX_FILTER_NODES + uncounted f" if "filter_shaped f"
    using filter_weights(1) [OF that] by simp
  moreover have "cloneBoundedInput v = Inr w \<longleftrightarrow>
      w = v \<and> shaped not_instance v \<and> depth_of v \<le> MAX_FILTER_DEPTH \<and> weight opaque_weight v \<le> MAX_FILTER_NODES"
    using bc.copy_exact(1) [of 0 0 v] by (auto simp: cloneBoundedInput_def andthen_Inr)
  ultimately show ?thesis
    using filter_image_stable(1) [of f] by metis
qed

text \<open>A filter beyond the documented bound that is accepted: a hundred fields with one operator each.\<close>

definition crowded_filter :: jsany where
  "crowded_filter = VObj (map (\<lambda>i. (digits i, VObj [(''$gt'', VNull)])) [0..<100])"

lemma operators_not_counted:
  "sanitizeFilter crowded_filter = Inr crowded_filter" "literal_weight crowded_filter = 301" "MAX_FILTER_NODES = 200"
  by code_simp+

text \<open>C34: The selector of an accepted filter matches exactly the documents that the filter matches, with date
  operands compared by their stored text, whatever the operators of a field mean, except for conditions
  on \<open>_id\<close> that are arrays: one with an item makes the translation fail, one without is translated like the empty object.\<close>

theorem selector_matches_filter:
  assumes "sanitizeFilter f = Inr g" "f \<noteq> VUndef"
  shows "if refused_id f then translateFilter f = Inl UnsupportedOperator
    else \<exists>s. translateFilter f = Inr s \<and>
      (\<forall>leaf. matches leaf s = matches (\<lambda>k op x. leaf k op (stored x)) (id_arrays_emptied f))"
proof -
  have f: "filter_shaped f" "normalizeFilterObject 0 f 0 = Inr (g, filter_weight f)" "g = filter_image f"
    using assms filter_exact(1) [of 0 0 f] by (auto simp: sanitizeFilter_def andthen_Inr)
  have "f \<noteq> VNull" using f(1) by auto
  with f assms(2) have "translateFilter f = translateNormalized (filter_image f)" by (simp add: translateFilter_def)
  then show ?thesis using translate_image(1) [OF f(1)] translate_refused(1) [OF f(1)] by simp
qed

text \<open>The array test of the other fields is missing for \<open>_id\<close>: an empty array becomes an empty condition.\<close>

lemma empty_id_array_lost:
  "translateFilter (VObj [(''_id'', VArr [])]) = Inr (VObj [(''_id'', VObj [])])"
  "translateFilter (VObj [(''tags'', VArr [])]) = Inr (VObj [(''tags'', VObj [(''$eq'', VArr [])])])"
  by code_simp+

definition demo_rx_filter :: jsany where
  "demo_rx_filter = VObj [(''$or'', VArr [Some (VObj [(''made'', VObj [(''$gte'', VDate (Some 951782400000))])]),
                                       Some (VObj [(''name'', VObj [(''first'', VStr ''Ada'')])])])]"

theorem sanitized_filter_exact_witness:
  "sanitizeFilter demo_rx_filter = Inr (filter_image demo_rx_filter) \<and>
   sanitizeFilter (filter_image demo_rx_filter) = Inr (filter_image demo_rx_filter)"
proof -
  have "filter_shaped demo_rx_filter \<and> filter_depth demo_rx_filter \<le> MAX_FILTER_DEPTH \<and>
      literal_weight demo_rx_filter \<le> MAX_FILTER_NODES + uncounted demo_rx_filter"
    by code_simp
  then show ?thesis
    using sanitized_filter_exact [of demo_rx_filter "filter_image demo_rx_filter" VNull VNull] by blast
qed

theorem selector_matches_filter_witness:
  "toISOString 951782400000 = ''2000-02-29T00:00:00.000Z'' \<and>
   (\<exists>s. translateFilter demo_rx_filter = Inr s \<and>
     matches (\<lambda>k op x. op = ''$gte'' \<and> x = VStr ''2000-02-29T00:00:00.000Z'') s)"
proof -
  have "sanitizeFilter demo_rx_filter = Inr (filter_image demo_rx_filter)" by code_simp
  moreover have "demo_rx_filter \<noteq> VUndef" "\<not> refused_id demo_rx_filter" "id_arrays_emptied demo_rx_filter = demo_rx_filter"
    by code_simp+
  ultimately obtain s where s: "translateFilter demo_rx_filter = Inr s"
    "\<And>leaf. matches leaf s = matches (\<lambda>k op x. leaf k op (stored x)) demo_rx_filter"
    using selector_matches_filter [of demo_rx_filter] by auto
  moreover have "matches (\<lambda>k op x. op = ''$gte'' \<and> stored x = VStr ''2000-02-29T00:00:00.000Z'') demo_rx_filter"
    by code_simp
  moreover have "toISOString 951782400000 = ''2000-02-29T00:00:00.000Z''" by code_simp
  ultimately show ?thesis by blast
qed

end
