(* ===== verification/RxProjection.thy ===== *)
theory RxProjection
  imports RxFilter SortPolicy JsText
begin

text \<open>
  Projections and compiled queries of the RxDB models, query-compiler.ts of packages/mongoose-rxdb: the normal
  form of a projection, its application to a stored record, and the options of a query.

  A record is an object of plain objects, arrays, dates and primitive values. Own properties that are not
  enumerable (\<open>lastIndex\<close> of a regular expression) are not modelled.
\<close>

section \<open>The normal form of a projection\<close>

datatype projection_arg = NoProjection | TextProjection string | FieldsProjection "(string \<times> jsany) list"

datatype option_error =
    EmptyFieldName | EmptySegment | ForbiddenSegment | BadProjectionValue | MixedProjection
  | BadLimit | BadSkip | BadWindow | BadFilter filter_error

abbreviation segments_of :: "string \<Rightarrow> string list" where
  "segments_of path \<equiv> split_on CHR ''.'' path"

record normalized_projection =
  pj_include :: bool
  pj_fields :: "(string \<times> bool) list"
  pj_includeId :: bool

fun first_bad_segment :: "string list \<Rightarrow> option_error option" where
  "first_bad_segment [] = None"
| "first_bad_segment (s # ss) =
     (if s = [] then Some EmptySegment else if s \<in> set DANGEROUS_KEYS then Some ForbiddenSegment else first_bad_segment ss)"

definition assertSafeProjectionPath :: "string \<Rightarrow> option_error + unit" where
  "assertSafeProjectionPath path =
     (if path = [] then Inl EmptyFieldName
      else (case first_bad_segment (segments_of path) of Some e \<Rightarrow> Inl e | None \<Rightarrow> Inr ()))"

fun token_fields :: "string list \<Rightarrow> (string \<times> bool) list \<Rightarrow> option_error + (string \<times> bool) list" where
  "token_fields [] fs = Inr fs"
| "token_fields (token # ts) fs =
     (let incl = \<not> starts_with token ''-''; field = (if incl then token else drop 1 token)
      in if field = [] then Inl EmptyFieldName
         else andthen (assertSafeProjectionPath field) (\<lambda>_. token_fields ts (mput field incl fs)))"

definition projection_flag :: "jsany \<Rightarrow> bool option" where
  "projection_flag v =
     (if v = VNum (of_integer 0) \<or> v = VBool False then Some False
      else if v = VNum (of_integer 1) \<or> v = VBool True then Some True else None)"

fun entry_fields :: "(string \<times> jsany) list \<Rightarrow> (string \<times> bool) list \<Rightarrow> option_error + (string \<times> bool) list" where
  "entry_fields [] fs = Inr fs"
| "entry_fields ((field, raw) # ps) fs =
     andthen (assertSafeProjectionPath field) (\<lambda>_.
     case projection_flag raw of
       None \<Rightarrow> Inl BadProjectionValue
     | Some b \<Rightarrow> entry_fields ps (mput field b fs))"

fun projection_mode :: "bool option \<Rightarrow> (string \<times> bool) list \<Rightarrow> option_error + bool option" where
  "projection_mode mode [] = Inr mode"
| "projection_mode mode ((field, v) # fs) =
     (if field = ''_id'' then projection_mode mode fs
      else if mode \<noteq> None \<and> mode \<noteq> Some v then Inl MixedProjection
      else projection_mode (Some v) fs)"

definition finish_projection :: "(string \<times> bool) list \<Rightarrow> option_error + normalized_projection option" where
  "finish_projection fs =
     (if fs = [] then Inr None
      else andthen (projection_mode None fs) (\<lambda>mode.
           Inr (Some \<lparr>pj_include = (case mode of Some b \<Rightarrow> b | None \<Rightarrow> mget fs ''_id'' \<noteq> Some False),
                      pj_fields = fs, pj_includeId = (mget fs ''_id'' \<noteq> Some False)\<rparr>)))"

definition normalizeProjection :: "projection_arg \<Rightarrow> option_error + normalized_projection option" where
  "normalizeProjection p =
     (case p of
        NoProjection \<Rightarrow> Inr None
      | TextProjection text \<Rightarrow> andthen (token_fields (split_words is_ws text) []) finish_projection
      | FieldsProjection ps \<Rightarrow> andthen (entry_fields ps []) finish_projection)"

section \<open>Application\<close>

text \<open>\<open>isArrayIndexSegment\<close>, with the index.\<close>

definition array_index :: "string \<Rightarrow> nat option" where
  "array_index s =
     (if s = ''0'' \<or> (s \<noteq> [] \<and> list_all is_digit s \<and> hd s \<noteq> CHR ''0'') then Some (decimal s) else None)"

fun cloneProjectedValue :: "jsany \<Rightarrow> jsany" where
  "cloneProjectedValue (VArr xs) = VArr (map (map_option cloneProjectedValue) xs)"
| "cloneProjectedValue (VObj ps) = VObj (map (\<lambda>(k, x). (k, cloneProjectedValue x)) ps)"
| "cloneProjectedValue (VInstance n ps) = VObj (map (\<lambda>(k, x). (k, cloneProjectedValue x)) ps)"
| "cloneProjectedValue (VRegExp p f) = VObj []"
| "cloneProjectedValue v = v"

text \<open>The own entries of an object that is not an array.\<close>

fun fields_of :: "jsany \<Rightarrow> (string \<times> jsany) list option" where
  "fields_of (VObj ps) = Some ps"
| "fields_of (VInstance _ ps) = Some ps"
| "fields_of (VDate _) = Some []"
| "fields_of (VRegExp _ _) = Some []"
| "fields_of _ = None"

definition slot_at :: "'a option list \<Rightarrow> nat \<Rightarrow> 'a option" where
  "slot_at xs i = (if i < length xs then xs ! i else None)"

definition put_at :: "nat \<Rightarrow> 'a \<Rightarrow> 'a option list \<Rightarrow> 'a option list" where
  "put_at i v xs = (if i < length xs then xs[i := Some v] else xs @ replicate (i - length xs) None @ [Some v])"

definition fillRedactedPositions :: "jsany option list \<Rightarrow> nat \<Rightarrow> jsany option list" where
  "fillRedactedPositions xs n =
     map (\<lambda>i. case slot_at xs i of Some v \<Rightarrow> Some v | None \<Rightarrow> Some VNull) [0..<n] @ drop n xs"

text \<open>The slot a path continues in: what the target holds already, or a fresh container.\<close>

definition array_slot :: "jsany option \<Rightarrow> jsany option list" where
  "array_slot t = (case t of Some (VArr ys) \<Rightarrow> ys | _ \<Rightarrow> [])"

definition object_slot :: "jsany option \<Rightarrow> (string \<times> jsany) list" where
  "object_slot t = (case t of Some (VObj ts) \<Rightarrow> ts | _ \<Rightarrow> [])"

text \<open>A date that was included stays the slot: the paths below it find nothing.\<close>

definition object_result :: "jsany option \<Rightarrow> (string \<times> jsany) list \<Rightarrow> jsany" where
  "object_result t r = (case t of Some (VDate d) \<Rightarrow> VDate d | _ \<Rightarrow> VObj r)"

abbreviation entries_size :: "(string \<times> jsany) list \<Rightarrow> nat" where
  "entries_size \<equiv> size_list (size_prod (\<lambda>_. 0) size)"

abbreviation items_size :: "jsany option list \<Rightarrow> nat" where
  "items_size \<equiv> size_list (size_option size)"

lemma fields_size: "fields_of v = Some ps \<Longrightarrow> entries_size ps \<le> size v"
  by (cases v) auto

lemma mget_size: "mget ps k = Some v \<Longrightarrow> size v < entries_size ps"
  by (induction ps) (auto split: if_splits)

lemma slot_size: "slot_at xs i = Some v \<Longrightarrow> size v < items_size xs"
proof (induction xs arbitrary: i)
  case (Cons x xs)
  then show ?case
    by (cases i) (fastforce simp: slot_at_def split: if_splits)+
qed (simp add: slot_at_def)

text \<open>
  \<open>include_child t child segments\<close>: what the slot of an array item, or of an array below a key, becomes, when it
  held \<open>t\<close>; \<open>None\<close> when nothing is contributed.
\<close>

function applyIncludePath :: "(string \<times> jsany) list \<Rightarrow> (string \<times> jsany) list \<Rightarrow> string list \<Rightarrow> (string \<times> jsany) list"
  and applyIncludeIntoArray :: "jsany option list \<Rightarrow> jsany option list \<Rightarrow> string list \<Rightarrow> jsany option list"
  and include_each :: "nat \<Rightarrow> jsany option list \<Rightarrow> jsany option list \<Rightarrow> string list \<Rightarrow> jsany option list"
  and include_child :: "jsany option \<Rightarrow> jsany \<Rightarrow> string list \<Rightarrow> jsany option"
where
  "applyIncludePath target src [] = target"
| "applyIncludePath target src (segment # rest) =
     (case mget src segment of
        None \<Rightarrow> target
      | Some child \<Rightarrow>
          (if rest = [] then mput segment (cloneProjectedValue child) target
           else (case fields_of child of
                   Some qs \<Rightarrow>
                     mput segment (object_result (mget target segment)
                       (applyIncludePath (object_slot (mget target segment)) qs rest)) target
                 | None \<Rightarrow>
                     (case include_child (mget target segment) child rest of
                        Some v \<Rightarrow> mput segment v target
                      | None \<Rightarrow> target))))"
| "applyIncludeIntoArray target src [] = target"
| "applyIncludeIntoArray target src (segment # rest) =
     (case array_index segment of
        Some index \<Rightarrow>
          (case slot_at src index of
             None \<Rightarrow> target
           | Some child \<Rightarrow>
               (if rest = [] then fillRedactedPositions (put_at index (cloneProjectedValue child) target) (length src)
                else (case include_child (slot_at target index) child rest of
                        Some v \<Rightarrow> fillRedactedPositions (put_at index v target) (length src)
                      | None \<Rightarrow> target)))
      | None \<Rightarrow>
          (let result = include_each 0 target src (segment # rest)
           in if result \<noteq> [] then fillRedactedPositions result (length src) else result))"
| "include_each i target [] segments = target"
| "include_each i target (None # src) segments = include_each (Suc i) target src segments"
| "include_each i target (Some child # src) segments =
     include_each (Suc i)
       (case include_child (slot_at target i) child segments of Some v \<Rightarrow> put_at i v target | None \<Rightarrow> target) src segments"
| "include_child t child segments =
     (case fields_of child of
        Some qs \<Rightarrow>
          (let slot = applyIncludePath (object_slot t) qs segments in if slot \<noteq> [] then Some (VObj slot) else None)
      | None \<Rightarrow>
          (case child of
             VArr xs \<Rightarrow>
               (let slot = applyIncludeIntoArray (array_slot t) xs segments in if slot \<noteq> [] then Some (VArr slot) else None)
           | _ \<Rightarrow> None))"
  by pat_completeness auto

termination
proof (relation "measure (\<lambda>call. case call of
      Inl (Inl (target, src, segments)) \<Rightarrow> 2 * entries_size src
    | Inl (Inr (target, src, segments)) \<Rightarrow> 2 * items_size src + 1
    | Inr (Inl (i, target, src, segments)) \<Rightarrow> 2 * items_size src
    | Inr (Inr (t, child, segments)) \<Rightarrow> 2 * size child + 1)", goal_cases)
qed (auto dest!: mget_size slot_size fields_size)

declare include_child.simps [simp del]

text \<open>One path removed from a copy of a record, in place.\<close>

function applyExcludePath :: "(string \<times> jsany) list \<Rightarrow> string list \<Rightarrow> (string \<times> jsany) list"
  and applyExcludeFromArray :: "jsany option list \<Rightarrow> string list \<Rightarrow> jsany option list"
  and exclude_each :: "jsany option list \<Rightarrow> string list \<Rightarrow> jsany option list"
where
  "applyExcludePath target [] = target"
| "applyExcludePath target (segment # rest) =
     (case mget target segment of
        None \<Rightarrow> target
      | Some child \<Rightarrow>
          (if rest = [] then mdel segment target
           else (case child of
                   VArr xs \<Rightarrow> mput segment (VArr (applyExcludeFromArray xs rest)) target
                 | VObj ps \<Rightarrow> mput segment (VObj (applyExcludePath ps rest)) target
                 | _ \<Rightarrow> target)))"
| "applyExcludeFromArray target [] = target"
| "applyExcludeFromArray target (segment # rest) =
     (case array_index segment of
        Some index \<Rightarrow>
          (case slot_at target index of
             None \<Rightarrow> target
           | Some child \<Rightarrow>
               (if rest = [] then target[index := Some VNull]
                else (case child of
                        VArr xs \<Rightarrow> target[index := Some (VArr (applyExcludeFromArray xs rest))]
                      | VObj ps \<Rightarrow> target[index := Some (VObj (applyExcludePath ps rest))]
                      | _ \<Rightarrow> target)))
      | None \<Rightarrow> exclude_each target (segment # rest))"
| "exclude_each [] segments = []"
| "exclude_each (None # xs) segments = None # exclude_each xs segments"
| "exclude_each (Some child # xs) segments =
     Some (case child of
             VArr ys \<Rightarrow> VArr (applyExcludeFromArray ys segments)
           | VObj ps \<Rightarrow> VObj (applyExcludePath ps segments)
           | _ \<Rightarrow> child) # exclude_each xs segments"
  by pat_completeness auto

termination
proof (relation "measure (\<lambda>call. case call of
      Inl (target, segments) \<Rightarrow> 2 * entries_size target
    | Inr (Inl (target, segments)) \<Rightarrow> 2 * items_size target + 1
    | Inr (Inr (target, segments)) \<Rightarrow> 2 * items_size target)", goal_cases)
qed (auto dest!: mget_size slot_size)

definition included_paths :: "normalized_projection \<Rightarrow> string list" where
  "included_paths p = map fst (filter (\<lambda>(field, v). field \<noteq> ''_id'' \<and> v) (pj_fields p))"

definition excluded_paths :: "normalized_projection \<Rightarrow> string list" where
  "excluded_paths p = map fst (filter (\<lambda>(field, v). field \<noteq> ''_id'' \<and> \<not> v) (pj_fields p))"

text \<open>The entries of a copy.\<close>

definition cloned_entries :: "(string \<times> jsany) list \<Rightarrow> (string \<times> jsany) list" where
  "cloned_entries = map (\<lambda>(k, x). (k, cloneProjectedValue x))"

definition applyProjection :: "(string \<times> jsany) list \<Rightarrow> normalized_projection option \<Rightarrow> (string \<times> jsany) list" where
  "applyProjection doc projection =
     (case projection of
        None \<Rightarrow> cloned_entries doc
      | Some p \<Rightarrow>
          (if pj_include p then
             (let out = (if pj_includeId p \<and> mget doc ''_id'' \<notin> {None, Some VUndef}
                         then [(''_id'', cloneProjectedValue (the (mget doc ''_id'')))] else [])
              in foldl (\<lambda>out field. applyIncludePath out doc (segments_of field)) out (included_paths p))
           else
             (let out = foldl (\<lambda>out field. applyExcludePath out (segments_of field)) (cloned_entries doc) (excluded_paths p)
              in if pj_includeId p then out else mdel ''_id'' out)))"

section \<open>Query options\<close>

definition normalizeNonNegativeInteger :: "option_error \<Rightarrow> jsnum \<Rightarrow> option_error + int" where
  "normalizeNonNegativeInteger e value =
     (case safe_int value of Some n \<Rightarrow> if n < 0 then Inl e else Inr n | None \<Rightarrow> Inl e)"

definition sort_order :: "jsany \<Rightarrow> int" where
  "sort_order v = (if v = VNum (of_integer 1) \<or> v = VStr ''asc'' \<or> v = VStr ''ascending'' then 1 else - 1)"

record compiled_query =
  cq_selector :: jsany
  cq_sort :: "(string \<times> int) list option"
  cq_limit :: "int option"
  cq_skip :: "int option"
  cq_projection :: "normalized_projection option"

definition optional_count :: "option_error \<Rightarrow> jsnum option \<Rightarrow> option_error + int option" where
  "optional_count e v = (case v of None \<Rightarrow> Inr None | Some x \<Rightarrow> andthen (normalizeNonNegativeInteger e x) (\<lambda>n. Inr (Some n)))"

definition compileQuery ::
  "jsany \<Rightarrow> (string \<times> jsany) list option \<Rightarrow> jsnum option \<Rightarrow> jsnum option \<Rightarrow> projection_arg \<Rightarrow> option_error + compiled_query" where
  "compileQuery f order limit skip projection =
     andthen (case translateFilter f of Inl e \<Rightarrow> Inl (BadFilter e) | Inr s \<Rightarrow> Inr s) (\<lambda>selector.
     andthen (optional_count BadLimit limit) (\<lambda>compiled_limit.
     andthen (optional_count BadSkip skip) (\<lambda>compiled_skip.
     if (case (compiled_limit, compiled_skip) of (Some l, Some s) \<Rightarrow> s > MAX_SAFE_INTEGER - l | _ \<Rightarrow> False) then Inl BadWindow
     else andthen (normalizeProjection projection) (\<lambda>normalized.
          Inr \<lparr>cq_selector = selector, cq_sort = map_option (map (\<lambda>(k, v). (k, sort_order v))) order,
               cq_limit = compiled_limit, cq_skip = compiled_skip, cq_projection = normalized\<rparr>))))"

lemma optional_count_Inr:
  "optional_count e v = Inr c \<longleftrightarrow> (v = None \<and> c = None) \<or> (\<exists>n. v = Some (of_integer n) \<and> c = Some n \<and> 0 \<le> n \<and> n \<le> MAX_SAFE_INTEGER)"
  by (auto simp: optional_count_def normalizeNonNegativeInteger_def andthen_Inr is_safe_def
      split: option.splits if_splits dest!: safe_int_SomeD)

lemma compiled_window:
  "compileQuery f order limit skip projection = Inr q \<Longrightarrow>
     (\<forall>l s. cq_limit q = Some l \<and> cq_skip q = Some s \<longrightarrow> 0 \<le> l \<and> 0 \<le> s \<and> s + l \<le> MAX_SAFE_INTEGER) \<and>
     translateFilter f = Inr (cq_selector q)"
  by (auto simp: compileQuery_def andthen_Inr optional_count_Inr if_Inl_Inr split: sum.splits)


section \<open>Stored documents\<close>

text \<open>
  No instance, no regular expression, no date (dates are stored as text), no hole: what a record of the storage
  holds. Copying it changes nothing.
\<close>

fun stored_document :: "jsany \<Rightarrow> bool" where
  "stored_document (VArr xs) = list_all (\<lambda>x. case x of Some v \<Rightarrow> stored_document v | None \<Rightarrow> False) xs"
| "stored_document (VObj ps) = list_all (\<lambda>(k, v). stored_document v) ps"
| "stored_document (VInstance _ _) = False"
| "stored_document (VRegExp _ _) = False"
| "stored_document (VDate _) = False"
| "stored_document _ = True"

lemma clone_stored: "stored_document v \<Longrightarrow> cloneProjectedValue v = v"
proof (induction v rule: cloneProjectedValue.induct)
  case (1 xs)
  then show ?case
    by (auto intro!: map_idI simp: list_all_iff split: option.splits)
next
  case (2 ps)
  then show ?case
    by (fastforce intro!: map_idI simp: list_all_iff)
qed simp_all

lemma stored_entry: "stored_document (VObj ps) \<Longrightarrow> mget ps k = Some v \<Longrightarrow> stored_document v"
  by (auto simp: list_all_iff dest!: map_of_SomeD)

lemma stored_slot: "stored_document (VArr xs) \<Longrightarrow> slot_at xs i = Some v \<Longrightarrow> stored_document v"
  by (auto simp: list_all_iff slot_at_def split: if_splits dest!: nth_mem)

text \<open>\<open>part t v\<close>: \<open>t\<close> is \<open>v\<close> with some keys missing and some array items replaced by \<open>null\<close>.\<close>

inductive part :: "jsany \<Rightarrow> jsany \<Rightarrow> bool" where
  part_refl: "part v v"
| part_object: "(\<And>k t. mget ts k = Some t \<Longrightarrow> \<exists>v. mget ps k = Some v \<and> part t v) \<Longrightarrow> part (VObj ts) (VObj ps)"
| part_array: "length ts = length xs \<Longrightarrow>
    (\<And>i. i < length xs \<Longrightarrow> \<exists>t v. ts ! i = Some t \<and> xs ! i = Some v \<and> (t = VNull \<or> part t v)) \<Longrightarrow>
    part (VArr ts) (VArr xs)"

lemmas [intro, simp] = part_refl

inductive_cases part_null: "part t VNull"
inductive_cases part_into_array: "part t (VArr xs)"
inductive_cases part_into_object: "part t (VObj ps)"
inductive_cases part_of_array: "part (VArr ts) v"
inductive_cases part_of_object: "part (VObj ts) v"

lemma part_null_iff [simp]: "part t VNull \<longleftrightarrow> t = VNull"
  by (auto elim: part_null)

lemma part_object_get: "part (VObj ts) (VObj ps) \<Longrightarrow> mget ts k = Some t \<Longrightarrow> \<exists>v. mget ps k = Some v \<and> part t v"
  by (erule part_into_object) auto

lemma part_array_nth:
  "part (VArr ts) (VArr xs) \<Longrightarrow> i < length xs \<Longrightarrow> ts ! i = xs ! i \<or> (\<exists>t v. ts ! i = Some t \<and> xs ! i = Some v \<and> (t = VNull \<or> part t v))"
  by (erule part_into_array) auto

lemma part_array_length: "part (VArr ts) (VArr xs) \<Longrightarrow> length ts = length xs"
  by (erule part_into_array) auto

lemma part_trans: "part a b \<Longrightarrow> part b c \<Longrightarrow> part a c"
proof (induction a b arbitrary: c rule: part.induct)
  case (part_object ts ps)
  from part_object.prems show ?case
  proof cases
    case part_refl
    show ?thesis unfolding part_refl using part_object.IH by (intro part.part_object) blast
  next
    case (part_object qs)
    then show ?thesis using part_object.IH by (fastforce intro!: part.part_object)
  qed
next
  case (part_array ts xs)
  note len = part_array.hyps(1) and items = part_array.IH
  from part_array.prems show ?case
  proof cases
    case part_refl
    show ?thesis unfolding part_refl using len items by (intro part.part_array) blast+
  next
    case (part_array ys)
    have "\<exists>t v. ts ! i = Some t \<and> ys ! i = Some v \<and> (t = VNull \<or> part t v)" if "i < length ys" for i
      using items [of i] part_array(3) [of i] that part_array(2) by fastforce
    then show ?thesis using part_array(1,2) len by (auto intro!: part.part_array)
  qed
qed simp

section \<open>Reading a path\<close>

text \<open>The values at a path: a segment that is no index is read in every item of an array.\<close>

lemma item_size: "Some c \<in> set xs \<Longrightarrow> size c < items_size xs"
  by (induction xs) auto

function reaches :: "jsany \<Rightarrow> string list \<Rightarrow> jsany list" where
  "reaches v [] = [v]"
| "reaches v (s # r) =
     (case v of
        VArr xs \<Rightarrow>
          (case array_index s of
             Some i \<Rightarrow> (case slot_at xs i of Some c \<Rightarrow> reaches c r | None \<Rightarrow> [])
           | None \<Rightarrow> concat (map (\<lambda>x. case x of Some c \<Rightarrow> reaches c (s # r) | None \<Rightarrow> []) xs))
      | _ \<Rightarrow> (case fields_of v of
               Some ps \<Rightarrow> (case mget ps s of Some c \<Rightarrow> reaches c r | None \<Rightarrow> [])
             | None \<Rightarrow> []))"
  by pat_completeness auto

termination
  by (relation "measure (size \<circ> fst)") (auto dest!: mget_size slot_size item_size fields_size)

abbreviation item_reaches :: "string list \<Rightarrow> jsany option \<Rightarrow> jsany list" where
  "item_reaches p x \<equiv> (case x of Some c \<Rightarrow> reaches c p | None \<Rightarrow> [])"

declare reaches.simps(2) [simp del]

lemma reaches_object [simp]:
  "reaches (VObj ps) (s # r) = (case mget ps s of Some c \<Rightarrow> reaches c r | None \<Rightarrow> [])"
  by (subst reaches.simps(2)) simp

lemma reaches_index:
  "array_index s = Some i \<Longrightarrow> reaches (VArr xs) (s # r) = item_reaches r (slot_at xs i)"
  by (subst reaches.simps(2)) simp

lemma reaches_items:
  "array_index s = None \<Longrightarrow> reaches (VArr xs) (s # r) = concat (map (item_reaches (s # r)) xs)"
  by (subst reaches.simps(2)) simp

lemma reaches_null [simp]: "reaches VNull (s # r) = []"
  by (subst reaches.simps(2)) simp

lemma slot_at_nth: "slot_at xs i = Some c \<longleftrightarrow> i < length xs \<and> xs ! i = Some c"
  by (simp add: slot_at_def)

lemma part_of_objectE: "part t (VObj ps) \<Longrightarrow> \<exists>ts. t = VObj ts"
  by (erule part_into_object) auto

lemma part_of_arrayE: "part t (VArr xs) \<Longrightarrow> \<exists>ts. t = VArr ts \<and> length ts = length xs"
  by (erule part_into_array) auto

lemma length_concat_le:
  "length as = length bs \<Longrightarrow> (\<And>i. i < length bs \<Longrightarrow> length (as ! i) \<le> length (bs ! i)) \<Longrightarrow>
     length (concat as) \<le> length (concat bs)"
proof (induction as bs rule: list_induct2)
  case (Cons a as b bs)
  from Cons.prems [of 0] Cons.prems [of "Suc _"] Cons.IH show ?case by (force intro!: add_mono)
qed simp

text \<open>A part has at most as many values at a path.\<close>

lemma reaches_part_length: "part t v \<Longrightarrow> length (reaches t p) \<le> length (reaches v p)"
proof (induction t v arbitrary: p rule: part.induct)
  case (part_object ts ps)
  show ?case
  proof (cases p)
    case (Cons s r)
    then show ?thesis using part_object [of s] by (cases "mget ts s") auto
  qed simp
next
  case (part_array ts xs)
  have item: "length (item_reaches p (ts ! i)) \<le> length (item_reaches p (xs ! i))" if "i < length xs" for p i
    using part_array.IH [of i] that by (cases p) (auto split: option.splits)
  show ?case
  proof (cases p)
    case (Cons s r)
    show ?thesis
    proof (cases "array_index s")
      case None
      then show ?thesis
        using Cons part_array.hyps item by (auto simp: reaches_items intro!: length_concat_le)
    next
      case (Some i)
      then show ?thesis
        using Cons part_array.hyps item [of i r] by (auto simp: reaches_index slot_at_def)
    qed
  qed simp
qed simp

text \<open>\<open>holds t v p\<close>: \<open>t\<close> has every value at the path that \<open>v\<close> has, in full.\<close>

definition holds :: "jsany \<Rightarrow> jsany \<Rightarrow> string list \<Rightarrow> bool" where
  "holds t v p \<longleftrightarrow> list_all2 part (reaches v p) (reaches t p)"

lemma holds_Nil: "holds t v [] \<longleftrightarrow> part v t"
  by (simp add: holds_def)

lemma holds_object:
  "holds (VObj ts) (VObj ps) (s # r) \<longleftrightarrow>
     (case mget ps s of
        None \<Rightarrow> (case mget ts s of Some t \<Rightarrow> reaches t r = [] | None \<Rightarrow> True)
      | Some v \<Rightarrow> (case mget ts s of Some t \<Rightarrow> holds t v r | None \<Rightarrow> reaches v r = []))"
  by (auto simp: holds_def split: option.splits)

lemma holds_index:
  "array_index s = Some i \<Longrightarrow> length ts = length xs \<Longrightarrow> holds (VArr ts) (VArr xs) (s # r) \<longleftrightarrow>
     (i < length xs \<longrightarrow> list_all2 part (item_reaches r (xs ! i)) (item_reaches r (ts ! i)))"
  by (auto simp: holds_def reaches_index slot_at_def)

lemma list_all2_append_longer:
  assumes "length b \<le> length a" "length bs \<le> length as"
  shows "list_all2 P (a @ as) (b @ bs) \<longleftrightarrow> list_all2 P a b \<and> list_all2 P as bs"
proof
  assume l: "list_all2 P (a @ as) (b @ bs)"
  with assms have "length a = length b" by (auto dest!: list_all2_lengthD)
  with l show "list_all2 P a b \<and> list_all2 P as bs" by (simp add: list_all2_append)
qed (auto intro: list_all2_appendI)

lemma list_all2_concat:
  "length as = length bs \<Longrightarrow> (\<And>i. i < length bs \<Longrightarrow> length (bs ! i) \<le> length (as ! i)) \<Longrightarrow>
     list_all2 P (concat as) (concat bs) \<longleftrightarrow> (\<forall>i < length bs. list_all2 P (as ! i) (bs ! i))"
proof (induction as bs rule: list_induct2)
  case (Cons a as b bs)
  have le: "length b \<le> length a" and les: "\<And>i. i < length bs \<Longrightarrow> length (bs ! i) \<le> length (as ! i)"
    using Cons.prems [of 0] Cons.prems [of "Suc _"] by auto
  have "length (concat bs) \<le> length (concat as)"
    using les Cons.hyps by (intro length_concat_le) auto
  with le have "list_all2 P (a @ concat as) (b @ concat bs) \<longleftrightarrow> list_all2 P a b \<and> list_all2 P (concat as) (concat bs)"
    by (rule list_all2_append_longer)
  with Cons.IH les show ?case by (auto simp: less_Suc_eq_0_disj nth_Cons split: nat.splits)
qed simp

lemma holds_items:
  assumes "array_index s = None" "part (VArr ts) (VArr xs)" "xs = [] \<or> None \<notin> set xs"
  shows "holds (VArr ts) (VArr xs) (s # r) \<longleftrightarrow>
     (\<forall>i < length xs. list_all2 part (item_reaches (s # r) (xs ! i)) (item_reaches (s # r) (ts ! i)))"
proof -
  have len: "length ts = length xs" using assms(2) by (rule part_array_length)
  have "length (item_reaches (s # r) (ts ! i)) \<le> length (item_reaches (s # r) (xs ! i))" if "i < length xs" for i
    using part_array_nth [OF assms(2) that] by (auto intro: reaches_part_length)
  with len show ?thesis
    unfolding holds_def reaches_items [OF assms(1)] by (subst list_all2_concat) auto
qed

text \<open>More of the document still holds the path.\<close>

lemma holds_mono: "part u v \<Longrightarrow> part t u \<Longrightarrow> holds t v p \<Longrightarrow> holds u v p"
proof (induction u v arbitrary: t p rule: part.induct)
  case (part_object us vs)
  obtain ts where t: "t = VObj ts" using part_of_objectE [OF part_object.prems(1)] by blast
  show ?case
  proof (cases p)
    case Nil
    with part_object.prems show ?thesis using part_trans [of "VObj vs" t "VObj us"] by (simp add: holds_Nil)
  next
    case (Cons s r)
    show ?thesis
    proof (cases "mget us s")
      case None
      then have "mget ts s = None"
        using part_object_get [OF part_object.prems(1) [unfolded t], of s] by (cases "mget ts s") auto
      with None show ?thesis using part_object.prems(2) by (auto simp: Cons t holds_object split: option.splits)
    next
      case (Some u)
      obtain v where v: "mget vs s = Some v" "part u v" "\<And>t p. part t u \<Longrightarrow> holds t v p \<Longrightarrow> holds u v p"
        using part_object.IH [OF Some] by blast
      show ?thesis
      proof (cases "mget ts s")
        case None
        then have "reaches v r = []" using part_object.prems(2) v by (simp add: Cons t holds_object)
        then show ?thesis
          using reaches_part_length [OF v(2), of r] Some v by (simp add: Cons holds_object holds_def)
      next
        case (Some t')
        then have "part t' u" using part_object_get [OF part_object.prems(1) [unfolded t] Some] \<open>mget us s = Some u\<close> by auto
        with Some v show ?thesis
          using part_object.prems(2) \<open>mget us s = Some u\<close> by (auto simp: Cons t holds_object)
      qed
    qed
  qed
next
  case (part_array us vs)
  obtain ts where t: "t = VArr ts" "length ts = length us" using part_of_arrayE [OF part_array.prems(1)] by blast
  have whole: "part (VArr us) (VArr vs)" using part_array.hyps part_array.IH by (intro part.part_array) blast+
  have "\<exists>v. vs ! i = Some v" if "i < length vs" for i using part_array.IH [OF that] by blast
  then have dense: "None \<notin> set vs" by (metis in_set_conv_nth option.distinct(1))
  have item: "list_all2 part (item_reaches q (vs ! i)) (item_reaches q (us ! i))"
    if i: "i < length vs" and h: "list_all2 part (item_reaches q (vs ! i)) (item_reaches q (ts ! i))" for i q
  proof -
    obtain u v where u: "us ! i = Some u" "vs ! i = Some v"
      "u = VNull \<or> (part u v \<and> (\<forall>t p. part t u \<longrightarrow> holds t v p \<longrightarrow> holds u v p))"
      using part_array.IH [OF i] by blast
    have tu: "ts ! i = Some u \<or> (\<exists>t. ts ! i = Some t \<and> (t = VNull \<or> part t u))"
      using part_array_nth [OF part_array.prems(1) [unfolded t], of i] i part_array.hyps u by auto
    show ?thesis
    proof (cases "u = VNull")
      case True
      with tu have "ts ! i = Some VNull" by auto
      with h u True show ?thesis by simp
    next
      case False
      with u have part: "part u v" and step: "\<And>t p. part t u \<Longrightarrow> holds t v p \<Longrightarrow> holds u v p" by auto
      from tu consider "\<exists>t. ts ! i = Some t \<and> part t u" | "ts ! i = Some VNull" by auto
      then show ?thesis
      proof cases
        case 1
        with h u step show ?thesis by (auto simp: holds_def)
      next
        case 2
        with h u show ?thesis
          using reaches_part_length [OF part, of q] by (cases q) (auto simp: part_refl)
      qed
    qed
  qed
  show ?case
  proof (cases p)
    case Nil
    with part_array.prems show ?thesis using part_trans [of "VArr vs" t "VArr us"] by (simp add: holds_Nil)
  next
    case (Cons s r)
    show ?thesis
    proof (cases "array_index s")
      case None
      have "holds (VArr ts) (VArr vs) (s # r)" using part_array.prems(2) by (simp add: Cons t)
      then have "\<forall>i < length vs. list_all2 part (item_reaches (s # r) (vs ! i)) (item_reaches (s # r) (ts ! i))"
        using holds_items [OF None part_trans [OF part_array.prems(1) whole, unfolded t]] dense by blast
      then have "\<forall>i < length vs. list_all2 part (item_reaches (s # r) (vs ! i)) (item_reaches (s # r) (us ! i))"
        using item by blast
      then show ?thesis unfolding Cons using holds_items [OF None whole] dense by blast
    next
      case (Some j)
      then show ?thesis
        using part_array.prems(2) item [of j r] t part_array.hyps by (auto simp: Cons holds_index)
    qed
  qed
qed (simp add: holds_def list.rel_refl)

section \<open>Positions\<close>

text \<open>A position of a document, what is there, and whether a path leads to it or above it.\<close>

datatype step = Key string | Idx nat

fun read_at :: "jsany \<Rightarrow> step list \<Rightarrow> jsany option" where
  "read_at v [] = Some v"
| "read_at (VObj ps) (Key k # q) = (case mget ps k of Some c \<Rightarrow> read_at c q | None \<Rightarrow> None)"
| "read_at (VArr xs) (Idx i # q) = (case slot_at xs i of Some c \<Rightarrow> read_at c q | None \<Rightarrow> None)"
| "read_at _ _ = None"

fun covers :: "string list \<Rightarrow> step list \<Rightarrow> bool" where
  "covers [] q = True"
| "covers (s # p) [] = False"
| "covers (s # p) (Key k # q) = (k = s \<and> covers p q)"
| "covers (s # p) (Idx i # q) = (case array_index s of Some j \<Rightarrow> j = i \<and> covers p q | None \<Rightarrow> covers (s # p) q)"

fun leaf_value :: "jsany \<Rightarrow> bool" where
  "leaf_value (VObj _) = False"
| "leaf_value (VArr _) = False"
| "leaf_value VNull = False"
| "leaf_value _ = True"

lemma at_part: "part t v \<Longrightarrow> read_at t q = Some x \<Longrightarrow> leaf_value x \<Longrightarrow> read_at v q = Some x"
proof (induction t v arbitrary: q rule: part.induct)
  case (part_object ts vs)
  from part_object.prems show ?case
  proof (cases "(VObj ts, q)" rule: read_at.cases)
    case (2 ps k r)
    with part_object.prems obtain t where "mget ts k = Some t" "read_at t r = Some x" by (auto split: option.splits)
    with 2 part_object.IH [of k t] part_object.prems show ?thesis by auto
  qed auto
next
  case (part_array ts vs)
  from part_array.prems show ?case
  proof (cases "(VArr ts, q)" rule: read_at.cases)
    case (3 xs i r)
    with part_array.prems obtain t where t: "slot_at ts i = Some t" "read_at t r = Some x" by (auto split: option.splits)
    then have i: "i < length vs" using part_array.hyps by (simp add: slot_at_nth)
    from part_array.IH [OF this] t(1) obtain v where v: "vs ! i = Some v"
      "t = VNull \<or> (part t v \<and> (\<forall>q. read_at t q = Some x \<longrightarrow> leaf_value x \<longrightarrow> read_at v q = Some x))"
      by (auto simp: slot_at_nth)
    have "t \<noteq> VNull" using t(2) part_array.prems(2) by (cases r) auto
    with v t part_array.prems(2) have "read_at v r = Some x" by blast
    with 3 v i show ?thesis by (simp add: slot_at_def)
  qed auto
qed simp

text \<open>An update at one key or index.\<close>

lemma part_mput:
  assumes "part (VObj ts) (VObj ps)" "mget ps k = Some v" "part t v"
  shows "part (VObj (mput k t ts)) (VObj ps)"
  using assms part_object_get [OF assms(1)] by (intro part.part_object) (auto split: if_splits)

lemma part_grow:
  assumes "\<And>u. mget ts k = Some u \<Longrightarrow> part u t"
  shows "part (VObj ts) (VObj (mput k t ts))"
  using assms by (intro part.part_object) auto

text \<open>
  An array under construction: shorter than its source, with holes and redacted items.
\<close>

definition loose :: "jsany option list \<Rightarrow> jsany option list \<Rightarrow> bool" where
  "loose ts xs \<longleftrightarrow> length ts \<le> length xs \<and>
     (\<forall>i < length ts. \<forall>t. ts ! i = Some t \<longrightarrow> t = VNull \<or> (\<exists>v. xs ! i = Some v \<and> part t v))"

lemma loose_Nil [simp]: "loose [] xs"
  by (simp add: loose_def)

lemma loose_refl: "loose xs xs"
  by (simp add: loose_def)

lemma part_loose: "part (VArr ts) (VArr xs) \<Longrightarrow> loose ts xs"
  using part_array_length part_array_nth by (fastforce simp: loose_def)

lemma loose_slot: "loose ts xs \<Longrightarrow> slot_at ts i = Some t \<Longrightarrow> t = VNull \<or> (\<exists>v. slot_at xs i = Some v \<and> part t v)"
  by (fastforce simp: loose_def slot_at_def split: if_splits)

lemma length_put_at: "length (put_at i v xs) = max (length xs) (Suc i)"
  by (simp add: put_at_def)

lemma slot_put_at: "slot_at (put_at i v xs) j = (if j = i then Some v else slot_at xs j)"
  by (auto simp: put_at_def slot_at_def nth_append nth_Cons' not_less)

lemma loose_iff: "loose ts xs \<longleftrightarrow> length ts \<le> length xs \<and>
    (\<forall>i t. slot_at ts i = Some t \<longrightarrow> t = VNull \<or> (\<exists>v. slot_at xs i = Some v \<and> part t v))"
  by (fastforce simp: loose_def slot_at_def split: if_splits)

lemma loose_put_at: "loose ts xs \<Longrightarrow> slot_at xs i = Some v \<Longrightarrow> part t v \<Longrightarrow> loose (put_at i t ts) xs"
  by (auto simp: loose_iff slot_put_at length_put_at) (simp add: slot_at_nth)

lemma loose_grow:
  "(\<And>u. slot_at ts i = Some u \<Longrightarrow> u = VNull \<or> part u t) \<Longrightarrow> loose ts (put_at i t ts)"
  by (auto simp: loose_iff slot_put_at length_put_at)

lemma loose_trans: "loose a b \<Longrightarrow> loose b c \<Longrightarrow> loose a c"
proof -
  assume ab: "loose a b" and bc: "loose b c"
  have "t = VNull \<or> (\<exists>v. slot_at c i = Some v \<and> part t v)" if "slot_at a i = Some t" for i t
  proof (cases "t = VNull")
    case False
    with loose_slot [OF ab that] obtain u where u: "slot_at b i = Some u" "part t u" by blast
    with False have "u \<noteq> VNull" by auto
    with loose_slot [OF bc u(1)] u(2) show ?thesis using part_trans by blast
  qed simp
  then show ?thesis using ab bc by (auto simp: loose_iff)
qed

lemma slot_filled:
  "length ts \<le> n \<Longrightarrow> slot_at (fillRedactedPositions ts n) i =
     (if i < n then Some (case slot_at ts i of Some v \<Rightarrow> v | None \<Rightarrow> VNull) else None)"
  by (auto simp: fillRedactedPositions_def slot_at_def split: option.splits)

lemma length_filled: "length ts \<le> n \<Longrightarrow> length (fillRedactedPositions ts n) = n"
  by (simp add: fillRedactedPositions_def)

lemma part_array_iff:
  "None \<notin> set xs \<Longrightarrow> part (VArr ts) (VArr xs) \<longleftrightarrow> length ts = length xs \<and> None \<notin> set ts \<and> loose ts xs"
proof
  assume d: "None \<notin> set xs" and p: "part (VArr ts) (VArr xs)"
  then have "\<exists>t. ts ! i = Some t" if "i < length xs" for i
    using part_array_nth [OF p that] nth_mem [OF that] d by (cases "xs ! i") auto
  with p show "length ts = length xs \<and> None \<notin> set ts \<and> loose ts xs"
    using part_array_length [OF p] part_loose [OF p] by (metis in_set_conv_nth option.distinct(1))
next
  assume d: "None \<notin> set xs" and l: "length ts = length xs \<and> None \<notin> set ts \<and> loose ts xs"
  show "part (VArr ts) (VArr xs)"
  proof (rule part.part_array)
    fix i assume i: "i < length xs"
    then obtain t v where "ts ! i = Some t" "xs ! i = Some v"
      using d l by (metis nth_mem option.exhaust)
    with i l show "\<exists>t v. ts ! i = Some t \<and> xs ! i = Some v \<and> (t = VNull \<or> part t v)"
      by (fastforce simp: loose_def)
  qed (use l in simp)
qed

lemma filled_dense: "length ts \<le> n \<Longrightarrow> None \<notin> set (fillRedactedPositions ts n)"
  by (auto simp: fillRedactedPositions_def split: option.splits)

lemma filled_part: "None \<notin> set xs \<Longrightarrow> loose ts xs \<Longrightarrow> part (VArr (fillRedactedPositions ts (length xs))) (VArr xs)"
  by (subst part_array_iff)
    (auto simp: loose_iff slot_filled length_filled filled_dense split: option.splits if_splits)

end
