(* ===== verification/RxInclude.thy ===== *)
theory RxInclude
  imports RxProjection
begin

text \<open>
  What including a path does to a projected record: the result stays a part of the source, keeps what was there,
  and holds every value of the path.
\<close>

section \<open>Including a path\<close>

lemma drop_slot: "drop i xs = x # ys \<Longrightarrow> i < length xs \<and> xs ! i = x \<and> drop (Suc i) xs = ys"
  by (metis Cons_nth_drop_Suc drop_all list.distinct(1) list.inject not_le_imp_less)

lemma stored_dense: "stored_document (VArr xs) \<Longrightarrow> None \<notin> set xs"
  by (auto simp: list_all_iff)

lemma stored_fields: "stored_document v \<Longrightarrow> fields_of v = Some ps \<longleftrightarrow> v = VObj ps"
  by (cases v) auto

lemma array_slot_part: "t = VNull \<or> part t (VArr xs) \<Longrightarrow> array_slot (Some t) = [] \<or> part (VArr (array_slot (Some t))) (VArr xs)"
  using part_of_arrayE [of t xs] by (auto simp: array_slot_def)

lemma object_slot_part: "t = VNull \<or> part t (VObj ps) \<Longrightarrow> part (VObj (object_slot (Some t))) (VObj ps)"
  using part_of_objectE [of t ps] by (auto simp: object_slot_def intro: part.part_object)

lemma empty_part: "part (VObj []) (VObj ps)"
  by (auto intro: part.part_object)

lemma array_slot_old:
  "(\<And>u. t = Some u \<Longrightarrow> u = VNull \<or> part u (VArr xs)) \<Longrightarrow> array_slot t = [] \<or> part (VArr (array_slot t)) (VArr xs)"
  by (cases t) (use array_slot_part [of "the t" xs] in \<open>simp_all add: array_slot_def\<close>)

lemma object_slot_old:
  "(\<And>u. t = Some u \<Longrightarrow> u = VNull \<or> part u (VObj ps)) \<Longrightarrow> part (VObj (object_slot t)) (VObj ps)"
  by (cases t) (use object_slot_part [of "the t" ps] empty_part in \<open>simp_all add: object_slot_def\<close>)

lemma empty_slot [simp]: "array_slot None = []" "object_slot None = []"
  by (simp_all add: array_slot_def object_slot_def)

lemma object_result_part: "(\<And>u. t = Some u \<Longrightarrow> part u (VObj ps)) \<Longrightarrow> object_result t r = VObj r"
  using part_of_objectE by (fastforce simp: object_result_def split: option.splits jsany.splits)

lemma loose_filled: "length ts \<le> n \<Longrightarrow> loose ts (fillRedactedPositions ts n)"
  by (auto simp: loose_iff slot_filled length_filled) (auto simp: slot_at_nth)

lemma filled_step:
  assumes "None \<notin> set xs" "ts = [] \<or> part (VArr ts) (VArr xs)" "loose us xs" "loose ts us"
  shows "part (VArr (fillRedactedPositions us (length xs))) (VArr xs)"
    "part (VArr ts) (VArr xs) \<Longrightarrow> part (VArr ts) (VArr (fillRedactedPositions us (length xs)))"
proof -
  have len: "length us \<le> length xs" using assms(3) by (simp add: loose_iff)
  show "part (VArr (fillRedactedPositions us (length xs))) (VArr xs)" by (rule filled_part) fact+
  assume p: "part (VArr ts) (VArr xs)"
  then show "part (VArr ts) (VArr (fillRedactedPositions us (length xs)))"
    using loose_trans [OF assms(4) loose_filled [OF len]] assms(1) len
    by (auto simp: part_array_iff filled_dense length_filled)
qed

text \<open>The result is a part of the source, and what was there stays.\<close>

lemma include_part:
  "stored_document (VObj ps) \<Longrightarrow> part (VObj fs) (VObj ps) \<Longrightarrow>
     part (VObj (applyIncludePath fs ps p)) (VObj ps) \<and> part (VObj fs) (VObj (applyIncludePath fs ps p))"
  "stored_document (VArr xs) \<Longrightarrow> ts = [] \<or> part (VArr ts) (VArr xs) \<Longrightarrow>
     (applyIncludeIntoArray ts xs p = [] \<or> part (VArr (applyIncludeIntoArray ts xs p)) (VArr xs)) \<and>
     (part (VArr ts) (VArr xs) \<longrightarrow> part (VArr ts) (VArr (applyIncludeIntoArray ts xs p)))"
  "stored_document (VArr all) \<Longrightarrow> drop i all = xs \<Longrightarrow> loose ts all \<Longrightarrow>
     loose (include_each i ts xs p) all \<and> loose ts (include_each i ts xs p)"
  "stored_document child \<Longrightarrow> (\<And>u. t = Some u \<Longrightarrow> u = VNull \<or> part u child) \<Longrightarrow> include_child t child p = Some v \<Longrightarrow>
     part v child \<and> (\<forall>u. t = Some u \<longrightarrow> u = VNull \<or> part u v)"
proof (induction fs ps p and ts xs p and i ts xs p and t child p arbitrary: and and all and v
    rule: applyIncludePath_applyIncludeIntoArray_include_each_include_child.induct)
  case (2 target src segment rest)
  show ?case
  proof (cases "mget src segment")
    case (Some child)
    have child: "stored_document child" using 2(3) Some by (rule stored_entry)
    have old: "part u child" if "mget target segment = Some u" for u
      using part_object_get [OF 2(4) that] Some by simp
    have step: "part (VObj (mput segment v target)) (VObj src) \<and> part (VObj target) (VObj (mput segment v target))"
      if "part v child" "\<And>u. mget target segment = Some u \<Longrightarrow> part u v" for v
      using part_mput [OF 2(4) Some] part_grow that by blast
    show ?thesis
    proof (cases "rest = []")
      case True
      then show ?thesis using step [of child] old by (simp add: Some clone_stored [OF child])
    next
      case False
      show ?thesis
      proof (cases "fields_of child")
        case None
        show ?thesis
        proof (cases "include_child (mget target segment) child rest")
          case (Some v)
          have "u = VNull \<or> part u v" if "mget target segment = Some u" for u
            using 2(1) [OF \<open>mget src segment = Some child\<close> False None child _ Some] old that by blast
          moreover have "part v child"
            using 2(1) [OF \<open>mget src segment = Some child\<close> False None child _ Some] old by blast
          moreover have "v \<noteq> VNull" using Some by (auto simp: include_child.simps Let_def split: jsany.splits if_splits option.splits)
          moreover have "u \<noteq> VNull" if "mget target segment = Some u" for u
            using old [OF that] \<open>part v child\<close> \<open>v \<noteq> VNull\<close> Some None by (auto simp: include_child.simps Let_def elim: part.cases split: jsany.splits if_splits)
          ultimately show ?thesis
            using step [of v] False \<open>mget src segment = Some child\<close> None Some by simp
        qed (use 2(4) False Some None in \<open>simp\<close>)
      next
        case fields: (Some qs)
        then have obj: "child = VObj qs" using child by (simp add: stored_fields)
        have slot: "part (VObj (object_slot (mget target segment))) (VObj qs)"
          using old object_slot_part empty_part by (cases "mget target segment") (auto simp: obj)
        note new = 2(2) [OF Some False fields child [unfolded obj] slot]
        have "object_result (mget target segment) r = VObj r" for r
          using old by (intro object_result_part) (simp add: obj)
        moreover have "part u (VObj (applyIncludePath (object_slot (mget target segment)) qs rest))"
          if "mget target segment = Some u" for u
          using part_of_objectE [of u qs] old [OF that] new that by (auto simp: obj object_slot_def)
        ultimately show ?thesis
          using step [of "VObj (applyIncludePath (object_slot (mget target segment)) qs rest)"] new False
          by (simp add: Some fields) (simp add: obj)
      qed
    qed
  qed (use 2(4) in simp)
next
  case (4 target src segment rest)
  have dense: "None \<notin> set src" using 4(3) by (rule stored_dense)
  have loose: "loose target src" using 4(4) part_loose by auto
  show ?case
  proof (cases "array_index segment")
    case index: (Some index)
    show ?thesis
    proof (cases "slot_at src index")
      case child: (Some child)
      have stored: "stored_document child" using stored_slot [OF 4(3) child] .
      have old: "u = VNull \<or> part u child" if "slot_at target index = Some u" for u
        using loose_slot [OF loose that] child by simp
      have step: "part (VArr (fillRedactedPositions (put_at index v target) (length src))) (VArr src) \<and>
          (part (VArr target) (VArr src) \<longrightarrow> part (VArr target) (VArr (fillRedactedPositions (put_at index v target) (length src))))"
        if "part v child" "\<And>u. slot_at target index = Some u \<Longrightarrow> u = VNull \<or> part u v" for v
        using filled_step [OF dense 4(4) loose_put_at [OF loose child that(1)] loose_grow [OF that(2)]] by blast
      show ?thesis
      proof (cases "rest = []")
        case True
        then show ?thesis using step [of child] old by (simp add: index child clone_stored [OF stored])
      next
        case False
        show ?thesis
        proof (cases "include_child (slot_at target index) child rest")
          case None
          with 4(4) False show ?thesis by (simp add: index child)
        next
          case (Some v)
          from 4(2) [OF index child False stored old Some] False show ?thesis
            using step [of v] by (simp add: index child Some)
        qed
      qed
    qed (use 4(4) index in simp)
  next
    case None
    from 4(1) [OF None 4(3) _ loose] have r: "loose (include_each 0 target src (segment # rest)) src"
      "loose target (include_each 0 target src (segment # rest))" by simp_all
    show ?thesis
    proof (cases "include_each 0 target src (segment # rest) = []")
      case True
      with r(2) have "target = []" by (simp add: loose_iff)
      with True None show ?thesis by simp
    next
      case False
      with None filled_step [OF dense 4(4) r] show ?thesis by simp
    qed
  qed
next
  case (7 i target child src segments)
  have slot: "slot_at all i = Some child" and rest: "drop (Suc i) all = src"
    using drop_slot [OF 7(4)] by (simp_all add: slot_at_def)
  have stored: "stored_document child" using stored_slot [OF 7(3) slot] .
  show ?case
  proof (cases "include_child (slot_at target i) child segments")
    case None
    with 7(2) [OF 7(3) rest] 7(5) show ?thesis by simp
  next
    case (Some v)
    have "part v child \<and> (\<forall>u. slot_at target i = Some u \<longrightarrow> u = VNull \<or> part u v)"
      by (rule 7(1) [OF stored _ Some]) (use loose_slot [OF 7(5)] slot in fastforce)
    then have "loose (put_at i v target) all" "loose target (put_at i v target)"
      using loose_put_at [OF 7(5) slot] loose_grow by blast+
    with 7(2) [OF 7(3) rest, unfolded Some] Some show ?thesis using loose_trans by fastforce
  qed
next
  case (8 t child segments)
  show ?case
  proof (cases child)
    case (VArr xs)
    have old: "array_slot t = [] \<or> part (VArr (array_slot t)) (VArr xs)"
      using array_slot_old [of t xs] "8.prems"(2) [unfolded VArr] by blast
    have "fields_of child = None" by (simp add: VArr)
    note new = "8.IH"(1) [OF this VArr "8.prems"(1) [unfolded VArr] old]
    have v: "v = VArr (applyIncludeIntoArray (array_slot t) xs segments)" "applyIncludeIntoArray (array_slot t) xs segments \<noteq> []"
      using "8.prems"(3) by (auto simp: include_child.simps VArr Let_def split: if_splits)
    have "u = VNull \<or> part u v" if "t = Some u" for u
      using "8.prems"(2) [OF that] new part_of_arrayE [of u xs] that by (auto simp: VArr v array_slot_def)
    with new v show ?thesis by (auto simp: VArr)
  next
    case (VObj qs)
    have old: "part (VObj (object_slot t)) (VObj qs)"
      using object_slot_old [of t qs] "8.prems"(2) [unfolded VObj] by blast
    have new: "part (VObj (applyIncludePath (object_slot t) qs segments)) (VObj qs) \<and>
        part (VObj (object_slot t)) (VObj (applyIncludePath (object_slot t) qs segments))"
      using "8.IH"(2) "8.prems"(1) old by (simp add: VObj)
    have v: "v = VObj (applyIncludePath (object_slot t) qs segments)"
      using "8.prems"(3) by (auto simp: include_child.simps VObj Let_def split: if_splits)
    have "u = VNull \<or> part u v" if "t = Some u" for u
      using "8.prems"(2) [OF that] new part_of_objectE [of u qs] that by (auto simp: VObj v object_slot_def)
    with new v show ?thesis by (auto simp: VObj)
  qed (use "8.prems" in \<open>auto simp: include_child.simps\<close>)
next
  case (6 i target src segments)
  then have "None \<in> set all" using drop_slot [OF 6(3)] by (metis nth_mem)
  then show ?case using stored_dense [OF 6(2)] by blast
qed (auto simp: loose_refl)

lemma reaches_atom: "fields_of v = None \<Longrightarrow> \<forall>xs. v \<noteq> VArr xs \<Longrightarrow> reaches v (s # r) = []"
  by (subst reaches.simps(2)) (cases v; simp)

lemma item_null [simp]: "item_reaches (s # r) (Some VNull) = []"
  by simp

definition item_holds :: "string list \<Rightarrow> jsany option \<Rightarrow> jsany option \<Rightarrow> bool" where
  "item_holds p t v \<longleftrightarrow> list_all2 part (item_reaches p v) (item_reaches p t)"

lemma item_holds_Some [simp]: "item_holds p (Some t) (Some v) \<longleftrightarrow> holds t v p"
  by (simp add: item_holds_def holds_def)

text \<open>Nothing is contributed where there is nothing to read.\<close>

lemma nothing_to_hold:
  "reaches v p = [] \<Longrightarrow> p \<noteq> [] \<Longrightarrow> t = None \<or> t = Some VNull \<or> (\<exists>u. t = Some u \<and> part u v) \<Longrightarrow> item_holds p t (Some v)"
  using reaches_part_length [of _ v p] by (cases p) (auto simp: item_holds_def)

lemma holds_array:
  assumes "stored_document (VArr xs)" "part (VArr ts) (VArr xs)"
  shows "holds (VArr ts) (VArr xs) (s # r) \<longleftrightarrow>
    (case array_index s of
       Some i \<Rightarrow> i < length xs \<longrightarrow> item_holds r (slot_at ts i) (xs ! i)
     | None \<Rightarrow> \<forall>i < length xs. item_holds (s # r) (slot_at ts i) (xs ! i))"
  using holds_items [of s ts xs r] holds_index [of s _ ts xs r] part_array_length [OF assms(2)] stored_dense [OF assms(1)] assms(2)
  by (auto simp: item_holds_def slot_at_def split: option.splits)

lemma include_holds:
  "stored_document (VObj ps) \<Longrightarrow> part (VObj fs) (VObj ps) \<Longrightarrow> p \<noteq> [] \<Longrightarrow> holds (VObj (applyIncludePath fs ps p)) (VObj ps) p"
  "stored_document (VArr xs) \<Longrightarrow> ts = [] \<or> part (VArr ts) (VArr xs) \<Longrightarrow> p \<noteq> [] \<Longrightarrow>
     (if applyIncludeIntoArray ts xs p = [] then reaches (VArr xs) p = [] else holds (VArr (applyIncludeIntoArray ts xs p)) (VArr xs) p)"
  "stored_document (VArr all) \<Longrightarrow> drop i all = xs \<Longrightarrow> loose ts all \<Longrightarrow> p \<noteq> [] \<Longrightarrow>
     (\<forall>j < i. slot_at (include_each i ts xs p) j = slot_at ts j) \<and>
     (\<forall>j < length all. i \<le> j \<longrightarrow> item_holds p (slot_at (include_each i ts xs p) j) (all ! j))"
  "stored_document child \<Longrightarrow> (\<And>u. t = Some u \<Longrightarrow> u = VNull \<or> part u child) \<Longrightarrow> p \<noteq> [] \<Longrightarrow>
     (case include_child t child p of Some v \<Rightarrow> holds v child p | None \<Rightarrow> reaches child p = [])"
proof (induction fs ps p and ts xs p and i ts xs p and t child p arbitrary: and and all and
    rule: applyIncludePath_applyIncludeIntoArray_include_each_include_child.induct)
  case (2 target src segment rest)
  have keep: "part (VObj (applyIncludePath target src (segment # rest))) (VObj src)"
    using include_part(1) [OF 2(3,4)] by blast
  show ?case
  proof (cases "mget src segment")
    case None
    then show ?thesis
      using part_object_get [OF 2(4), of segment] by (auto simp: holds_object split: option.splits)
  next
    case (Some child)
    have child: "stored_document child" using 2(3) Some by (rule stored_entry)
    have old: "part u child" if "mget target segment = Some u" for u
      using part_object_get [OF 2(4) that] Some by simp
    show ?thesis
    proof (cases "rest = []")
      case True
      then show ?thesis by (simp add: Some holds_object clone_stored [OF child] holds_Nil)
    next
      case rest: False
      show ?thesis
      proof (cases "fields_of child")
        case fields: (Some qs)
        then have obj: "child = VObj qs" using child by (simp add: stored_fields)
        have slot: "part (VObj (object_slot (mget target segment))) (VObj qs)"
          using old object_slot_part empty_part by (cases "mget target segment") (auto simp: obj)
        have "object_result (mget target segment) r = VObj r" for r
          using old by (intro object_result_part) (simp add: obj)
        with 2(2) [OF Some rest fields child [unfolded obj] slot rest] rest show ?thesis
          by (simp add: Some fields holds_object) (simp add: obj)
      next
        case fields: None
        have ih: "case include_child (mget target segment) child rest of Some v \<Rightarrow> holds v child rest | None \<Rightarrow> reaches child rest = []"
          using 2(1) [OF Some rest fields child _ rest] old by blast
        show ?thesis
        proof (cases "include_child (mget target segment) child rest")
          case None
          have "item_holds rest (mget target segment) (Some child)"
            using ih None old rest by (intro nothing_to_hold) (simp_all, metis option.exhaust)
          with None rest ih show ?thesis
            by (cases "mget target segment") (simp_all add: Some fields holds_object)
        next
          case new: (Some v)
          with ih rest show ?thesis by (simp add: Some fields holds_object)
        qed
      qed
    qed
  qed
next
  case (4 target src segment rest)
  have dense: "None \<notin> set src" using 4(3) by (rule stored_dense)
  have loose: "loose target src" using 4(4) part_loose by auto
  note whole = include_part(2) [OF 4(3,4), of "segment # rest"]
  show ?case
  proof (cases "array_index segment")
    case index: (Some index)
    show ?thesis
    proof (cases "slot_at src index")
      case None
      then have "\<not> index < length src" using dense by (auto simp: slot_at_def) (metis nth_mem)
      with None index 4(3,4) show ?thesis
        by (auto simp: reaches_index holds_array)
    next
      case child: (Some child)
      have stored: "stored_document child" using stored_slot [OF 4(3) child] .
      have at: "index < length src" "src ! index = Some child" using child by (simp_all add: slot_at_nth)
      have old: "u = VNull \<or> part u child" if "slot_at target index = Some u" for u
        using loose_slot [OF loose that] child by simp
      have fit: "length (put_at index v target) \<le> length src" for v
        using loose at by (simp add: length_put_at loose_iff)
      have put: "slot_at (fillRedactedPositions (put_at index v target) (length src)) index = Some v" for v
        by (simp add: slot_filled [OF fit] slot_put_at at)
      have ne: "fillRedactedPositions (put_at index v target) (length src) \<noteq> []" for v
        using length_filled [OF fit] at by (metis gr_implies_not0 list.size(3))
      show ?thesis
      proof (cases "rest = []")
        case True
        with whole ne show ?thesis
          by (simp add: index child clone_stored [OF stored] holds_array [OF 4(3)] put at holds_Nil)
      next
        case rest: False
        have ih: "case include_child (slot_at target index) child rest of Some v \<Rightarrow> holds v child rest | None \<Rightarrow> reaches child rest = []"
          using 4(2) [OF index child rest stored _ rest] old by blast
        show ?thesis
        proof (cases "include_child (slot_at target index) child rest")
          case None
          have "item_holds rest (slot_at target index) (Some child)"
            using ih None old rest by (intro nothing_to_hold) (simp_all, metis option.exhaust)
          with None rest ih 4(3,4) at show ?thesis
            by (auto simp: index child holds_array reaches_index)
        next
          case new: (Some v)
          with ih rest whole ne show ?thesis
            by (simp add: index child holds_array [OF 4(3)] put at)
        qed
      qed
    qed
  next
    case None
    have items: "item_holds (segment # rest) (slot_at (include_each 0 target src (segment # rest)) j) (src ! j)" if "j < length src" for j
      using 4(1) [OF None 4(3) _ loose] that by simp
    show ?thesis
    proof (cases "include_each 0 target src (segment # rest) = []")
      case True
      have "item_reaches (segment # rest) x = []" if "x \<in> set src" for x
        using that items True by (auto simp: in_set_conv_nth item_holds_def slot_at_def)
      with True None show ?thesis by (auto simp: reaches_items)
    next
      case False
      have len: "length (include_each 0 target src (segment # rest)) \<le> length src"
        using include_part(3) [OF 4(3) _ loose, of 0 src "segment # rest"] by (simp add: loose_iff)
      have "item_holds (segment # rest) (slot_at (fillRedactedPositions (include_each 0 target src (segment # rest)) (length src)) j) (src ! j)"
        if "j < length src" for j
        using items [OF that] that by (simp add: slot_filled [OF len] item_holds_def split: option.splits)
      moreover have ne: "fillRedactedPositions (include_each 0 target src (segment # rest)) (length src) \<noteq> []"
        using length_filled [OF len] len False by (metis le_zero_eq length_0_conv)
      ultimately have "holds (VArr (fillRedactedPositions (include_each 0 target src (segment # rest)) (length src))) (VArr src) (segment # rest)"
        using holds_array [OF 4(3)] whole None False by simp
      with None False ne show ?thesis by (simp add: Let_def)
    qed
  qed
next
  case (6 i target src segments)
  then have "None \<in> set all" using drop_slot [OF 6(3)] by (metis nth_mem)
  then show ?case using stored_dense [OF 6(2)] by blast
next
  case (7 i target child src segments)
  have at: "i < length all" "all ! i = Some child" and rest: "drop (Suc i) all = src"
    using drop_slot [OF 7(4)] by simp_all
  have stored: "stored_document child" using stored_slot [OF 7(3)] at by (simp add: slot_at_nth)
  have old: "u = VNull \<or> part u child" if "slot_at target i = Some u" for u
    using loose_slot [OF 7(5) that] at by (simp add: slot_at_nth)
  have ih: "case include_child (slot_at target i) child segments of Some v \<Rightarrow> holds v child segments | None \<Rightarrow> reaches child segments = []"
    using 7(1) [OF stored _ 7(6)] old by blast
  define next_target where "next_target =
    (case include_child (slot_at target i) child segments of Some v \<Rightarrow> put_at i v target | None \<Rightarrow> target)"
  have loose: "loose next_target all"
  proof (cases "include_child (slot_at target i) child segments")
    case (Some v)
    with include_part(4) [OF stored _ Some] old have "part v child" by blast
    with Some 7(5) at show ?thesis by (simp add: next_target_def loose_put_at slot_at_nth)
  qed (simp add: next_target_def 7(5))
  have here: "item_holds segments (slot_at next_target i) (all ! i)"
  proof (cases "include_child (slot_at target i) child segments")
    case None
    then have "item_holds segments (slot_at target i) (Some child)"
      using ih old 7(6) by (intro nothing_to_hold) (simp_all, metis option.exhaust)
    with None at show ?thesis by (simp add: next_target_def)
  qed (use ih at in \<open>simp add: next_target_def slot_put_at\<close>)
  have before: "slot_at next_target j = slot_at target j" if "j < i" for j
    using that by (auto simp: next_target_def slot_put_at split: option.splits)
  have later: "(\<forall>j < Suc i. slot_at (include_each (Suc i) next_target src segments) j = slot_at next_target j) \<and>
      (\<forall>j < length all. Suc i \<le> j \<longrightarrow> item_holds segments (slot_at (include_each (Suc i) next_target src segments) j) (all ! j))"
    using 7(2) [OF 7(3) rest loose [unfolded next_target_def] 7(6)] by (simp add: next_target_def)
  have "item_holds segments (slot_at (include_each (Suc i) next_target src segments) j) (all ! j)" if "j < length all" "i \<le> j" for j
    using that later here by (cases "j = i") (simp_all add: Suc_le_eq)
  then show ?case using later before by (simp add: next_target_def [symmetric])
next
  case (8 t child segments)
  show ?case
  proof (cases child)
    case (VArr xs)
    have old: "array_slot t = [] \<or> part (VArr (array_slot t)) (VArr xs)"
      using array_slot_old [of t xs] "8.prems"(2) [unfolded VArr] by blast
    show ?thesis
      using "8.IH"(1) [OF _ VArr "8.prems"(1) [unfolded VArr] old "8.prems"(3)]
      by (auto simp: include_child.simps VArr Let_def split: if_splits)
  next
    case (VObj qs)
    have old: "part (VObj (object_slot t)) (VObj qs)"
      using object_slot_old [of t qs] "8.prems"(2) [unfolded VObj] by blast
    have new: "holds (VObj (applyIncludePath (object_slot t) qs segments)) (VObj qs) segments"
      using "8.IH"(2) "8.prems"(1) "8.prems"(3) old by (simp add: VObj)
    have "reaches (VObj qs) segments = []" if "applyIncludePath (object_slot t) qs segments = []"
      using new that "8.prems"(3) by (cases segments) (simp_all add: holds_def)
    with new show ?thesis by (auto simp: include_child.simps VObj Let_def split: if_splits)
  qed (use "8.prems"(1,3) in \<open>cases segments; simp add: include_child.simps reaches_atom\<close>)+
qed auto

end
