(* ===== verification/RxExclude.thy ===== *)
theory RxExclude
  imports RxInclude
begin

text \<open>
  What a projection gives away: included paths cover every value of the result, excluded paths are gone from it.
\<close>

section \<open>Only included values are shown\<close>

lemma read_mput:
  "read_at (VObj (mput s v fs)) q = Some x \<Longrightarrow> leaf_value x \<Longrightarrow>
     (\<exists>r. q = Key s # r \<and> read_at v r = Some x) \<or> read_at (VObj fs) q = Some x"
  by (cases "(VObj (mput s v fs), q)" rule: read_at.cases) (auto split: if_splits)

lemma read_put_at:
  "read_at (VArr (put_at i v ts)) q = Some x \<Longrightarrow> leaf_value x \<Longrightarrow>
     (\<exists>r. q = Idx i # r \<and> read_at v r = Some x) \<or> read_at (VArr ts) q = Some x"
  by (cases "(VArr (put_at i v ts), q)" rule: read_at.cases) (auto simp: slot_put_at split: if_splits)

lemma slot_filled_any:
  "slot_at (fillRedactedPositions ts n) i =
     (if i < n then Some (case slot_at ts i of Some v \<Rightarrow> v | None \<Rightarrow> VNull) else slot_at ts i)"
  by (auto simp: fillRedactedPositions_def slot_at_def nth_append split: option.splits)

lemma read_null: "read_at VNull q = Some x \<Longrightarrow> \<not> leaf_value x"
  by (cases q) auto

lemma read_filled:
  "read_at (VArr (fillRedactedPositions ts n)) q = Some x \<Longrightarrow> leaf_value x \<Longrightarrow> read_at (VArr ts) q = Some x"
  by (cases "(VArr (fillRedactedPositions ts n), q)" rule: read_at.cases)
    (auto simp: slot_filled_any dest: read_null split: if_splits option.splits)

lemma read_empty: "read_at (VObj []) q = Some x \<Longrightarrow> \<not> leaf_value x" "read_at (VArr []) q = Some x \<Longrightarrow> \<not> leaf_value x"
  by (cases "(VObj [], q)" rule: read_at.cases; auto) (cases "(VArr [], q)" rule: read_at.cases; auto simp: slot_at_def)

lemma read_object_slot: "read_at (VObj (object_slot t)) q = Some x \<Longrightarrow> leaf_value x \<Longrightarrow> \<exists>u. t = Some u \<and> read_at u q = Some x"
  by (auto simp: object_slot_def dest: read_empty split: option.splits jsany.splits)

lemma read_array_slot: "read_at (VArr (array_slot t)) q = Some x \<Longrightarrow> leaf_value x \<Longrightarrow> \<exists>u. t = Some u \<and> read_at u q = Some x"
  by (auto simp: array_slot_def dest: read_empty split: option.splits jsany.splits)

lemma read_object_result:
  "read_at (object_result t r) q = Some x \<Longrightarrow> (\<exists>u. t = Some u \<and> read_at u q = Some x) \<or> read_at (VObj r) q = Some x"
  by (auto simp: object_result_def split: option.splits jsany.splits)

lemma include_leak:
  "read_at (VObj (applyIncludePath fs ps p)) q = Some x \<Longrightarrow> leaf_value x \<Longrightarrow> read_at (VObj fs) q = Some x \<or> covers p q"
  "read_at (VArr (applyIncludeIntoArray ts xs p)) q = Some x \<Longrightarrow> leaf_value x \<Longrightarrow> read_at (VArr ts) q = Some x \<or> covers p q"
  "read_at (VArr (include_each i ts xs p)) q = Some x \<Longrightarrow> leaf_value x \<Longrightarrow> p \<noteq> [] \<Longrightarrow> array_index (hd p) = None \<Longrightarrow>
     read_at (VArr ts) q = Some x \<or> covers p q"
  "include_child t child p = Some v \<Longrightarrow> read_at v q = Some x \<Longrightarrow> leaf_value x \<Longrightarrow>
     (\<exists>u. t = Some u \<and> read_at u q = Some x) \<or> covers p q"
proof (induction fs ps p and ts xs p and i ts xs p and t child p arbitrary: q and q and q and v q
    rule: applyIncludePath_applyIncludeIntoArray_include_each_include_child.induct)
  case (2 target src segment rest)
  show ?case
  proof (cases "mget src segment")
    case (Some child)
    show ?thesis
    proof (cases "rest = []")
      case True
      with Some "2.prems" show ?thesis by (auto dest!: read_mput)
    next
      case rest: False
      show ?thesis
      proof (cases "fields_of child")
        case fields: (Some qs)
        with Some rest "2.prems" consider "read_at (VObj target) q = Some x"
          | r where "q = Key segment # r" "read_at (object_result (mget target segment)
              (applyIncludePath (object_slot (mget target segment)) qs rest)) r = Some x"
          by (auto dest!: read_mput)
        then show ?thesis
        proof cases
          case 2
          then consider u where "mget target segment = Some u" "read_at u r = Some x"
            | "read_at (VObj (applyIncludePath (object_slot (mget target segment)) qs rest)) r = Some x"
            using read_object_result by blast
          then show ?thesis
          proof cases
            case 2
            then have "read_at (VObj (object_slot (mget target segment))) r = Some x \<or> covers rest r"
              using "2.IH"(2) [OF Some rest fields] "2.prems"(2) by blast
            then show ?thesis
              using \<open>q = Key segment # r\<close> read_object_slot "2.prems"(2) by fastforce
          qed (simp add: \<open>q = Key segment # r\<close>)
        qed simp
      next
        case fields: None
        show ?thesis
        proof (cases "include_child (mget target segment) child rest")
          case None
          with Some rest fields "2.prems" show ?thesis by simp
        next
          case new: (Some v)
          with Some rest fields "2.prems" consider "read_at (VObj target) q = Some x"
            | r where "q = Key segment # r" "read_at v r = Some x"
            by (auto dest!: read_mput)
          then show ?thesis
            using "2.IH"(1) [OF Some rest fields new _ "2.prems"(2)] by cases fastforce+
        qed
      qed
    qed
  qed (use "2.prems" in simp)
next
  case (4 target src segment rest)
  show ?case
  proof (cases "array_index segment")
    case index: (Some index)
    show ?thesis
    proof (cases "slot_at src index")
      case child: (Some child)
      show ?thesis
      proof (cases "rest = []")
        case True
        with index child "4.prems" show ?thesis by (auto dest!: read_filled read_put_at)
      next
        case rest: False
        show ?thesis
        proof (cases "include_child (slot_at target index) child rest")
          case None
          with index child rest "4.prems" show ?thesis by simp
        next
          case new: (Some v)
          with index child rest "4.prems" consider "read_at (VArr target) q = Some x"
            | r where "q = Idx index # r" "read_at v r = Some x"
            by (auto dest!: read_filled read_put_at)
          then show ?thesis
            using "4.IH"(2) [OF index child rest new _ "4.prems"(2)] index by cases fastforce+
        qed
      qed
    qed (use index "4.prems" in simp)
  next
    case None
    then have "read_at (VArr (include_each 0 target src (segment # rest))) q = Some x"
      using "4.prems" by (auto simp: Let_def dest: read_filled split: if_splits)
    with "4.IH"(1) [OF None _ "4.prems"(2)] None show ?thesis by simp
  qed
next
  case (7 i target child src segments)
  show ?case
  proof (cases "include_child (slot_at target i) child segments")
    case None
    with "7.IH"(2) "7.prems" show ?thesis by simp
  next
    case (Some v)
    have "read_at (VArr (put_at i v target)) q = Some x \<or> covers segments q"
      using "7.IH"(2) [of q] "7.prems" Some by simp
    then consider "read_at (VArr target) q = Some x" | "covers segments q" | r where "q = Idx i # r" "read_at v r = Some x"
      using read_put_at "7.prems"(2) by blast
    then show ?thesis
    proof cases
      case 3
      from "7.IH"(1) [OF Some 3(2) "7.prems"(2)] "7.prems"(3,4) 3(1) show ?thesis
        by (cases segments) auto
    qed auto
  qed
next
  case (8 t child segments)
  show ?case
  proof (cases "fields_of child")
    case (Some qs)
    with "8.prems" have "read_at (VObj (applyIncludePath (object_slot t) qs segments)) q = Some x"
      by (auto simp: include_child.simps Let_def split: if_splits)
    with "8.IH"(2) [OF Some _ "8.prems"(3)] show ?thesis using read_object_slot "8.prems"(3) by blast
  next
    case None
    with "8.prems" obtain xs where xs: "child = VArr xs" "read_at (VArr (applyIncludeIntoArray (array_slot t) xs segments)) q = Some x"
      by (auto simp: include_child.simps Let_def split: if_splits jsany.splits)
    with "8.IH"(1) [OF None xs(1) _ "8.prems"(3)] show ?thesis using read_array_slot "8.prems"(3) by blast
  qed
qed auto

section \<open>Excluding a path\<close>

lemma stored_Cons: "stored_document (VArr (x # xs)) \<longleftrightarrow> (\<exists>v. x = Some v \<and> stored_document v) \<and> stored_document (VArr xs)"
  by (auto split: option.splits)

lemma stored_mput: "stored_document (VObj ps) \<Longrightarrow> stored_document v \<Longrightarrow> stored_document (VObj (mput k v ps))"
  by (induction ps) (auto split: if_splits)

lemma stored_mdel: "stored_document (VObj ps) \<Longrightarrow> stored_document (VObj (mdel k ps))"
  by (induction ps) (auto split: if_splits)

lemma stored_update: "stored_document (VArr xs) \<Longrightarrow> stored_document v \<Longrightarrow> stored_document (VArr (xs[i := Some v]))"
  using set_update_subset_insert [of xs i "Some v"] by (fastforce simp: list_all_iff)

lemma part_mdel: "part (VObj (mdel k ps)) (VObj ps)"
  by (intro part.part_object) (auto split: if_splits)

lemma stored_nth: "stored_document (VArr xs) \<Longrightarrow> i < length xs \<Longrightarrow> \<exists>v. xs ! i = Some v"
  using stored_dense [of xs] nth_mem [of i xs] by (cases "xs ! i") auto

lemma part_update:
  assumes "stored_document (VArr xs)" "slot_at xs i = Some v" "t = VNull \<or> part t v"
  shows "part (VArr (xs[i := Some t])) (VArr xs)"
proof (rule part.part_array)
  fix j assume "j < length xs"
  with stored_nth [OF assms(1) this] assms(2,3) show "\<exists>t' v. xs[i := Some t] ! j = Some t' \<and> xs ! j = Some v \<and> (t' = VNull \<or> part t' v)"
    by (cases "j = i") (auto simp: slot_at_nth)
qed simp

lemma part_Cons:
  assumes "part t v" "stored_document (VArr xs)" "part (VArr ts) (VArr xs)"
  shows "part (VArr (Some t # ts)) (VArr (Some v # xs))"
proof (rule part.part_array)
  fix j assume j: "j < length (Some v # xs)"
  show "\<exists>t' v'. (Some t # ts) ! j = Some t' \<and> (Some v # xs) ! j = Some v' \<and> (t' = VNull \<or> part t' v')"
  proof (cases j)
    case (Suc i)
    with part_array_nth [OF assms(3), of i] stored_nth [OF assms(2), of i] j show ?thesis by auto
  qed (use assms(1) in simp)
qed (use part_array_length [OF assms(3)] in simp)

text \<open>The result is a stored document and a part of the source.\<close>

lemma exclude_part:
  "stored_document (VObj fs) \<Longrightarrow> stored_document (VObj (applyExcludePath fs p)) \<and> part (VObj (applyExcludePath fs p)) (VObj fs)"
  "stored_document (VArr ts) \<Longrightarrow> stored_document (VArr (applyExcludeFromArray ts p)) \<and> part (VArr (applyExcludeFromArray ts p)) (VArr ts)"
  "stored_document (VArr ts) \<Longrightarrow> stored_document (VArr (exclude_each ts p)) \<and> part (VArr (exclude_each ts p)) (VArr ts)"
proof (induction fs p and ts p and ts p rule: applyExcludePath_applyExcludeFromArray_exclude_each.induct)
  case (2 target segment rest)
  show ?case
  proof (cases "mget target segment")
    case (Some child)
    note stored = stored_entry [OF "2.prems" Some]
    show ?thesis
    proof (cases "rest = []")
      case True
      with Some stored_mdel [OF "2.prems"] part_mdel show ?thesis by (simp del: stored_document.simps)
    next
      case False
      show ?thesis
      proof (cases child)
        case (VArr xs)
        from "2.IH"(1) [OF Some False VArr] stored VArr False show ?thesis
          by (auto simp: Some simp del: stored_document.simps intro!: stored_mput [OF "2.prems"] part_mput [OF part_refl Some])
      next
        case (VObj ps)
        from "2.IH"(2) [OF Some False VObj] stored VObj False show ?thesis
          by (auto simp: Some simp del: stored_document.simps intro!: stored_mput [OF "2.prems"] part_mput [OF part_refl Some])
      qed (use "2.prems" Some False in simp_all)
    qed
  qed (use "2.prems" in simp)
next
  case (4 target segment rest)
  show ?case
  proof (cases "array_index segment")
    case index: (Some index)
    show ?thesis
    proof (cases "slot_at target index")
      case (Some child)
      note stored = stored_slot [OF "4.prems" Some]
      show ?thesis
      proof (cases "rest = []")
        case True
        with Some index stored_update [OF "4.prems", of VNull index] part_update [OF "4.prems" Some, of VNull] show ?thesis
          by (simp del: stored_document.simps(1))
      next
        case False
        show ?thesis
        proof (cases child)
          case (VArr xs)
          from "4.IH"(2) [OF index Some False VArr] stored VArr False index show ?thesis
            by (auto simp: Some simp del: stored_document.simps intro!: stored_update [OF "4.prems"] part_update [OF "4.prems" Some])
        next
          case (VObj ps)
          from "4.IH"(3) [OF index Some False VObj] stored VObj False index show ?thesis
            by (auto simp: Some simp del: stored_document.simps intro!: stored_update [OF "4.prems"] part_update [OF "4.prems" Some])
        qed (use "4.prems" Some False index in simp_all)
      qed
    qed (use "4.prems" index in simp)
  next
    case None
    with "4.IH"(1) [OF None "4.prems"] show ?thesis by simp
  qed
next
  case (7 child xs segments)
  have stored: "stored_document child" "stored_document (VArr xs)"
    using "7.prems" by (auto simp: stored_Cons)
  have tail: "stored_document (VArr (exclude_each xs segments))" "part (VArr (exclude_each xs segments)) (VArr xs)"
    using "7.IH"(3) [OF stored(2)] by auto
  define new where "new = (case child of VArr ys \<Rightarrow> VArr (applyExcludeFromArray ys segments)
    | VObj ps \<Rightarrow> VObj (applyExcludePath ps segments) | _ \<Rightarrow> child)"
  have "stored_document new \<and> part new child"
    using "7.IH"(1,2) stored(1) by (cases child) (simp_all add: new_def del: stored_document.simps(1,2))
  with tail stored(2) show ?case
    by (auto simp: new_def [symmetric] stored_Cons simp del: stored_document.simps intro!: part_Cons)
qed (auto simp: stored_Cons)

text \<open>Nothing but redactions is left at the path, and that stays so in every part.\<close>

abbreviation only_null :: "jsany list \<Rightarrow> bool" where
  "only_null vs \<equiv> set vs \<subseteq> {VNull}"

lemma slot_update: "slot_at (xs[i := Some v]) j = (if j = i \<and> i < length xs then Some v else slot_at xs j)"
  by (auto simp: slot_at_def)

lemma exclude_gone:
  "stored_document (VObj fs) \<Longrightarrow> p \<noteq> [] \<Longrightarrow> only_null (reaches (VObj (applyExcludePath fs p)) p)"
  "stored_document (VArr ts) \<Longrightarrow> p \<noteq> [] \<Longrightarrow> only_null (reaches (VArr (applyExcludeFromArray ts p)) p)"
  "stored_document (VArr ts) \<Longrightarrow> p \<noteq> [] \<Longrightarrow> x \<in> set (exclude_each ts p) \<Longrightarrow> only_null (item_reaches p x)"
proof (induction fs p and ts p and ts p arbitrary: and and x rule: applyExcludePath_applyExcludeFromArray_exclude_each.induct)
  case (2 target segment rest)
  show ?case
  proof (cases "mget target segment")
    case (Some child)
    note stored = stored_entry [OF "2.prems"(1) Some]
    show ?thesis
    proof (cases "rest = []")
      case False
      then obtain s r where rest: "rest = s # r" by (cases rest) auto
      show ?thesis
      proof (cases child)
        case (VArr xs)
        with "2.IH"(1) [OF Some False VArr] stored Some False show ?thesis by simp
      next
        case (VObj ps)
        with "2.IH"(2) [OF Some False VObj] stored Some False show ?thesis by simp
      qed (use Some rest stored in \<open>simp_all add: reaches_atom\<close>)
    qed (simp add: Some)
  qed simp
next
  case (4 target segment rest)
  show ?case
  proof (cases "array_index segment")
    case index: (Some index)
    show ?thesis
    proof (cases "slot_at target index")
      case None
      then show ?thesis by (simp add: index reaches_index)
    next
      case (Some child)
      note stored = stored_slot [OF "4.prems"(1) Some]
      have at: "index < length target" using Some by (simp add: slot_at_nth)
      show ?thesis
      proof (cases "rest = []")
        case False
        then obtain s r where rest: "rest = s # r" by (cases rest) auto
        show ?thesis
        proof (cases child)
          case (VArr xs)
          with "4.IH"(2) [OF index Some False VArr] stored Some False index at show ?thesis
            by (simp add: reaches_index slot_update)
        next
          case (VObj ps)
          with "4.IH"(3) [OF index Some False VObj] stored Some False index at show ?thesis
            by (simp add: reaches_index slot_update)
        qed (use Some rest stored index in \<open>simp_all add: reaches_index reaches_atom\<close>)
      qed (simp add: Some index reaches_index slot_update at)
    qed
  next
    case None
    have "only_null (item_reaches (segment # rest) x)" if "x \<in> set (exclude_each target (segment # rest))" for x
      by (rule "4.IH"(1) [OF None "4.prems"(1) _ that]) simp
    with None show ?thesis by (simp add: reaches_items UN_subset_iff)
  qed
next
  case (7 child xs segments)
  then obtain s r where segments: "segments = s # r" by (cases segments) auto
  have stored: "stored_document child" "stored_document (VArr xs)"
    using "7.prems"(1) by (auto simp: stored_Cons)
  show ?case
  proof (cases "x \<in> set (exclude_each xs segments)")
    case True
    with "7.IH"(3) [OF stored(2) "7.prems"(2)] show ?thesis by simp
  next
    case False
    with "7.prems"(3) have x: "x = Some (case child of VArr ys \<Rightarrow> VArr (applyExcludeFromArray ys segments)
        | VObj ps \<Rightarrow> VObj (applyExcludePath ps segments) | _ \<Rightarrow> child)" by simp
    show ?thesis
      using "7.IH"(1,2) stored(1) "7.prems"(2)
      by (cases child) (simp_all add: x segments reaches_atom)
  qed
qed auto

lemma gone_in_part: "part t v \<Longrightarrow> only_null (reaches v p) \<Longrightarrow> only_null (reaches t p)"
proof (induction t v arbitrary: p rule: part.induct)
  case (part_object ts ps)
  show ?case
  proof (cases p)
    case (Cons s r)
    show ?thesis
    proof (cases "mget ts s")
      case (Some t)
      then obtain v where v: "mget ps s = Some v" "only_null (reaches v r) \<Longrightarrow> only_null (reaches t r)"
        using part_object.IH [OF Some] by blast
      with part_object.prems Some show ?thesis by (simp add: Cons)
    qed (simp add: Cons)
  qed (use part_object.prems in simp)
next
  case (part_array ts xs)
  have item: "only_null (item_reaches q (ts ! i))" if i: "i < length xs" and nulls: "only_null (item_reaches q (xs ! i))" for q i
  proof -
    obtain t v where tv: "ts ! i = Some t" "xs ! i = Some v" "t = VNull \<or> (part t v \<and> (\<forall>p. only_null (reaches v p) \<longrightarrow> only_null (reaches t p)))"
      using part_array.IH [OF i] by blast
    show ?thesis
    proof (cases "t = VNull")
      case True
      with tv show ?thesis by (cases q) simp_all
    next
      case False
      with tv nulls show ?thesis by auto
    qed
  qed
  show ?case
  proof (cases p)
    case (Cons s r)
    show ?thesis
    proof (cases "array_index s")
      case (Some j)
      with part_array.prems item [of j r] part_array.hyps show ?thesis
        by (auto simp: Cons reaches_index slot_at_def split: if_splits)
    next
      case None
      have "only_null (item_reaches p x)" if x: "x \<in> set ts" for x
      proof -
        obtain i where i: "i < length xs" "x = ts ! i" using x part_array.hyps by (auto simp: in_set_conv_nth)
        have "only_null (item_reaches p (xs ! i))"
          using part_array.prems nth_mem [OF i(1)] None by (auto simp: Cons reaches_items)
        with item i show ?thesis by simp
      qed
      with None Cons show ?thesis by (simp add: reaches_items UN_subset_iff)
    qed
  qed (use part_array.prems in simp)
qed

text \<open>A value that the path does not cover is kept.\<close>

lemma exclude_keeps:
  "read_at (VObj fs) q = Some x \<Longrightarrow> leaf_value x \<Longrightarrow> \<not> covers p q \<Longrightarrow> read_at (VObj (applyExcludePath fs p)) q = Some x"
  "read_at (VArr ts) q = Some x \<Longrightarrow> leaf_value x \<Longrightarrow> \<not> covers p q \<Longrightarrow> read_at (VArr (applyExcludeFromArray ts p)) q = Some x"
  "read_at (VArr ts) q = Some x \<Longrightarrow> leaf_value x \<Longrightarrow> p \<noteq> [] \<Longrightarrow> array_index (hd p) = None \<Longrightarrow> \<not> covers p q \<Longrightarrow>
     read_at (VArr (exclude_each ts p)) q = Some x"
proof (induction fs p and ts p and ts p arbitrary: q and q and q rule: applyExcludePath_applyExcludeFromArray_exclude_each.induct)
  case (2 target segment rest)
  then obtain k r where q: "q = Key k # r"
    by (cases "(VObj target, q)" rule: read_at.cases) auto
  show ?case
  proof (cases "mget target segment")
    case (Some child)
    show ?thesis
    proof (cases "k = segment")
      case True
      with "2.prems" Some have child: "read_at child r = Some x" "rest \<noteq> []" "\<not> covers rest r" by (auto simp: q)
      with "2.IH"(1) [OF Some child(2)] "2.IH"(2) [OF Some child(2)] "2.prems"(2) show ?thesis
        by (cases child) (simp_all add: Some True q)
    next
      case False
      with "2.prems" Some show ?thesis by (cases child) (simp_all add: q)
    qed
  qed (use "2.prems" in simp)
next
  case (4 target segment rest)
  then obtain k r where q: "q = Idx k # r"
    by (cases "(VArr target, q)" rule: read_at.cases) auto
  show ?case
  proof (cases "array_index segment")
    case index: (Some index)
    show ?thesis
    proof (cases "slot_at target index")
      case (Some child)
      then have at: "index < length target" by (simp add: slot_at_nth)
      show ?thesis
      proof (cases "k = index")
        case True
        with "4.prems" Some index have child: "read_at child r = Some x" "rest \<noteq> []" "\<not> covers rest r" by (auto simp: q)
        with "4.IH"(2) [OF index Some child(2)] "4.IH"(3) [OF index Some child(2)] "4.prems"(2) at show ?thesis
          by (cases child) (simp_all add: Some True q index slot_update)
      next
        case False
        with "4.prems" Some index at show ?thesis by (cases child) (simp_all add: q slot_update)
      qed
    qed (use "4.prems" index in simp)
  next
    case None
    with "4.IH"(1) [OF None "4.prems"(1,2)] "4.prems"(3) show ?thesis by simp
  qed
next
  case (6 xs segments)
  then obtain k r where q: "q = Idx k # r"
    by (cases "(VArr (None # xs), q)" rule: read_at.cases) auto
  obtain s p where p: "segments = s # p" using "6.prems"(3) by (cases segments) auto
  from q "6.prems" obtain j where j: "k = Suc j" by (cases k) (auto simp: slot_at_def)
  with "6.IH" [of "Idx j # r"] "6.prems" show ?case by (auto simp: q slot_at_def p split: option.splits if_splits)
next
  case (7 child xs segments)
  then obtain k r where q: "q = Idx k # r"
    by (cases "(VArr (Some child # xs), q)" rule: read_at.cases) auto
  obtain s p where p: "segments = s # p" using "7.prems"(3) by (cases segments) auto
  show ?case
  proof (cases k)
    case 0
    with "7.prems" have child: "read_at child r = Some x" "\<not> covers segments r" by (auto simp: q p slot_at_def)
    with "7.IH"(1,2) "7.prems"(2) show ?thesis by (cases child) (simp_all add: 0 q slot_at_def)
  next
    case (Suc j)
    with "7.IH"(3) [of "Idx j # r"] "7.prems" show ?thesis by (auto simp: q slot_at_def p split: option.splits if_splits)
  qed
qed auto

section \<open>Properties\<close>

lemma cloned_stored: "stored_document (VObj ps) \<Longrightarrow> cloned_entries ps = ps"
  by (auto simp: cloned_entries_def list_all_iff clone_stored intro!: map_idI)

lemma segments_ne: "segments_of f \<noteq> []"
  by simp

lemma include_paths:
  fixes fs :: "string list"
  assumes "stored_document (VObj doc)" "part (VObj out) (VObj doc)"
  defines "result \<equiv> foldl (\<lambda>out field. applyIncludePath out doc (segments_of field)) out fs"
  shows "part (VObj result) (VObj doc) \<and> part (VObj out) (VObj result) \<and>
    (\<forall>f \<in> set fs. holds (VObj result) (VObj doc) (segments_of f)) \<and>
    (\<forall>q x. read_at (VObj result) q = Some x \<longrightarrow> leaf_value x \<longrightarrow>
       read_at (VObj out) q = Some x \<or> (\<exists>f \<in> set fs. covers (segments_of f) q))"
  using assms(2) unfolding result_def
proof (induction fs arbitrary: out)
  case (Cons f fs)
  define next_out where "next_out = applyIncludePath out doc (segments_of f)"
  have step: "part (VObj next_out) (VObj doc)" "part (VObj out) (VObj next_out)" "holds (VObj next_out) (VObj doc) (segments_of f)"
    using include_part(1) [OF assms(1) Cons.prems] include_holds(1) [OF assms(1) Cons.prems segments_ne] by (auto simp: next_out_def)
  let ?final = "foldl (\<lambda>out field. applyIncludePath out doc (segments_of field)) next_out fs"
  note ih = Cons.IH [OF step(1)]
  have "holds (VObj ?final) (VObj doc) (segments_of f)"
    using holds_mono [OF conjunct1 [OF ih] _ step(3)] ih by blast
  moreover have "read_at (VObj out) q = Some x \<or> (\<exists>g \<in> set (f # fs). covers (segments_of g) q)"
    if "read_at (VObj ?final) q = Some x" "leaf_value x" for q x
  proof -
    have "read_at (VObj next_out) q = Some x \<or> (\<exists>g \<in> set fs. covers (segments_of g) q)" using ih that by blast
    then show ?thesis using include_leak(1) [of out doc "segments_of f" q x, folded next_out_def] that(2) by auto
  qed
  moreover have "part (VObj out) (VObj ?final)" using ih part_trans [OF step(2)] by blast
  ultimately show ?case
    using ih unfolding foldl_Cons next_out_def [symmetric] by (auto simp del: split_on.simps)
qed auto

text \<open>C31: An including projection of a stored record is a part of it, holds in full every value of each included
  path, and shows no value but those that an included path, or the identifier that is not switched off, leads to.\<close>

theorem included_fields_exact:
  assumes "stored_document (VObj doc)" "pj_include p"
  shows "let out = VObj (applyProjection doc (Some p)) in part out (VObj doc) \<and>
    (\<forall>f \<in> set (included_paths p). holds out (VObj doc) (segments_of f)) \<and>
    (\<forall>q x. read_at out q = Some x \<and> leaf_value x \<longrightarrow> read_at (VObj doc) q = Some x \<and>
       (\<exists>f \<in> set (included_paths p) \<union> (if pj_includeId p then {''_id''} else {}). covers (segments_of f) q))"
proof -
  define start where "start = (if pj_includeId p \<and> mget doc ''_id'' \<notin> {None, Some VUndef}
    then [(''_id'', cloneProjectedValue (the (mget doc ''_id'')))] else [])"
  have id: "start = [] \<or> (\<exists>v. pj_includeId p \<and> mget doc ''_id'' = Some v \<and> start = [(''_id'', v)])"
    using stored_entry [OF assms(1), of "''_id''"] by (auto simp: start_def clone_stored)
  then have start: "part (VObj start) (VObj doc)"
    by (auto intro!: part.part_object split: if_splits)
  have seen: "pj_includeId p \<and> covers (segments_of ''_id'') q" if "read_at (VObj start) q = Some x" "leaf_value x" for q x
  proof -
    have "segments_of ''_id'' = [''_id'']" by code_simp
    with id that show ?thesis
      by (cases "(VObj start, q)" rule: read_at.cases) (auto split: if_splits)
  qed
  have out: "applyProjection doc (Some p) =
      foldl (\<lambda>out field. applyIncludePath out doc (segments_of field)) start (included_paths p)"
    using assms(2) by (simp add: applyProjection_def start_def Let_def)
  note paths = include_paths [OF assms(1) start, of "included_paths p", folded out]
  have "read_at (VObj doc) q = Some x \<and>
      (\<exists>f \<in> set (included_paths p) \<union> (if pj_includeId p then {''_id''} else {}). covers (segments_of f) q)"
    if read: "read_at (VObj (applyProjection doc (Some p))) q = Some x" "leaf_value x" for q x
  proof -
    have "read_at (VObj start) q = Some x \<or> (\<exists>f \<in> set (included_paths p). covers (segments_of f) q)"
      using paths read by blast
    then show ?thesis
      using at_part [OF conjunct1 [OF paths] read] seen [OF _ read(2)] by (auto simp del: split_on.simps)
  qed
  with paths show ?thesis by (auto simp: Let_def simp del: split_on.simps)
qed

lemma exclude_paths:
  fixes fs :: "string list"
  assumes "stored_document (VObj out)"
  defines "result \<equiv> foldl (\<lambda>out field. applyExcludePath out (segments_of field)) out fs"
  shows "stored_document (VObj result) \<and> part (VObj result) (VObj out) \<and>
    (\<forall>f \<in> set fs. only_null (reaches (VObj result) (segments_of f))) \<and>
    (\<forall>q x. read_at (VObj out) q = Some x \<longrightarrow> leaf_value x \<longrightarrow> (\<forall>f \<in> set fs. \<not> covers (segments_of f) q) \<longrightarrow>
       read_at (VObj result) q = Some x)"
  using assms(1) unfolding result_def
proof (induction fs arbitrary: out)
  case (Cons f fs)
  define next_out where "next_out = applyExcludePath out (segments_of f)"
  have step: "stored_document (VObj next_out)" "part (VObj next_out) (VObj out)" "only_null (reaches (VObj next_out) (segments_of f))"
    using exclude_part(1) [OF Cons.prems] exclude_gone(1) [OF Cons.prems segments_ne] by (auto simp: next_out_def)
  let ?final = "foldl (\<lambda>out field. applyExcludePath out (segments_of field)) next_out fs"
  note ih = Cons.IH [OF step(1)]
  have "only_null (reaches (VObj ?final) (segments_of f))"
    using gone_in_part [OF _ step(3)] ih by blast
  moreover have "read_at (VObj out) q = Some x \<longrightarrow> leaf_value x \<longrightarrow> \<not> covers (segments_of f) q \<longrightarrow>
      read_at (VObj next_out) q = Some x" for q x
    using exclude_keeps(1) by (auto simp: next_out_def)
  moreover have "part (VObj ?final) (VObj out)" using ih part_trans step(2) by blast
  ultimately show ?case
    using ih unfolding foldl_Cons next_out_def [symmetric] by auto
qed auto

text \<open>C32: An excluding projection of a stored record is a part of it in which nothing but redactions is left at an
  excluded path; the identifier is missing when it is switched off; every value that no excluded path leads to is
  kept.\<close>

theorem excluded_fields_gone:
  assumes "stored_document (VObj doc)" "\<not> pj_include p"
  shows "let out = VObj (applyProjection doc (Some p)) in part out (VObj doc) \<and>
    (\<forall>f \<in> set (excluded_paths p). set (reaches out (segments_of f)) \<subseteq> {VNull}) \<and>
    (\<not> pj_includeId p \<longrightarrow> reaches out [''_id''] = []) \<and>
    (\<forall>q x. read_at (VObj doc) q = Some x \<and> leaf_value x \<and>
       (\<forall>f \<in> set (excluded_paths p) \<union> (if pj_includeId p then {} else {''_id''}). \<not> covers (segments_of f) q) \<longrightarrow>
       read_at out q = Some x)"
proof -
  define mid where "mid = foldl (\<lambda>out field. applyExcludePath out (segments_of field)) doc (excluded_paths p)"
  have out: "applyProjection doc (Some p) = (if pj_includeId p then mid else mdel ''_id'' mid)"
    using assms(2) by (simp add: applyProjection_def mid_def Let_def cloned_stored [OF assms(1)])
  note paths = exclude_paths [OF assms(1), of "excluded_paths p", folded mid_def]
  have less: "part (VObj (applyProjection doc (Some p))) (VObj mid)"
    using part_mdel by (simp add: out)
  have id: "segments_of ''_id'' = [''_id'']" by code_simp
  have keep: "read_at (VObj (applyProjection doc (Some p))) q = Some x"
    if "read_at (VObj mid) q = Some x" "leaf_value x" "\<not> pj_includeId p \<longrightarrow> \<not> covers [''_id''] q" for q x
    using that by (cases "(VObj mid, q)" rule: read_at.cases) (auto simp: out split: option.splits)
  have kept: "read_at (VObj (applyProjection doc (Some p))) q = Some x"
    if "read_at (VObj doc) q = Some x" "leaf_value x"
      "\<forall>f \<in> set (excluded_paths p) \<union> (if pj_includeId p then {} else {''_id''}). \<not> covers (segments_of f) q" for q x
  proof (rule keep)
    show "read_at (VObj mid) q = Some x" using paths that by blast
    show "\<not> pj_includeId p \<longrightarrow> \<not> covers [''_id''] q" using that(3) id by (auto simp del: split_on.simps)
  qed (fact that)
  have gone: "only_null (reaches (VObj (applyProjection doc (Some p))) (segments_of f))" if "f \<in> set (excluded_paths p)" for f
    using gone_in_part [OF less] paths that by blast
  have "\<not> pj_includeId p \<longrightarrow> reaches (VObj (applyProjection doc (Some p))) [''_id''] = []" by (simp add: out)
  moreover have "part (VObj (applyProjection doc (Some p))) (VObj doc)" using less paths part_trans by blast
  ultimately show ?thesis
    unfolding Let_def using gone kept by blast
qed

definition demo_record :: "(string \<times> jsany) list" where
  "demo_record = [(''_id'', VStr ''a''), (''user'', VObj [(''name'', VStr ''Ada''), (''mail'', VStr ''x'')]),
     (''tags'', VArr [Some (VObj [(''k'', VNum (of_integer 1)), (''v'', VBool True)]), Some (VObj [(''v'', VNull)])])]"

definition demo_including :: normalized_projection where
  "demo_including = \<lparr>pj_include = True, pj_fields = [(''user.name'', True), (''tags.k'', True)], pj_includeId = True\<rparr>"

definition demo_excluding :: normalized_projection where
  "demo_excluding = \<lparr>pj_include = False, pj_fields = [(''_id'', False), (''user.mail'', False), (''tags.1'', False)], pj_includeId = False\<rparr>"

lemma demo_projections:
  "normalizeProjection (TextProjection ''user.name tags.k'') = Inr (Some demo_including)"
  "normalizeProjection (TextProjection ''-_id -user.mail -tags.1'') = Inr (Some demo_excluding)"
  "applyProjection demo_record (Some demo_including) =
     [(''_id'', VStr ''a''), (''user'', VObj [(''name'', VStr ''Ada'')]),
      (''tags'', VArr [Some (VObj [(''k'', VNum (of_integer 1))]), Some VNull])]"
  "applyProjection demo_record (Some demo_excluding) =
     [(''user'', VObj [(''name'', VStr ''Ada'')]),
      (''tags'', VArr [Some (VObj [(''k'', VNum (of_integer 1)), (''v'', VBool True)]), Some VNull])]"
  by code_simp+

theorem included_fields_exact_witness:
  "stored_document (VObj demo_record) \<and> pj_include demo_including \<and>
   holds (VObj (applyProjection demo_record (Some demo_including))) (VObj demo_record) [''user'', ''name'']"
proof -
  have d: "stored_document (VObj demo_record)" by code_simp
  have i: "pj_include demo_including" by (simp add: demo_including_def)
  have "''user.name'' \<in> set (included_paths demo_including)" "segments_of ''user.name'' = [''user'', ''name'']" by code_simp+
  with included_fields_exact [OF d i] d i show ?thesis by (metis (no_types, lifting))
qed

theorem excluded_fields_gone_witness:
  "stored_document (VObj demo_record) \<and> \<not> pj_include demo_excluding \<and>
   set (reaches (VObj (applyProjection demo_record (Some demo_excluding))) [''tags'', ''1'']) \<subseteq> {VNull}"
proof -
  have d: "stored_document (VObj demo_record)" by code_simp
  have i: "\<not> pj_include demo_excluding" by (simp add: demo_excluding_def)
  have "''tags.1'' \<in> set (excluded_paths demo_excluding)" "segments_of ''tags.1'' = [''tags'', ''1'']" by code_simp+
  with excluded_fields_gone [OF d i] d i show ?thesis by (metis (no_types, lifting))
qed

end
