(* ===== verification/FrameJson.thy ===== *)
theory FrameJson
  imports JsValue
begin

text \<open>
  JSON values of the data frames, json.ts of packages/json-frame: the copy of an input and the check of an
  exported payload, both by one iterative traversal with an explicit stack, a depth limit and a budget of nodes.

  A container that is being filled sits on the stack while its slot in the parent is empty: the code stores a
  reference in the parent first and fills it later, the model puts the finished container into that slot, the last
  one of the parent. Values are finite, so the set of ancestors has no counterpart. Errors carry no path.
\<close>

datatype json_error = NumberNotFinite | NotJsonValue | TooDeepInput | SparseArray | NotPlainInput | OverBudget

definition JSON_FRAME_MAX_DEPTH :: nat where
  "JSON_FRAME_MAX_DEPTH = 1000"

section \<open>The traversal\<close>

definition charge :: "nat option \<Rightarrow> json_error + nat option" where
  "charge remaining =
     (case remaining of
        None \<Rightarrow> Inr None
      | Some n \<Rightarrow> if n = 0 then Inl OverBudget else Inr (Some (n - 1)))"

definition cloneScalar :: "jsany \<Rightarrow> json_error + jsval option" where
  "cloneScalar v =
     (case v of
        VNull \<Rightarrow> Inr (Some JNull)
      | VStr s \<Rightarrow> Inr (Some (JStr s))
      | VBool b \<Rightarrow> Inr (Some (JBool b))
      | VNum x \<Rightarrow> if is_finite x then Inr (Some (JNum x)) else Inl NumberNotFinite
      | VUndef \<Rightarrow> Inl NotJsonValue
      | VFun _ \<Rightarrow> Inl NotJsonValue
      | VBigInt _ \<Rightarrow> Inl NotJsonValue
      | _ \<Rightarrow> Inr None)"

text \<open>What is left of the source, what was copied so far, the depth.\<close>

datatype clone_frame =
    ArrFrame "jsany option list" "jsval list" nat
  | ObjFrame "(string \<times> jsany) list" "(string \<times> jsval) list" nat

definition open_frame :: "jsany \<Rightarrow> nat \<Rightarrow> json_error + clone_frame" where
  "open_frame src depth =
     (if depth > JSON_FRAME_MAX_DEPTH then Inl TooDeepInput
      else (case src of
              VArr xs \<Rightarrow> Inr (ArrFrame xs [] depth)
            | VObj ps \<Rightarrow> Inr (ObjFrame ps [] depth)
            | _ \<Rightarrow> Inl NotPlainInput))"

definition createFrame :: "jsany \<Rightarrow> nat \<Rightarrow> nat option \<Rightarrow> json_error + nat option \<times> (jsval + clone_frame)" where
  "createFrame src depth remaining =
     andthen (charge remaining) (\<lambda>left.
     andthen (cloneScalar src) (\<lambda>scalar.
       case scalar of
         Some v \<Rightarrow> Inr (left, Inl v)
       | None \<Rightarrow> andthen (open_frame src depth) (\<lambda>f. Inr (left, Inr f))))"

fun deliver :: "jsval \<Rightarrow> clone_frame \<Rightarrow> clone_frame" where
  "deliver v (ArrFrame xs target depth) = ArrFrame xs (butlast target @ [v]) depth"
| "deliver v (ObjFrame ps target depth) = ObjFrame ps (butlast target @ [(fst (last target), v)]) depth"

text \<open>The nodes that are left below a frame.\<close>

fun node_count :: "jsany \<Rightarrow> nat" and item_nodes :: "jsany option list \<Rightarrow> nat" and entry_nodes :: "(string \<times> jsany) list \<Rightarrow> nat"
where
  "node_count (VArr xs) = Suc (item_nodes xs)"
| "node_count (VObj ps) = Suc (entry_nodes ps)"
| "node_count v = 1"
| "item_nodes [] = 0"
| "item_nodes (None # xs) = item_nodes xs"
| "item_nodes (Some x # xs) = node_count x + item_nodes xs"
| "entry_nodes [] = 0"
| "entry_nodes ((key, x) # ps) = node_count x + entry_nodes ps"

fun frame_work :: "clone_frame \<Rightarrow> nat" where
  "frame_work (ArrFrame xs target depth) = Suc (2 * item_nodes xs)"
| "frame_work (ObjFrame ps target depth) = Suc (2 * entry_nodes ps)"

lemma node_count_pos [simp]: "0 < node_count v"
  by (cases v) simp_all

lemma deliver_work [simp]: "frame_work (deliver v f) = frame_work f"
  by (cases f) simp_all

lemma created_work: "createFrame v depth b = Inr (b', Inr f) \<Longrightarrow> frame_work f < 2 * node_count v"
  by (cases v) (auto simp: createFrame_def open_frame_def andthen_Inr split: option.splits if_splits)

text \<open>The loop, with the top frame of the stack apart.\<close>

function clone_loop :: "clone_frame \<Rightarrow> clone_frame list \<Rightarrow> nat option \<Rightarrow> json_error + jsval" where
  "clone_loop (ArrFrame [] target depth) stack b =
     (case stack of [] \<Rightarrow> Inr (JArr target) | parent # rest \<Rightarrow> clone_loop (deliver (JArr target) parent) rest b)"
| "clone_loop (ArrFrame (None # xs) target depth) stack b = Inl SparseArray"
| "clone_loop (ArrFrame (Some x # xs) target depth) stack b =
     (case createFrame x (depth + 1) b of
        Inl e \<Rightarrow> Inl e
      | Inr (b', Inl v) \<Rightarrow> clone_loop (ArrFrame xs (target @ [v]) depth) stack b'
      | Inr (b', Inr f) \<Rightarrow> clone_loop f (ArrFrame xs (target @ [JNull]) depth # stack) b')"
| "clone_loop (ObjFrame [] target depth) stack b =
     (case stack of [] \<Rightarrow> Inr (JObj target) | parent # rest \<Rightarrow> clone_loop (deliver (JObj target) parent) rest b)"
| "clone_loop (ObjFrame ((key, x) # ps) target depth) stack b =
     (case createFrame x (depth + 1) b of
        Inl e \<Rightarrow> Inl e
      | Inr (b', Inl v) \<Rightarrow> clone_loop (ObjFrame ps (target @ [(key, v)]) depth) stack b'
      | Inr (b', Inr f) \<Rightarrow> clone_loop f (ObjFrame ps (target @ [(key, JNull)]) depth # stack) b')"
  by pat_completeness auto

termination
  by (relation "measure (\<lambda>(f, stack, b). frame_work f + sum_list (map frame_work stack))") (auto dest: created_work)

definition cloneJsonCompatible :: "jsany \<Rightarrow> nat option \<Rightarrow> json_error + jsval" where
  "cloneJsonCompatible v maxNodes =
     andthen (createFrame v 0 maxNodes) (\<lambda>(b, root). case root of Inl s \<Rightarrow> Inr s | Inr f \<Rightarrow> clone_loop f [] b)"

text \<open>The check of a payload: the same traversal without the copy.\<close>

datatype check_frame = ArrCheck "jsany option list" nat | ObjCheck "(string \<times> jsany) list" nat

fun check_of :: "clone_frame \<Rightarrow> check_frame" where
  "check_of (ArrFrame xs target depth) = ArrCheck xs depth"
| "check_of (ObjFrame ps target depth) = ObjCheck ps depth"

definition createValidateFrame :: "jsany \<Rightarrow> nat \<Rightarrow> nat option \<Rightarrow> json_error + nat option \<times> check_frame option" where
  "createValidateFrame src depth remaining =
     andthen (charge remaining) (\<lambda>left.
     andthen (cloneScalar src) (\<lambda>scalar.
       if scalar \<noteq> None then Inr (left, None)
       else if depth > JSON_FRAME_MAX_DEPTH then Inl TooDeepInput
       else (case src of
               VArr xs \<Rightarrow> Inr (left, Some (ArrCheck xs depth))
             | VObj ps \<Rightarrow> Inr (left, Some (ObjCheck ps depth))
             | _ \<Rightarrow> Inl NotPlainInput)))"

fun check_work :: "check_frame \<Rightarrow> nat" where
  "check_work (ArrCheck xs depth) = Suc (2 * item_nodes xs)"
| "check_work (ObjCheck ps depth) = Suc (2 * entry_nodes ps)"

lemma created_check: "createValidateFrame v depth b = Inr (b', Some f) \<Longrightarrow> check_work f < 2 * node_count v"
  by (cases v) (auto simp: createValidateFrame_def andthen_Inr split: option.splits if_splits)

function check_loop :: "check_frame list \<Rightarrow> nat option \<Rightarrow> json_error + unit" where
  "check_loop [] b = Inr ()"
| "check_loop (ArrCheck [] depth # stack) b = check_loop stack b"
| "check_loop (ArrCheck (None # xs) depth # stack) b = Inl SparseArray"
| "check_loop (ArrCheck (Some x # xs) depth # stack) b =
     (case createValidateFrame x (depth + 1) b of
        Inl e \<Rightarrow> Inl e
      | Inr (b', None) \<Rightarrow> check_loop (ArrCheck xs depth # stack) b'
      | Inr (b', Some f) \<Rightarrow> check_loop (f # ArrCheck xs depth # stack) b')"
| "check_loop (ObjCheck [] depth # stack) b = check_loop stack b"
| "check_loop (ObjCheck ((key, x) # ps) depth # stack) b =
     (case createValidateFrame x (depth + 1) b of
        Inl e \<Rightarrow> Inl e
      | Inr (b', None) \<Rightarrow> check_loop (ObjCheck ps depth # stack) b'
      | Inr (b', Some f) \<Rightarrow> check_loop (f # ObjCheck ps depth # stack) b')"
  by pat_completeness auto

termination
  by (relation "measure (\<lambda>(stack, b). sum_list (map check_work stack))") (auto dest: created_check)

definition assertJsonCompatible :: "jsany \<Rightarrow> nat option \<Rightarrow> json_error + unit" where
  "assertJsonCompatible v maxNodes =
     andthen (createValidateFrame v 0 maxNodes) (\<lambda>(b, root). case root of None \<Rightarrow> Inr () | Some f \<Rightarrow> check_loop [f] b)"

section \<open>The recursive specification\<close>

fun json_copy :: "nat \<Rightarrow> jsany \<Rightarrow> nat option \<Rightarrow> json_error + jsval \<times> nat option"
  and copy_array :: "nat \<Rightarrow> jsany option list \<Rightarrow> nat option \<Rightarrow> json_error + jsval list \<times> nat option"
  and copy_object :: "nat \<Rightarrow> (string \<times> jsany) list \<Rightarrow> nat option \<Rightarrow> json_error + (string \<times> jsval) list \<times> nat option"
where
  "json_copy depth (VArr xs) b =
     andthen (charge b) (\<lambda>b'. if depth > JSON_FRAME_MAX_DEPTH then Inl TooDeepInput
       else andthen (copy_array (depth + 1) xs b') (\<lambda>(ys, c). Inr (JArr ys, c)))"
| "json_copy depth (VObj ps) b =
     andthen (charge b) (\<lambda>b'. if depth > JSON_FRAME_MAX_DEPTH then Inl TooDeepInput
       else andthen (copy_object (depth + 1) ps b') (\<lambda>(qs, c). Inr (JObj qs, c)))"
| "json_copy depth v b =
     andthen (charge b) (\<lambda>b'. andthen (cloneScalar v) (\<lambda>s.
       case s of Some w \<Rightarrow> Inr (w, b') | None \<Rightarrow> if depth > JSON_FRAME_MAX_DEPTH then Inl TooDeepInput else Inl NotPlainInput))"
| "copy_array depth [] b = Inr ([], b)"
| "copy_array depth (None # xs) b = Inl SparseArray"
| "copy_array depth (Some x # xs) b =
     andthen (json_copy depth x b) (\<lambda>(y, c). andthen (copy_array depth xs c) (\<lambda>(ys, c'). Inr (y # ys, c')))"
| "copy_object depth [] b = Inr ([], b)"
| "copy_object depth ((key, x) # ps) b =
     andthen (json_copy depth x b) (\<lambda>(y, c). andthen (copy_object depth ps c) (\<lambda>(qs, c'). Inr ((key, y) # qs, c')))"

text \<open>What the loop does with a finished container.\<close>

fun finish :: "clone_frame list \<Rightarrow> jsval \<Rightarrow> nat option \<Rightarrow> json_error + jsval" where
  "finish [] v b = Inr v"
| "finish (parent # rest) v b = clone_loop (deliver v parent) rest b"

lemma clone_loop_nil [simp]:
  "clone_loop (ArrFrame [] ys depth) stack b = finish stack (JArr ys) b"
  "clone_loop (ObjFrame [] qs depth) stack b = finish stack (JObj qs) b"
  by (cases stack; simp)+

declare clone_loop.simps(1,4) [simp del]

lemma clone_loop_copies:
  "(case createFrame v depth b of Inl e \<Rightarrow> json_copy depth v b = Inl e
      | Inr (b', Inl w) \<Rightarrow> json_copy depth v b = Inr (w, b')
      | Inr (b', Inr f) \<Rightarrow> \<forall>stack. clone_loop f stack b' = andthen (json_copy depth v b) (\<lambda>(w, c). finish stack w c))"
  "clone_loop (ArrFrame xs ys d) stack c = andthen (copy_array (d + 1) xs c) (\<lambda>(zs, c'). finish stack (JArr (ys @ zs)) c')"
  "clone_loop (ObjFrame ps qs d) stack c = andthen (copy_object (d + 1) ps c) (\<lambda>(rs, c'). finish stack (JObj (qs @ rs)) c')"
proof (induction v and xs and ps arbitrary: depth b and ys d stack c and qs d stack c
    rule: node_count_item_nodes_entry_nodes.induct)
  case (1 xs)
  then show ?case
    by (cases "charge b") (auto simp: createFrame_def cloneScalar_def open_frame_def andthen_def split_def split: sum.splits)
next
  case (2 ps)
  then show ?case
    by (cases "charge b") (auto simp: createFrame_def cloneScalar_def open_frame_def andthen_def split_def split: sum.splits)
next
  case (6 x xs)
  show ?case
  proof (cases "createFrame x (d + 1) c")
    case (Inl e)
    with 6(1) [of "d + 1" c] show ?thesis by simp
  next
    case (Inr r)
    obtain b' t where r: "r = (b', t)" by (cases r)
    show ?thesis
    proof (cases t)
      case (Inl w)
      with Inr r 6(1) [of "d + 1" c] 6(2) [of "ys @ [w]" d stack b'] show ?thesis
        by (simp add: andthen_def split_def split: sum.splits)
    next
      case (Inr f)
      with \<open>createFrame x (d + 1) c = Inr r\<close> r 6(1) [of "d + 1" c] 6(2) show ?thesis
        by (auto simp: andthen_def split_def split: sum.splits)
    qed
  qed
next
  case (8 key x ps)
  show ?case
  proof (cases "createFrame x (d + 1) c")
    case (Inl e)
    with 8(1) [of "d + 1" c] show ?thesis by simp
  next
    case (Inr r)
    obtain b' t where r: "r = (b', t)" by (cases r)
    show ?thesis
    proof (cases t)
      case (Inl w)
      with Inr r 8(1) [of "d + 1" c] 8(2) [of "qs @ [(key, w)]" d stack b'] show ?thesis
        by (simp add: andthen_def split_def split: sum.splits)
    next
      case (Inr f)
      with \<open>createFrame x (d + 1) c = Inr r\<close> r 8(1) [of "d + 1" c] 8(2) show ?thesis
        by (auto simp: andthen_def split_def split: sum.splits)
    qed
  qed
qed (auto simp: createFrame_def cloneScalar_def open_frame_def andthen_def split: sum.splits if_splits)

lemma check_loop_copies:
  "(case createValidateFrame v depth b of Inl e \<Rightarrow> json_copy depth v b = Inl e
      | Inr (b', None) \<Rightarrow> \<exists>w. json_copy depth v b = Inr (w, b')
      | Inr (b', Some f) \<Rightarrow> \<forall>stack. check_loop (f # stack) b' = andthen (json_copy depth v b) (\<lambda>(w, c). check_loop stack c))"
  "check_loop (ArrCheck xs d # stack) c = andthen (copy_array (d + 1) xs c) (\<lambda>(zs, c'). check_loop stack c')"
  "check_loop (ObjCheck ps d # stack) c = andthen (copy_object (d + 1) ps c) (\<lambda>(rs, c'). check_loop stack c')"
proof (induction v and xs and ps arbitrary: depth b and d stack c and d stack c
    rule: node_count_item_nodes_entry_nodes.induct)
  case (1 xs)
  then show ?case
    by (cases "charge b") (auto simp: createValidateFrame_def cloneScalar_def andthen_def split_def split: sum.splits)
next
  case (2 ps)
  then show ?case
    by (cases "charge b") (auto simp: createValidateFrame_def cloneScalar_def andthen_def split_def split: sum.splits)
next
  case (6 x xs)
  show ?case
  proof (cases "createValidateFrame x (d + 1) c")
    case (Inl e)
    with 6(1) [of "d + 1" c] show ?thesis by simp
  next
    case (Inr r)
    obtain b' t where r: "r = (b', t)" by (cases r)
    with Inr 6(1) [of "d + 1" c] 6(2) show ?thesis
      by (cases t) (auto simp: andthen_def split_def split: sum.splits)
  qed
next
  case (8 key x ps)
  show ?case
  proof (cases "createValidateFrame x (d + 1) c")
    case (Inl e)
    with 8(1) [of "d + 1" c] show ?thesis by simp
  next
    case (Inr r)
    obtain b' t where r: "r = (b', t)" by (cases r)
    with Inr 8(1) [of "d + 1" c] 8(2) show ?thesis
      by (cases t) (auto simp: andthen_def split_def split: sum.splits)
  qed
qed (auto simp: createValidateFrame_def cloneScalar_def andthen_def split: sum.splits if_splits)

text \<open>The values that are JSON, and the value they are copied to.\<close>

fun json_ok :: "jsany \<Rightarrow> bool" and items_ok :: "jsany option list \<Rightarrow> bool" and entries_ok :: "(string \<times> jsany) list \<Rightarrow> bool"
where
  "json_ok (VArr xs) = items_ok xs"
| "json_ok (VObj ps) = entries_ok ps"
| "json_ok (VNum x) = is_finite x"
| "json_ok VNull = True"
| "json_ok (VBool _) = True"
| "json_ok (VStr _) = True"
| "json_ok _ = False"
| "items_ok [] = True"
| "items_ok (None # xs) = False"
| "items_ok (Some x # xs) = (json_ok x \<and> items_ok xs)"
| "entries_ok [] = True"
| "entries_ok ((key, x) # ps) = (json_ok x \<and> entries_ok ps)"

fun json_of :: "jsany \<Rightarrow> jsval" and json_items :: "jsany option list \<Rightarrow> jsval list" and json_entries :: "(string \<times> jsany) list \<Rightarrow> (string \<times> jsval) list"
where
  "json_of (VArr xs) = JArr (json_items xs)"
| "json_of (VObj ps) = JObj (json_entries ps)"
| "json_of (VNum x) = JNum x"
| "json_of (VBool b) = JBool b"
| "json_of (VStr s) = JStr s"
| "json_of _ = JNull"
| "json_items [] = []"
| "json_items (None # xs) = JNull # json_items xs"
| "json_items (Some x # xs) = json_of x # json_items xs"
| "json_entries [] = []"
| "json_entries ((key, x) # ps) = (key, json_of x) # json_entries ps"

text \<open>A budget that pays for a number of nodes, and what is left of it.\<close>

definition pays :: "nat option \<Rightarrow> nat \<Rightarrow> nat option \<Rightarrow> bool" where
  "pays b n c \<longleftrightarrow> (case b of None \<Rightarrow> c = None | Some m \<Rightarrow> n \<le> m \<and> c = Some (m - n))"

lemma pays_simps [simp]: "pays b 0 c \<longleftrightarrow> c = b" "charge b = Inr c \<longleftrightarrow> pays b 1 c"
  by (auto simp: pays_def charge_def split: option.splits)

lemma pays_add: "(\<exists>c. pays b m c \<and> pays c n d) \<longleftrightarrow> pays b (m + n) d"
  by (cases b) (auto simp: pays_def)

lemma pays_add': "pays b m c \<Longrightarrow> pays c n d \<longleftrightarrow> pays b (m + n) d"
  by (cases b) (auto simp: pays_def)

lemma json_copy_iff:
  "depth \<le> JSON_FRAME_MAX_DEPTH + 1 \<Longrightarrow> json_copy depth v b = Inr r \<longleftrightarrow>
     json_ok v \<and> depth + depth_of v \<le> JSON_FRAME_MAX_DEPTH + 1 \<and> fst r = json_of v \<and> pays b (node_count v) (snd r)"
  "depth \<le> JSON_FRAME_MAX_DEPTH + 1 \<Longrightarrow> copy_array depth xs b = Inr rs \<longleftrightarrow>
     items_ok xs \<and> depth + items_depth xs \<le> JSON_FRAME_MAX_DEPTH + 1 \<and> fst rs = json_items xs \<and> pays b (item_nodes xs) (snd rs)"
  "depth \<le> JSON_FRAME_MAX_DEPTH + 1 \<Longrightarrow> copy_object depth ps b = Inr qs \<longleftrightarrow>
     entries_ok ps \<and> depth + entries_depth ps \<le> JSON_FRAME_MAX_DEPTH + 1 \<and> fst qs = json_entries ps \<and> pays b (entry_nodes ps) (snd qs)"
proof (induction v and xs and ps arbitrary: depth b r and depth b rs and depth b qs
    rule: node_count_item_nodes_entry_nodes.induct)
  case (1 xs)
  then show ?case
    using pays_add [of b 1 "item_nodes xs" "snd r"] by (cases r) (auto simp: andthen_Inr split_def if_Inl_Inr)
next
  case (2 ps)
  then show ?case
    using pays_add [of b 1 "entry_nodes ps" "snd r"] by (cases r) (auto simp: andthen_Inr split_def if_Inl_Inr)
next
  case (6 x xs)
  then show ?case
    using pays_add [of b "node_count x" "item_nodes xs" "snd rs"] by (cases rs) (auto simp: andthen_Inr split_def)
next
  case (8 key x ps)
  then show ?case
    using pays_add [of b "node_count x" "entry_nodes ps" "snd qs"] by (cases qs) (auto simp: andthen_Inr split_def)
qed (auto simp: andthen_Inr cloneScalar_def split: if_splits)

section \<open>Properties\<close>

text \<open>C35: The iterative copy is the recursive one, with its errors, and the check of a payload is the copy without
  its result; a value is copied exactly when it is JSON, its containers nest within the limit, and the budget pays
  for every node, and then the copy is the value.\<close>

theorem json_traversal_exact:
  "cloneJsonCompatible v m = andthen (json_copy 0 v m) (\<lambda>(w, b). Inr w) \<and>
   assertJsonCompatible v m = andthen (cloneJsonCompatible v m) (\<lambda>w. Inr ()) \<and>
   (cloneJsonCompatible v m = Inr w \<longleftrightarrow>
      json_ok v \<and> depth_of v \<le> JSON_FRAME_MAX_DEPTH + 1 \<and> (\<forall>n. m = Some n \<longrightarrow> node_count v \<le> n) \<and> w = json_of v)"
proof -
  have copy: "cloneJsonCompatible v m = andthen (json_copy 0 v m) (\<lambda>(w, b). Inr w)"
    using clone_loop_copies(1) [where v = v and depth = 0 and b = m]
    by (auto simp: cloneJsonCompatible_def andthen_def split: sum.splits prod.splits)
  moreover have "assertJsonCompatible v m = andthen (json_copy 0 v m) (\<lambda>(w, b). Inr ())"
    using check_loop_copies(1) [where v = v and depth = 0 and b = m]
    by (auto simp: assertJsonCompatible_def andthen_def split: sum.splits prod.splits option.splits)
  moreover have "andthen (json_copy 0 v m) (\<lambda>(w, b). Inr w) = Inr w \<longleftrightarrow>
      json_ok v \<and> depth_of v \<le> JSON_FRAME_MAX_DEPTH + 1 \<and> (\<forall>n. m = Some n \<longrightarrow> node_count v \<le> n) \<and> w = json_of v"
    using json_copy_iff(1) [where v = v and depth = 0 and b = m] by (cases m) (auto simp: andthen_Inr pays_def)
  ultimately show ?thesis by (simp add: andthen_def split: sum.splits)
qed

theorem json_traversal_exact_witness:
  "cloneJsonCompatible (VObj [(''a'', VArr [Some (VNum (of_integer 1)), Some VNull])]) (Some 4) =
     Inr (JObj [(''a'', JArr [jint 1, JNull])])"
  by (rule iffD2 [OF conjunct2 [OF conjunct2 [OF json_traversal_exact]]]) (simp add: JSON_FRAME_MAX_DEPTH_def)

end
