(* ===== verification/FrameParse.thy ===== *)
theory FrameParse
  imports FrameJson JsText
begin

text \<open>
  Parsing of the data frames, parse.ts of packages/json-frame: the orientation of a payload and its columns. The
  payload is a JSON value that cloneJsonCompatible returned, so its objects are their entries in the order of
  \<open>Object.keys\<close> and their keys are distinct. The frozen copy that the code makes of a table schema is the schema itself. Errors carry no
  path and no value.
\<close>

datatype orient = Records | Index | Columns | Values | Split | Table

datatype index_label = LText string | LNumber jsnum

datatype frame_error =
    Ambiguous | NotRowList | NotArrayOrObject | UnknownOrient | NotAnArray | RowNotObject | NotAnObject
  | ColumnNotObject | DifferentKeys | ColumnsRequired | RowNotArray | RowWidth | LabelNotText | DuplicateColumn
  | BadIndexLabel | BadColumns | BadData | BadIndex | IndexLength | MissingColumn | UnknownColumnType | BadCell
  | BadSchema | BadSchemaField | BadConstraints | DuplicateField | BadPrimaryKey | MultiIndex | UnknownField
  | MissingPrimaryKey | DuplicatePrimaryKey
  | BadOption | KeyCollision | BadJson json_error
  | BadText | MissingInfo | BadPosition | UnknownColumn | RepeatedColumn | BadMapping | IndexFieldCollides | RepeatedLabel

type_synonym columns_data = "(string, jsval list) jsmap"

record parsed_frame =
  pf_columns :: "string list"
  pf_index :: "index_label list"
  pf_source :: bool
  pf_data :: columns_data
  pf_schema :: "jsval option"
  pf_indexField :: "string option"

fun is_object :: "jsval \<Rightarrow> bool" where
  "is_object (JObj _) = True"
| "is_object _ = False"

fun is_arr :: "jsval \<Rightarrow> bool" where
  "is_arr (JArr _) = True"
| "is_arr _ = False"

text \<open>A row number as a label.\<close>

abbreviation position_label :: "nat \<Rightarrow> index_label" where
  "position_label i \<equiv> LNumber (of_integer (int i))"

section \<open>Orientation\<close>

definition detectOrient :: "jsval \<Rightarrow> frame_error + orient" where
  "detectOrient value =
     (case value of
        JArr xs \<Rightarrow>
          (if xs = [] then Inl Ambiguous
           else if list_all is_arr xs then Inr Values
           else if list_all is_object xs then Inr Records
           else Inl NotRowList)
      | JObj ps \<Rightarrow>
          (if is_object (jprop value ''schema'') \<and> is_arr (jprop value ''data'') then Inr Table
           else if is_arr (jprop value ''columns'') \<and> is_arr (jprop value ''data'') \<and>
                   (jprop value ''index'' = JUndef \<or> is_arr (jprop value ''index'')) then Inr Split
           else if ps = [] \<or> list_all (\<lambda>(k, v). is_object v) ps then Inl Ambiguous
           else Inl UnknownOrient)
      | _ \<Rightarrow> Inl NotArrayOrObject)"

section \<open>Rows to columns\<close>

fun finalizeFrame :: "string list \<Rightarrow> index_label list \<Rightarrow> bool \<Rightarrow> columns_data \<Rightarrow> frame_error + parsed_frame" where
  "finalizeFrame columns index src data =
     (if list_all (\<lambda>c. mget data c \<noteq> None) columns
      then Inr \<lparr>pf_columns = columns, pf_index = index, pf_source = src, pf_data = map (\<lambda>c. (c, the (mget data c))) columns,
        pf_schema = None, pf_indexField = None\<rparr>
      else Inl MissingColumn)"

text \<open>The keys of a row that are new columns: \<open>null\<close> in the rows before.\<close>

fun add_columns :: "nat \<Rightarrow> string list \<Rightarrow> string list \<times> columns_data \<Rightarrow> string list \<times> columns_data" where
  "add_columns row [] s = s"
| "add_columns row (c # cs) (columns, data) =
     add_columns row cs (if c \<in> set columns then (columns, data) else (columns @ [c], mput c (replicate row JNull) data))"

definition cell :: "(string \<times> jsval) list \<Rightarrow> string \<Rightarrow> jsval" where
  "cell row c = (case map_of row c of Some v \<Rightarrow> v | None \<Rightarrow> JNull)"

fun push_cells :: "(string \<Rightarrow> jsval) \<Rightarrow> string list \<Rightarrow> columns_data \<Rightarrow> columns_data" where
  "push_cells value_of [] data = data"
| "push_cells value_of (c # cs) data =
     push_cells value_of cs (case mget data c of Some xs \<Rightarrow> mput c (xs @ [value_of c]) data | None \<Rightarrow> data)"

fun object_rows :: "nat \<Rightarrow> jsval list \<Rightarrow> string list \<times> columns_data \<Rightarrow> frame_error + string list \<times> columns_data" where
  "object_rows row [] s = Inr s"
| "object_rows row (value # values) s =
     (case value of
        JObj ps \<Rightarrow>
          (let (columns, data) = add_columns row (map fst ps) s
           in object_rows (Suc row) values (columns, push_cells (cell ps) columns data))
      | _ \<Rightarrow> Inl RowNotObject)"

definition parseRecords :: "jsval \<Rightarrow> frame_error + parsed_frame" where
  "parseRecords value =
     (case value of
        JArr rows \<Rightarrow>
          andthen (object_rows 0 rows ([], [])) (\<lambda>(columns, data).
          finalizeFrame columns (map position_label [0..<length rows]) False data)
      | _ \<Rightarrow> Inl NotAnArray)"

definition parseIndex :: "jsval \<Rightarrow> frame_error + parsed_frame" where
  "parseIndex value =
     (case value of
        JObj ps \<Rightarrow>
          andthen (object_rows 0 (map snd ps) ([], [])) (\<lambda>(columns, data).
          finalizeFrame columns (map (LText \<circ> fst) ps) True data)
      | _ \<Rightarrow> Inl NotAnObject)"

text \<open>The columns, each with the keys of the first one.\<close>

fun object_columns :: "string list option \<Rightarrow> (string \<times> jsval) list \<Rightarrow> columns_data \<Rightarrow> frame_error + string list option \<times> columns_data" where
  "object_columns index [] data = Inr (index, data)"
| "object_columns index ((column, value) # ps) data =
     (case value of
        JObj qs \<Rightarrow>
          (let keys = map fst qs
           in if index \<noteq> None \<and> index \<noteq> Some keys then Inl DifferentKeys
              else object_columns (Some keys) ps (mput column (map snd qs) data))
      | _ \<Rightarrow> Inl ColumnNotObject)"

definition parseColumns :: "jsval \<Rightarrow> frame_error + parsed_frame" where
  "parseColumns value =
     (case value of
        JObj ps \<Rightarrow>
          andthen (object_columns None ps []) (\<lambda>(index, data).
          finalizeFrame (map fst ps) (map LText (case index of Some keys \<Rightarrow> keys | None \<Rightarrow> [])) True data)
      | _ \<Rightarrow> Inl NotAnObject)"

definition initializeData :: "string list \<Rightarrow> columns_data" where
  "initializeData columns = foldl (\<lambda>m c. mput c [] m) [] columns"

fun array_rows :: "string list \<Rightarrow> jsval list \<Rightarrow> columns_data \<Rightarrow> frame_error + columns_data" where
  "array_rows columns [] data = Inr data"
| "array_rows columns (value # values) data =
     (case value of
        JArr xs \<Rightarrow>
          (if length xs \<noteq> length columns then Inl RowWidth
           else array_rows columns values
             (foldl (\<lambda>m (c, v). case mget m c of Some ys \<Rightarrow> mput c (ys @ [v]) m | None \<Rightarrow> m) data (zip columns xs)))
      | _ \<Rightarrow> Inl RowNotArray)"

definition parseValues :: "jsval \<Rightarrow> string list option \<Rightarrow> frame_error + parsed_frame" where
  "parseValues value option_columns =
     (case option_columns of
        None \<Rightarrow> Inl ColumnsRequired
      | Some columns \<Rightarrow>
          (case value of
             JArr rows \<Rightarrow>
               andthen (array_rows columns rows (initializeData columns)) (\<lambda>data.
               finalizeFrame columns (map position_label [0..<length rows]) False data)
           | _ \<Rightarrow> Inl NotAnArray))"

fun assertUniqueStringColumns :: "jsval list \<Rightarrow> string list \<Rightarrow> frame_error + string list" where
  "assertUniqueStringColumns [] columns = Inr columns"
| "assertUniqueStringColumns (value # values) columns =
     (case value of
        JStr s \<Rightarrow> (if s \<in> set columns then Inl DuplicateColumn else assertUniqueStringColumns values (columns @ [s]))
      | _ \<Rightarrow> Inl LabelNotText)"

definition assertSupportedIndexLabel :: "jsval \<Rightarrow> frame_error + index_label" where
  "assertSupportedIndexLabel value =
     (case value of
        JStr s \<Rightarrow> Inr (LText s)
      | JNum x \<Rightarrow> if is_finite x then Inr (LNumber x) else Inl BadIndexLabel
      | _ \<Rightarrow> Inl BadIndexLabel)"

fun index_labels :: "jsval list \<Rightarrow> frame_error + index_label list" where
  "index_labels [] = Inr []"
| "index_labels (v # vs) = andthen (assertSupportedIndexLabel v) (\<lambda>l. andthen (index_labels vs) (\<lambda>ls. Inr (l # ls)))"

definition parseSplit :: "jsval \<Rightarrow> frame_error + parsed_frame" where
  "parseSplit value =
     (if \<not> is_object value then Inl NotAnObject
      else (case (jprop value ''columns'', jprop value ''data'') of
              (JArr cs, JArr rows) \<Rightarrow>
                andthen (assertUniqueStringColumns cs []) (\<lambda>columns.
                andthen (case jprop value ''index'' of
                           JUndef \<Rightarrow> Inr None
                         | JArr ls \<Rightarrow> map_sum id Some (index_labels ls)
                         | _ \<Rightarrow> Inl BadIndex) (\<lambda>labels.
                andthen (guard IndexLength (case labels of Some ls \<Rightarrow> length ls = length rows | None \<Rightarrow> True)) (\<lambda>_.
                andthen (array_rows columns rows (initializeData columns)) (\<lambda>data.
                finalizeFrame columns (case labels of Some ls \<Rightarrow> ls | None \<Rightarrow> map position_label [0..<length rows])
                  (labels \<noteq> None) data))))
            | (JArr _, _) \<Rightarrow> Inl BadData
            | _ \<Rightarrow> Inl BadColumns))"

section \<open>Tables\<close>

fun scalar_json :: "jsval \<Rightarrow> bool" where
  "scalar_json JNull = True"
| "scalar_json (JStr _) = True"
| "scalar_json (JBool _) = True"
| "scalar_json (JNum x) = is_finite x"
| "scalar_json _ = False"

definition cloneConstraints :: "jsval \<Rightarrow> frame_error + unit" where
  "cloneConstraints value =
     (case value of
        JObj ps \<Rightarrow> guard BadConstraints (list_all (\<lambda>(k, v). k = ''enum'' \<longrightarrow> (case v of JArr xs \<Rightarrow> list_all scalar_json xs | _ \<Rightarrow> False)) ps)
      | _ \<Rightarrow> Inl BadConstraints)"

text \<open>The name of a valid field.\<close>

definition cloneTableField :: "jsval \<Rightarrow> frame_error + string" where
  "cloneTableField value =
     (case (value, jprop value ''name'') of
        (JObj ps, JStr name) \<Rightarrow>
          andthen (guard BadSchemaField (is_str (jprop value ''type''))) (\<lambda>_.
          andthen (guard BadSchemaField (case jprop value ''ordered'' of JUndef \<Rightarrow> True | JBool _ \<Rightarrow> True | _ \<Rightarrow> False)) (\<lambda>_.
          andthen (guard BadSchemaField
            (list_all (\<lambda>k. jprop value k = JUndef \<or> is_str (jprop value k)) [''format'', ''extDtype'', ''tz'', ''freq''])) (\<lambda>_.
          andthen (case jprop value ''constraints'' of JUndef \<Rightarrow> Inr () | c \<Rightarrow> cloneConstraints c) (\<lambda>_. Inr name))))
      | _ \<Rightarrow> Inl BadSchemaField)"

fun field_names :: "jsval list \<Rightarrow> frame_error + string list" where
  "field_names [] = Inr []"
| "field_names (v # vs) = andthen (cloneTableField v) (\<lambda>n. andthen (field_names vs) (\<lambda>ns. Inr (n # ns)))"

fun key_names :: "jsval list \<Rightarrow> frame_error + string list" where
  "key_names [] = Inr []"
| "key_names (v # vs) = (case v of JStr s \<Rightarrow> andthen (key_names vs) (\<lambda>ss. Inr (s # ss)) | _ \<Rightarrow> Inl BadPrimaryKey)"

text \<open>The field names and the primary key of a valid schema.\<close>

definition cloneTableSchema :: "jsval \<Rightarrow> frame_error + string list \<times> string option" where
  "cloneTableSchema value =
     (case (value, jprop value ''fields'') of
        (JObj ps, JArr fs) \<Rightarrow>
          andthen (field_names fs) (\<lambda>names.
          andthen (guard DuplicateField (distinct names)) (\<lambda>_.
          andthen (case jprop value ''primaryKey'' of
                     JUndef \<Rightarrow> Inr []
                   | JArr ks \<Rightarrow> key_names ks
                   | _ \<Rightarrow> Inl BadPrimaryKey) (\<lambda>keys.
          andthen (guard MultiIndex (length keys \<le> 1)) (\<lambda>_.
          andthen (guard BadSchema (case jprop value ''pandas_version'' of JUndef \<Rightarrow> True | JStr _ \<Rightarrow> True | _ \<Rightarrow> False)) (\<lambda>_.
          Inr (names, case keys of [] \<Rightarrow> None | k # _ \<Rightarrow> Some k))))))
      | _ \<Rightarrow> Inl BadSchema)"

fun table_rows ::
  "string list \<Rightarrow> string option \<Rightarrow> string list \<Rightarrow> nat \<Rightarrow> jsval list \<Rightarrow> index_label list \<Rightarrow> columns_data \<Rightarrow> frame_error + index_label list \<times> columns_data"
where
  "table_rows names primaryKey columns row [] index data = Inr (index, data)"
| "table_rows names primaryKey columns row (value # values) index data =
     (case value of
        JObj ps \<Rightarrow>
          andthen (guard UnknownField (list_all (\<lambda>(k, v). k \<in> set names) ps)) (\<lambda>_.
          andthen (case primaryKey of
                     None \<Rightarrow> Inr (position_label row)
                   | Some k \<Rightarrow>
                       (case map_of ps k of
                          None \<Rightarrow> Inl MissingPrimaryKey
                        | Some v \<Rightarrow>
                            andthen (assertSupportedIndexLabel v) (\<lambda>l. andthen (guard DuplicatePrimaryKey (l \<notin> set index)) (\<lambda>_. Inr l)))) (\<lambda>label.
          table_rows names primaryKey columns (Suc row) values (index @ [label]) (push_cells (cell ps) columns data)))
      | _ \<Rightarrow> Inl RowNotObject)"

definition parseTable :: "jsval \<Rightarrow> frame_error + parsed_frame" where
  "parseTable value =
     (if \<not> is_object value then Inl NotAnObject
      else andthen (cloneTableSchema (jprop value ''schema'')) (\<lambda>(names, primaryKey).
           case jprop value ''data'' of
             JArr rows \<Rightarrow>
               andthen (guard BadPrimaryKey (case primaryKey of None \<Rightarrow> True | Some k \<Rightarrow> k \<in> set names)) (\<lambda>_.
               (let columns = filter (\<lambda>n. primaryKey \<noteq> Some n) names
                in andthen (table_rows names primaryKey columns 0 rows [] (initializeData columns)) (\<lambda>(index, data).
                   andthen (finalizeFrame columns index (primaryKey \<noteq> None) data) (\<lambda>frame.
                   Inr (frame\<lparr>pf_schema := Some (jprop value ''schema''), pf_indexField := primaryKey\<rparr>)))))
           | _ \<Rightarrow> Inl BadData))"

text \<open>The input is a value already: a text goes through \<open>JSON.parse\<close> first.\<close>

definition parseInput :: "jsany \<Rightarrow> orient option \<Rightarrow> string list option \<Rightarrow> nat option \<Rightarrow> frame_error + parsed_frame" where
  "parseInput input orientation option_columns maxNodes =
     andthen (map_sum BadJson id (cloneJsonCompatible input maxNodes)) (\<lambda>value.
     andthen (case orientation of None \<Rightarrow> detectOrient value | Some x \<Rightarrow> Inr x) (\<lambda>x.
       case x of
         Records \<Rightarrow> parseRecords value
       | Index \<Rightarrow> parseIndex value
       | Columns \<Rightarrow> parseColumns value
       | Values \<Rightarrow> parseValues value option_columns
       | Split \<Rightarrow> parseSplit value
       | Table \<Rightarrow> parseTable value))"

end
