(* ===== verification/FrameState.thy ===== *)
theory FrameState
  imports FrameParse
begin

text \<open>
  The stored columns of a data frame, frame/column.ts of packages/json-frame: the logical type of a column, typed
  arrays for large columns of numbers, and the state of a frame. Typed arrays of 32-bit integers are lists of
  words; the sign of zero, that the code keeps out of them, is not part of a number of the model.
\<close>

section \<open>Logical types\<close>

datatype column_type = TInteger | TFloat | TString | TBoolean | TDatetime | TCategorical | TMixed | TUnknown

record column_info =
  ci_type :: column_type
  ci_nullable :: bool

fun is_integer :: "jsnum \<Rightarrow> bool" where
  "is_integer (Fin q) = (of_int \<lfloor>q\<rfloor> = q)"
| "is_integer _ = False"

record seen_kinds =
  sk_nullable :: bool
  sk_boolean :: bool
  sk_string :: bool
  sk_integer :: bool
  sk_float :: bool
  sk_structured :: bool

fun see_value :: "jsval \<Rightarrow> seen_kinds \<Rightarrow> seen_kinds" where
  "see_value JNull s = s\<lparr>sk_nullable := True\<rparr>"
| "see_value (JBool _) s = s\<lparr>sk_boolean := True\<rparr>"
| "see_value (JStr _) s = s\<lparr>sk_string := True\<rparr>"
| "see_value (JNum x) s = (if is_integer x then s\<lparr>sk_integer := True\<rparr> else s\<lparr>sk_float := True\<rparr>)"
| "see_value _ s = s\<lparr>sk_structured := True\<rparr>"

definition inferColumnType :: "jsval list \<Rightarrow> column_info" where
  "inferColumnType values =
     (let s = fold see_value values \<lparr>sk_nullable = False, sk_boolean = False, sk_string = False, sk_integer = False,
                sk_float = False, sk_structured = False\<rparr>;
          kinds = length (filter id [sk_boolean s, sk_string s, sk_integer s \<or> sk_float s, sk_structured s])
      in \<lparr>ci_type =
            (if kinds = 0 then TUnknown
             else if sk_structured s \<or> kinds > 1 \<or> (sk_boolean s \<and> (sk_string s \<or> sk_integer s \<or> sk_float s)) then TMixed
             else if sk_string s then TString
             else if sk_boolean s then TBoolean
             else if sk_float s then TFloat
             else TInteger),
          ci_nullable = sk_nullable s\<rparr>)"

text \<open>\<open>YYYY-MM-DD\<close>, with a time \<open>hh:mm:ss\<close> after a \<open>T\<close> or a space, with a fraction of one to nine digits.\<close>

definition digits_at :: "string \<Rightarrow> nat \<Rightarrow> nat \<Rightarrow> nat option" where
  "digits_at s i n =
     (let part = take n (drop i s)
      in if length part = n \<and> list_all is_digit part then Some (decimal part) else None)"

definition char_at :: "string \<Rightarrow> nat \<Rightarrow> char option" where
  "char_at s i = (if i < length s then Some (s ! i) else None)"

definition date_fields :: "string \<Rightarrow> (nat \<times> nat \<times> nat) option" where
  "date_fields s =
     (case (digits_at s 0 4, digits_at s 5 2, digits_at s 8 2) of
        (Some y, Some m, Some d) \<Rightarrow> (if char_at s 4 = Some CHR ''-'' \<and> char_at s 7 = Some CHR ''-'' then Some (y, m, d) else None)
      | _ \<Rightarrow> None)"

definition fraction_ok :: "string \<Rightarrow> bool" where
  "fraction_ok s \<longleftrightarrow> s = [] \<or> (hd s = CHR ''.'' \<and> 1 \<le> length (tl s) \<and> length (tl s) \<le> 9 \<and> list_all is_digit (tl s))"

definition time_fields :: "string \<Rightarrow> (nat \<times> nat \<times> nat) option" where
  "time_fields s =
     (if length s = 10 then Some (0, 0, 0)
      else (case (digits_at s 11 2, digits_at s 14 2, digits_at s 17 2) of
              (Some h, Some m, Some sec) \<Rightarrow>
                (if char_at s 10 \<in> {Some CHR '' '', Some CHR ''T''} \<and> char_at s 13 = Some CHR '':'' \<and> char_at s 16 = Some CHR '':'' \<and>
                    fraction_ok (drop 19 s) then Some (h, m, sec) else None)
            | _ \<Rightarrow> None))"

definition DAYS_IN_MONTH :: "nat list" where
  "DAYS_IN_MONTH = [31, 28, 31, 30, 31, 30, 31, 31, 30, 31, 30, 31]"

definition isPandasNaiveIsoDatetime :: "string \<Rightarrow> bool" where
  "isPandasNaiveIsoDatetime s =
     (case (date_fields s, time_fields s) of
        (Some (y, m, d), Some (hour, minute, second)) \<Rightarrow>
          (if m < 1 \<or> m > 12 \<or> hour > 23 \<or> minute > 59 \<or> second > 59 then False
           else (let leapYear = (y mod 4 = 0 \<and> (y mod 100 \<noteq> 0 \<or> y mod 400 = 0));
                     last_day = (if m = 2 \<and> leapYear then 29 else DAYS_IN_MONTH ! (m - 1))
                 in 1 \<le> d \<and> d \<le> last_day))
      | _ \<Rightarrow> False)"

fun isColumnValueCompatible :: "column_type \<Rightarrow> jsval \<Rightarrow> bool" where
  "isColumnValueCompatible t JNull = True"
| "isColumnValueCompatible TInteger v = (case v of JNum x \<Rightarrow> is_integer x | _ \<Rightarrow> False)"
| "isColumnValueCompatible TFloat v = (case v of JNum x \<Rightarrow> True | _ \<Rightarrow> False)"
| "isColumnValueCompatible TString v = is_str v"
| "isColumnValueCompatible TBoolean v = (case v of JBool b \<Rightarrow> True | _ \<Rightarrow> False)"
| "isColumnValueCompatible TDatetime v = (case v of JStr s \<Rightarrow> isPandasNaiveIsoDatetime s | _ \<Rightarrow> False)"
| "isColumnValueCompatible TCategorical v = (case v of JStr s \<Rightarrow> True | JNum x \<Rightarrow> True | JBool b \<Rightarrow> True | _ \<Rightarrow> False)"
| "isColumnValueCompatible t v =
     (case v of JStr s \<Rightarrow> True | JNum x \<Rightarrow> True | JBool b \<Rightarrow> True | JArr xs \<Rightarrow> True | JObj ps \<Rightarrow> True | _ \<Rightarrow> False)"

definition validateColumnValuesForType :: "jsval list \<Rightarrow> column_type \<Rightarrow> frame_error + unit" where
  "validateColumnValuesForType values t = guard BadCell (list_all (isColumnValueCompatible t) values)"

section \<open>Stored columns\<close>

datatype stored_column = Plain "jsval list" | Int32s "32 word list" | Float64s "jsnum list"

definition int32_value :: "jsval \<Rightarrow> int option" where
  "int32_value v =
     (case v of
        JNum (Fin q) \<Rightarrow> if is_integer (Fin q) \<and> - 2147483648 \<le> \<lfloor>q\<rfloor> \<and> \<lfloor>q\<rfloor> \<le> 2147483647 then Some \<lfloor>q\<rfloor> else None
      | _ \<Rightarrow> None)"

fun pack_int32 :: "jsval list \<Rightarrow> 32 word list option" where
  "pack_int32 [] = Some []"
| "pack_int32 (v # vs) = (case int32_value v of Some n \<Rightarrow> map_option (Cons (word_of_int n)) (pack_int32 vs) | None \<Rightarrow> None)"

fun pack_float64 :: "jsval list \<Rightarrow> jsnum list option" where
  "pack_float64 [] = Some []"
| "pack_float64 (v # vs) = (case v of JNum x \<Rightarrow> map_option (Cons x) (pack_float64 vs) | _ \<Rightarrow> None)"

definition packColumn :: "jsval list \<Rightarrow> column_info \<Rightarrow> nat \<Rightarrow> stored_column" where
  "packColumn values info packThreshold =
     (if packThreshold = 0 \<or> length values < packThreshold \<or> ci_nullable info then Plain values
      else (case ci_type info of
              TInteger \<Rightarrow> (case pack_int32 values of Some ws \<Rightarrow> Int32s ws | None \<Rightarrow> Plain values)
            | TFloat \<Rightarrow> (case pack_float64 values of Some xs \<Rightarrow> Float64s xs | None \<Rightarrow> Plain values)
            | _ \<Rightarrow> Plain values))"

definition word_number :: "32 word \<Rightarrow> jsval" where
  "word_number w = jint (sint w)"

fun materializeColumn :: "stored_column \<Rightarrow> jsval list" where
  "materializeColumn (Plain values) = values"
| "materializeColumn (Int32s ws) = map word_number ws"
| "materializeColumn (Float64s xs) = map JNum xs"

definition getStoredColumnValue :: "stored_column \<Rightarrow> nat \<Rightarrow> jsval" where
  "getStoredColumnValue column position =
     (case column of
        Plain values \<Rightarrow> if position < length values then values ! position else JUndef
      | Int32s ws \<Rightarrow> if position < length ws then word_number (ws ! position) else JUndef
      | Float64s xs \<Rightarrow> if position < length xs then JNum (xs ! position) else JUndef)"

definition rebuildStoredColumn :: "stored_column \<Rightarrow> nat list \<Rightarrow> jsval list" where
  "rebuildStoredColumn column positions = map (getStoredColumnValue column) positions"

section \<open>The state of a frame\<close>

record frame_state =
  fs_columns :: "string list"
  fs_index :: "index_label list"
  fs_source :: bool
  fs_data :: "(string, stored_column) jsmap"
  fs_info :: "(string, column_info) jsmap"
  fs_schema :: "jsval option"
  fs_indexField :: "string option"

text \<open>The logical type that a schema field declares: its categorical marks first.\<close>

definition mapTableSchemaFieldType :: "jsval \<Rightarrow> column_type" where
  "mapTableSchemaFieldType field =
     (if jprop (jprop field ''constraints'') ''enum'' \<noteq> JUndef \<or> jprop field ''ordered'' = JBool True \<or>
         jprop field ''extDtype'' = JStr ''category'' then TCategorical
      else (let t = jprop field ''type''
            in if t = JStr ''boolean'' then TBoolean
               else if t = JStr ''integer'' \<or> t = JStr ''year'' then TInteger
               else if t = JStr ''number'' then TFloat
               else if t = JStr ''date'' \<or> t = JStr ''datetime'' then TDatetime
               else if t = JStr ''string'' then TString
               else TUnknown))"

definition resolveSchemaTypeByColumn :: "string list \<Rightarrow> jsval option \<Rightarrow> (string, column_type) jsmap" where
  "resolveSchemaTypeByColumn columns schema =
     (case schema of
        None \<Rightarrow> []
      | Some s \<Rightarrow>
          (case jprop s ''fields'' of
             JArr fs \<Rightarrow>
               foldl (\<lambda>m field. case jprop field ''name'' of
                        JStr n \<Rightarrow> if n \<in> set columns then mput n (mapTableSchemaFieldType field) m else m
                      | _ \<Rightarrow> m) [] fs
           | _ \<Rightarrow> []))"

fun build_columns ::
  "(string, column_type) jsmap \<Rightarrow> (string, column_type) jsmap \<Rightarrow> nat \<Rightarrow> columns_data \<Rightarrow> string list \<Rightarrow>
     (string, stored_column) jsmap \<Rightarrow> (string, column_info) jsmap \<Rightarrow>
     frame_error + (string, stored_column) jsmap \<times> (string, column_info) jsmap"
where
  "build_columns schemaTypes columnTypes packThreshold source [] data info = Inr (data, info)"
| "build_columns schemaTypes columnTypes packThreshold source (column # cs) data info =
     (case mget source column of
        None \<Rightarrow> Inl MissingColumn
      | Some values \<Rightarrow>
          (let inferred = inferColumnType values;
               explicitType = mget columnTypes column;
               resolvedType = (case mget schemaTypes column of
                                 Some t \<Rightarrow> t
                               | None \<Rightarrow> (case explicitType of Some t \<Rightarrow> t | None \<Rightarrow> ci_type inferred));
               column_info = \<lparr>ci_type = resolvedType, ci_nullable = ci_nullable inferred\<rparr>
           in andthen (if mget schemaTypes column = None \<and> explicitType \<noteq> None
                       then validateColumnValuesForType values resolvedType else Inr ()) (\<lambda>_.
              build_columns schemaTypes columnTypes packThreshold source cs
                (mput column (packColumn values column_info packThreshold) data) (mput column column_info info))))"

definition createFrameState :: "parsed_frame \<Rightarrow> nat \<Rightarrow> (string, column_type) jsmap \<Rightarrow> frame_error + frame_state" where
  "createFrameState frame packThreshold columnTypes =
     andthen (guard UnknownColumnType (list_all (\<lambda>(c, t). c \<in> set (pf_columns frame)) columnTypes)) (\<lambda>_.
     andthen (build_columns (resolveSchemaTypeByColumn (pf_columns frame) (pf_schema frame)) columnTypes packThreshold
       (pf_data frame) (pf_columns frame) [] []) (\<lambda>(data, info).
     Inr \<lparr>fs_columns = pf_columns frame, fs_index = pf_index frame, fs_source = pf_source frame, fs_data = data,
          fs_info = info, fs_schema = pf_schema frame, fs_indexField = pf_indexField frame\<rparr>))"

lemma sint_word: "- 2147483648 \<le> n \<Longrightarrow> n \<le> 2147483647 \<Longrightarrow> sint (word_of_int n :: 32 word) = n"
  by (simp add: sint_sbintrunc' signed_take_bit_int_eq_self)

lemma int32_roundtrip: "int32_value v = Some n \<Longrightarrow> word_number (word_of_int n) = v"
  by (auto simp: int32_value_def word_number_def sint_word simp del: of_int_sint split: jsval.splits jsnum.splits if_splits)

lemma pack_int32_values: "pack_int32 vs = Some ws \<Longrightarrow> map word_number ws = vs"
  by (induction vs arbitrary: ws) (auto simp: int32_roundtrip split: option.splits)

lemma pack_float64_values: "pack_float64 vs = Some xs \<Longrightarrow> map JNum xs = vs"
  by (induction vs arbitrary: xs) (auto split: jsval.splits)

text \<open>Packing never changes a cell.\<close>

lemma packed_values: "materializeColumn (packColumn values info t) = values"
  by (auto simp: packColumn_def pack_int32_values pack_float64_values split: option.splits column_type.splits)

lemma get_materialized:
  "getStoredColumnValue c i = (if i < length (materializeColumn c) then materializeColumn c ! i else JUndef)"
  by (cases c) (simp_all add: getStoredColumnValue_def)

end
