(* ===== verification/FrameExport.thy ===== *)
theory FrameExport
  imports FrameState
begin

text \<open>
  The payloads of a data frame, export/payload.ts of packages/json-frame, and what parsing them gives back. An
  object that is filled key by key lists its array indices first, in numeric order: \<open>js_object\<close>. The text of a
  number is a parameter \<open>num\<close>. The payload with a schema is in \<open>FrameTable\<close>.
\<close>

section \<open>Objects filled key by key\<close>

text \<open>The canonical array indices, below \<open>2 ^ 32 - 1\<close>.\<close>

definition index_key :: "string \<Rightarrow> nat option" where
  "index_key s =
     (if s \<noteq> [] \<and> list_all is_digit s \<and> digits (decimal s) = s \<and> decimal s < 4294967295 then Some (decimal s) else None)"

text \<open>A new array index goes after the smaller ones and before every other key.\<close>

fun insert_index :: "nat \<Rightarrow> string \<times> 'v \<Rightarrow> (string \<times> 'v) list \<Rightarrow> (string \<times> 'v) list" where
  "insert_index i entry [] = [entry]"
| "insert_index i entry ((k, v) # ps) =
     (case index_key k of
        Some j \<Rightarrow> if j < i then (k, v) # insert_index i entry ps else entry # (k, v) # ps
      | None \<Rightarrow> entry # (k, v) # ps)"

definition object_put :: "string \<Rightarrow> 'v \<Rightarrow> (string \<times> 'v) list \<Rightarrow> (string \<times> 'v) list" where
  "object_put k v ps =
     (if mget ps k \<noteq> None then mput k v ps
      else (case index_key k of Some i \<Rightarrow> insert_index i (k, v) ps | None \<Rightarrow> ps @ [(k, v)]))"

definition js_object :: "(string \<times> 'v) list \<Rightarrow> (string \<times> 'v) list" where
  "js_object ps = foldl (\<lambda>m (k, v). object_put k v m) [] ps"

section \<open>Payloads\<close>

fun label_value :: "index_label \<Rightarrow> jsval" where
  "label_value (LText s) = JStr s"
| "label_value (LNumber x) = JNum x"

fun label_text :: "(jsnum \<Rightarrow> string) \<Rightarrow> index_label \<Rightarrow> string" where
  "label_text num (LText s) = s"
| "label_text num (LNumber x) = num x"

fun resolve_keys :: "(jsnum \<Rightarrow> string) \<Rightarrow> index_label list \<Rightarrow> string list \<Rightarrow> frame_error + string list" where
  "resolve_keys num [] keys = Inr keys"
| "resolve_keys num (label # labels) keys =
     (let key = label_text num label
      in if key \<in> set keys then Inl KeyCollision else resolve_keys num labels (keys @ [key]))"

definition resolveIndexKeys :: "(jsnum \<Rightarrow> string) \<Rightarrow> frame_state \<Rightarrow> frame_error + string list" where
  "resolveIndexKeys num state = resolve_keys num (fs_index state) []"

fun stored_columns :: "frame_state \<Rightarrow> string list \<Rightarrow> frame_error + stored_column list" where
  "stored_columns state [] = Inr []"
| "stored_columns state (c # cs) =
     (case mget (fs_data state) c of
        None \<Rightarrow> Inl MissingColumn
      | Some col \<Rightarrow> andthen (stored_columns state cs) (\<lambda>cols. Inr (col # cols)))"

definition resolveStoredColumns :: "frame_state \<Rightarrow> frame_error + stored_column list" where
  "resolveStoredColumns state = stored_columns state (fs_columns state)"

definition row_cells :: "stored_column list \<Rightarrow> nat \<Rightarrow> jsval list" where
  "row_cells cols i = map (\<lambda>col. getStoredColumnValue col i) cols"

definition row_object :: "frame_state \<Rightarrow> stored_column list \<Rightarrow> nat \<Rightarrow> jsval" where
  "row_object state cols i = JObj (js_object (zip (fs_columns state) (row_cells cols i)))"

definition exportRecords :: "frame_state \<Rightarrow> frame_error + jsval" where
  "exportRecords state =
     andthen (resolveStoredColumns state) (\<lambda>cols. Inr (JArr (map (row_object state cols) [0..<length (fs_index state)])))"

definition exportIndex :: "(jsnum \<Rightarrow> string) \<Rightarrow> frame_state \<Rightarrow> frame_error + jsval" where
  "exportIndex num state =
     andthen (resolveIndexKeys num state) (\<lambda>keys.
     andthen (resolveStoredColumns state) (\<lambda>cols.
     Inr (JObj (js_object (zip keys (map (row_object state cols) [0..<length (fs_index state)]))))))"

definition exportColumns :: "(jsnum \<Rightarrow> string) \<Rightarrow> frame_state \<Rightarrow> frame_error + jsval" where
  "exportColumns num state =
     andthen (resolveIndexKeys num state) (\<lambda>keys.
     andthen (resolveStoredColumns state) (\<lambda>cols.
     Inr (JObj (js_object (zip (fs_columns state)
       (map (\<lambda>col. JObj (js_object (zip keys (map (getStoredColumnValue col) [0..<length (fs_index state)])))) cols))))))"

definition exportValues :: "frame_state \<Rightarrow> frame_error + jsval" where
  "exportValues state =
     andthen (resolveStoredColumns state) (\<lambda>cols. Inr (JArr (map (JArr \<circ> row_cells cols) [0..<length (fs_index state)])))"

definition exportSplit :: "frame_state \<Rightarrow> frame_error + jsval" where
  "exportSplit state =
     andthen (exportValues state) (\<lambda>data.
     Inr (JObj [(''columns'', JArr (map JStr (fs_columns state))), (''index'', JArr (map label_value (fs_index state))),
                (''data'', data)]))"

section \<open>Key order\<close>

text \<open>Keys in the order an object lists them: distinct, array indices first and ascending.\<close>

definition key_before :: "string \<Rightarrow> string \<Rightarrow> bool" where
  "key_before a b = (case index_key b of Some j \<Rightarrow> (case index_key a of Some i \<Rightarrow> i < j | None \<Rightarrow> False) | None \<Rightarrow> True)"

definition js_ordered :: "string list \<Rightarrow> bool" where
  "js_ordered ks \<longleftrightarrow> distinct ks \<and> sorted_wrt key_before ks"

lemma insert_index_last:
  "list_all (\<lambda>(k, v). \<exists>j < i. index_key k = Some j) ps \<Longrightarrow> insert_index i entry ps = ps @ [entry]"
  by (induction ps) auto

lemma object_put_last:
  assumes "k \<notin> set (map fst ps)" "\<forall>a \<in> set (map fst ps). key_before a k"
  shows "object_put k v ps = ps @ [(k, v)]"
proof -
  have "mget ps k = None" using assms(1) by (simp add: map_of_eq_None_iff)
  moreover have "insert_index i (k, v) ps = ps @ [(k, v)]" if "index_key k = Some i" for i
    by (rule insert_index_last) (use assms(2) that in \<open>force simp: list_all_iff key_before_def split: option.splits\<close>)
  ultimately show ?thesis by (simp add: object_put_def split: option.split)
qed

lemma js_object_ordered: "js_ordered (map fst ps) \<Longrightarrow> js_object ps = ps"
proof (induction ps rule: rev_induct)
  case (snoc p ps)
  obtain k v where p: "p = (k, v)" by (cases p)
  have "js_ordered (map fst ps)" "k \<notin> set (map fst ps)" "\<forall>a \<in> set (map fst ps). key_before a k"
    using snoc.prems by (auto simp: js_ordered_def p sorted_wrt_append)
  then show ?case
    using snoc.IH object_put_last [of k ps v] by (simp add: js_object_def p)
qed (simp add: js_object_def)

section \<open>What parsing makes of rows\<close>

lemma push_get:
  "distinct cs \<Longrightarrow> mget (push_cells g cs data) c =
     (if c \<in> set cs then map_option (\<lambda>xs. xs @ [g c]) (mget data c) else mget data c)"
  by (induction cs arbitrary: data) (auto split: option.splits)

text \<open>The columns in the order of their first row.\<close>

fun first_seen :: "string list \<Rightarrow> string list \<Rightarrow> string list" where
  "first_seen cs [] = cs"
| "first_seen cs (k # ks) = first_seen (if k \<in> set cs then cs else cs @ [k]) ks"

lemma first_seen_props:
  "set (first_seen cs ks) = set cs \<union> set ks" "distinct cs \<Longrightarrow> distinct (first_seen cs ks)"
  by (induction cs ks rule: first_seen.induct) auto

lemma first_seen_append: "first_seen cs (ks @ ls) = first_seen (first_seen cs ks) ls"
  by (induction cs ks rule: first_seen.induct) auto

lemma add_columns_spec:
  "fst (add_columns row ks (cs, data)) = first_seen cs ks"
  "mget (snd (add_columns row ks (cs, data))) c = (if c \<in> set ks - set cs then Some (replicate row JNull) else mget data c)"
  by (induction ks arbitrary: cs data) auto

lemma object_rows_spec:
  assumes "distinct cs" "\<And>c. mget data c = (if c \<in> set cs then Some (map (\<lambda>r. cell r c) done_rows) else None)"
    "set (concat (map (map fst) done_rows)) \<subseteq> set cs"
  shows "\<exists>data'. object_rows (length done_rows) (map JObj rows) (cs, data) = Inr (first_seen cs (concat (map (map fst) rows)), data') \<and>
    (\<forall>c. mget data' c = (if c \<in> set (first_seen cs (concat (map (map fst) rows)))
       then Some (map (\<lambda>r. cell r c) (done_rows @ rows)) else None))"
  using assms
proof (induction rows arbitrary: cs data done_rows)
  case (Cons ps rows)
  obtain ds mid where mid: "add_columns (length done_rows) (map fst ps) (cs, data) = (ds, mid)" by fastforce
  have ds: "ds = first_seen cs (map fst ps)" and
    old: "\<And>c. mget mid c = (if c \<in> set (map fst ps) - set cs then Some (replicate (length done_rows) JNull) else mget data c)"
    using add_columns_spec [where row = "length done_rows" and ks = "map fst ps" and cs = cs and data = data] by (simp_all add: mid)
  have dist: "distinct ds" using Cons.prems(1) first_seen_props(2) by (simp add: ds)
  have nulls: "map (\<lambda>r. cell r c) done_rows = replicate (length done_rows) JNull" if "c \<notin> set cs" for c
  proof -
    have "cell r c = JNull" if "r \<in> set done_rows" for r
    proof -
      have "c \<notin> set (map fst r)" using Cons.prems(3) that \<open>c \<notin> set cs\<close> by auto
      then have "map_of r c = None" by (simp add: map_of_eq_None_iff)
      then show ?thesis by (simp add: cell_def)
    qed
    then show ?thesis by (simp add: map_replicate_const [symmetric])
  qed
  have "mget (push_cells (cell ps) ds mid) c = (if c \<in> set ds then Some (map (\<lambda>r. cell r c) (done_rows @ [ps])) else None)" for c
    using push_get [OF dist, of "cell ps" mid c] old [of c] Cons.prems(2) [of c] nulls [of c] first_seen_props(1) [of cs "map fst ps"]
    by (auto simp: ds)
  moreover have "set (concat (map (map fst) (done_rows @ [ps]))) \<subseteq> set ds"
    using Cons.prems(3) first_seen_props(1) [of cs "map fst ps"] by (auto simp: ds)
  ultimately obtain data' where "object_rows (length (done_rows @ [ps])) (map JObj rows) (ds, push_cells (cell ps) ds mid) =
      Inr (first_seen ds (concat (map (map fst) rows)), data')"
    "\<forall>c. mget data' c = (if c \<in> set (first_seen ds (concat (map (map fst) rows)))
       then Some (map (\<lambda>r. cell r c) ((done_rows @ [ps]) @ rows)) else None)"
    using Cons.IH [OF dist] by blast
  then show ?case by (simp add: mid first_seen_append ds)
qed simp

lemma first_seen_known: "set ks \<subseteq> set cs \<Longrightarrow> first_seen cs ks = cs"
  by (induction cs ks rule: first_seen.induct) auto

lemma first_seen_new: "distinct (cs @ ks) \<Longrightarrow> first_seen cs ks = cs @ ks"
  by (induction cs ks rule: first_seen.induct) auto

lemma first_seen_rows: "distinct cs \<Longrightarrow> first_seen [] (concat (map (\<lambda>i. cs) (x # xs))) = cs"
  using first_seen_new [of "[]" cs] by (simp add: first_seen_append) (rule first_seen_known, auto)

lemma cell_zip: "distinct cs \<Longrightarrow> c \<in> set cs \<Longrightarrow> cell (zip cs (map g cs)) c = g c"
  by (simp add: cell_def map_of_zip_map)

lemma push_array_row:
  "distinct cs \<Longrightarrow> mget (foldl (\<lambda>m (c, v). case mget m c of Some ys \<Rightarrow> mput c (ys @ [v]) m | None \<Rightarrow> m) data (zip cs (map g cs))) c =
     (if c \<in> set cs then map_option (\<lambda>xs. xs @ [g c]) (mget data c) else mget data c)"
  by (induction cs arbitrary: data) (auto split: option.splits)

lemma array_rows_spec:
  "distinct cs \<Longrightarrow> (\<And>c. c \<in> set cs \<Longrightarrow> mget data c = Some (d c)) \<Longrightarrow>
   \<exists>data'. array_rows cs (map (\<lambda>i. JArr (map (g i) cs)) rows) data = Inr data' \<and>
     (\<forall>c \<in> set cs. mget data' c = Some (d c @ map (\<lambda>i. g i c) rows))"
proof (induction rows arbitrary: data d)
  case (Cons i rows)
  let ?next = "foldl (\<lambda>m (c, v). case mget m c of Some ys \<Rightarrow> mput c (ys @ [v]) m | None \<Rightarrow> m) data (zip cs (map (g i) cs))"
  have "c \<in> set cs \<Longrightarrow> mget ?next c = Some (d c @ [g i c])" for c
    using push_array_row [OF Cons.prems(1), of data "g i" c] Cons.prems(2) by simp
  with Cons.IH [OF Cons.prems(1), of ?next "\<lambda>c. d c @ [g i c]"] show ?case by simp
qed simp

lemma initial_columns: "mget (initializeData cs) c = (if c \<in> set cs then Some [] else None)"
  by (induction cs rule: rev_induct) (simp_all add: initializeData_def)

lemma object_columns_spec:
  "distinct cs \<Longrightarrow> (\<And>c. c \<in> set cs \<Longrightarrow> length (vals c) = length ks) \<Longrightarrow> seen = None \<or> seen = Some ks \<Longrightarrow>
   \<exists>data'. object_columns seen (map (\<lambda>c. (c, JObj (zip ks (vals c)))) cs) data = Inr (if cs = [] then seen else Some ks, data') \<and>
     (\<forall>c. mget data' c = (if c \<in> set cs then Some (vals c) else mget data c))"
proof (induction cs arbitrary: seen data)
  case (Cons c cs)
  then show ?case
    using Cons.IH [of "Some ks" "mput c (vals c) data"] by auto
qed simp

section \<open>States\<close>

definition frame_ok :: "parsed_frame \<Rightarrow> bool" where
  "frame_ok f \<longleftrightarrow> distinct (pf_columns f) \<and>
     list_all (\<lambda>c. map_option length (mget (pf_data f) c) = Some (length (pf_index f))) (pf_columns f) \<and>
     list_all (\<lambda>l. case l of LNumber x \<Rightarrow> is_finite x | LText s \<Rightarrow> True) (pf_index f)"

definition column_of :: "parsed_frame \<Rightarrow> string \<Rightarrow> jsval list" where
  "column_of f c = the (mget (pf_data f) c)"

text \<open>What parsing gives back: the same columns, under the labels that the payload keeps.\<close>

definition relabelled :: "parsed_frame \<Rightarrow> index_label list \<Rightarrow> bool \<Rightarrow> parsed_frame" where
  "relabelled f labels src =
     \<lparr>pf_columns = pf_columns f, pf_index = labels, pf_source = src, pf_data = map (\<lambda>c. (c, column_of f c)) (pf_columns f),
      pf_schema = None, pf_indexField = None\<rparr>"

lemma finalize_relabelled:
  "(\<And>c. c \<in> set (pf_columns f) \<Longrightarrow> mget data c = Some (column_of f c)) \<Longrightarrow>
   finalizeFrame (pf_columns f) labels src data = Inr (relabelled f labels src)"
  by (auto simp: relabelled_def list_all_iff)

lemma built_columns:
  "build_columns st ct t source cs data info = Inr (data', info') \<Longrightarrow> distinct cs \<Longrightarrow>
   (c \<in> set cs \<longrightarrow> (\<exists>col. mget data' c = Some col \<and> mget source c = Some (materializeColumn col))) \<and>
   (c \<notin> set cs \<longrightarrow> mget data' c = mget data c)"
proof (induction cs arbitrary: data info)
  case (Cons d cs)
  then show ?case
    by (cases "mget source d") (auto simp: Let_def andthen_Inr packed_values)
qed simp

lemma stored_values:
  "(\<And>c. c \<in> set cs \<Longrightarrow> \<exists>col. mget (fs_data s) c = Some col \<and> materializeColumn col = vals c) \<Longrightarrow>
   \<exists>cols. stored_columns s cs = Inr cols \<and> map materializeColumn cols = map vals cs"
proof (induction cs)
  case (Cons c cs)
  then obtain cols where "stored_columns s cs = Inr cols" "map materializeColumn cols = map vals cs" by auto
  moreover obtain col where "mget (fs_data s) c = Some col" "materializeColumn col = vals c" using Cons.prems by auto
  ultimately show ?case by simp
qed simp

lemma ok_lengths: "frame_ok f \<Longrightarrow> c \<in> set (pf_columns f) \<Longrightarrow> length (column_of f c) = length (pf_index f)"
  by (auto simp: frame_ok_def list_all_iff column_of_def)

lemma built_frame:
  assumes "frame_ok f" "createFrameState f t ct = Inr s"
  shows "fs_columns s = pf_columns f \<and> fs_index s = pf_index f \<and>
    (\<exists>cols. resolveStoredColumns s = Inr cols \<and> map materializeColumn cols = map (column_of f) (pf_columns f))"
proof -
  have dist: "distinct (pf_columns f)" using assms(1) by (simp add: frame_ok_def)
  obtain data info where built:
    "build_columns (resolveSchemaTypeByColumn (pf_columns f) (pf_schema f)) ct t (pf_data f) (pf_columns f) [] [] = Inr (data, info)"
    and s: "fs_columns s = pf_columns f" "fs_index s = pf_index f" "fs_data s = data"
    using assms(2) by (auto simp: createFrameState_def andthen_Inr)
  have "\<exists>col. mget (fs_data s) c = Some col \<and> materializeColumn col = column_of f c" if "c \<in> set (pf_columns f)" for c
    using built_columns [OF built dist, of c] that by (auto simp: s column_of_def)
  with stored_values [of "pf_columns f" s "column_of f"] show ?thesis by (simp add: s resolveStoredColumns_def)
qed

lemma stored_cells:
  assumes "map materializeColumn cols = map vals cs" "\<And>c. c \<in> set cs \<Longrightarrow> length (vals c) = n"
  shows "i < n \<Longrightarrow> row_cells cols i = map (\<lambda>c. vals c ! i) cs"
    "map (\<lambda>col. map (getStoredColumnValue col) [0..<n]) cols = map vals cs"
proof -
  have "length (materializeColumn col) = n" if "col \<in> set cols" for col
  proof -
    have "materializeColumn col \<in> set (map vals cs)" using that assms(1) by (metis image_eqI list.set_map)
    then show ?thesis using assms(2) by auto
  qed
  note len = this
  show "row_cells cols i = map (\<lambda>c. vals c ! i) cs" if "i < n"
  proof -
    have "row_cells cols i = map (\<lambda>xs. xs ! i) (map materializeColumn cols)"
      using that len by (simp add: row_cells_def get_materialized)
    then show ?thesis by (simp add: assms(1))
  qed
  have "map (getStoredColumnValue col) [0..<n] = materializeColumn col" if "col \<in> set cols" for col
    using len [OF that] by (intro nth_equalityI) (simp_all add: get_materialized)
  then have "map (\<lambda>col. map (getStoredColumnValue col) [0..<n]) cols = map materializeColumn cols" by simp
  then show "map (\<lambda>col. map (getStoredColumnValue col) [0..<n]) cols = map vals cs" by (simp add: assms(1))
qed

section \<open>Round trips\<close>

lemma unique_columns: "distinct (cs @ ds) \<Longrightarrow> assertUniqueStringColumns (map JStr ds) cs = Inr (cs @ ds)"
  by (induction ds arbitrary: cs) auto

lemma finite_labels:
  "list_all (\<lambda>l. case l of LNumber x \<Rightarrow> is_finite x | LText s \<Rightarrow> True) ls \<Longrightarrow> index_labels (map label_value ls) = Inr ls"
  by (induction ls) (auto simp: assertSupportedIndexLabel_def split: index_label.splits)

lemma resolved_keys:
  "distinct keys \<Longrightarrow> resolve_keys num ls keys =
     (if distinct (keys @ map (label_text num) ls) then Inr (keys @ map (label_text num) ls) else Inl KeyCollision)"
  by (induction ls arbitrary: keys) (auto simp: Let_def)

lemma parsed_arrays:
  assumes "frame_ok f"
  shows "\<exists>data. array_rows (pf_columns f)
      (map (\<lambda>i. JArr (map (\<lambda>c. column_of f c ! i) (pf_columns f))) [0..<length (pf_index f)]) (initializeData (pf_columns f)) = Inr data \<and>
    finalizeFrame (pf_columns f) labels src data = Inr (relabelled f labels src)"
proof -
  have "distinct (pf_columns f)" using assms by (simp add: frame_ok_def)
  then obtain data where data: "array_rows (pf_columns f)
      (map (\<lambda>i. JArr (map (\<lambda>c. column_of f c ! i) (pf_columns f))) [0..<length (pf_index f)]) (initializeData (pf_columns f)) = Inr data"
    and get: "\<forall>c \<in> set (pf_columns f). mget data c = Some ([] @ map (\<lambda>i. column_of f c ! i) [0..<length (pf_index f)])"
    using array_rows_spec [of "pf_columns f" "initializeData (pf_columns f)" "\<lambda>c. []" "\<lambda>i c. column_of f c ! i" "[0..<length (pf_index f)]"]
    by (auto simp: initial_columns)
  have "mget data c = Some (column_of f c)" if "c \<in> set (pf_columns f)" for c
    using get that ok_lengths [OF assms that] map_nth [of "column_of f c"] by simp
  with data finalize_relabelled show ?thesis by blast
qed

lemma parsed_objects:
  assumes ok: "frame_ok f" and rows: "pf_index f \<noteq> []"
  shows "\<exists>data. object_rows 0
      (map (\<lambda>i. JObj (zip (pf_columns f) (map (\<lambda>c. column_of f c ! i) (pf_columns f)))) [0..<length (pf_index f)]) ([], []) =
      Inr (pf_columns f, data) \<and> finalizeFrame (pf_columns f) labels src data = Inr (relabelled f labels src)"
proof -
  let ?row = "\<lambda>i. zip (pf_columns f) (map (\<lambda>c. column_of f c ! i) (pf_columns f))"
  let ?rows = "map ?row [0..<length (pf_index f)]"
  have dist: "distinct (pf_columns f)" using ok by (simp add: frame_ok_def)
  obtain x xs where "[0..<length (pf_index f)] = x # xs" using rows by (cases "[0..<length (pf_index f)]") auto
  then have seen: "first_seen [] (concat (map (map fst) ?rows)) = pf_columns f"
    using first_seen_rows [OF dist, of x xs] by (simp add: comp_def)
  obtain data where data: "object_rows 0 (map JObj ?rows) ([], []) = Inr (pf_columns f, data)"
    and get: "\<forall>c. mget data c = (if c \<in> set (pf_columns f) then Some (map (\<lambda>r. cell r c) ?rows) else None)"
    using object_rows_spec [where cs = "[]" and data = "[]" and done_rows = "[]" and rows = ?rows, unfolded seen list.size append_Nil]
    by (auto simp del: map_map)
  have "mget data c = Some (column_of f c)" if "c \<in> set (pf_columns f)" for c
    using get that ok_lengths [OF ok that] map_nth [of "column_of f c"] by (simp add: comp_def cell_zip [OF dist])
  with data finalize_relabelled show ?thesis by (auto simp: comp_def)
qed

text \<open>The exported rows.\<close>

lemma exported_rows:
  assumes ok: "frame_ok f" and built: "createFrameState f t ct = Inr s"
  shows "exportValues s = Inr (JArr (map (\<lambda>i. JArr (map (\<lambda>c. column_of f c ! i) (pf_columns f))) [0..<length (pf_index f)]))"
    "js_ordered (pf_columns f) \<Longrightarrow> exportRecords s =
      Inr (JArr (map (\<lambda>i. JObj (zip (pf_columns f) (map (\<lambda>c. column_of f c ! i) (pf_columns f)))) [0..<length (pf_index f)]))"
    "js_ordered (pf_columns f) \<Longrightarrow> js_ordered (map (label_text num) (pf_index f)) \<Longrightarrow> exportIndex num s =
      Inr (JObj (zip (map (label_text num) (pf_index f))
        (map (\<lambda>i. JObj (zip (pf_columns f) (map (\<lambda>c. column_of f c ! i) (pf_columns f)))) [0..<length (pf_index f)])))"
    "js_ordered (pf_columns f) \<Longrightarrow> js_ordered (map (label_text num) (pf_index f)) \<Longrightarrow> exportColumns num s =
      Inr (JObj (map (\<lambda>c. (c, JObj (zip (map (label_text num) (pf_index f)) (column_of f c)))) (pf_columns f)))"
    "\<not> distinct (map (label_text num) (pf_index f)) \<Longrightarrow> exportIndex num s = Inl KeyCollision \<and> exportColumns num s = Inl KeyCollision"
proof -
  obtain cols where s: "fs_columns s = pf_columns f" "fs_index s = pf_index f"
    and cols: "resolveStoredColumns s = Inr cols" and vals: "map materializeColumn cols = map (column_of f) (pf_columns f)"
    using built_frame [OF ok built] by auto
  note cells = stored_cells [OF vals ok_lengths [OF ok]]
  have keys: "resolveIndexKeys num s = (if distinct (map (label_text num) (pf_index f))
      then Inr (map (label_text num) (pf_index f)) else Inl KeyCollision)"
    using resolved_keys [of "[]" num "pf_index f"] by (simp add: resolveIndexKeys_def s)
  have row: "row_object s cols i = JObj (zip (pf_columns f) (map (\<lambda>c. column_of f c ! i) (pf_columns f)))"
    if "js_ordered (pf_columns f)" "i < length (pf_index f)" for i
    using that by (simp add: row_object_def s cells js_object_ordered)
  show "exportValues s = Inr (JArr (map (\<lambda>i. JArr (map (\<lambda>c. column_of f c ! i) (pf_columns f))) [0..<length (pf_index f)]))"
    by (simp add: exportValues_def cols s cells)
  show "js_ordered (pf_columns f) \<Longrightarrow> exportRecords s =
      Inr (JArr (map (\<lambda>i. JObj (zip (pf_columns f) (map (\<lambda>c. column_of f c ! i) (pf_columns f)))) [0..<length (pf_index f)]))"
    by (simp add: exportRecords_def cols s row)
  have ordered_keys: "js_ordered ks \<Longrightarrow> distinct ks" for ks by (simp add: js_ordered_def)
  have rows: "map (row_object s cols) [0..<length (pf_index f)] =
      map (\<lambda>i. JObj (zip (pf_columns f) (map (\<lambda>c. column_of f c ! i) (pf_columns f)))) [0..<length (pf_index f)]"
    if "js_ordered (pf_columns f)"
    using that by (simp add: row)
  show "exportIndex num s =
      Inr (JObj (zip (map (label_text num) (pf_index f))
        (map (\<lambda>i. JObj (zip (pf_columns f) (map (\<lambda>c. column_of f c ! i) (pf_columns f)))) [0..<length (pf_index f)])))"
    if "js_ordered (pf_columns f)" "js_ordered (map (label_text num) (pf_index f))"
    using that by (simp add: exportIndex_def cols s rows keys ordered_keys js_object_ordered)
  show "exportColumns num s =
      Inr (JObj (map (\<lambda>c. (c, JObj (zip (map (label_text num) (pf_index f)) (column_of f c)))) (pf_columns f)))"
    if "js_ordered (pf_columns f)" "js_ordered (map (label_text num) (pf_index f))"
  proof -
    let ?keys = "map (label_text num) (pf_index f)"
    have "map (\<lambda>col. JObj (js_object (zip ?keys (map (getStoredColumnValue col) [0..<length (pf_index f)])))) cols =
        map (\<lambda>xs. JObj (zip ?keys xs)) (map (\<lambda>col. map (getStoredColumnValue col) [0..<length (pf_index f)]) cols)"
      using that(2) by (simp add: js_object_ordered)
    also have "\<dots> = map (\<lambda>c. JObj (zip ?keys (column_of f c))) (pf_columns f)"
      by (simp only: cells) simp
    finally have cells: "map (\<lambda>col. JObj (js_object (zip ?keys (map (getStoredColumnValue col) [0..<length (pf_index f)])))) cols =
        map (\<lambda>c. JObj (zip ?keys (column_of f c))) (pf_columns f)" .
    have "zip cs (map g cs) = map (\<lambda>c. (c, g c)) cs" for cs :: "string list" and g :: "string \<Rightarrow> jsval"
      by (induction cs) simp_all
    with that cells show ?thesis
      by (simp add: exportColumns_def cols s keys ordered_keys js_object_ordered comp_def)
  qed
  show "\<not> distinct (map (label_text num) (pf_index f)) \<Longrightarrow> exportIndex num s = Inl KeyCollision \<and> exportColumns num s = Inl KeyCollision"
    by (simp add: exportIndex_def exportColumns_def keys)
qed

lemma parsed_keyed:
  assumes "frame_ok f" "length ks = length (pf_index f)" "pf_columns f \<noteq> []"
  shows "parseColumns (JObj (map (\<lambda>c. (c, JObj (zip ks (column_of f c)))) (pf_columns f))) = Inr (relabelled f (map LText ks) True)"
proof -
  have "distinct (pf_columns f)" using assms(1) by (simp add: frame_ok_def)
  with assms object_columns_spec [of "pf_columns f" "column_of f" ks None "[]"] obtain data where
    "object_columns None (map (\<lambda>c. (c, JObj (zip ks (column_of f c)))) (pf_columns f)) [] = Inr (Some ks, data)"
    "\<forall>c \<in> set (pf_columns f). mget data c = Some (column_of f c)"
    by (auto simp: ok_lengths)
  then show ?thesis
    using finalize_relabelled [of f data] by (simp add: parseColumns_def comp_def)
qed

lemma parse_keyed_rows:
  assumes "length ks = length vs"
  shows "parseIndex (JObj (zip ks vs)) =
    andthen (object_rows 0 vs ([], [])) (\<lambda>(columns, data). finalizeFrame columns (map LText ks) True data)"
proof -
  have "map (LText \<circ> fst) (zip ks vs) = map LText ks" by (metis assms map_fst_zip map_map)
  then show ?thesis using assms by (simp add: parseIndex_def del: finalizeFrame.simps)
qed

text \<open>A frame without rows and columns.\<close>

definition empty_frame :: "bool \<Rightarrow> parsed_frame" where
  "empty_frame src = \<lparr>pf_columns = [], pf_index = [], pf_source = src, pf_data = [], pf_schema = None, pf_indexField = None\<rparr>"

text \<open>The payloads that carry nothing.\<close>

lemma empty_payloads:
  assumes ok: "frame_ok f" and built: "createFrameState f packThreshold types = Inr s"
  shows "pf_index f = [] \<Longrightarrow> andthen (exportRecords s) parseRecords = Inr (empty_frame False)"
    and "pf_index f = [] \<Longrightarrow> andthen (exportIndex num s) parseIndex = Inr (empty_frame True)"
    and "pf_columns f = [] \<Longrightarrow> distinct (map (label_text num) (pf_index f)) \<Longrightarrow>
      andthen (exportColumns num s) parseColumns = Inr (empty_frame True)"
proof -
  obtain cols where s: "fs_columns s = pf_columns f" "fs_index s = pf_index f" and cols: "resolveStoredColumns s = Inr cols"
    using built_frame [OF ok built] by auto
  have none: "js_object [] = []" by code_simp
  have keys: "resolveIndexKeys num s = (if distinct (map (label_text num) (pf_index f))
      then Inr (map (label_text num) (pf_index f)) else Inl KeyCollision)"
    using resolved_keys [of "[]" num "pf_index f"] by (simp add: resolveIndexKeys_def s)
  show "andthen (exportRecords s) parseRecords = Inr (empty_frame False)" if "pf_index f = []"
    using that by (simp add: exportRecords_def cols s parseRecords_def empty_frame_def)
  show "andthen (exportIndex num s) parseIndex = Inr (empty_frame True)" if "pf_index f = []"
    using that by (simp add: exportIndex_def keys cols s none parseIndex_def empty_frame_def)
  show "andthen (exportColumns num s) parseColumns = Inr (empty_frame True)"
    if "pf_columns f = []" "distinct (map (label_text num) (pf_index f))"
    using that by (simp add: exportColumns_def keys cols s none parseColumns_def empty_frame_def)
qed

text \<open>C36: The frame that a state was built from comes back from its payloads, packed columns included: under its own
  labels from a split payload, and under row numbers from rows of cells; from records, when it has rows and its columns
  are in the order of object keys, under row numbers; from payloads keyed by index labels, when the texts of the labels
  and the columns are in that order and there are rows (in an index payload) or columns (in a columns payload), under the
  texts of the labels. Records and index payloads without rows and columns payloads without columns come back as the
  frame without rows and columns, and labels with equal texts are refused as keys.\<close>

theorem frames_roundtrip:
  assumes ok: "frame_ok f" and built: "createFrameState f packThreshold types = Inr s"
  shows "andthen (exportSplit s) parseSplit = Inr (relabelled f (pf_index f) True) \<and>
    andthen (exportValues s) (\<lambda>v. parseValues v (Some (fs_columns s))) =
      Inr (relabelled f (map position_label [0..<length (pf_index f)]) False) \<and>
    (js_ordered (pf_columns f) \<and> pf_index f \<noteq> [] \<longrightarrow>
      andthen (exportRecords s) parseRecords = Inr (relabelled f (map position_label [0..<length (pf_index f)]) False)) \<and>
    (js_ordered (pf_columns f) \<and> js_ordered (map (label_text num) (pf_index f)) \<and> pf_index f \<noteq> [] \<longrightarrow>
      andthen (exportIndex num s) parseIndex = Inr (relabelled f (map LText (map (label_text num) (pf_index f))) True)) \<and>
    (js_ordered (pf_columns f) \<and> js_ordered (map (label_text num) (pf_index f)) \<and> pf_columns f \<noteq> [] \<longrightarrow>
      andthen (exportColumns num s) parseColumns = Inr (relabelled f (map LText (map (label_text num) (pf_index f))) True)) \<and>
    (pf_index f = [] \<longrightarrow> andthen (exportRecords s) parseRecords = Inr (empty_frame False) \<and>
      andthen (exportIndex num s) parseIndex = Inr (empty_frame True)) \<and>
    (pf_columns f = [] \<and> distinct (map (label_text num) (pf_index f)) \<longrightarrow>
      andthen (exportColumns num s) parseColumns = Inr (empty_frame True)) \<and>
    (\<not> distinct (map (label_text num) (pf_index f)) \<longrightarrow>
      exportIndex num s = Inl KeyCollision \<and> exportColumns num s = Inl KeyCollision)"
proof (intro conjI impI; (elim conjE)?)
  note rows = exported_rows [OF ok built]
  have s: "fs_columns s = pf_columns f" "fs_index s = pf_index f" using built_frame [OF ok built] by auto
  have "distinct (pf_columns f)" "list_all (\<lambda>l. case l of LNumber x \<Rightarrow> is_finite x | LText s \<Rightarrow> True) (pf_index f)"
    using ok by (simp_all add: frame_ok_def)
  then show "andthen (exportSplit s) parseSplit = Inr (relabelled f (pf_index f) True)"
    using parsed_arrays [OF ok, of "pf_index f" True] unique_columns [of "[]" "pf_columns f"]
    by (auto simp: exportSplit_def rows(1) parseSplit_def s finite_labels)
  show "andthen (exportValues s) (\<lambda>v. parseValues v (Some (fs_columns s))) =
       Inr (relabelled f (map position_label [0..<length (pf_index f)]) False)"
    using parsed_arrays [OF ok, of "map position_label [0..<length (pf_index f)]" False]
    by (auto simp: rows(1) parseValues_def s)
  show "andthen (exportRecords s) parseRecords = Inr (relabelled f (map position_label [0..<length (pf_index f)]) False)"
    if "js_ordered (pf_columns f)" "pf_index f \<noteq> []"
    using parsed_objects [OF ok that(2), of "map position_label [0..<length (pf_index f)]" False] that
    by (auto simp: rows(2) parseRecords_def)
  show "andthen (exportIndex num s) parseIndex = Inr (relabelled f (map LText (map (label_text num) (pf_index f))) True)"
    if "js_ordered (pf_columns f)" "js_ordered (map (label_text num) (pf_index f))" "pf_index f \<noteq> []"
    using parsed_objects [OF ok that(3), of "map LText (map (label_text num) (pf_index f))" True] that
    by (auto simp: rows(3) parse_keyed_rows simp del: finalizeFrame.simps map_map)
  show "andthen (exportColumns num s) parseColumns = Inr (relabelled f (map LText (map (label_text num) (pf_index f))) True)"
    if "js_ordered (pf_columns f)" "js_ordered (map (label_text num) (pf_index f))" "pf_columns f \<noteq> []"
    using parsed_keyed [OF ok, of "map (label_text num) (pf_index f)"] that by (simp add: rows(4))
  note empty = empty_payloads [OF ok built]
  show "andthen (exportRecords s) parseRecords = Inr (empty_frame False)" "andthen (exportIndex num s) parseIndex = Inr (empty_frame True)"
    if "pf_index f = []" using empty(1,2) that by simp_all
  show "andthen (exportColumns num s) parseColumns = Inr (empty_frame True)"
    if "pf_columns f = []" "distinct (map (label_text num) (pf_index f))" using that by (rule empty(3))
  show "exportIndex num s = Inl KeyCollision" "exportColumns num s = Inl KeyCollision"
    if "\<not> distinct (map (label_text num) (pf_index f))"
    using rows(5) [OF that] by simp_all
qed

text \<open>A frame of two columns, one packed into 32-bit words.\<close>

definition demo_frame :: parsed_frame where
  "demo_frame = \<lparr>pf_columns = [''n'', ''t''], pf_index = [LText ''x'', LText ''y''], pf_source = True,
     pf_data = [(''n'', [jint 7, jint (- 2)]), (''t'', [JStr ''a'', JNull])], pf_schema = None, pf_indexField = None\<rparr>"

definition demo_state :: frame_state where
  "demo_state = (case createFrameState demo_frame 2 [] of Inr s \<Rightarrow> s | Inl e \<Rightarrow>
     \<lparr>fs_columns = [], fs_index = [], fs_source = False, fs_data = [], fs_info = [], fs_schema = None, fs_indexField = None\<rparr>)"

lemma demo_built: "createFrameState demo_frame 2 [] = Inr demo_state" "frame_ok demo_frame" "mget (fs_data demo_state) ''n'' = Some (Int32s [7, - 2])"
  by code_simp+

theorem frames_roundtrip_witness:
  "andthen (exportSplit demo_state) parseSplit = Inr demo_frame"
proof -
  have "relabelled demo_frame (pf_index demo_frame) True = demo_frame" by code_simp
  then show ?thesis using frames_roundtrip [OF demo_built(2,1)] by simp
qed

end
