(* ===== verification/FrameTransform.thy ===== *)
theory FrameTransform
  imports FrameExport "HOL-Library.Multiset"
begin

text \<open>
  The transforms of a data frame, frame/DataFrame.ts of packages/json-frame, with \<open>createFrameStateFromRebuiltData\<close>
  of frame/column.ts: filter, sort, select, rename and resetIndex, each a new state over rebuilt columns, and the
  table schema that travels with the columns. A predicate and a comparator are functions of the application; they
  get a row as an object. \<open>Array.prototype.sort\<close> is an insertion sort: for a consistent comparator every stable
  sort gives that list.
\<close>

section \<open>Rebuilding\<close>

definition hasNullValue :: "jsval list \<Rightarrow> bool" where
  "hasNullValue values = list_ex (\<lambda>v. v = JNull) values"

fun rebuild_columns ::
  "nat \<Rightarrow> columns_data \<Rightarrow> (string, column_info) jsmap \<Rightarrow> string list \<Rightarrow> (string, stored_column) jsmap \<Rightarrow> (string, column_info) jsmap \<Rightarrow>
     frame_error + (string, stored_column) jsmap \<times> (string, column_info) jsmap"
where
  "rebuild_columns packThreshold source infos [] data info = Inr (data, info)"
| "rebuild_columns packThreshold source infos (column # cs) data info =
     (case (mget source column, mget infos column) of
        (None, _) \<Rightarrow> Inl MissingColumn
      | (Some values, None) \<Rightarrow> Inl MissingInfo
      | (Some values, Some sourceInfo) \<Rightarrow>
          (let column_info = \<lparr>ci_type = ci_type sourceInfo, ci_nullable = ci_nullable sourceInfo \<and> hasNullValue values\<rparr>
           in rebuild_columns packThreshold source infos cs
                (mput column (packColumn values column_info packThreshold) data) (mput column column_info info)))"

fun columnInfoOverrides ::
  "frame_state \<Rightarrow> (string \<times> string) list \<Rightarrow> (string, column_info) jsmap \<Rightarrow> frame_error + (string, column_info) jsmap"
where
  "columnInfoOverrides state [] infos = Inr infos"
| "columnInfoOverrides state ((column, source) # ps) infos =
     (case mget (fs_info state) source of
        None \<Rightarrow> Inl MissingInfo
      | Some i \<Rightarrow> columnInfoOverrides state ps (mput column i infos))"

fun rebuilt_data :: "frame_state \<Rightarrow> nat list \<Rightarrow> (string \<times> string) list \<Rightarrow> columns_data \<Rightarrow> frame_error + columns_data" where
  "rebuilt_data state positions [] data = Inr data"
| "rebuilt_data state positions ((column, source) # ps) data =
     (case mget (fs_data state) source of
        None \<Rightarrow> Inl MissingColumn
      | Some stored \<Rightarrow> rebuilt_data state positions ps (mput column (rebuildStoredColumn stored positions) data))"

text \<open>Each pair is a column of the result with the column it comes from.\<close>

definition rebuild ::
  "nat \<Rightarrow> frame_state \<Rightarrow> (string \<times> string) list \<Rightarrow> nat list \<Rightarrow> index_label list \<Rightarrow> bool \<Rightarrow> jsval option \<Rightarrow> string option \<Rightarrow>
     frame_error + frame_state"
where
  "rebuild packThreshold state pairs positions labels src schema indexField =
     andthen (columnInfoOverrides state pairs []) (\<lambda>infos.
     andthen (rebuilt_data state positions pairs []) (\<lambda>source.
     andthen (rebuild_columns packThreshold source infos (map fst pairs) [] []) (\<lambda>(data, info).
     Inr \<lparr>fs_columns = map fst pairs, fs_index = labels, fs_source = src, fs_data = data, fs_info = info,
          fs_schema = schema, fs_indexField = indexField\<rparr>)))"

definition createRow :: "frame_state \<Rightarrow> nat \<Rightarrow> frame_error + jsval" where
  "createRow state position = andthen (resolveStoredColumns state) (\<lambda>cols. Inr (row_object state cols position))"

definition row_at_position :: "frame_state \<Rightarrow> jsnum \<Rightarrow> frame_error + jsval" where
  "row_at_position state position =
     (case position of
        Fin q \<Rightarrow> if is_integer (Fin q) \<and> 0 \<le> \<lfloor>q\<rfloor> \<and> \<lfloor>q\<rfloor> < int (length (fs_index state)) then createRow state (nat \<lfloor>q\<rfloor>) else Inl BadPosition
      | _ \<Rightarrow> Inl BadPosition)"

section \<open>Rows\<close>

text \<open>A row with its position and label.\<close>

type_synonym entry = "nat \<times> index_label \<times> jsval"

type_synonym comparator = "jsval \<Rightarrow> jsval \<Rightarrow> index_label \<Rightarrow> index_label \<Rightarrow> nat \<Rightarrow> nat \<Rightarrow> jsnum"

fun frame_entries :: "frame_state \<Rightarrow> nat list \<Rightarrow> frame_error + entry list" where
  "frame_entries state [] = Inr []"
| "frame_entries state (p # ps) =
     andthen (createRow state p) (\<lambda>row. andthen (frame_entries state ps) (\<lambda>es. Inr ((p, fs_index state ! p, row) # es)))"

definition all_positions :: "frame_state \<Rightarrow> nat list" where
  "all_positions state = [0..<length (fs_index state)]"

definition identical :: "string list \<Rightarrow> (string \<times> string) list" where
  "identical columns = map (\<lambda>c. (c, c)) columns"

definition filter_frame :: "nat \<Rightarrow> (jsval \<Rightarrow> index_label \<Rightarrow> nat \<Rightarrow> bool) \<Rightarrow> frame_state \<Rightarrow> frame_error + frame_state" where
  "filter_frame packThreshold predicate state =
     andthen (frame_entries state (all_positions state)) (\<lambda>es.
     let kept = map fst (filter (\<lambda>(p, label, row). predicate row label p) es)
     in rebuild packThreshold state (identical (fs_columns state)) kept (map ((!) (fs_index state)) kept) (fs_source state)
          (fs_schema state) (fs_indexField state))"

text \<open>The sign of what a comparator returns; \<open>NaN\<close> counts as zero, and equal rows keep their order.\<close>

fun order_sign :: "jsnum \<Rightarrow> int" where
  "order_sign (Fin d) = (if d < 0 then - 1 else if d = 0 then 0 else 1)"
| "order_sign NegInf = - 1"
| "order_sign PosInf = 1"
| "order_sign NaN = 0"

definition entry_sign :: "comparator \<Rightarrow> entry \<Rightarrow> entry \<Rightarrow> int" where
  "entry_sign compare a b =
     order_sign (compare (snd (snd a)) (snd (snd b)) (fst (snd a)) (fst (snd b)) (fst a) (fst b))"

definition entry_before :: "comparator \<Rightarrow> entry \<Rightarrow> entry \<Rightarrow> bool" where
  "entry_before compare a b \<longleftrightarrow> entry_sign compare a b < 0 \<or> (entry_sign compare a b = 0 \<and> fst a < fst b)"

fun insert_entry :: "('e \<Rightarrow> 'e \<Rightarrow> bool) \<Rightarrow> 'e \<Rightarrow> 'e list \<Rightarrow> 'e list" where
  "insert_entry before x [] = [x]"
| "insert_entry before x (y # ys) = (if before x y then x # y # ys else y # insert_entry before x ys)"

definition sort_entries_by :: "comparator \<Rightarrow> entry list \<Rightarrow> entry list" where
  "sort_entries_by compare es = foldr (insert_entry (entry_before compare)) es []"

definition sort_frame :: "nat \<Rightarrow> comparator \<Rightarrow> frame_state \<Rightarrow> frame_error + frame_state" where
  "sort_frame packThreshold compare state =
     andthen (frame_entries state (all_positions state)) (\<lambda>es.
     let ordering = sort_entries_by compare es
     in rebuild packThreshold state (identical (fs_columns state)) (map fst ordering) (map (fst \<circ> snd) ordering)
          (fs_source state) (fs_schema state) (fs_indexField state))"

section \<open>Schema fields\<close>

definition schema_fields :: "jsval \<Rightarrow> jsval list" where
  "schema_fields schema = (case jprop schema ''fields'' of JArr fs \<Rightarrow> fs | _ \<Rightarrow> [])"

definition field_name :: "jsval \<Rightarrow> string" where
  "field_name field = (case jprop field ''name'' of JStr n \<Rightarrow> n | _ \<Rightarrow> [])"

definition cloneField :: "jsval \<Rightarrow> string \<Rightarrow> jsval" where
  "cloneField field name = (case field of JObj ps \<Rightarrow> JObj (mput ''name'' (JStr name) ps) | v \<Rightarrow> v)"

text \<open>The primary key of the result is \<open>undefined\<close> when it has none.\<close>

definition cloneSchema :: "jsval \<Rightarrow> jsval list \<Rightarrow> jsval \<Rightarrow> jsval" where
  "cloneSchema schema field_list primaryKey =
     (case schema of
        JObj ps \<Rightarrow>
          JObj (filter (\<lambda>(k, v). k \<noteq> ''fields'' \<and> k \<noteq> ''primaryKey'') ps @ [(''fields'', JArr field_list)] @
            (if primaryKey = JUndef then [] else [(''primaryKey'', primaryKey)]))
      | v \<Rightarrow> v)"

definition by_name :: "jsval list \<Rightarrow> (string, jsval) jsmap" where
  "by_name field_list = foldl (\<lambda>m f. mput (field_name f) f m) [] field_list"

definition in_column_order :: "string list \<Rightarrow> jsval list \<Rightarrow> jsval list" where
  "in_column_order columns field_list = List.map_filter (mget (by_name field_list)) columns"

fun find_field :: "string \<Rightarrow> jsval list \<Rightarrow> nat option" where
  "find_field name [] = None"
| "find_field name (f # fs) = (if field_name f = name then Some 0 else map_option Suc (find_field name fs))"

text \<open>The fields of the data columns next to the field of the index.\<close>

definition split_index_field :: "string list \<Rightarrow> jsval list \<Rightarrow> string \<Rightarrow> jsval option \<times> jsval list" where
  "split_index_field columns field_list indexField =
     (if length field_list = length columns + 1 \<and> field_name (hd field_list) = indexField
      then (Some (hd field_list), tl field_list)
      else (case find_field indexField field_list of
              None \<Rightarrow> (None, field_list)
            | Some i \<Rightarrow> (Some (field_list ! i), take i field_list @ drop (Suc i) field_list)))"

definition aligned_fields :: "string list \<Rightarrow> jsval list \<Rightarrow> jsval list" where
  "aligned_fields columns dataSlice =
     (let ordered = in_column_order columns dataSlice
      in if length ordered = length columns then ordered else if length dataSlice = length columns then dataSlice else ordered)"

text \<open>The index field, the field of each column, and the fields in the order of the columns.\<close>

definition partitionSchemaFields :: "frame_state \<Rightarrow> jsval option \<times> (string \<times> jsval) list \<times> jsval list" where
  "partitionSchemaFields state =
     (case fs_schema state of
        None \<Rightarrow> (None, [], [])
      | Some schema \<Rightarrow>
          (let field_list = schema_fields schema; columns = fs_columns state
           in case fs_indexField state of
                None \<Rightarrow> (let ordered = in_column_order columns field_list in (None, zip columns ordered, ordered))
              | Some k \<Rightarrow>
                  if distinct (map field_name field_list)
                  then (let ordered = in_column_order columns field_list
                        in (mget (by_name field_list) k, zip columns ordered, ordered))
                  else (let (indexTemplate, dataSlice) = split_index_field columns field_list k;
                            ordered = aligned_fields columns dataSlice
                        in (indexTemplate, zip columns ordered, ordered))))"

definition template_of :: "jsval option \<Rightarrow> jsval list" where
  "template_of t = (case t of Some f \<Rightarrow> [cloneField f (field_name f)] | None \<Rightarrow> [])"

definition selectSchema :: "frame_state \<Rightarrow> string list \<Rightarrow> jsval option \<times> string option" where
  "selectSchema state columns =
     (case fs_schema state of
        None \<Rightarrow> (None, None)
      | Some schema \<Rightarrow>
          (let (indexTemplate, dataByColumn, ordered) = partitionSchemaFields state;
               fs = (if fs_indexField state = None then [] else template_of indexTemplate) @
                 List.map_filter (\<lambda>c. map_option (\<lambda>f. cloneField f (field_name f)) (mget dataByColumn c)) columns
           in (Some (cloneSchema schema fs (jprop schema ''primaryKey'')), fs_indexField state)))"

definition renamed :: "(string \<times> jsval) list \<Rightarrow> string \<Rightarrow> string" where
  "renamed mapping column = (case mget mapping column of Some (JStr s) \<Rightarrow> s | _ \<Rightarrow> column)"

definition renameSchema :: "frame_state \<Rightarrow> (string \<times> jsval) list \<Rightarrow> string list \<Rightarrow> jsval option \<times> string option" where
  "renameSchema state mapping nextColumns =
     (case fs_schema state of
        None \<Rightarrow> (None, None)
      | Some schema \<Rightarrow>
          (let field_list = schema_fields schema;
               collidesWithIndex = (case fs_indexField state of Some k \<Rightarrow> k \<in> set nextColumns | None \<Rightarrow> False);
               fs = (if distinct (map field_name field_list) \<and> \<not> collidesWithIndex
                     then map (\<lambda>f. if field_name f \<notin> set (fs_columns state) then cloneField f (field_name f)
                                   else cloneField f (renamed mapping (field_name f))) field_list
                     else (let (indexTemplate, dataByColumn, ordered) = partitionSchemaFields state
                           in (if fs_indexField state = None then [] else template_of indexTemplate) @
                              map (\<lambda>(c, f). cloneField f (renamed mapping c)) (zip (fs_columns state) ordered)))
           in (Some (cloneSchema schema fs (jprop schema ''primaryKey'')), fs_indexField state)))"

definition resetIndexSchema :: "frame_state \<Rightarrow> jsval option \<times> string option" where
  "resetIndexSchema state =
     (case fs_schema state of
        None \<Rightarrow> (None, None)
      | Some schema \<Rightarrow>
          (case fs_indexField state of
             None \<Rightarrow> (Some (cloneSchema schema (map (\<lambda>f. cloneField f (field_name f)) (schema_fields schema)) JUndef), None)
           | Some k \<Rightarrow>
               (let (indexTemplate, dataByColumn, ordered) = partitionSchemaFields state;
                    fs = (if length ordered = length (fs_columns state) then ordered
                          else filter (\<lambda>f. field_name f \<noteq> k) (schema_fields schema))
                in (Some (cloneSchema schema (map (\<lambda>f. cloneField f (field_name f)) fs) JUndef), None))))"

section \<open>Columns\<close>

fun check_selected :: "frame_state \<Rightarrow> string list \<Rightarrow> string list \<Rightarrow> frame_error + unit" where
  "check_selected state [] seen = Inr ()"
| "check_selected state (c # cs) seen =
     (if mget (fs_data state) c = None then Inl UnknownColumn
      else if c \<in> set seen then Inl RepeatedColumn
      else check_selected state cs (c # seen))"

definition select_frame :: "nat \<Rightarrow> string list \<Rightarrow> frame_state \<Rightarrow> frame_error + frame_state" where
  "select_frame packThreshold columns state =
     andthen (check_selected state columns []) (\<lambda>_.
     let (schema, indexField) = selectSchema state columns
     in rebuild packThreshold state (identical columns) (all_positions state) (fs_index state) (fs_source state) schema indexField)"

fun next_columns :: "(string \<times> jsval) list \<Rightarrow> string list \<Rightarrow> frame_error + string list" where
  "next_columns mapping [] = Inr []"
| "next_columns mapping (c # cs) =
     (case mget mapping c of
        None \<Rightarrow> andthen (next_columns mapping cs) (\<lambda>ds. Inr (c # ds))
      | Some (JStr s) \<Rightarrow> andthen (next_columns mapping cs) (\<lambda>ds. Inr (s # ds))
      | Some v \<Rightarrow> Inl BadMapping)"

definition rename_frame :: "nat \<Rightarrow> jsval \<Rightarrow> frame_state \<Rightarrow> frame_error + frame_state" where
  "rename_frame packThreshold mapping state =
     (case mapping of
        JObj ps \<Rightarrow>
          andthen (next_columns ps (fs_columns state)) (\<lambda>nextColumns.
          andthen (guard RepeatedColumn (distinct nextColumns)) (\<lambda>_.
          let (schema, indexField) = renameSchema state ps nextColumns
          in rebuild packThreshold state (zip nextColumns (fs_columns state)) (all_positions state) (fs_index state)
               (fs_source state) schema indexField))
      | _ \<Rightarrow> Inl BadMapping)"

definition resetIndex :: "nat \<Rightarrow> frame_state \<Rightarrow> frame_error + frame_state" where
  "resetIndex packThreshold state =
     (let (schema, indexField) = resetIndexSchema state
      in rebuild packThreshold state (identical (fs_columns state)) (all_positions state)
           (map position_label (all_positions state)) False schema indexField)"

section \<open>The invariant of a state\<close>

definition column_values :: "frame_state \<Rightarrow> string \<Rightarrow> jsval list" where
  "column_values s c = (case mget (fs_data s) c of Some col \<Rightarrow> materializeColumn col | None \<Rightarrow> [])"

definition column_ok :: "frame_state \<Rightarrow> string \<Rightarrow> bool" where
  "column_ok s c =
     (case (mget (fs_data s) c, mget (fs_info s) c) of
        (Some col, Some i) \<Rightarrow>
          length (materializeColumn col) = length (fs_index s) \<and> ci_nullable i = (JNull \<in> set (materializeColumn col))
      | _ \<Rightarrow> False)"

definition state_ok :: "frame_state \<Rightarrow> bool" where
  "state_ok s \<longleftrightarrow> distinct (fs_columns s) \<and> list_all (column_ok s) (fs_columns s) \<and>
     list_all (\<lambda>(c, col). c \<in> set (fs_columns s)) (fs_data s)"

lemma state_okD:
  assumes "state_ok s"
  shows "distinct (fs_columns s)"
    "c \<in> set (fs_columns s) \<Longrightarrow> \<exists>col i. mget (fs_data s) c = Some col \<and> mget (fs_info s) c = Some i \<and>
       materializeColumn col = column_values s c \<and> ci_nullable i = (JNull \<in> set (column_values s c))"
    "c \<in> set (fs_columns s) \<Longrightarrow> length (column_values s c) = length (fs_index s)"
    "mget (fs_data s) c = None \<longleftrightarrow> c \<notin> set (fs_columns s)"
proof -
  have ok: "column_ok s c" if "c \<in> set (fs_columns s)" for c
    using assms that by (simp add: state_ok_def list_all_iff)
  show "distinct (fs_columns s)" using assms by (simp add: state_ok_def)
  show "\<exists>col i. mget (fs_data s) c = Some col \<and> mget (fs_info s) c = Some i \<and>
       materializeColumn col = column_values s c \<and> ci_nullable i = (JNull \<in> set (column_values s c))"
    "length (column_values s c) = length (fs_index s)" if "c \<in> set (fs_columns s)"
    using ok [OF that] by (auto simp: column_ok_def column_values_def split: option.splits)
  show "mget (fs_data s) c = None \<longleftrightarrow> c \<notin> set (fs_columns s)"
  proof
    show "c \<notin> set (fs_columns s)" if "mget (fs_data s) c = None"
      using ok [of c] that by (auto simp: column_ok_def)
    show "mget (fs_data s) c = None" if "c \<notin> set (fs_columns s)"
      using assms that by (auto simp: state_ok_def list_all_iff map_of_eq_None_iff)
  qed
qed

lemma has_null: "hasNullValue vs \<longleftrightarrow> JNull \<in> set vs"
  by (auto simp: hasNullValue_def list_ex_iff)

lemma overridden_infos:
  "distinct (map fst ps) \<Longrightarrow> (\<And>c d. (c, d) \<in> set ps \<Longrightarrow> mget (fs_info s) d \<noteq> None) \<Longrightarrow>
   \<exists>r. columnInfoOverrides s ps infos = Inr r \<and>
     (\<forall>c. mget r c = (case map_of ps c of Some d \<Rightarrow> mget (fs_info s) d | None \<Rightarrow> mget infos c))"
proof (induction ps arbitrary: infos)
  case (Cons p ps)
  obtain c d where p: "p = (c, d)" by (cases p)
  have "mget (fs_info s) d \<noteq> None" using Cons.prems(2) [of c d] by (simp add: p)
  then obtain i where i: "mget (fs_info s) d = Some i" by blast
  have "distinct (map fst ps)" "map_of ps c = None" using Cons.prems(1) by (auto simp: p map_of_eq_None_iff)
  moreover obtain r where "columnInfoOverrides s ps (mput c i infos) = Inr r"
    "\<forall>c'. mget r c' = (case map_of ps c' of Some d \<Rightarrow> mget (fs_info s) d | None \<Rightarrow> mget (mput c i infos) c')"
    using Cons.IH [of "mput c i infos"] Cons.prems by (auto simp: p)
  ultimately show ?case by (auto simp: p i split: option.splits)
qed simp

lemma rebuilt_values:
  "distinct (map fst ps) \<Longrightarrow> (\<And>c d. (c, d) \<in> set ps \<Longrightarrow> mget (fs_data s) d \<noteq> None) \<Longrightarrow>
   \<exists>r. rebuilt_data s positions ps data = Inr r \<and>
     (\<forall>c. mget r c = (case map_of ps c of Some d \<Rightarrow> Some (rebuildStoredColumn (the (mget (fs_data s) d)) positions) | None \<Rightarrow> mget data c))"
proof (induction ps arbitrary: data)
  case (Cons p ps)
  obtain c d where p: "p = (c, d)" by (cases p)
  have "mget (fs_data s) d \<noteq> None" using Cons.prems(2) [of c d] by (simp add: p)
  then obtain col where col: "mget (fs_data s) d = Some col" by blast
  let ?data = "mput c (rebuildStoredColumn col positions) data"
  have "distinct (map fst ps)" "map_of ps c = None" using Cons.prems(1) by (auto simp: p map_of_eq_None_iff)
  moreover obtain r where "rebuilt_data s positions ps ?data = Inr r"
    "\<forall>c'. mget r c' = (case map_of ps c' of Some d \<Rightarrow> Some (rebuildStoredColumn (the (mget (fs_data s) d)) positions) | None \<Rightarrow> mget ?data c')"
    using Cons.IH [of ?data] Cons.prems by (auto simp: p)
  ultimately show ?case by (auto simp: p col split: option.splits)
qed simp

definition narrowed :: "column_info \<Rightarrow> jsval list \<Rightarrow> column_info" where
  "narrowed i values = \<lparr>ci_type = ci_type i, ci_nullable = ci_nullable i \<and> hasNullValue values\<rparr>"

lemma rebuilt_columns:
  "distinct cs \<Longrightarrow> (\<And>c. c \<in> set cs \<Longrightarrow> mget source c = Some (vs c) \<and> mget infos c = Some (ic c)) \<Longrightarrow>
   \<exists>d i. rebuild_columns t source infos cs data info = Inr (d, i) \<and>
     (\<forall>c. mget d c = (if c \<in> set cs then Some (packColumn (vs c) (narrowed (ic c) (vs c)) t) else mget data c)) \<and>
     (\<forall>c. mget i c = (if c \<in> set cs then Some (narrowed (ic c) (vs c)) else mget info c))"
proof (induction cs arbitrary: data info)
  case (Cons c cs)
  let ?i = "narrowed (ic c) (vs c)"
  obtain d i where "rebuild_columns t source infos cs (mput c (packColumn (vs c) ?i t) data) (mput c ?i info) = Inr (d, i)"
    "\<forall>c'. mget d c' = (if c' \<in> set cs then Some (packColumn (vs c') (narrowed (ic c') (vs c')) t)
       else mget (mput c (packColumn (vs c) ?i t) data) c')"
    "\<forall>c'. mget i c' = (if c' \<in> set cs then Some (narrowed (ic c') (vs c')) else mget (mput c ?i info) c')"
    using Cons.IH [of "mput c (packColumn (vs c) ?i t) data" "mput c ?i info"] Cons.prems by auto
  then show ?case
    using Cons.prems by (auto simp: narrowed_def [symmetric] Let_def)
qed simp

lemma rebuilt_values_at:
  "state_ok s \<Longrightarrow> d \<in> set (fs_columns s) \<Longrightarrow> list_all (\<lambda>p. p < length (fs_index s)) positions \<Longrightarrow>
   rebuildStoredColumn (the (mget (fs_data s) d)) positions = map ((!) (column_values s d)) positions"
  using state_okD(2,3) [of s d] by (auto simp: rebuildStoredColumn_def get_materialized list_all_iff)

text \<open>A transform that takes each column from one of the source, at the given positions.\<close>

lemma rebuilt:
  assumes ok: "state_ok s" and dist: "distinct (map fst ps)" and sources: "set (map snd ps) \<subseteq> set (fs_columns s)"
    and positions: "list_all (\<lambda>p. p < length (fs_index s)) positions" and labels: "length labels = length positions"
  shows "\<exists>s'. rebuild t s ps positions labels src schema k = Inr s' \<and> state_ok s' \<and> fs_columns s' = map fst ps \<and>
    fs_index s' = labels \<and> fs_source s' = src \<and> fs_schema s' = schema \<and> fs_indexField s' = k \<and>
    (\<forall>(c, d) \<in> set ps. column_values s' c = map ((!) (column_values s d)) positions \<and>
       map_option ci_type (mget (fs_info s') c) = map_option ci_type (mget (fs_info s) d))"
proof -
  have source: "d \<in> set (fs_columns s)" if "(c, d) \<in> set ps" for c d using that sources by force
  have some: "mget (fs_data s) d \<noteq> None" "mget (fs_info s) d \<noteq> None" if "(c, d) \<in> set ps" for c d
    using state_okD(2) [OF ok source [OF that]] by auto
  have pair: "\<exists>d. (c, d) \<in> set ps \<and> map_of ps c = Some d" if c: "c \<in> set (map fst ps)" for c
  proof -
    obtain d where "(c, d) \<in> set ps" using c by force
    with dist show ?thesis by (auto intro: map_of_is_SomeI)
  qed
  define ic where "ic c = the (mget (fs_info s) (the (map_of ps c)))" for c
  define vs where "vs c = map ((!) (column_values s (the (map_of ps c)))) positions" for c
  obtain infos where infos: "columnInfoOverrides s ps [] = Inr infos"
    "\<And>c. mget infos c = (case map_of ps c of Some d \<Rightarrow> mget (fs_info s) d | None \<Rightarrow> None)"
  proof -
    have "\<exists>r. columnInfoOverrides s ps [] = Inr r \<and>
      (\<forall>c. mget r c = (case map_of ps c of Some d \<Rightarrow> mget (fs_info s) d | None \<Rightarrow> None))"
      by (rule overridden_infos [OF dist, where infos = "[]", unfolded map_of.simps(1)]) (rule some(2))
    then show ?thesis using that by auto
  qed
  obtain data where data: "rebuilt_data s positions ps [] = Inr data"
    "\<And>c. mget data c = (case map_of ps c of Some d \<Rightarrow> Some (rebuildStoredColumn (the (mget (fs_data s) d)) positions) | None \<Rightarrow> None)"
  proof -
    have "\<exists>r. rebuilt_data s positions ps [] = Inr r \<and>
      (\<forall>c. mget r c = (case map_of ps c of Some d \<Rightarrow> Some (rebuildStoredColumn (the (mget (fs_data s) d)) positions) | None \<Rightarrow> None))"
      by (rule rebuilt_values [OF dist, where data = "[]", unfolded map_of.simps(1)]) (rule some(1))
    then show ?thesis using that by auto
  qed
  have "mget data c = Some (vs c) \<and> mget infos c = Some (ic c)" if c: "c \<in> set (map fst ps)" for c
  proof -
    obtain d where d: "(c, d) \<in> set ps" "map_of ps c = Some d" using pair [OF c] by blast
    then show ?thesis
      using infos(2) [of c] data(2) [of c] some [OF d(1)] rebuilt_values_at [OF ok source [OF d(1)] positions]
      by (auto simp: ic_def vs_def)
  qed
  from rebuilt_columns [OF dist this, where t = t and data = "[]" and info = "[]"] obtain cols i where
    built: "rebuild_columns t data infos (map fst ps) [] [] = Inr (cols, i)" and
    cols: "\<And>c. mget cols c = (if c \<in> set (map fst ps) then Some (packColumn (vs c) (narrowed (ic c) (vs c)) t) else None)" and
    i: "\<And>c. mget i c = (if c \<in> set (map fst ps) then Some (narrowed (ic c) (vs c)) else None)"
    by auto
  define s' where "s' = \<lparr>fs_columns = map fst ps, fs_index = labels, fs_source = src, fs_data = cols, fs_info = i,
          fs_schema = schema, fs_indexField = k\<rparr>"
  have vals: "column_values s' c = vs c" if "c \<in> set (map fst ps)" for c
    using that by (simp add: column_values_def s'_def cols packed_values)
  have "column_ok s' c" if c: "c \<in> set (map fst ps)" for c
  proof -
    obtain d where d: "(c, d) \<in> set ps" "map_of ps c = Some d" using pair [OF c] by blast
    have "ci_nullable (ic c) = (JNull \<in> set (column_values s d))"
      using state_okD(2) [OF ok source [OF d(1)]] d(2) by (auto simp: ic_def)
    moreover have "set (vs c) \<subseteq> set (column_values s d)"
      using positions state_okD(3) [OF ok source [OF d(1)]] by (auto simp: vs_def d(2) list_all_iff)
    ultimately show ?thesis
      using c by (auto simp: column_ok_def s'_def cols i packed_values narrowed_def has_null vs_def labels)
  qed
  moreover have "c \<in> set (map fst ps)" if "(c, col) \<in> set cols" for c col
  proof (rule ccontr)
    assume "c \<notin> set (map fst ps)"
    then have "mget cols c = None" by (simp only: cols if_False)
    then show False using that by (force simp: map_of_eq_None_iff)
  qed
  ultimately have "state_ok s'" by (auto simp: state_ok_def list_all_iff s'_def dist)
  moreover have "column_values s' c = map ((!) (column_values s d)) positions \<and>
       map_option ci_type (mget (fs_info s') c) = map_option ci_type (mget (fs_info s) d)" if "(c, d) \<in> set ps" for c d
  proof -
    have "map_of ps c = Some d" "c \<in> set (map fst ps)" using that dist by force+
    then show ?thesis using vals [of c] some(2) [OF that] by (auto simp: vs_def s'_def i narrowed_def ic_def)
  qed
  moreover have "rebuild t s ps positions labels src schema k = Inr s'"
    by (simp add: rebuild_def infos(1) data(1) built s'_def)
  ultimately show ?thesis by (auto simp: s'_def)
qed

section \<open>A state as a table of rows\<close>

definition rows_of :: "frame_state \<Rightarrow> (index_label \<times> jsval list) list" where
  "rows_of s = map (\<lambda>i. (fs_index s ! i, map (\<lambda>c. column_values s c ! i) (fs_columns s))) [0..<length (fs_index s)]"

text \<open>What a predicate or a comparator gets of a row.\<close>

definition entry_at :: "frame_state \<Rightarrow> nat \<Rightarrow> entry" where
  "entry_at s p = (p, fst (rows_of s ! p), JObj (js_object (zip (fs_columns s) (snd (rows_of s ! p)))))"

lemma rows_length [simp]: "length (rows_of s) = length (fs_index s)"
  by (simp add: rows_of_def)

lemma row_at: "p < length (fs_index s) \<Longrightarrow> rows_of s ! p = (fs_index s ! p, map (\<lambda>c. column_values s c ! p) (fs_columns s))"
  by (simp add: rows_of_def)

lemma created_row:
  assumes "state_ok s" "p < length (fs_index s)"
  shows "createRow s p = Inr (snd (snd (entry_at s p)))"
proof -
  have "\<exists>col. mget (fs_data s) c = Some col \<and> materializeColumn col = column_values s c" if "c \<in> set (fs_columns s)" for c
    using state_okD(2) [OF assms(1) that] by blast
  then obtain cols where cols: "stored_columns s (fs_columns s) = Inr cols"
    "map materializeColumn cols = map (column_values s) (fs_columns s)"
    using stored_values by metis
  have "row_cells cols p = map (\<lambda>c. column_values s c ! p) (fs_columns s)"
    using stored_cells(1) [OF cols(2) state_okD(3) [OF assms(1)] assms(2)] by simp
  then show ?thesis
    using assms(2) by (simp add: createRow_def resolveStoredColumns_def cols(1) row_object_def entry_at_def row_at)
qed

lemma entries_at:
  "state_ok s \<Longrightarrow> list_all (\<lambda>p. p < length (fs_index s)) ps \<Longrightarrow> frame_entries s ps = Inr (map (entry_at s) ps)"
  by (induction ps) (auto simp: created_row entry_at_def row_at)

lemma rebuilt_rows:
  assumes "state_ok s" "distinct (map fst ps)" "set (map snd ps) \<subseteq> set (fs_columns s)"
    "list_all (\<lambda>p. p < length (fs_index s)) positions" "length labels = length positions"
  shows "\<exists>s'. rebuild t s ps positions labels src schema k = Inr s' \<and> state_ok s' \<and> fs_columns s' = map fst ps \<and>
    fs_source s' = src \<and> fs_schema s' = schema \<and> fs_indexField s' = k \<and>
    rows_of s' = map (\<lambda>(l, p). (l, map (\<lambda>d. column_values s d ! p) (map snd ps))) (zip labels positions)"
proof -
  obtain s' where s': "rebuild t s ps positions labels src schema k = Inr s'" "state_ok s'" "fs_columns s' = map fst ps"
    "fs_index s' = labels" "fs_source s' = src" "fs_schema s' = schema" "fs_indexField s' = k"
    and vals: "\<And>c d. (c, d) \<in> set ps \<Longrightarrow> column_values s' c = map ((!) (column_values s d)) positions"
    using rebuilt [OF assms, of t src schema k] by fast
  have cells: "map (\<lambda>c. column_values s' c ! i) (map fst ps) = map (\<lambda>d. column_values s d ! (positions ! i)) (map snd ps)"
    if "i < length positions" for i
    using that by (auto simp: vals)
  have "rows_of s' = map (\<lambda>(l, p). (l, map (\<lambda>d. column_values s d ! p) (map snd ps))) (zip labels positions)"
    using cells assms(5) by (intro nth_equalityI) (simp_all add: s'(4) row_at s'(3))
  with s' show ?thesis by auto
qed

lemma identical_pairs [simp]: "map fst (identical cs) = cs" "map snd (identical cs) = cs"
  by (simp_all add: identical_def comp_def)

lemma rebuilt_identical:
  assumes "state_ok s" "list_all (\<lambda>p. p < length (fs_index s)) positions" "length labels = length positions"
  shows "\<exists>s'. rebuild t s (identical (fs_columns s)) positions labels src schema k = Inr s' \<and> state_ok s' \<and>
    fs_columns s' = fs_columns s \<and> fs_source s' = src \<and> fs_schema s' = schema \<and> fs_indexField s' = k \<and>
    rows_of s' = map (\<lambda>(l, p). (l, snd (rows_of s ! p))) (zip labels positions)"
proof -
  have eq: "map (\<lambda>(l, p). (l, map (\<lambda>d. column_values s d ! p) (fs_columns s))) (zip labels positions) =
      map (\<lambda>(l, p). (l, snd (rows_of s ! p))) (zip labels positions)"
    using assms(2) by (auto simp: list_all_iff row_at dest!: set_zip_rightD)
  show ?thesis
    by (rule rebuilt_rows [of s "identical (fs_columns s)" positions labels, unfolded identical_pairs eq, OF assms(1)
        state_okD(1) [OF assms(1)] subset_refl assms(2,3)])
qed

lemma kept_rows:
  "list_all (\<lambda>p. p < length (fs_index s)) ps \<Longrightarrow>
   map (\<lambda>(l, p). (l, snd (rows_of s ! p))) (zip (map ((!) (fs_index s)) ps) ps) = map ((!) (rows_of s)) ps"
  by (induction ps) (auto simp: row_at)

section \<open>Sorting\<close>

text \<open>Swapping two rows swaps the sign, and the order is transitive.\<close>

definition consistent :: "comparator \<Rightarrow> entry list \<Rightarrow> bool" where
  "consistent compare es \<longleftrightarrow>
     list_all (\<lambda>a. list_all (\<lambda>b. entry_sign compare a b = - entry_sign compare b a) es) es \<and>
     list_all (\<lambda>a. list_all (\<lambda>b. list_all (\<lambda>c.
       entry_sign compare a b \<le> 0 \<and> entry_sign compare b c \<le> 0 \<longrightarrow> entry_sign compare a c \<le> 0) es) es) es"

lemma mset_insert_entry: "mset (insert_entry before x xs) = add_mset x (mset xs)"
  by (induction xs) auto

lemma set_insert_entry: "set (insert_entry before x xs) = insert x (set xs)"
  by (induction xs) auto

lemma mset_sort_entries: "mset (sort_entries_by compare es) = mset es"
  by (induction es) (simp_all add: sort_entries_by_def mset_insert_entry)

lemma sorted_insert_entry:
  "sorted_wrt before xs \<Longrightarrow> (\<And>y. y \<in> set xs \<Longrightarrow> before x y \<or> before y x) \<Longrightarrow>
   (\<And>y z. y \<in> set xs \<Longrightarrow> z \<in> set xs \<Longrightarrow> before x y \<Longrightarrow> before y z \<Longrightarrow> before x z) \<Longrightarrow>
   sorted_wrt before (insert_entry before x xs)"
  by (induction xs) (auto simp: set_insert_entry)

lemma entry_before_order:
  assumes "consistent compare es" "a \<in> set es" "b \<in> set es" "c \<in> set es"
  shows "fst a \<noteq> fst b \<Longrightarrow> entry_before compare a b \<or> entry_before compare b a"
    "entry_before compare a b \<Longrightarrow> entry_before compare b c \<Longrightarrow> entry_before compare a c"
proof -
  have swap: "entry_sign compare x y = - entry_sign compare y x" if "x \<in> set es" "y \<in> set es" for x y
    using assms(1) that unfolding consistent_def list_all_iff by blast
  have trans: "entry_sign compare x z \<le> 0" if "x \<in> set es" "y \<in> set es" "z \<in> set es"
    "entry_sign compare x y \<le> 0" "entry_sign compare y z \<le> 0" for x y z
    using assms(1) that unfolding consistent_def list_all_iff by blast
  note mem = assms(2-4)
  show "entry_before compare a b \<or> entry_before compare b a" if "fst a \<noteq> fst b"
    unfolding entry_before_def using that swap [OF mem(1,2)] by linarith
  show "entry_before compare a c" if ab: "entry_before compare a b" and bc: "entry_before compare b c"
  proof -
    have le: "entry_sign compare a b \<le> 0" "entry_sign compare b c \<le> 0"
      using ab bc by (auto simp: entry_before_def)
    show ?thesis
    proof (cases "entry_sign compare a c < 0")
      case False
      then have ca: "entry_sign compare c a \<le> 0" using swap [OF mem(1,3)] by simp
      have ac: "entry_sign compare a c = 0" using False trans [OF mem le] by simp
      have "entry_sign compare b a \<le> 0" by (rule trans [OF mem(2,3,1) le(2) ca])
      moreover have "entry_sign compare c b \<le> 0" by (rule trans [OF mem(3,1,2) ca le(1)])
      ultimately have "entry_sign compare a b = 0" "entry_sign compare b c = 0"
        using le swap [OF mem(1,2)] swap [OF mem(2,3)] by simp_all
      with ab bc have "fst a < fst b" "fst b < fst c" by (simp_all add: entry_before_def)
      then show ?thesis by (simp add: entry_before_def ac)
    qed (simp add: entry_before_def)
  qed
qed

lemma sorted_entries:
  assumes "consistent compare es" "distinct (map fst es)"
  shows "sorted_wrt (entry_before compare) (sort_entries_by compare es)"
proof -
  have "sorted_wrt (entry_before compare) (sort_entries_by compare xs)" if "distinct (map fst xs)" "set xs \<subseteq> set es" for xs
    using that
  proof (induction xs)
    case (Cons x xs)
    have mem: "set (sort_entries_by compare xs) = set xs" by (metis mset_sort_entries set_mset_mset)
    have step: "sort_entries_by compare (x # xs) = insert_entry (entry_before compare) x (sort_entries_by compare xs)"
      by (simp add: sort_entries_by_def)
    have other: "fst x \<noteq> fst y" if "y \<in> set xs" for y using Cons.prems(1) that by force
    have sub: "x \<in> set es" "y \<in> set xs \<Longrightarrow> y \<in> set es" for y using Cons.prems(2) by auto
    show ?case
      unfolding step
    proof (rule sorted_insert_entry)
      show "sorted_wrt (entry_before compare) (sort_entries_by compare xs)" using Cons by simp
      show "entry_before compare x y \<or> entry_before compare y x" if "y \<in> set (sort_entries_by compare xs)" for y
        using entry_before_order(1) [OF assms(1) sub(1) sub(2) sub(1)] other that mem by blast
      show "entry_before compare x z" if "y \<in> set (sort_entries_by compare xs)" "z \<in> set (sort_entries_by compare xs)"
        "entry_before compare x y" "entry_before compare y z" for y z
        using entry_before_order(2) [OF assms(1) sub(1) sub(2) sub(2)] that mem by blast
    qed
  qed (simp add: sort_entries_by_def)
  with assms(2) show ?thesis by blast
qed

section \<open>The transforms on rows\<close>

lemma all_positions_ok [simp]: "list_all (\<lambda>p. p < length (fs_index s)) (all_positions s)"
  by (simp add: all_positions_def list_all_iff)

lemma all_positions_length [simp]: "length (all_positions s) = length (fs_index s)"
  by (simp add: all_positions_def)

lemma entry_fst [simp]: "fst (entry_at s p) = p" by (simp add: entry_at_def)

lemma filtered_rows:
  assumes "state_ok s"
  shows "\<exists>s'. filter_frame t predicate s = Inr s' \<and> state_ok s' \<and> fs_columns s' = fs_columns s \<and>
    fs_schema s' = fs_schema s \<and> fs_indexField s' = fs_indexField s \<and>
    rows_of s' = map ((!) (rows_of s))
      (filter (\<lambda>p. predicate (snd (snd (entry_at s p))) (fst (rows_of s ! p)) p) [0..<length (fs_index s)])"
proof -
  let ?kept = "filter (\<lambda>p. predicate (snd (snd (entry_at s p))) (fst (rows_of s ! p)) p) [0..<length (fs_index s)]"
  have "map fst (filter (\<lambda>(p, label, row). predicate row label p) (map (entry_at s) (all_positions s))) = ?kept"
    by (simp add: filter_map comp_def all_positions_def entry_at_def)
  moreover have "list_all (\<lambda>p. p < length (fs_index s)) ?kept" by (auto simp: list_all_iff)
  ultimately show ?thesis
    using rebuilt_identical [OF assms, of ?kept "map ((!) (fs_index s)) ?kept" t "fs_source s" "fs_schema s" "fs_indexField s"]
    by (auto simp: filter_frame_def entries_at [OF assms] Let_def kept_rows simp del: map_map)
qed

lemma sorted_rows:
  assumes "state_ok s"
  shows "\<exists>s' order. sort_frame t compare s = Inr s' \<and> state_ok s' \<and> fs_columns s' = fs_columns s \<and>
    fs_schema s' = fs_schema s \<and> fs_indexField s' = fs_indexField s \<and>
    rows_of s' = map ((!) (rows_of s)) order \<and> mset order = mset [0..<length (fs_index s)] \<and>
    (consistent compare (map (entry_at s) [0..<length (fs_index s)]) \<longrightarrow>
       sorted_wrt (\<lambda>p q. entry_before compare (entry_at s p) (entry_at s q)) order)"
proof -
  define es where "es = map (entry_at s) [0..<length (fs_index s)]"
  define order where "order = map fst (sort_entries_by compare es)"
  have "mset order = mset (map fst es)" by (simp add: order_def mset_sort_entries)
  also have "map fst es = [0..<length (fs_index s)]" by (simp add: es_def comp_def)
  finally have ms: "mset order = mset [0..<length (fs_index s)]" .
  then have pos: "list_all (\<lambda>p. p < length (fs_index s)) order"
    by (metis (mono_tags, lifting) Ball_set atLeastLessThan_upt atLeastLessThan_iff set_mset_mset)
  have mem: "e = entry_at s (fst e)" "fst e < length (fs_index s)" if "e \<in> set (sort_entries_by compare es)" for e
  proof -
    have "e \<in> set es" using that by (metis mset_sort_entries set_mset_mset)
    then show "e = entry_at s (fst e)" "fst e < length (fs_index s)" by (auto simp: es_def)
  qed
  have labels: "map (fst \<circ> snd) (sort_entries_by compare es) = map ((!) (fs_index s)) order"
    unfolding order_def map_map
  proof (rule map_cong [OF refl])
    fix e assume e: "e \<in> set (sort_entries_by compare es)"
    have "fst (snd e) = fst (snd (entry_at s (fst e)))" using mem(1) [OF e] by simp
    then show "(fst \<circ> snd) e = ((!) (fs_index s) \<circ> fst) e" using mem(2) [OF e] by (simp add: entry_at_def row_at)
  qed
  have of_order: "sort_entries_by compare es = map (entry_at s) order"
    unfolding order_def using mem(1) by (simp add: map_idI)
  have "sorted_wrt (\<lambda>p q. entry_before compare (entry_at s p) (entry_at s q)) order" if "consistent compare es"
    using sorted_entries [OF that] of_order by (simp add: es_def comp_def sorted_wrt_map)
  moreover have "frame_entries s (all_positions s) = Inr es"
    by (simp add: entries_at [OF assms] es_def flip: all_positions_def)
  then have run: "sort_frame t compare s = rebuild t s (identical (fs_columns s)) order (map ((!) (fs_index s)) order)
      (fs_source s) (fs_schema s) (fs_indexField s)"
    by (simp add: sort_frame_def labels flip: order_def)
  moreover obtain s' where "sort_frame t compare s = Inr s'" "state_ok s'" "fs_columns s' = fs_columns s"
    "fs_schema s' = fs_schema s" "fs_indexField s' = fs_indexField s" "rows_of s' = map ((!) (rows_of s)) order"
    using rebuilt_identical [OF assms pos, of "map ((!) (fs_index s)) order" t "fs_source s" "fs_schema s" "fs_indexField s"]
    by (auto simp: run kept_rows [OF pos])
  ultimately show ?thesis using ms unfolding es_def by blast
qed

lemma check_selected_iff:
  "state_ok s \<Longrightarrow> check_selected s cs seen = Inr () \<longleftrightarrow> set cs \<subseteq> set (fs_columns s) \<and> distinct cs \<and> set cs \<inter> set seen = {}"
  by (induction cs arbitrary: seen) (auto simp: state_okD(4))

lemma selected_rows:
  assumes "state_ok s" "set cs \<subseteq> set (fs_columns s)" "distinct cs"
  shows "\<exists>s'. select_frame t cs s = Inr s' \<and> state_ok s' \<and> fs_columns s' = cs \<and>
    (fs_schema s', fs_indexField s') = selectSchema s cs \<and>
    rows_of s' = map (\<lambda>(l, cells). (l, map (\<lambda>c. the (map_of (zip (fs_columns s) cells) c)) cs)) (rows_of s)"
proof -
  obtain schema k where schema: "selectSchema s cs = (schema, k)" by fastforce
  have "check_selected s cs [] = Inr ()" using check_selected_iff [OF assms(1), of cs "[]"] assms by simp
  moreover have eq: "map (\<lambda>(l, p). (l, map (\<lambda>d. column_values s d ! p) cs)) (zip (fs_index s) (all_positions s)) =
      map (\<lambda>(l, cells). (l, map (\<lambda>c. the (map_of (zip (fs_columns s) cells) c)) cs)) (rows_of s)"
    using assms(2) by (intro nth_equalityI) (auto simp: all_positions_def row_at map_of_zip_map)
  ultimately show ?thesis
    using rebuilt_rows [of s "identical cs" "all_positions s" "fs_index s" t "fs_source s" schema k,
        unfolded identical_pairs eq, OF assms(1,3,2) all_positions_ok all_positions_length [symmetric]]
    by (auto simp: select_frame_def schema)
qed

lemma next_columns_iff:
  "next_columns ps cs = Inr ds \<longleftrightarrow>
     list_all (\<lambda>c. case mget ps c of None \<Rightarrow> True | Some v \<Rightarrow> is_str v) cs \<and> ds = map (renamed ps) cs"
  by (induction cs arbitrary: ds) (auto simp: renamed_def andthen_Inr split: option.splits jsval.splits)

lemma renamed_rows:
  assumes "state_ok s" "list_all (\<lambda>c. case mget ps c of None \<Rightarrow> True | Some v \<Rightarrow> is_str v) (fs_columns s)"
    "distinct (map (renamed ps) (fs_columns s))"
  shows "\<exists>s'. rename_frame t (JObj ps) s = Inr s' \<and> state_ok s' \<and> fs_columns s' = map (renamed ps) (fs_columns s) \<and>
    (fs_schema s', fs_indexField s') = renameSchema s ps (map (renamed ps) (fs_columns s)) \<and> rows_of s' = rows_of s"
proof -
  obtain schema k where schema: "renameSchema s ps (map (renamed ps) (fs_columns s)) = (schema, k)" by fastforce
  have "next_columns ps (fs_columns s) = Inr (map (renamed ps) (fs_columns s))" using assms(2) by (simp add: next_columns_iff)
  moreover have eq: "map (\<lambda>(l, p). (l, map (\<lambda>d. column_values s d ! p) (fs_columns s))) (zip (fs_index s) (all_positions s)) = rows_of s"
    by (intro nth_equalityI) (auto simp: all_positions_def row_at)
  moreover have pairs: "map fst (zip (map (renamed ps) (fs_columns s)) (fs_columns s)) = map (renamed ps) (fs_columns s)"
    "map snd (zip (map (renamed ps) (fs_columns s)) (fs_columns s)) = fs_columns s"
    by simp_all
  ultimately show ?thesis
    using rebuilt_rows [of s "zip (map (renamed ps) (fs_columns s)) (fs_columns s)" "all_positions s" "fs_index s" t "fs_source s" schema k,
        unfolded pairs eq, OF assms(1,3) subset_refl all_positions_ok all_positions_length [symmetric]] assms(3)
    by (auto simp: rename_frame_def schema)
qed

lemma reset_rows:
  assumes "state_ok s"
  shows "\<exists>s'. resetIndex t s = Inr s' \<and> state_ok s' \<and> fs_columns s' = fs_columns s \<and> \<not> fs_source s' \<and>
    (fs_schema s', fs_indexField s') = resetIndexSchema s \<and>
    rows_of s' = map (\<lambda>(i, l, cells). (position_label i, cells)) (enumerate 0 (rows_of s))"
proof -
  obtain schema k where schema: "resetIndexSchema s = (schema, k)" by fastforce
  have "map (\<lambda>(l, p). (l, snd (rows_of s ! p))) (zip (map position_label (all_positions s)) (all_positions s)) =
      map (\<lambda>(i, l, cells). (position_label i, cells)) (enumerate 0 (rows_of s))"
    by (intro nth_equalityI) (auto simp: all_positions_def nth_enumerate_eq row_at)
  with rebuilt_identical [OF assms, of "all_positions s" "map position_label (all_positions s)" t False schema k] show ?thesis
    by (auto simp: resetIndex_def schema)
qed

end
