(* ===== verification/FrameSchema.thy ===== *)
theory FrameSchema
  imports FrameTransform
begin

text \<open>
  What the transforms of a data frame keep: a state built from a parsed frame is well formed, every transform is an
  operation on its rows, and the field of the table schema that belongs to a column stays with it, also when a renamed
  column takes the name of the index field.
\<close>

section \<open>States from parsed frames\<close>

lemma nullable_seen: "sk_nullable (fold see_value vs s) \<longleftrightarrow> sk_nullable s \<or> JNull \<in> set vs"
proof (induction vs arbitrary: s)
  case (Cons v vs)
  then show ?case by (cases v) auto
qed simp

lemma inferred_nullable: "ci_nullable (inferColumnType vs) \<longleftrightarrow> JNull \<in> set vs"
  by (simp add: inferColumnType_def Let_def nullable_seen)

lemma built_infos:
  "build_columns st ct t source cs data info = Inr (data', info') \<Longrightarrow> distinct cs \<Longrightarrow>
   (c \<in> set cs \<longrightarrow> (\<exists>i vs. mget info' c = Some i \<and> mget source c = Some vs \<and> ci_nullable i = (JNull \<in> set vs))) \<and>
   (c \<notin> set cs \<longrightarrow> mget info' c = mget info c)"
proof (induction cs arbitrary: data info)
  case (Cons d cs)
  then show ?case
    by (cases "mget source d") (auto simp: Let_def andthen_Inr inferred_nullable)
qed simp

lemma created_state:
  assumes ok: "frame_ok f" and created: "createFrameState f t ct = Inr s"
  shows "state_ok s \<and> fs_columns s = pf_columns f \<and> fs_index s = pf_index f \<and> fs_schema s = pf_schema f \<and>
    fs_indexField s = pf_indexField f \<and> fs_source s = pf_source f \<and> (\<forall>c \<in> set (fs_columns s). column_values s c = column_of f c)"
proof -
  have dist: "distinct (pf_columns f)" using ok by (simp add: frame_ok_def)
  obtain data info where built:
    "build_columns (resolveSchemaTypeByColumn (pf_columns f) (pf_schema f)) ct t (pf_data f) (pf_columns f) [] [] = Inr (data, info)"
    and s: "fs_columns s = pf_columns f" "fs_index s = pf_index f" "fs_data s = data" "fs_info s = info" "fs_schema s = pf_schema f"
      "fs_indexField s = pf_indexField f" "fs_source s = pf_source f"
    using created by (auto simp: createFrameState_def andthen_Inr)
  note data = built_columns [OF built dist] and info = built_infos [OF built dist]
  have vals: "column_values s c = column_of f c" if "c \<in> set (pf_columns f)" for c
    using data [of c] that by (auto simp: column_values_def s column_of_def)
  have "column_ok s c" if "c \<in> set (pf_columns f)" for c
    using data [of c] info [of c] that ok_lengths [OF ok that] vals [OF that] by (auto simp: column_ok_def s column_of_def)
  moreover have "c \<in> set (pf_columns f)" if "(c, col) \<in> set data" for c col
  proof (rule ccontr)
    assume "c \<notin> set (pf_columns f)"
    then have "mget data c = None" using data [of c] by simp
    then show False using that by (force simp: map_of_eq_None_iff)
  qed
  ultimately show ?thesis
    using vals by (auto simp: state_ok_def s dist list_all_iff)
qed

section \<open>Fields by name\<close>

definition named :: "jsval list \<Rightarrow> (string \<times> jsval) list" where
  "named field_list = map (\<lambda>f. (field_name f, f)) field_list"

lemma named_simps [simp]: "map fst (named fs) = map field_name fs"
  by (simp add: named_def comp_def)

lemma by_name_get: "distinct (map field_name fs) \<Longrightarrow> mget (by_name fs) n = map_of (named fs) n"
proof (induction fs rule: rev_induct)
  case (snoc f fs)
  have "map_of (named fs) (field_name f) = None" using snoc.prems by (auto simp: map_of_eq_None_iff named_def)
  then show ?case using snoc by (auto simp: by_name_def named_def map_add_def split: option.split)
qed (simp add: by_name_def named_def)

lemma named_get:
  "distinct (map field_name fs) \<Longrightarrow> map_of (named fs) n = Some f \<longleftrightarrow> f \<in> set fs \<and> field_name f = n"
proof -
  assume "distinct (map field_name fs)"
  then have "map_of (named fs) n = Some f \<longleftrightarrow> (n, f) \<in> set (named fs)"
    by (intro map_of_eq_Some_iff) simp
  also have "\<dots> \<longleftrightarrow> f \<in> set fs \<and> field_name f = n" by (auto simp: named_def)
  finally show ?thesis .
qed

lemma named_some: "n \<in> set (map field_name fs) \<Longrightarrow> \<exists>f. map_of (named fs) n = Some f"
  by (metis map_of_eq_None_iff named_simps not_Some_eq set_map)

text \<open>The fields of the columns, where every column has one.\<close>

definition fields_for :: "string list \<Rightarrow> jsval list \<Rightarrow> jsval list" where
  "fields_for columns fs = map (\<lambda>c. the (map_of (named fs) c)) columns"

lemma map_filter_total: "(\<And>c. c \<in> set cs \<Longrightarrow> g c = Some (h c)) \<Longrightarrow> List.map_filter g cs = map h cs"
  by (induction cs) (auto simp: map_filter_simps)

lemma ordered_fields:
  assumes "distinct (map field_name fs)" "set columns \<subseteq> set (map field_name fs)"
  shows "in_column_order columns fs = fields_for columns fs"
    "map field_name (fields_for columns fs) = columns" "set (fields_for columns fs) \<subseteq> set fs"
proof -
  have some: "\<exists>f. map_of (named fs) c = Some f" if "c \<in> set columns" for c
    using named_some assms(2) that by blast
  have get: "mget (by_name fs) c = Some (the (map_of (named fs) c))" if "c \<in> set columns" for c
    using some [OF that] by_name_get [OF assms(1), of c] by auto
  show "in_column_order columns fs = fields_for columns fs"
    unfolding in_column_order_def fields_for_def using get by (rule map_filter_total)
  have mem: "the (map_of (named fs) c) \<in> set fs \<and> field_name (the (map_of (named fs) c)) = c" if c: "c \<in> set columns" for c
  proof -
    obtain f where f: "map_of (named fs) c = Some f" using some [OF c] by blast
    then show ?thesis using named_get [OF assms(1), of c f] by simp
  qed
  then show "map field_name (fields_for columns fs) = columns" "set (fields_for columns fs) \<subseteq> set fs"
    by (auto simp: fields_for_def map_idI)
qed

lemma fields_for_all: "distinct (map field_name fs) \<Longrightarrow> fields_for (map field_name fs) fs = fs"
proof -
  assume d: "distinct (map field_name fs)"
  have "map_of (named fs) (field_name f) = Some f" if "f \<in> set fs" for f
    using named_get [OF d] that by blast
  then show ?thesis by (simp add: fields_for_def comp_def map_idI)
qed

section \<open>The schema invariant\<close>

text \<open>Either every name is unambiguous, or the field of the index comes first and the columns follow in their order.\<close>

definition names_ok :: "string option \<Rightarrow> string list \<Rightarrow> string list \<Rightarrow> bool" where
  "names_ok indexField columns names =
     (case indexField of
        None \<Rightarrow> distinct names \<and> set names = set columns
      | Some k \<Rightarrow> names = k # columns \<or> (distinct names \<and> k \<notin> set columns \<and> set names = insert k (set columns)))"

definition field_valid :: "jsval \<Rightarrow> bool" where
  "field_valid f \<longleftrightarrow> cloneTableField f = Inr (field_name f)"

definition schema_ok :: "frame_state \<Rightarrow> bool" where
  "schema_ok s =
     (case fs_schema s of
        None \<Rightarrow> fs_indexField s = None
      | Some schema \<Rightarrow>
          is_object schema \<and> jprop schema ''fields'' = JArr (schema_fields schema) \<and>
          (jprop schema ''pandas_version'' = JUndef \<or> is_str (jprop schema ''pandas_version'')) \<and>
          list_all field_valid (schema_fields schema) \<and>
          names_ok (fs_indexField s) (fs_columns s) (map field_name (schema_fields schema)))"

definition data_fields :: "frame_state \<Rightarrow> jsval list" where
  "data_fields s = snd (snd (partitionSchemaFields s))"

definition column_field :: "frame_state \<Rightarrow> string \<Rightarrow> jsval option" where
  "column_field s c = map_of (zip (fs_columns s) (data_fields s)) c"

definition index_field :: "frame_state \<Rightarrow> jsval option" where
  "index_field s = fst (partitionSchemaFields s)"

lemma partition_canonical:
  assumes "fs_schema s = Some schema" "fs_indexField s = Some k" "schema_fields schema = f # fs" "field_name f = k"
    "map field_name fs = fs_columns s" "distinct (fs_columns s)"
  shows "partitionSchemaFields s = (Some f, zip (fs_columns s) fs, fs)"
proof -
  have fs: "fields_for (fs_columns s) fs = fs" using fields_for_all [of fs] assms(5,6) by simp
  have order: "in_column_order (fs_columns s) fs = fs"
    using ordered_fields(1) [of fs "fs_columns s"] assms(5,6) fs by simp
  show ?thesis
  proof (cases "k \<in> set (fs_columns s)")
    case True
    then have "length fs = length (fs_columns s)" "\<not> distinct (map field_name (f # fs))"
      using assms(4,5) by (auto dest: arg_cong [where f = length])
    then show ?thesis
      using assms by (simp add: partitionSchemaFields_def split_index_field_def aligned_fields_def order Let_def)
  next
    case False
    then have d: "distinct (map field_name (f # fs))" using assms(4-6) by simp
    have "fields_for (fs_columns s) (f # fs) = fs"
    proof -
      have "map_of (named (f # fs)) c = map_of (named fs) c" if "c \<in> set (fs_columns s)" for c
        using False that assms(4) by (auto simp: named_def)
      then have "fields_for (fs_columns s) (f # fs) = fields_for (fs_columns s) fs" by (simp add: fields_for_def)
      then show ?thesis by (simp add: fs)
    qed
    then have "in_column_order (fs_columns s) (f # fs) = fs"
      using ordered_fields(1) [OF d, of "fs_columns s"] assms(5) by auto
    moreover have "mget (by_name (f # fs)) k = Some f"
      using by_name_get [OF d, of k] assms(4) by (simp add: named_def)
    ultimately show ?thesis
      using d assms(1-3) by (simp add: partitionSchemaFields_def Let_def)
  qed
qed

lemma partition_named:
  assumes "fs_schema s = Some schema" "distinct (map field_name (schema_fields schema))"
    "set (fs_columns s) \<subseteq> set (map field_name (schema_fields schema))"
  shows "partitionSchemaFields s =
    (case fs_indexField s of None \<Rightarrow> None | Some k \<Rightarrow> map_of (named (schema_fields schema)) k,
     zip (fs_columns s) (fields_for (fs_columns s) (schema_fields schema)), fields_for (fs_columns s) (schema_fields schema))"
  using assms(1,2) ordered_fields(1) [OF assms(2,3)] by_name_get [OF assms(2)]
  by (simp add: partitionSchemaFields_def Let_def split: option.split)

lemma partition_ok:
  assumes "state_ok s" "schema_ok s" "fs_schema s = Some schema"
  shows "map field_name (data_fields s) = fs_columns s" "set (data_fields s) \<subseteq> set (schema_fields schema)"
    "fst (snd (partitionSchemaFields s)) = zip (fs_columns s) (data_fields s)"
    "fs_indexField s = None \<Longrightarrow> index_field s = None"
    "fs_indexField s = Some k \<Longrightarrow> \<exists>f. index_field s = Some f \<and> f \<in> set (schema_fields schema) \<and> field_name f = k"
proof -
  let ?fs = "schema_fields schema"
  have dist: "distinct (fs_columns s)" by (rule state_okD(1) [OF assms(1)])
  have names: "names_ok (fs_indexField s) (fs_columns s) (map field_name ?fs)"
    using assms(2,3) by (simp add: schema_ok_def)
  consider (first) k f fs where "fs_indexField s = Some k" "?fs = f # fs" "field_name f = k" "map field_name fs = fs_columns s"
    | (distinct) "distinct (map field_name ?fs)" "set (fs_columns s) \<subseteq> set (map field_name ?fs)"
        "case fs_indexField s of None \<Rightarrow> True | Some k \<Rightarrow> k \<in> set (map field_name ?fs)"
  proof (cases "fs_indexField s")
    case None
    then show ?thesis using names that(2) by (auto simp: names_ok_def)
  next
    case (Some k)
    show ?thesis
    proof (cases "map field_name ?fs = k # fs_columns s")
      case True
      then show ?thesis using that(1) [OF Some] by (cases ?fs) auto
    next
      case False
      then have "distinct (map field_name ?fs)" "set (map field_name ?fs) = insert k (set (fs_columns s))"
        using names Some by (auto simp: names_ok_def)
      then show ?thesis using that(2) Some by auto
    qed
  qed
  then have "map field_name (data_fields s) = fs_columns s \<and> set (data_fields s) \<subseteq> set ?fs \<and>
      fst (snd (partitionSchemaFields s)) = zip (fs_columns s) (data_fields s) \<and>
      (case fs_indexField s of None \<Rightarrow> index_field s = None
       | Some k \<Rightarrow> \<exists>f. index_field s = Some f \<and> f \<in> set ?fs \<and> field_name f = k)"
  proof cases
    case first
    then show ?thesis
      using partition_canonical [OF assms(3) first dist] by (auto simp: data_fields_def index_field_def)
  next
    case distinct
    then show ?thesis
      using partition_named [OF assms(3) distinct(1,2)] ordered_fields [OF distinct(1,2)] named_some [of _ ?fs] named_get [OF distinct(1)]
      by (auto simp: data_fields_def index_field_def split: option.splits)
  qed
  then show "map field_name (data_fields s) = fs_columns s" "set (data_fields s) \<subseteq> set (schema_fields schema)"
    "fst (snd (partitionSchemaFields s)) = zip (fs_columns s) (data_fields s)"
    "fs_indexField s = None \<Longrightarrow> index_field s = None"
    "fs_indexField s = Some k \<Longrightarrow> \<exists>f. index_field s = Some f \<and> f \<in> set (schema_fields schema) \<and> field_name f = k"
    by auto
qed

section \<open>Fields and schemas of a transform\<close>

lemma update_same: "map_of m k = Some v \<Longrightarrow> AList.update k v m = m"
  by (induction m) auto

lemma valid_field:
  assumes "field_valid f"
  shows "\<exists>ps. f = JObj ps \<and> map_of ps ''name'' = Some (JStr (field_name f))"
  using assms by (auto simp: field_valid_def cloneTableField_def field_name_def andthen_Inr split: jsval.splits option.splits)

lemma clone_same: "field_valid f \<Longrightarrow> cloneField f (field_name f) = f"
  using valid_field [of f] by (auto simp: cloneField_def update_same)

lemma field_check:
  "map_of ps ''name'' = Some (JStr m) \<Longrightarrow> map_of qs ''name'' = Some (JStr n) \<Longrightarrow>
   (\<And>key. key \<noteq> ''name'' \<Longrightarrow> map_of qs key = map_of ps key) \<Longrightarrow>
   cloneTableField (JObj ps) = Inr m \<longleftrightarrow> cloneTableField (JObj qs) = Inr n"
  by (simp add: cloneTableField_def andthen_Inr)

lemma clone_renamed:
  assumes "field_valid f"
  shows "field_valid (cloneField f n)" "field_name (cloneField f n) = n"
proof -
  obtain ps where f: "f = JObj ps" "map_of ps ''name'' = Some (JStr (field_name f))" using valid_field [OF assms] by blast
  show name: "field_name (cloneField f n) = n" by (simp add: f(1) cloneField_def field_name_def)
  show "field_valid (cloneField f n)"
    using assms field_check [OF f(2), of "mput ''name'' (JStr n) ps" n] unfolding field_valid_def name
    by (simp add: f(1) cloneField_def)
qed

lemma map_of_without:
  "key \<noteq> a \<Longrightarrow> key \<noteq> b \<Longrightarrow> map_of (filter (\<lambda>(k, v). k \<noteq> a \<and> k \<noteq> b) ps) key = map_of ps key"
  by (induction ps) auto

lemma cloned_schema:
  assumes "is_object schema"
  shows "is_object (cloneSchema schema fs pk)" "jprop (cloneSchema schema fs pk) ''fields'' = JArr fs"
    "schema_fields (cloneSchema schema fs pk) = fs"
    "jprop (cloneSchema schema fs pk) ''pandas_version'' = jprop schema ''pandas_version''"
    "jprop (cloneSchema schema fs pk) ''primaryKey'' = pk"
proof -
  obtain ps where ps: "schema = JObj ps" using assms by (cases schema) auto
  have absent: "map_of (filter (\<lambda>(k, v). k \<noteq> ''fields'' \<and> k \<noteq> ''primaryKey'') ps) key = None"
    if "key = ''fields'' \<or> key = ''primaryKey''" for key
    using that by (auto simp: map_of_eq_None_iff)
  show fields: "jprop (cloneSchema schema fs pk) ''fields'' = JArr fs"
    by (simp add: ps cloneSchema_def absent map_add_def)
  show "schema_fields (cloneSchema schema fs pk) = fs" using fields by (simp add: schema_fields_def)
  show "is_object (cloneSchema schema fs pk)" by (simp add: ps cloneSchema_def)
  show "jprop (cloneSchema schema fs pk) ''pandas_version'' = jprop schema ''pandas_version''"
    "jprop (cloneSchema schema fs pk) ''primaryKey'' = pk"
    by (simp_all add: ps cloneSchema_def absent map_of_without map_add_def split: option.split)
qed

text \<open>A state whose fields are the index field and then the fields of its columns.\<close>

lemma canonical_fields:
  assumes "distinct (fs_columns s)" "fs_schema s = Some schema" "schema_fields schema = ipart @ fs"
    "map field_name fs = fs_columns s"
    "case fs_indexField s of None \<Rightarrow> ipart = [] | Some k \<Rightarrow> \<exists>f. ipart = [f] \<and> field_name f = k"
  shows "data_fields s = fs" "index_field s = (case ipart of [] \<Rightarrow> None | f # _ \<Rightarrow> Some f)"
    "names_ok (fs_indexField s) (fs_columns s) (map field_name (schema_fields schema))"
proof -
  have d: "distinct (map field_name fs)" using assms(1,4) by simp
  have "data_fields s = fs \<and> index_field s = (case ipart of [] \<Rightarrow> None | f # _ \<Rightarrow> Some f) \<and>
      names_ok (fs_indexField s) (fs_columns s) (map field_name (schema_fields schema))"
  proof (cases "fs_indexField s")
    case None
    then have "partitionSchemaFields s = (None, zip (fs_columns s) fs, fs)"
      using assms partition_named [OF assms(2)] d fields_for_all [OF d] by simp
    then show ?thesis using None assms d by (simp add: data_fields_def index_field_def names_ok_def)
  next
    case (Some k)
    then obtain f where f: "ipart = [f]" "field_name f = k" using assms(5) by auto
    with partition_canonical [OF assms(2) Some, of f fs] assms show ?thesis
      by (simp add: data_fields_def index_field_def names_ok_def Some)
  qed
  then show "data_fields s = fs" "index_field s = (case ipart of [] \<Rightarrow> None | f # _ \<Rightarrow> Some f)"
    "names_ok (fs_indexField s) (fs_columns s) (map field_name (schema_fields schema))"
    by blast+
qed

lemma schema_okD:
  assumes "state_ok s" "schema_ok s" "fs_schema s = Some schema"
  shows "is_object schema" "list_all field_valid (schema_fields schema)" "list_all field_valid (data_fields s)"
    "index_field s = Some f \<Longrightarrow> field_valid f"
    "c \<in> set (fs_columns s) \<Longrightarrow> \<exists>f. column_field s c = Some f \<and> field_name f = c \<and> field_valid f"
proof -
  show "is_object schema" and valid: "list_all field_valid (schema_fields schema)"
    using assms(2,3) by (simp_all add: schema_ok_def)
  note part = partition_ok [OF assms]
  show data: "list_all field_valid (data_fields s)" using valid part(2) by (auto simp: list_all_iff)
  show "index_field s = Some f \<Longrightarrow> field_valid f"
    using part(4,5) valid by (cases "fs_indexField s") (auto simp: list_all_iff)
  assume c: "c \<in> set (fs_columns s)"
  have "map fst (zip (fs_columns s) (data_fields s)) = fs_columns s"
    using part(1) by (metis length_map map_fst_zip)
  then obtain f where f: "map_of (zip (fs_columns s) (data_fields s)) c = Some f"
    using c by (metis map_of_eq_None_iff not_Some_eq set_map)
  then have "(c, f) \<in> set (zip (fs_columns s) (data_fields s))" by (rule map_of_SomeD)
  then have "field_name f = c \<and> f \<in> set (data_fields s)"
    using part(1) by (auto simp: set_zip dest: arg_cong [where f = "\<lambda>xs. xs ! _"]) (metis length_map nth_map)
  with f data show "\<exists>f. column_field s c = Some f \<and> field_name f = c \<and> field_valid f"
    by (auto simp: column_field_def list_all_iff)
qed

lemma schema_cloned:
  assumes "schema_ok s" "fs_schema s = Some schema" "fs_schema s' = Some (cloneSchema schema fs pk)"
    "list_all field_valid fs" "names_ok (fs_indexField s') (fs_columns s') (map field_name fs)"
  shows "schema_ok s'"
  using assms cloned_schema [of schema fs pk] by (simp add: schema_ok_def)

section \<open>Fields through the transforms\<close>

definition index_part :: "frame_state \<Rightarrow> jsval list" where
  "index_part s = (case index_field s of Some f \<Rightarrow> [f] | None \<Rightarrow> [])"

lemma same_partition:
  assumes "fs_columns s' = fs_columns s" "fs_schema s' = fs_schema s" "fs_indexField s' = fs_indexField s"
  shows "schema_ok s' \<longleftrightarrow> schema_ok s" "column_field s' c = column_field s c" "index_field s' = index_field s"
proof -
  have "partitionSchemaFields s' = partitionSchemaFields s"
    unfolding partitionSchemaFields_def assms ..
  then show "column_field s' c = column_field s c" "index_field s' = index_field s"
    by (simp_all add: column_field_def data_fields_def index_field_def assms)
  show "schema_ok s' \<longleftrightarrow> schema_ok s"
    unfolding schema_ok_def assms ..
qed

lemma index_template:
  assumes "state_ok s" "schema_ok s" "fs_schema s = Some schema"
  shows "(if fs_indexField s = None then [] else template_of (index_field s)) = index_part s"
    "case fs_indexField s of None \<Rightarrow> index_part s = [] | Some k \<Rightarrow> \<exists>f. index_part s = [f] \<and> field_name f = k"
    "list_all field_valid (index_part s)" "(case index_part s of [] \<Rightarrow> None | f # _ \<Rightarrow> Some f) = index_field s"
proof -
  have "(if fs_indexField s = None then [] else template_of (index_field s)) = index_part s \<and>
      (case fs_indexField s of None \<Rightarrow> index_part s = [] | Some k \<Rightarrow> \<exists>f. index_part s = [f] \<and> field_name f = k) \<and>
      list_all field_valid (index_part s)"
  proof (cases "fs_indexField s")
    case None
    then show ?thesis using partition_ok(4) [OF assms] by (simp add: index_part_def)
  next
    case (Some k)
    then obtain f where "index_field s = Some f" "field_name f = k" using partition_ok(5) [OF assms] by blast
    moreover from this have "field_valid f" using schema_okD(4) [OF assms] by blast
    ultimately show ?thesis using clone_same [of f] by (simp add: Some index_part_def template_of_def)
  qed
  then show "(if fs_indexField s = None then [] else template_of (index_field s)) = index_part s"
    "case fs_indexField s of None \<Rightarrow> index_part s = [] | Some k \<Rightarrow> \<exists>f. index_part s = [f] \<and> field_name f = k"
    "list_all field_valid (index_part s)"
    by blast+
  show "(case index_part s of [] \<Rightarrow> None | f # _ \<Rightarrow> Some f) = index_field s"
    by (simp add: index_part_def split: option.split)
qed

lemma names_sets:
  assumes "names_ok k cs names" "distinct names"
  shows "set names = (case k of None \<Rightarrow> set cs | Some k \<Rightarrow> insert k (set cs))" "k = Some n \<Longrightarrow> n \<notin> set cs"
  using assms by (auto simp: names_ok_def split: option.splits)

lemma no_schema:
  assumes "fs_schema s = None"
  shows "column_field s c = None" "index_field s = None"
  using assms by (simp_all add: column_field_def data_fields_def index_field_def partitionSchemaFields_def)

lemma zip_columns: "map_of (zip cs (map g cs)) c = (if c \<in> set cs then Some (g c) else None)"
  by (induction cs) auto

lemma zip_fields_for:
  "map_of (zip cs (fields_for cs fs)) c = (if c \<in> set cs then Some (the (map_of (named fs) c)) else None)"
  unfolding fields_for_def by (rule zip_columns)

lemma selected_schema:
  assumes ok: "state_ok s" "schema_ok s" and cs: "set cs \<subseteq> set (fs_columns s)" "distinct cs"
    and s': "fs_columns s' = cs" "(fs_schema s', fs_indexField s') = selectSchema s cs"
  shows "schema_ok s' \<and> (\<forall>c \<in> set cs. column_field s' c = column_field s c) \<and> index_field s' = index_field s"
proof (cases "fs_schema s")
  case None
  then show ?thesis using s' by (simp add: schema_ok_def no_schema selectSchema_def)
next
  case (Some schema)
  note field = schema_okD [OF ok Some] and template = index_template [OF ok Some]
  let ?fs = "map (\<lambda>c. the (column_field s c)) cs"
  have some: "column_field s c = Some (the (column_field s c)) \<and> field_name (the (column_field s c)) = c \<and>
      field_valid (the (column_field s c))" if c: "c \<in> set cs" for c
  proof -
    have "c \<in> set (fs_columns s)" using c cs(1) by blast
    from field(5) [OF this] show ?thesis by auto
  qed
  have filtered: "List.map_filter (\<lambda>c. map_option (\<lambda>f. cloneField f (field_name f)) (column_field s c)) cs = ?fs"
  proof (rule map_filter_total)
    fix c assume "c \<in> set cs"
    note f = some [OF this]
    show "map_option (\<lambda>f. cloneField f (field_name f)) (column_field s c) = Some (the (column_field s c))"
      by (subst conjunct1 [OF f]) (simp only: option.map clone_same [OF conjunct2 [OF conjunct2 [OF f]]])
  qed
  have by_column: "mget (fst (snd (partitionSchemaFields s))) = column_field s"
    using partition_ok(3) [OF ok Some] by (simp add: column_field_def fun_eq_iff)
  have schema': "fs_schema s' = Some (cloneSchema schema (index_part s @ ?fs) (jprop schema ''primaryKey''))"
    and k: "fs_indexField s' = fs_indexField s"
    using s'(2) unfolding selectSchema_def Some split_def Let_def option.case by_column filtered index_field_def [symmetric] template(1)
    by simp_all
  have names: "map field_name ?fs = fs_columns s'" using some by (simp add: s'(1) comp_def map_idI)
  have canonical: "data_fields s' = ?fs" "index_field s' = index_field s"
    "names_ok (fs_indexField s') (fs_columns s') (map field_name (index_part s @ ?fs))"
    using canonical_fields [of s' "cloneSchema schema (index_part s @ ?fs) (jprop schema ''primaryKey'')" "index_part s" ?fs]
      cloned_schema(3) [OF field(1)] cs(2) s'(1) schema' names template(2,4) k by simp_all
  have "list_all field_valid (index_part s @ ?fs)"
    using template(3) some by (auto simp: list_all_iff)
  then have "schema_ok s'" by (rule schema_cloned [OF ok(2) Some schema' _ canonical(3)])
  moreover have "column_field s' c = column_field s c" if "c \<in> set cs" for c
    using some [OF that] that by (simp add: column_field_def [of s'] canonical(1) s'(1) zip_columns)
  ultimately show ?thesis using canonical(2) by blast
qed

lemma renamed_canonical:
  assumes ok: "state_ok s" "schema_ok s" and dist: "distinct (map ren (fs_columns s))" and schema: "fs_schema s = Some schema"
    and s': "fs_columns s' = map ren (fs_columns s)" "fs_indexField s' = fs_indexField s"
      "fs_schema s' = Some (cloneSchema schema (index_part s @ map (\<lambda>(c, f). cloneField f (ren c)) (zip (fs_columns s) (data_fields s))) pk)"
  shows "schema_ok s' \<and> (\<forall>c \<in> set (fs_columns s). column_field s' (ren c) = map_option (\<lambda>f. cloneField f (ren c)) (column_field s c)) \<and>
    index_field s' = index_field s"
proof -
  note field = schema_okD [OF ok schema] and template = index_template [OF ok schema] and part = partition_ok [OF ok schema]
  let ?fs = "map (\<lambda>(c, f). cloneField f (ren c)) (zip (fs_columns s) (data_fields s))"
  have len: "length (data_fields s) = length (fs_columns s)" using part(1) by (metis length_map)
  have valid: "field_valid f" if "(c, f) \<in> set (zip (fs_columns s) (data_fields s))" for c f
    using field(3) that by (auto simp: list_all_iff dest: set_zip_rightD)
  have "map field_name ?fs = map (ren \<circ> fst) (zip (fs_columns s) (data_fields s))"
    using valid clone_renamed(2) by (auto simp: comp_def)
  also have "\<dots> = map ren (fs_columns s)" using len by (simp add: map_fst_zip flip: map_map)
  finally have names: "map field_name ?fs = fs_columns s'" by (simp add: s'(1))
  have canonical: "data_fields s' = ?fs" "index_field s' = index_field s"
    "names_ok (fs_indexField s') (fs_columns s') (map field_name (index_part s @ ?fs))"
    using canonical_fields [of s' "cloneSchema schema (index_part s @ ?fs) pk" "index_part s" ?fs]
      cloned_schema(3) [OF field(1)] dist s'(1,2,3) names template(2,4) by simp_all
  have "list_all field_valid (index_part s @ ?fs)"
    using template(3) valid clone_renamed(1) by (auto simp: list_all_iff)
  then have "schema_ok s'" by (rule schema_cloned [OF ok(2) schema s'(3) _ canonical(3)])
  moreover have "map_of (zip (map ren cs) (map (\<lambda>(c, f). cloneField f (ren c)) (zip cs fs))) (ren c) =
      map_option (\<lambda>f. cloneField f (ren c)) (map_of (zip cs fs) c)"
    if "length fs = length cs" "distinct (map ren cs)" "c \<in> set cs" for cs fs c
    using that by (induction fs cs rule: list_induct2) (auto, metis imageI)
  then have "column_field s' (ren c) = map_option (\<lambda>f. cloneField f (ren c)) (column_field s c)" if "c \<in> set (fs_columns s)" for c
    using len dist that by (simp add: column_field_def canonical(1) s'(1))
  ultimately show ?thesis using canonical(2) by blast
qed

lemma renamed_in_place:
  assumes ok: "state_ok s" "schema_ok s" and dist: "distinct (map ren (fs_columns s))" and schema: "fs_schema s = Some schema"
    and names: "distinct (map field_name (schema_fields schema))"
    and free: "case fs_indexField s of None \<Rightarrow> True | Some k \<Rightarrow> k \<notin> set (map ren (fs_columns s))"
    and s': "fs_columns s' = map ren (fs_columns s)" "fs_indexField s' = fs_indexField s"
      "fs_schema s' = Some (cloneSchema schema (map (\<lambda>f. if field_name f \<notin> set (fs_columns s) then cloneField f (field_name f)
         else cloneField f (ren (field_name f))) (schema_fields schema)) pk)"
  shows "schema_ok s' \<and> (\<forall>c \<in> set (fs_columns s). column_field s' (ren c) = map_option (\<lambda>f. cloneField f (ren c)) (column_field s c)) \<and>
    index_field s' = index_field s"
proof -
  let ?fs = "schema_fields schema" and ?cs = "fs_columns s"
  define g where "g f = (if field_name f \<notin> set ?cs then cloneField f (field_name f) else cloneField f (ren (field_name f)))" for f
  note field = schema_okD [OF ok schema]
  have valid: "field_valid f" if "f \<in> set ?fs" for f using field(2) that by (simp add: list_all_iff)
  have g: "field_valid (g f)" "field_name (g f) = (if field_name f \<in> set ?cs then ren (field_name f) else field_name f)"
    "field_name f \<notin> set ?cs \<Longrightarrow> g f = f" if "f \<in> set ?fs" for f
    using clone_renamed [OF valid [OF that]] clone_same [OF valid [OF that]] valid [OF that] by (simp_all add: g_def)
  have inj: "inj_on ren (set ?cs)" using dist by (simp add: distinct_map)
  have set_names: "set (map field_name ?fs) = (case fs_indexField s of None \<Rightarrow> set ?cs | Some k \<Rightarrow> insert k (set ?cs))"
    and k_new: "\<And>k. fs_indexField s = Some k \<Longrightarrow> k \<notin> set ?cs"
  proof -
    have ok': "names_ok (fs_indexField s) ?cs (map field_name ?fs)" using ok(2) by (simp add: schema_ok_def schema)
    show "set (map field_name ?fs) = (case fs_indexField s of None \<Rightarrow> set ?cs | Some k \<Rightarrow> insert k (set ?cs))"
      by (rule names_sets(1) [OF ok' names])
    show "\<And>k. fs_indexField s = Some k \<Longrightarrow> k \<notin> set ?cs"
      by (rule names_sets(2) [OF ok' names])
  qed
  let ?ren = "\<lambda>n. if n \<in> set ?cs then ren n else n"
  have names_eq: "map field_name (map g ?fs) = map ?ren (map field_name ?fs)" using g(2) by simp
  have ren_inj: "inj_on ?ren (set ?cs)" using inj by (simp add: inj_on_def)
  have "inj_on ?ren (set (map field_name ?fs))"
  proof (cases "fs_indexField s")
    case None
    then show ?thesis unfolding set_names using ren_inj by simp
  next
    case (Some k)
    have "?ren k \<notin> ?ren ` (set ?cs - {k})"
    proof
      assume "?ren k \<in> ?ren ` (set ?cs - {k})"
      then obtain c where "c \<in> set ?cs" "k = ren c" using k_new [OF Some] by auto
      then show False using free Some by simp
    qed
    then show ?thesis unfolding set_names using Some ren_inj by (simp add: inj_on_insert)
  qed
  then have names': "distinct (map field_name (map g ?fs))"
    unfolding names_eq distinct_map [of ?ren] using names by blast
  have set': "set (map field_name (map g ?fs)) =
      (case fs_indexField s of None \<Rightarrow> set (map ren ?cs) | Some k \<Rightarrow> insert k (set (map ren ?cs)))"
  proof (cases "fs_indexField s")
    case None
    then show ?thesis unfolding names_eq set_map [of ?ren] set_names by simp
  next
    case (Some k)
    then show ?thesis unfolding names_eq set_map [of ?ren] set_names using k_new [OF Some] by auto
  qed
  have fields': "schema_fields (cloneSchema schema (map g ?fs) pk) = map g ?fs"
    by (rule cloned_schema(3) [OF field(1)])
  have schema': "fs_schema s' = Some (cloneSchema schema (map g ?fs) pk)"
    using s'(3) unfolding g_def [abs_def] .
  have part: "partitionSchemaFields s = (case fs_indexField s of None \<Rightarrow> None | Some k \<Rightarrow> map_of (named ?fs) k,
      zip ?cs (fields_for ?cs ?fs), fields_for ?cs ?fs)"
    using partition_named [OF schema names] set_names by (auto split: option.splits)
  have part': "partitionSchemaFields s' = (case fs_indexField s of None \<Rightarrow> None | Some k \<Rightarrow> map_of (named (map g ?fs)) k,
      zip (map ren ?cs) (fields_for (map ren ?cs) (map g ?fs)), fields_for (map ren ?cs) (map g ?fs))"
    using partition_named [OF schema', unfolded fields', OF names'] set' by (auto simp: s' split: option.splits)
  have get': "map_of (named (map g ?fs)) (field_name (g f)) = Some (g f)" if "f \<in> set ?fs" for f
    using named_get [OF names', of "field_name (g f)" "g f"] that by simp
  have "schema_ok s'"
  proof (rule schema_cloned [OF ok(2) schema schema'])
    show "list_all field_valid (map g ?fs)" using g(1) by (simp add: list_all_iff)
    show "names_ok (fs_indexField s') (fs_columns s') (map field_name (map g ?fs))"
      using names' set' free by (auto simp: names_ok_def s' split: option.splits)
  qed
  moreover have "column_field s' (ren c) = map_option (\<lambda>f. cloneField f (ren c)) (column_field s c)" if c: "c \<in> set ?cs" for c
  proof -
    obtain f where f: "map_of (named ?fs) c = Some f" using named_some [of c ?fs] set_names c by (auto split: option.splits)
    then have mem: "f \<in> set ?fs" "field_name f = c" using named_get [OF names, of c f] by auto
    have "column_field s c = Some f"
      using c f by (simp add: column_field_def data_fields_def part zip_fields_for)
    moreover have "column_field s' (ren c) = map_of (named (map g ?fs)) (ren c)"
      using c get' [OF mem(1)] mem(2) g(2) [OF mem(1)]
      by (simp add: column_field_def data_fields_def part' s'(1) zip_fields_for)
    moreover have "map_of (named (map g ?fs)) (ren c) = Some (g f)"
      using get' [OF mem(1)] g(2) [OF mem(1)] mem(2) c by simp
    ultimately show ?thesis using c mem(2) by (simp add: g_def)
  qed
  moreover have "index_field s' = index_field s"
  proof (cases "fs_indexField s")
    case (Some k)
    then obtain f where f: "map_of (named ?fs) k = Some f" using named_some [of k ?fs] set_names by auto
    then have mem: "f \<in> set ?fs" "field_name f = k" using named_get [OF names, of k f] by auto
    then have "g f = f" using g(3) k_new [OF Some] by simp
    then show ?thesis using get' [OF mem(1)] f mem(2) Some by (simp add: index_field_def part part')
  qed (simp add: index_field_def part part')
  ultimately show ?thesis by blast
qed

section \<open>The properties\<close>

lemma reset_schema:
  assumes ok: "state_ok s" "schema_ok s" and s': "fs_columns s' = fs_columns s" "(fs_schema s', fs_indexField s') = resetIndexSchema s"
  shows "schema_ok s' \<and> fs_indexField s' = None \<and> column_field s' c = column_field s c"
proof (cases "fs_schema s")
  case None
  then show ?thesis using s' by (simp add: schema_ok_def no_schema resetIndexSchema_def)
next
  case (Some schema)
  note field = schema_okD [OF ok Some] and part = partition_ok [OF ok Some]
  have k: "fs_indexField s' = None" using s'(2) by (simp add: resetIndexSchema_def Some Let_def split_def split: option.splits)
  have clones: "map (\<lambda>f. cloneField f (field_name f)) fs = fs" if "list_all field_valid fs" for fs
    using that by (auto simp: list_all_iff clone_same intro!: map_idI)
  show ?thesis
  proof (cases "fs_indexField s")
    case None
    have schema': "fs_schema s' = Some (cloneSchema schema (schema_fields schema) JUndef)"
      using s'(2) clones [OF field(2)] by (simp add: resetIndexSchema_def Some None)
    have names: "names_ok None (fs_columns s) (map field_name (schema_fields schema))"
      using ok(2) by (simp add: schema_ok_def Some None)
    then have d: "distinct (map field_name (schema_fields schema))" "set (map field_name (schema_fields schema)) = set (fs_columns s)"
      by (simp_all add: names_ok_def)
    have "data_fields s' = data_fields s"
      using partition_named [OF Some d(1)] partition_named [OF schema', unfolded cloned_schema(3) [OF field(1)], OF d(1)] d(2) s'(1)
      by (simp add: data_fields_def)
    moreover have "schema_ok s'"
      by (rule schema_cloned [OF ok(2) Some schema' field(2)]) (simp add: k s'(1) names)
    ultimately show ?thesis using k s'(1) by (simp add: column_field_def)
  next
    case k': (Some k)
    have len: "length (data_fields s) = length (fs_columns s)" using part(1) by (metis length_map)
    have schema': "fs_schema s' = Some (cloneSchema schema (data_fields s) JUndef)"
      using s'(2) clones [OF field(3)] len by (simp add: resetIndexSchema_def Some k' Let_def split_def data_fields_def)
    have canonical: "data_fields s' = data_fields s" "names_ok (fs_indexField s') (fs_columns s') (map field_name (data_fields s))"
      using canonical_fields [of s' "cloneSchema schema (data_fields s) JUndef" "[]" "data_fields s"]
        cloned_schema(3) [OF field(1)] state_okD(1) [OF ok(1)] s'(1) schema' part(1) k by simp_all
    have "schema_ok s'" by (rule schema_cloned [OF ok(2) Some schema' field(3) canonical(2)])
    then show ?thesis using k s'(1) canonical(1) by (simp add: column_field_def)
  qed
qed

lemma renamed_schema:
  assumes ok: "state_ok s" "schema_ok s" and dist: "distinct (map (renamed ps) (fs_columns s))"
    and s': "fs_columns s' = map (renamed ps) (fs_columns s)"
      "(fs_schema s', fs_indexField s') = renameSchema s ps (map (renamed ps) (fs_columns s))"
  shows "schema_ok s' \<and>
    (\<forall>c \<in> set (fs_columns s). column_field s' (renamed ps c) = map_option (\<lambda>f. cloneField f (renamed ps c)) (column_field s c)) \<and>
    index_field s' = index_field s"
proof (cases "fs_schema s")
  case None
  then show ?thesis using s' by (simp add: schema_ok_def no_schema renameSchema_def)
next
  case (Some schema)
  let ?collides = "case fs_indexField s of Some k \<Rightarrow> k \<in> set (map (renamed ps) (fs_columns s)) | None \<Rightarrow> False"
  have k: "fs_indexField s' = fs_indexField s" using s'(2) by (simp add: renameSchema_def Some Let_def)
  show ?thesis
  proof (cases "distinct (map field_name (schema_fields schema)) \<and> \<not> ?collides")
    case True
    then have free: "case fs_indexField s of None \<Rightarrow> True | Some k \<Rightarrow> k \<notin> set (map (renamed ps) (fs_columns s))"
      by (simp split: option.splits)
    show ?thesis
      by (rule renamed_in_place [OF ok dist Some conjunct1 [OF True] free s'(1) k])
        (use s'(2) in \<open>simp only: renameSchema_def Some option.case Let_def if_P [OF True] prod.inject\<close>)
  next
    case False
    have "fs_schema s' = Some (cloneSchema schema (index_part s @
        map (\<lambda>(c, f). cloneField f (renamed ps c)) (zip (fs_columns s) (data_fields s))) (jprop schema ''primaryKey''))"
      using s'(2) unfolding renameSchema_def Some option.case Let_def if_not_P [OF False] split_def
        index_field_def [symmetric] data_fields_def [symmetric] index_template(1) [OF ok Some] by simp
    then show ?thesis by (rule renamed_canonical [OF ok dist Some s'(1) k])
  qed
qed

text \<open>C37: On a well-formed state, as every parsed frame gives one, each transform is an operation on rows and gives a
  well-formed state: filtering keeps exactly the rows that the predicate accepts, in order; sorting permutes them, and
  sorts them stably when the comparator is consistent; selecting takes the cells of the given columns and fails exactly for an unknown or
  repeated column; renaming keeps every row and fails exactly for a name that is no text or a repeated result;
  resetting the index numbers the rows.\<close>

theorem transforms_refine_rows:
  assumes "state_ok s"
  shows "(\<exists>s'. filter_frame t predicate s = Inr s' \<and> state_ok s' \<and> fs_columns s' = fs_columns s \<and>
      rows_of s' = map ((!) (rows_of s))
        (filter (\<lambda>p. predicate (snd (snd (entry_at s p))) (fst (rows_of s ! p)) p) [0..<length (fs_index s)])) \<and>
    (\<exists>s' order. sort_frame t compare s = Inr s' \<and> state_ok s' \<and> fs_columns s' = fs_columns s \<and>
      rows_of s' = map ((!) (rows_of s)) order \<and> mset order = mset [0..<length (fs_index s)] \<and>
      (consistent compare (map (entry_at s) [0..<length (fs_index s)]) \<longrightarrow>
         sorted_wrt (\<lambda>p q. entry_before compare (entry_at s p) (entry_at s q)) order)) \<and>
    (if set cs \<subseteq> set (fs_columns s) \<and> distinct cs
     then \<exists>s'. select_frame t cs s = Inr s' \<and> state_ok s' \<and> fs_columns s' = cs \<and>
       rows_of s' = map (\<lambda>(l, cells). (l, map (\<lambda>c. the (map_of (zip (fs_columns s) cells) c)) cs)) (rows_of s)
     else \<exists>e. select_frame t cs s = Inl e) \<and>
    (if list_all (\<lambda>c. case mget ps c of None \<Rightarrow> True | Some v \<Rightarrow> is_str v) (fs_columns s) \<and>
        distinct (map (renamed ps) (fs_columns s))
     then \<exists>s'. rename_frame t (JObj ps) s = Inr s' \<and> state_ok s' \<and> fs_columns s' = map (renamed ps) (fs_columns s) \<and>
       rows_of s' = rows_of s
     else \<exists>e. rename_frame t (JObj ps) s = Inl e) \<and>
    (\<exists>s'. resetIndex t s = Inr s' \<and> state_ok s' \<and> fs_columns s' = fs_columns s \<and>
      rows_of s' = map (\<lambda>(i, l, cells). (position_label i, cells)) (enumerate 0 (rows_of s)))"
proof (intro conjI)
  show "if set cs \<subseteq> set (fs_columns s) \<and> distinct cs
     then \<exists>s'. select_frame t cs s = Inr s' \<and> state_ok s' \<and> fs_columns s' = cs \<and>
       rows_of s' = map (\<lambda>(l, cells). (l, map (\<lambda>c. the (map_of (zip (fs_columns s) cells) c)) cs)) (rows_of s)
     else \<exists>e. select_frame t cs s = Inl e"
  proof (cases "set cs \<subseteq> set (fs_columns s) \<and> distinct cs")
    case True
    then show ?thesis using selected_rows [OF assms, of cs t] by auto
  next
    case False
    then obtain e where "check_selected s cs [] = Inl e"
      using check_selected_iff [OF assms, of cs "[]"] by (cases "check_selected s cs []") auto
    then show ?thesis unfolding if_not_P [OF False] by (simp add: select_frame_def)
  qed
  let ?texts = "list_all (\<lambda>c. case mget ps c of None \<Rightarrow> True | Some v \<Rightarrow> is_str v) (fs_columns s)"
  show "if ?texts \<and> distinct (map (renamed ps) (fs_columns s))
     then \<exists>s'. rename_frame t (JObj ps) s = Inr s' \<and> state_ok s' \<and> fs_columns s' = map (renamed ps) (fs_columns s) \<and>
       rows_of s' = rows_of s
     else \<exists>e. rename_frame t (JObj ps) s = Inl e"
  proof (cases "?texts \<and> distinct (map (renamed ps) (fs_columns s))")
    case True
    then show ?thesis using renamed_rows [OF assms, of ps t] by auto
  next
    case False
    have "\<exists>e. rename_frame t (JObj ps) s = Inl e"
    proof (cases "next_columns ps (fs_columns s)")
      case (Inr ds)
      then have "?texts" "ds = map (renamed ps) (fs_columns s)" using next_columns_iff [of ps "fs_columns s" ds] by blast+
      then show ?thesis using False Inr by (simp add: rename_frame_def guard_def andthen_def)
    qed (simp add: rename_frame_def)
    then show ?thesis unfolding if_not_P [OF False] .
  qed
qed (use filtered_rows [OF assms] sorted_rows [OF assms] reset_rows [OF assms] in blast)+

theorem transforms_refine_rows_witness:
  "\<exists>s'. filter_frame 2 (\<lambda>row label p. label = LText ''y'') demo_state = Inr s' \<and> rows_of s' = [(LText ''y'', [jint (- 2), JNull])]"
proof -
  have "state_ok demo_state" using created_state [OF demo_built(2,1)] by blast
  from conjunct1 [OF transforms_refine_rows [OF this, where t = 2 and predicate = "\<lambda>row label p. label = LText ''y''"]]
  obtain s' where "filter_frame 2 (\<lambda>row label p. label = LText ''y'') demo_state = Inr s'"
    "rows_of s' = map ((!) (rows_of demo_state)) (filter (\<lambda>p. fst (rows_of demo_state ! p) = LText ''y'') [0..<length (fs_index demo_state)])"
    by auto
  moreover have "map ((!) (rows_of demo_state)) (filter (\<lambda>p. fst (rows_of demo_state ! p) = LText ''y'') [0..<length (fs_index demo_state)]) =
      [(LText ''y'', [jint (- 2), JNull])]"
    by code_simp
  ultimately show ?thesis by auto
qed

text \<open>C38: The table schema travels with the columns: after every transform each column has the schema field that it, or
  the column it was renamed from, had before, under its own name, and the field of the index is the same unless
  the index was reset, even when a column was renamed to the name of the index field.\<close>

theorem column_fields_kept:
  assumes "state_ok s" "schema_ok s"
  shows "(filter_frame t predicate s = Inr s1 \<longrightarrow>
      schema_ok s1 \<and> column_field s1 c = column_field s c \<and> index_field s1 = index_field s) \<and>
    (sort_frame t compare s = Inr s2 \<longrightarrow>
      schema_ok s2 \<and> column_field s2 c = column_field s c \<and> index_field s2 = index_field s) \<and>
    (select_frame t cs s = Inr s3 \<longrightarrow>
      schema_ok s3 \<and> (\<forall>c \<in> set cs. column_field s3 c = column_field s c) \<and> index_field s3 = index_field s) \<and>
    (rename_frame t (JObj ps) s = Inr s4 \<longrightarrow>
      schema_ok s4 \<and> index_field s4 = index_field s \<and>
      (\<forall>c \<in> set (fs_columns s). column_field s4 (renamed ps c) = map_option (\<lambda>f. cloneField f (renamed ps c)) (column_field s c))) \<and>
    (resetIndex t s = Inr s5 \<longrightarrow> schema_ok s5 \<and> fs_indexField s5 = None \<and> column_field s5 c = column_field s c) \<and>
    (fs_schema s \<noteq> None \<and> c \<in> set (fs_columns s) \<longrightarrow> (\<exists>f. column_field s c = Some f \<and> field_name f = c))"
proof (intro conjI impI)
  show "schema_ok s1" "column_field s1 c = column_field s c" "index_field s1 = index_field s"
    if "filter_frame t predicate s = Inr s1"
    using filtered_rows [OF assms(1), of t predicate] that same_partition [of s1 s] assms(2) by auto
  show "schema_ok s2" "column_field s2 c = column_field s c" "index_field s2 = index_field s"
    if "sort_frame t compare s = Inr s2"
    using sorted_rows [OF assms(1), of t compare] that same_partition [of s2 s] assms(2) by auto
  show "schema_ok s3" "\<forall>c \<in> set cs. column_field s3 c = column_field s c" "index_field s3 = index_field s"
    if sel: "select_frame t cs s = Inr s3"
  proof -
    have "check_selected s cs [] = Inr ()" using sel by (auto simp: select_frame_def andthen_Inr)
    then have cs: "set cs \<subseteq> set (fs_columns s)" "distinct cs" using check_selected_iff [OF assms(1)] by auto
    have "fs_columns s3 = cs \<and> (fs_schema s3, fs_indexField s3) = selectSchema s cs"
      using selected_rows [OF assms(1) cs, of t] sel by auto
    then show "schema_ok s3" "\<forall>c \<in> set cs. column_field s3 c = column_field s c" "index_field s3 = index_field s"
      using selected_schema [OF assms cs] by blast+
  qed
  show "schema_ok s4" "index_field s4 = index_field s"
    "\<forall>c \<in> set (fs_columns s). column_field s4 (renamed ps c) = map_option (\<lambda>f. cloneField f (renamed ps c)) (column_field s c)"
    if ren: "rename_frame t (JObj ps) s = Inr s4"
  proof -
    obtain ds where ds: "next_columns ps (fs_columns s) = Inr ds" "distinct ds"
      using ren by (auto simp: rename_frame_def andthen_Inr)
    then have texts: "list_all (\<lambda>c. case mget ps c of None \<Rightarrow> True | Some v \<Rightarrow> is_str v) (fs_columns s)"
      and dist: "distinct (map (renamed ps) (fs_columns s))"
      by (auto simp: next_columns_iff)
    have "fs_columns s4 = map (renamed ps) (fs_columns s) \<and>
        (fs_schema s4, fs_indexField s4) = renameSchema s ps (map (renamed ps) (fs_columns s))"
      using renamed_rows [OF assms(1) texts dist, of t] ren by auto
    then show "schema_ok s4" "index_field s4 = index_field s"
      "\<forall>c \<in> set (fs_columns s). column_field s4 (renamed ps c) = map_option (\<lambda>f. cloneField f (renamed ps c)) (column_field s c)"
      using renamed_schema [OF assms dist] by blast+
  qed
  show "schema_ok s5" "fs_indexField s5 = None" "column_field s5 c = column_field s c" if "resetIndex t s = Inr s5"
  proof -
    have "fs_columns s5 = fs_columns s \<and> (fs_schema s5, fs_indexField s5) = resetIndexSchema s"
      using reset_rows [OF assms(1), of t] that by auto
    then show "schema_ok s5" "fs_indexField s5 = None" "column_field s5 c = column_field s c"
      using reset_schema [OF assms] by blast+
  qed
  show "\<exists>f. column_field s c = Some f \<and> field_name f = c" if "fs_schema s \<noteq> None \<and> c \<in> set (fs_columns s)"
    using that schema_okD(5) [OF assms] by auto
qed

text \<open>A table whose column takes the name of the index field.\<close>

definition demo_field :: "string \<Rightarrow> string \<Rightarrow> jsval" where
  "demo_field n t = JObj [(''name'', JStr n), (''type'', JStr t)]"

definition demo_table :: parsed_frame where
  "demo_table = \<lparr>pf_columns = [''a'', ''b''], pf_index = [LText ''x''], pf_source = True,
     pf_data = [(''a'', [jint 1]), (''b'', [JStr ''s''])],
     pf_schema = Some (JObj [(''fields'', JArr [demo_field ''a'' ''integer'', demo_field ''id'' ''string'', demo_field ''b'' ''string'']),
       (''primaryKey'', JArr [JStr ''id''])]), pf_indexField = Some ''id''\<rparr>"

definition demo_after :: "frame_error + frame_state" where
  "demo_after = andthen (createFrameState demo_table 0 []) (rename_frame 0 (JObj [(''a'', JStr ''id'')]))"

definition demo_pair :: "(frame_state \<times> frame_state) option" where
  "demo_pair = (case createFrameState demo_table 0 [] of Inr s \<Rightarrow> (case demo_after of Inr s' \<Rightarrow> Some (s, s') | Inl e \<Rightarrow> None) | Inl e \<Rightarrow> None)"

lemma demo_renames: "frame_ok demo_table" "case demo_pair of Some (s, s') \<Rightarrow> schema_ok s \<and> column_field s ''a'' = Some (demo_field ''a'' ''integer'') \<and>
    index_field s = Some (demo_field ''id'' ''string'') \<and> fs_columns s = [''a'', ''b''] | None \<Rightarrow> False"
  by code_simp+

theorem column_fields_kept_witness:
  "\<exists>s'. demo_after = Inr s' \<and> column_field s' ''id'' = Some (demo_field ''id'' ''integer'') \<and> index_field s' = Some (demo_field ''id'' ''string'')"
proof -
  obtain s s' where created: "createFrameState demo_table 0 [] = Inr s" and after: "demo_after = Inr s'"
    and s: "schema_ok s" "column_field s ''a'' = Some (demo_field ''a'' ''integer'')" "index_field s = Some (demo_field ''id'' ''string'')"
      "fs_columns s = [''a'', ''b'']"
    using demo_renames(2) unfolding demo_pair_def by (auto split: option.splits sum.splits)
  have "state_ok s" using created_state [OF demo_renames(1) created] by blast
  have "renamed [(''a'', JStr ''id'')] ''a'' = ''id''" "cloneField (demo_field ''a'' ''integer'') ''id'' = demo_field ''id'' ''integer''"
    by code_simp+
  moreover have "rename_frame 0 (JObj [(''a'', JStr ''id'')]) s = Inr s'"
    using after created by (simp add: demo_after_def)
  ultimately show ?thesis
    using column_fields_kept [OF \<open>state_ok s\<close> s(1), where t = 0 and ps = "[(''a'', JStr ''id'')]" and ?s4.0 = s'] s after by auto
qed

end
