(* ===== verification/FrameTable.thy ===== *)
theory FrameTable
  imports FrameSchema
begin

text \<open>
  The table payload of a data frame, \<open>exportTable\<close> of export/payload.ts in packages/json-frame, and what parsing it gives
  back. The copies of schema entries that the code makes with \<open>cloneJsonCompatible\<close> are the entries themselves: they
  come from a value that was copied within the same depth limit.
\<close>

section \<open>The table payload\<close>













section \<open>The templates are the fields of the columns\<close>



section \<open>Fields of an exported table\<close>






section \<open>Rows of an exported table\<close>






section \<open>The round trip\<close>












end
