(* ===== verification/FrameApi.thy ===== *)
theory FrameApi
  imports FrameTable
begin

text \<open>
  The entry point of packages/json-frame: the options of options.ts, \<open>fromOrient\<close> of api.ts, and what every frame that it
  returns satisfies. \<open>JSON.parse\<close> is a parameter: \<open>None\<close> when it throws.
\<close>

section \<open>Options\<close>

definition DEFAULT_PACK_THRESHOLD :: nat where
  "DEFAULT_PACK_THRESHOLD = 256"

fun own_value :: "jsany \<Rightarrow> string \<Rightarrow> jsany" where
  "own_value (VObj ps) k = (case map_of ps k of Some v \<Rightarrow> v | None \<Rightarrow> VUndef)"
| "own_value (VInstance n ps) k = (case map_of ps k of Some v \<Rightarrow> v | None \<Rightarrow> VUndef)"
| "own_value v k = VUndef"

text \<open>\<open>typeof v === 'object'\<close>, but for \<open>null\<close> and arrays.\<close>

fun is_options :: "jsany \<Rightarrow> bool" where
  "is_options (VObj _) = True"
| "is_options (VInstance _ _) = True"
| "is_options (VDate _) = True"
| "is_options (VRegExp _ _) = True"
| "is_options _ = False"

fun option_entries :: "jsany \<Rightarrow> (string \<times> jsany) list" where
  "option_entries (VObj ps) = ps"
| "option_entries (VInstance n ps) = ps"
| "option_entries v = []"

definition validateMaxNodes :: "jsany \<Rightarrow> frame_error + nat option" where
  "validateMaxNodes v =
     (case v of
        VUndef \<Rightarrow> Inr None
      | VNum x \<Rightarrow> (case safe_int x of Some n \<Rightarrow> if n \<le> 0 then Inl BadOption else Inr (Some (nat n)) | None \<Rightarrow> Inl BadOption)
      | _ \<Rightarrow> Inl BadOption)"

definition normalizeToTableOptions :: "jsany \<Rightarrow> frame_error + string option" where
  "normalizeToTableOptions options =
     (if options = VUndef then Inr None
      else if \<not> is_options options then Inl BadOption
      else (case own_value options ''indexField'' of
              VUndef \<Rightarrow> Inr None
            | VStr s \<Rightarrow> Inr (Some s)
            | _ \<Rightarrow> Inl BadOption))"

definition normalizeToJSONStringOptions :: "jsany \<Rightarrow> frame_error + string option \<times> nat option" where
  "normalizeToJSONStringOptions options =
     andthen (normalizeToTableOptions options) (\<lambda>field.
     andthen (validateMaxNodes (own_value options ''maxNodes'')) (\<lambda>m. Inr (field, m)))"

text \<open>\<open>None\<close> is \<open>auto\<close>.\<close>

definition isOrient :: "string \<Rightarrow> orient option option" where
  "isOrient s =
     map_of [(''auto'', None), (''records'', Some Records), (''index'', Some Index), (''columns'', Some Columns),
       (''values'', Some Values), (''split'', Some Split), (''table'', Some Table)] s"

definition isColumnType :: "string \<Rightarrow> column_type option" where
  "isColumnType s =
     map_of [(''integer'', TInteger), (''float'', TFloat), (''string'', TString), (''boolean'', TBoolean),
       (''datetime'', TDatetime), (''categorical'', TCategorical), (''mixed'', TMixed), (''unknown'', TUnknown)] s"

fun column_labels :: "jsany option list \<Rightarrow> string list \<Rightarrow> frame_error + string list" where
  "column_labels [] validated = Inr validated"
| "column_labels (slot # slots) validated =
     (case slot of
        Some (VStr s) \<Rightarrow> if s \<in> set validated then Inl BadOption else column_labels slots (validated @ [s])
      | _ \<Rightarrow> Inl BadOption)"

fun type_entries :: "(string \<times> jsany) list \<Rightarrow> frame_error + (string, column_type) jsmap" where
  "type_entries [] = Inr []"
| "type_entries ((c, v) # ps) =
     (case v of
        VStr s \<Rightarrow>
          (case isColumnType s of
             Some t \<Rightarrow> andthen (type_entries ps) (\<lambda>m. Inr ((c, t) # m))
           | None \<Rightarrow> Inl BadOption)
      | _ \<Rightarrow> Inl BadOption)"

record frame_options =
  fo_orient :: "orient option"
  fo_packThreshold :: nat
  fo_columns :: "string list option"
  fo_columnTypes :: "(string, column_type) jsmap"
  fo_maxNodes :: "nat option"

definition normalizeFromOrientOptions :: "jsany \<Rightarrow> frame_error + frame_options" where
  "normalizeFromOrientOptions options =
     (if options = VUndef \<or> options = VNull
      then Inr \<lparr>fo_orient = None, fo_packThreshold = DEFAULT_PACK_THRESHOLD, fo_columns = None, fo_columnTypes = [], fo_maxNodes = None\<rparr>
      else if \<not> is_options options then Inl BadOption
      else
        andthen (case own_value options ''orient'' of
                   VUndef \<Rightarrow> Inr None
                 | VNull \<Rightarrow> Inr None
                 | VStr s \<Rightarrow> (case isOrient s of Some x \<Rightarrow> Inr x | None \<Rightarrow> Inl BadOption)
                 | _ \<Rightarrow> Inl BadOption) (\<lambda>x.
        andthen (validateMaxNodes (own_value options ''maxNodes'')) (\<lambda>maxNodes.
        andthen (case own_value options ''packThreshold'' of
                   VUndef \<Rightarrow> Inr DEFAULT_PACK_THRESHOLD
                 | VNull \<Rightarrow> Inr DEFAULT_PACK_THRESHOLD
                 | VNum (Fin q) \<Rightarrow> if is_integer (Fin q) \<and> 0 \<le> \<lfloor>q\<rfloor> then Inr (nat \<lfloor>q\<rfloor>) else Inl BadOption
                 | _ \<Rightarrow> Inl BadOption) (\<lambda>packThreshold.
        andthen (case own_value options ''columns'' of
                   VUndef \<Rightarrow> Inr None
                 | VArr slots \<Rightarrow> map_sum id Some (column_labels slots [])
                 | _ \<Rightarrow> Inl BadOption) (\<lambda>columns.
        andthen (case own_value options ''columnTypes'' of
                   VUndef \<Rightarrow> Inr []
                 | v \<Rightarrow> if is_options v then type_entries (option_entries v) else Inl BadOption) (\<lambda>columnTypes.
        Inr \<lparr>fo_orient = x, fo_packThreshold = packThreshold, fo_columns = columns, fo_columnTypes = columnTypes,
             fo_maxNodes = maxNodes\<rparr>))))))"

definition fromOrient :: "(string \<Rightarrow> jsany option) \<Rightarrow> jsany \<Rightarrow> jsany \<Rightarrow> frame_error + frame_state" where
  "fromOrient json_parse input options =
     andthen (normalizeFromOrientOptions options) (\<lambda>normalized.
     andthen (case input of
                VStr s \<Rightarrow> (case json_parse s of Some v \<Rightarrow> Inr v | None \<Rightarrow> Inl BadText)
              | v \<Rightarrow> Inr v) (\<lambda>value.
     andthen (parseInput value (fo_orient normalized) (fo_columns normalized) (fo_maxNodes normalized)) (\<lambda>parsed.
     createFrameState parsed (fo_packThreshold normalized) (fo_columnTypes normalized))))"

section \<open>Parsed frames are well formed\<close>

lemma finalized:
  "finalizeFrame columns index src data = Inr f \<Longrightarrow>
     pf_columns f = columns \<and> pf_index f = index \<and> pf_source f = src \<and> pf_schema f = None \<and> pf_indexField f = None \<and>
     (\<forall>c \<in> set columns. mget (pf_data f) c = mget data c)"
  by (auto simp: list_all_iff map_of_map_restrict restrict_map_def split: if_splits)

lemma finite_positions: "list_all (\<lambda>l. case l of LNumber x \<Rightarrow> is_finite x | LText s \<Rightarrow> True) (map position_label ps)"
  by (simp add: list_all_iff)

lemma object_rows_objects: "object_rows i vals s = Inr r \<Longrightarrow> \<exists>rows. vals = map JObj rows"
proof (induction i vals s rule: object_rows.induct)
  case (2 row v vs s)
  then obtain ps where v: "v = JObj ps" by (cases v) auto
  obtain columns data where step: "add_columns row (map fst ps) s = (columns, data)" by fastforce
  have "object_rows (Suc row) vs (columns, push_cells (cell ps) columns data) = Inr r"
    using "2.prems" by (simp add: v step)
  then obtain rows where "vs = map JObj rows"
    using "2.IH" [OF v step [symmetric] refl] by blast
  then have "v # vs = map JObj (ps # rows)" by (simp add: v)
  then show ?case by (rule exI)
qed simp

lemma rows_frame:
  assumes "object_rows 0 values ([], []) = Inr (columns, data)" "finalizeFrame columns labels src data = Inr f"
    "length labels = length values" "list_all (\<lambda>l. case l of LNumber x \<Rightarrow> is_finite x | LText s \<Rightarrow> True) labels"
  shows "frame_ok f"
proof -
  obtain rows where rows: "values = map JObj rows" using object_rows_objects [OF assms(1)] by blast
  let ?cs = "first_seen [] (concat (map (map fst) rows))"
  have "columns = ?cs \<and> (\<forall>c. mget data c = (if c \<in> set ?cs then Some (map (\<lambda>r. cell r c) rows) else None))"
    using object_rows_spec [where cs = "[]" and data = "[]" and done_rows = "[]" and rows = rows] assms(1) by (auto simp: rows)
  moreover have "distinct ?cs" by (rule first_seen_props(2)) simp
  ultimately show ?thesis
    using finalized [OF assms(2)] assms(3,4) by (auto simp: frame_ok_def list_all_iff rows)
qed

lemma object_columns_lengths:
  "object_columns seen ps data = Inr (seen', data') \<Longrightarrow> distinct (map fst ps) \<Longrightarrow>
   (seen \<noteq> None \<longrightarrow> seen' = seen) \<and>
   (\<forall>c. (c \<in> set (map fst ps) \<longrightarrow> (\<exists>vs keys. mget data' c = Some vs \<and> seen' = Some keys \<and> length vs = length keys)) \<and>
        (c \<notin> set (map fst ps) \<longrightarrow> mget data' c = mget data c))"
proof (induction ps arbitrary: seen data)
  case (Cons p ps)
  obtain c v where p: "p = (c, v)" by (cases p)
  obtain qs where v: "v = JObj qs" using Cons.prems(1) by (cases v) (auto simp: p)
  have step: "object_columns (Some (map fst qs)) ps (mput c (map snd qs) data) = Inr (seen', data')"
    "seen = None \<or> seen = Some (map fst qs)"
    using Cons.prems(1) by (auto simp: p v Let_def split: if_splits)
  from Cons.IH [OF step(1)] Cons.prems(2) step(2) show ?case by (fastforce simp: p)
qed simp

lemma columns_frame:
  assumes "parseColumns (JObj ps) = Inr f" "distinct (map fst ps)"
  shows "frame_ok f"
proof -
  obtain seen data where step: "object_columns None ps [] = Inr (seen, data)"
    "finalizeFrame (map fst ps) (map LText (case seen of Some keys \<Rightarrow> keys | None \<Rightarrow> [])) True data = Inr f"
    using assms(1) by (auto simp: parseColumns_def andthen_Inr simp del: finalizeFrame.simps)
  show ?thesis
    using object_columns_lengths [OF step(1) assms(2)] finalized [OF step(2)] assms(2)
    by (fastforce simp: frame_ok_def list_all_iff)
qed

lemma pushed_lengths:
  assumes "distinct cs" "\<And>c. c \<in> set cs \<Longrightarrow> map_option length (mget data c) = Some m" "length xs = length cs"
  shows "c \<in> set cs \<Longrightarrow> map_option length (mget
    (foldl (\<lambda>m (c, v). case mget m c of Some ys \<Rightarrow> mput c (ys @ [v]) m | None \<Rightarrow> m) data (zip cs xs)) c) = Some (Suc m)"
proof -
  have "xs = map (\<lambda>c. the (map_of (zip cs xs) c)) cs"
    using assms(1,3) by (intro nth_equalityI) (auto simp: map_of_zip_nth)
  then obtain g where "xs = map g cs" by blast
  then show "c \<in> set cs \<Longrightarrow> ?thesis"
    using push_array_row [OF assms(1), of data g c] assms(2) [of c] by auto
qed

lemma array_lengths:
  "array_rows cs vals data = Inr data' \<Longrightarrow> distinct cs \<Longrightarrow>
   (\<And>c. c \<in> set cs \<Longrightarrow> map_option length (mget data c) = Some m) \<Longrightarrow>
   c \<in> set cs \<Longrightarrow> map_option length (mget data' c) = Some (m + length vals)"
proof (induction vals arbitrary: data m)
  case (Cons v vs)
  obtain xs where v: "v = JArr xs" "length xs = length cs"
    using Cons.prems(1) by (cases v) (auto split: if_splits)
  let ?next = "foldl (\<lambda>m (c, v). case mget m c of Some ys \<Rightarrow> mput c (ys @ [v]) m | None \<Rightarrow> m) data (zip cs xs)"
  have "array_rows cs vs ?next = Inr data'" using Cons.prems(1) v by simp
  from Cons.IH [OF this Cons.prems(2) pushed_lengths [OF Cons.prems(2,3) v(2)] Cons.prems(4)] show ?case by simp
qed simp

lemma arrays_frame:
  assumes "array_rows cs values (initializeData cs) = Inr data" "finalizeFrame cs labels src data = Inr f" "distinct cs"
    "length labels = length values" "list_all (\<lambda>l. case l of LNumber x \<Rightarrow> is_finite x | LText s \<Rightarrow> True) labels"
  shows "frame_ok f"
proof -
  have "map_option length (mget data c) = Some (length values)" if "c \<in> set cs" for c
    using array_lengths [OF assms(1,3) _ that, of 0] by (simp add: initial_columns)
  then show ?thesis
    using finalized [OF assms(2)] assms(3-5) by (auto simp: frame_ok_def list_all_iff)
qed

section \<open>Tables\<close>

lemma pushed_cells:
  assumes "distinct cs" "\<And>c. c \<in> set cs \<Longrightarrow> map_option length (mget data c) = Some m"
  shows "c \<in> set cs \<Longrightarrow> map_option length (mget (push_cells g cs data) c) = Some (Suc m)"
  using push_get [OF assms(1), of g data c] assms(2) [of c] by auto

lemma supported_label: "assertSupportedIndexLabel v = Inr l \<Longrightarrow> (case l of LNumber x \<Rightarrow> is_finite x | LText s \<Rightarrow> True)"
  by (auto simp: assertSupportedIndexLabel_def split: jsval.splits if_splits)

lemma table_lengths:
  "table_rows names pk cs row vals index data = Inr (index', data') \<Longrightarrow> distinct cs \<Longrightarrow>
   (\<And>c. c \<in> set cs \<Longrightarrow> map_option length (mget data c) = Some m) \<Longrightarrow>
   list_all (\<lambda>l. case l of LNumber x \<Rightarrow> is_finite x | LText s \<Rightarrow> True) index \<Longrightarrow>
   length index' = length index + length vals \<and> list_all (\<lambda>l. case l of LNumber x \<Rightarrow> is_finite x | LText s \<Rightarrow> True) index' \<and>
   (\<forall>c \<in> set cs. map_option length (mget data' c) = Some (m + length vals))"
proof (induction vals arbitrary: row index data m)
  case (Cons v vs)
  obtain ps where v: "v = JObj ps" using Cons.prems(1) by (cases v) auto
  let ?next = "push_cells (cell ps) cs data"
  obtain l where l: "(case pk of None \<Rightarrow> Inr (position_label row)
      | Some k \<Rightarrow> (case map_of ps k of None \<Rightarrow> Inl MissingPrimaryKey
          | Some v \<Rightarrow> andthen (assertSupportedIndexLabel v) (\<lambda>x. andthen (guard DuplicatePrimaryKey (x \<notin> set index)) (\<lambda>_. Inr x)))) =
      Inr l"
    and step: "table_rows names pk cs (Suc row) vs (index @ [l]) ?next = Inr (index', data')"
    using Cons.prems(1) by (auto simp: v andthen_Inr)
  have "case l of LNumber x \<Rightarrow> is_finite x | LText s \<Rightarrow> True"
    using l by (auto simp: andthen_Inr dest: supported_label split: option.splits)
  with Cons.IH [OF step Cons.prems(2) pushed_cells [OF Cons.prems(2,3)]] Cons.prems(4) show ?case by simp
qed simp

lemma named_field: "cloneTableField f = Inr n \<Longrightarrow> n = field_name f"
  by (auto simp: cloneTableField_def field_name_def andthen_Inr split: jsval.splits option.splits)

lemma read_fields: "field_names fs = Inr names \<Longrightarrow> list_all field_valid fs \<and> map field_name fs = names"
  by (induction fs arbitrary: names) (auto simp: andthen_Inr field_valid_def dest: named_field)

lemma table_frame_ok:
  assumes "parseTable value = Inr f"
  shows "frame_ok f \<and> (\<forall>s. fs_columns s = pf_columns f \<and> fs_schema s = pf_schema f \<and> fs_indexField s = pf_indexField f \<longrightarrow> schema_ok s)"
proof -
  define schema where "schema = jprop value ''schema''"
  obtain rows where data: "jprop value ''data'' = JArr rows"
    using assms by (cases "jprop value ''data''") (auto simp: parseTable_def andthen_Inr split: if_splits)
  obtain names pk where read: "cloneTableSchema schema = Inr (names, pk)"
    and member: "case pk of None \<Rightarrow> True | Some k \<Rightarrow> k \<in> set names"
    using assms by (auto simp: parseTable_def schema_def andthen_Inr data split: if_splits)
  let ?cs = "filter (\<lambda>n. pk \<noteq> Some n) names"
  obtain index data frame where rows: "table_rows names pk ?cs 0 rows [] (initializeData ?cs) = Inr (index, data)"
    and final: "finalizeFrame ?cs index (pk \<noteq> None) data = Inr frame"
    and f: "f = frame\<lparr>pf_schema := Some schema, pf_indexField := pk\<rparr>"
    using assms unfolding parseTable_def data schema_def [symmetric] read
    by (auto simp: andthen_Inr Let_def simp del: finalizeFrame.simps split: if_splits)
  obtain ps fs where fs: "schema = JObj ps" "jprop schema ''fields'' = JArr fs" "field_names fs = Inr names" "distinct names"
    and version: "jprop schema ''pandas_version'' = JUndef \<or> is_str (jprop schema ''pandas_version'')"
    using read unfolding cloneTableSchema_def
    by (auto simp: andthen_Inr simp del: jprop.simps split: jsval.splits)
  have dist: "distinct ?cs" using fs(4) by simp
  have zero: "map_option length (mget (initializeData ?cs) c) = Some 0" if "c \<in> set ?cs" for c
    using that by (simp add: initial_columns)
  have lengths: "length index = length rows" "list_all (\<lambda>l. case l of LNumber x \<Rightarrow> is_finite x | LText s \<Rightarrow> True) index"
    "\<forall>c \<in> set ?cs. map_option length (mget data c) = Some (length rows)"
    using table_lengths [OF rows dist zero] by auto
  have "frame_ok f"
    using finalized [OF final] lengths dist by (auto simp: f frame_ok_def list_all_iff)
  moreover have "schema_ok s" if "fs_columns s = pf_columns f" "fs_schema s = pf_schema f" "fs_indexField s = pf_indexField f" for s
  proof -
    have fields: "schema_fields schema = fs" using fs(2) by (simp add: schema_fields_def)
    have "names_ok pk ?cs names"
      using fs(4) member by (auto simp: names_ok_def split: option.split)
    moreover have "fs_columns s = ?cs" "fs_schema s = Some schema" "fs_indexField s = pk"
      using that finalized [OF final] by (simp_all add: f)
    ultimately show ?thesis
      using read_fields [OF fs(3)] fs(1,2) version fields by (simp add: schema_ok_def del: jprop.simps)
  qed
  ultimately show ?thesis by blast
qed

section \<open>The property\<close>

lemma unique_strings: "assertUniqueStringColumns vals cs = Inr ds \<Longrightarrow> distinct cs \<Longrightarrow> distinct ds"
  by (induction vals cs rule: assertUniqueStringColumns.induct) (auto split: jsval.splits if_splits)

lemma labels_read: "index_labels vals = Inr ls \<Longrightarrow> length ls = length vals \<and>
    list_all (\<lambda>l. case l of LNumber x \<Rightarrow> is_finite x | LText s \<Rightarrow> True) ls"
  by (induction vals arbitrary: ls) (auto simp: andthen_Inr dest: supported_label)

lemma columns_validated: "column_labels slots cs = Inr ds \<Longrightarrow> distinct cs \<Longrightarrow> distinct ds"
  by (induction slots cs rule: column_labels.induct) (auto split: option.splits jsany.splits if_splits)

lemma no_schema_ok:
  "frame_ok f \<Longrightarrow> pf_schema f = None \<Longrightarrow> pf_indexField f = None \<Longrightarrow>
   frame_ok f \<and> (\<forall>s. fs_columns s = pf_columns f \<and> fs_schema s = pf_schema f \<and> fs_indexField s = pf_indexField f \<longrightarrow> schema_ok s)"
  by (simp add: schema_ok_def)

lemma map_sum_Inr: "map_sum id g x = Inr y \<longleftrightarrow> (\<exists>z. x = Inr z \<and> y = g z)"
  by (cases x) auto

lemma split_frame:
  assumes "parseSplit value = Inr f"
  shows "frame_ok f \<and> pf_schema f = None \<and> pf_indexField f = None"
proof -
  obtain cs rows columns labels data where
    parts: "jprop value ''columns'' = JArr cs" "jprop value ''data'' = JArr rows" "assertUniqueStringColumns cs [] = Inr columns"
    and labels: "(case jprop value ''index'' of JUndef \<Rightarrow> Inr None | JArr ls \<Rightarrow> map_sum id Some (index_labels ls) | _ \<Rightarrow> Inl BadIndex) = Inr labels"
      "case labels of Some ls \<Rightarrow> length ls = length rows | None \<Rightarrow> True"
    and data: "array_rows columns rows (initializeData columns) = Inr data"
      "finalizeFrame columns (case labels of Some ls \<Rightarrow> ls | None \<Rightarrow> map position_label [0..<length rows]) (labels \<noteq> None) data = Inr f"
    using assms unfolding parseSplit_def
    by (auto simp: andthen_Inr simp del: jprop.simps finalizeFrame.simps split: if_splits jsval.splits)
  have "list_all (\<lambda>l. case l of LNumber x \<Rightarrow> is_finite x | LText s \<Rightarrow> True) ls" if "labels = Some ls" for ls
    using labels(1) that by (cases "jprop value ''index''") (auto simp: map_sum_Inr dest: labels_read)
  then have "frame_ok f"
    using arrays_frame [OF data unique_strings [OF parts(3)]] labels(2) finite_positions by (auto split: option.splits)
  then show ?thesis using finalized [OF data(2)] by simp
qed

lemma json_keys: "map fst (json_entries ps) = map fst ps"
  by (induction ps) auto

lemma cloned_json: "cloneJsonCompatible v m = Inr w \<Longrightarrow> w = json_of v"
proof -
  assume "cloneJsonCompatible v m = Inr w"
  then have "andthen (json_copy 0 v m) (\<lambda>(w, b). Inr w) = Inr w"
    using clone_loop_copies(1) [where v = v and depth = 0 and b = m]
    by (auto simp: cloneJsonCompatible_def andthen_def split: sum.splits prod.splits)
  then show "w = json_of v"
    using json_copy_iff(1) [where v = v and depth = 0 and b = m] by (auto simp: andthen_Inr)
qed

lemma parsed_frame:
  assumes parsed: "parseInput v x option_columns m = Inr f" and keys: "\<And>ps. v = VObj ps \<Longrightarrow> distinct (map fst ps)"
    and cols: "\<And>cs. option_columns = Some cs \<Longrightarrow> distinct cs"
  shows "frame_ok f \<and> (\<forall>s. fs_columns s = pf_columns f \<and> fs_schema s = pf_schema f \<and> fs_indexField s = pf_indexField f \<longrightarrow> schema_ok s)"
proof -
  obtain w where copy: "cloneJsonCompatible v m = Inr w"
    using parsed by (cases "cloneJsonCompatible v m") (auto simp: parseInput_def)
  have top: "distinct (map fst qs)" if "w = JObj qs" for qs
  proof -
    have "w = json_of v" by (rule cloned_json [OF copy])
    then show ?thesis using that keys by (cases v) (auto simp: json_keys)
  qed
  obtain x' where run: "(case x' of Records \<Rightarrow> parseRecords w | Index \<Rightarrow> parseIndex w | Columns \<Rightarrow> parseColumns w
      | Values \<Rightarrow> parseValues w option_columns | Split \<Rightarrow> parseSplit w | Table \<Rightarrow> parseTable w) = Inr f"
    using parsed by (auto simp: parseInput_def copy andthen_Inr)
  show ?thesis
  proof (cases x')
    case Records
    then obtain rows columns data where "w = JArr rows" "object_rows 0 rows ([], []) = Inr (columns, data)"
      "finalizeFrame columns (map position_label [0..<length rows]) False data = Inr f"
      using run by (cases w) (auto simp: parseRecords_def andthen_Inr simp del: finalizeFrame.simps)
    note r = this
    have "frame_ok f" by (rule rows_frame [OF r(2,3) _ finite_positions]) simp
    then show ?thesis using no_schema_ok finalized [OF r(3)] by blast
  next
    case Index
    then obtain ps columns data where "w = JObj ps" "object_rows 0 (map snd ps) ([], []) = Inr (columns, data)"
      "finalizeFrame columns (map (LText \<circ> fst) ps) True data = Inr f"
      using run by (cases w) (auto simp: parseIndex_def andthen_Inr simp del: finalizeFrame.simps)
    note r = this
    have "frame_ok f" by (rule rows_frame [OF r(2,3)]) (simp_all add: list_all_iff)
    then show ?thesis using no_schema_ok finalized [OF r(3)] by blast
  next
    case Columns
    then obtain ps where ps: "w = JObj ps" using run by (cases w) (auto simp: parseColumns_def)
    then have col: "parseColumns (JObj ps) = Inr f" using Columns run by simp
    then have "pf_schema f = None \<and> pf_indexField f = None"
      by (auto simp: parseColumns_def andthen_Inr simp del: finalizeFrame.simps dest: finalized)
    then show ?thesis using columns_frame [OF col top [OF ps]] no_schema_ok by blast
  next
    case Values
    then obtain cs rows data where "option_columns = Some cs" "w = JArr rows" "array_rows cs rows (initializeData cs) = Inr data"
      "finalizeFrame cs (map position_label [0..<length rows]) False data = Inr f"
      using run by (cases w) (auto simp: parseValues_def andthen_Inr simp del: finalizeFrame.simps split: option.splits)
    note r = this
    have "frame_ok f" by (rule arrays_frame [OF r(3,4) cols [OF r(1)] _ finite_positions]) simp
    then show ?thesis using no_schema_ok finalized [OF r(4)] by blast
  next
    case Split
    then show ?thesis using run split_frame no_schema_ok by auto
  next
    case Table
    then show ?thesis using run table_frame_ok by auto
  qed
qed

lemma normalized_columns:
  assumes "normalizeFromOrientOptions options = Inr n" "fo_columns n = Some cs"
  shows "distinct cs"
proof -
  have "(case own_value options ''columns'' of VUndef \<Rightarrow> Inr None | VArr slots \<Rightarrow> map_sum id Some (column_labels slots []) | _ \<Rightarrow> Inl BadOption) =
      Inr (Some cs)"
    using assms by (auto simp: normalizeFromOrientOptions_def andthen_Inr split: if_splits)
  then obtain slots where "column_labels slots [] = Inr cs"
    by (cases "own_value options ''columns''") (auto simp: map_sum_Inr)
  then show ?thesis using columns_validated by force
qed

text \<open>C40: Every frame that \<open>fromOrient\<close> returns is well formed: its columns are distinct, each stored column has one cell
  per label and is marked nullable exactly when it holds a null, its labels are texts and finite numbers, and the
  schema of a table has one valid field per column and per index. Objects have distinct keys, those that
  \<open>JSON.parse\<close> returns too.\<close>

theorem from_orient_wellformed:
  assumes "fromOrient json_parse input options = Inr s" "\<And>ps. input = VObj ps \<Longrightarrow> distinct (map fst ps)"
    "\<And>t ps. json_parse t = Some (VObj ps) \<Longrightarrow> distinct (map fst ps)"
  shows "state_ok s \<and> schema_ok s \<and> list_all (\<lambda>l. case l of LNumber x \<Rightarrow> is_finite x | LText t \<Rightarrow> True) (fs_index s)"
proof -
  obtain n v f where n: "normalizeFromOrientOptions options = Inr n"
    and v: "(case input of VStr t \<Rightarrow> (case json_parse t of Some v \<Rightarrow> Inr v | None \<Rightarrow> Inl BadText) | v \<Rightarrow> Inr v) = Inr v"
    and f: "parseInput v (fo_orient n) (fo_columns n) (fo_maxNodes n) = Inr f"
    and s: "createFrameState f (fo_packThreshold n) (fo_columnTypes n) = Inr s"
    using assms(1) by (auto simp: fromOrient_def andthen_Inr)
  have "distinct (map fst ps)" if "v = VObj ps" for ps
    using v that assms(2,3) by (cases input) (auto split: option.splits)
  from parsed_frame [OF f this normalized_columns [OF n]]
  have ok: "frame_ok f" "\<And>s. fs_columns s = pf_columns f \<Longrightarrow> fs_schema s = pf_schema f \<Longrightarrow> fs_indexField s = pf_indexField f \<Longrightarrow> schema_ok s"
    by blast+
  then show ?thesis
    using created_state [OF ok(1) s] by (auto simp: frame_ok_def)
qed

text \<open>A split payload with a text label.\<close>

definition demo_input :: jsany where
  "demo_input = VObj [(''columns'', VArr [Some (VStr ''n'')]), (''index'', VArr [Some (VStr ''x'')]),
     (''data'', VArr [Some (VArr [Some (VNum (of_integer 7))])])]"

theorem from_orient_wellformed_witness:
  "\<exists>s. fromOrient (\<lambda>t. None) demo_input VUndef = Inr s \<and> fs_columns s = [''n''] \<and> state_ok s"
proof -
  have "case fromOrient (\<lambda>t. None) demo_input VUndef of Inr s \<Rightarrow> fs_columns s = [''n''] | Inl e \<Rightarrow> False" by code_simp
  then obtain s where s: "fromOrient (\<lambda>t. None) demo_input VUndef = Inr s" "fs_columns s = [''n'']"
    by (auto split: sum.splits)
  have "distinct (map fst ps)" if "demo_input = VObj ps" for ps using that by (auto simp: demo_input_def)
  with s show ?thesis using from_orient_wellformed [OF s(1)] by auto
qed

end
