(* ===== verification/DpopPolicy.thy ===== *)
theory DpopPolicy
  imports AttestCodec VaultBinding
begin

text \<open>
  The sender-constraint policy of packages/express-oidc-vault: device-binding-policy.ts (options, stored bindings,
  the match of a verified proof with the binding of a record) and dpop-failure-policy.ts (which failed checks may be
  ignored). The environment of the process is a parameter \<open>env\<close>. Warnings and diagnostics are not modelled.
\<close>

section \<open>Errors and options\<close>

text \<open>
  The errors that a client sees have a code of their own; every other exception is \<open>Unexpected\<close> and becomes a
  status 500. \<open>UseNonce\<close> carries the challenge.
\<close>

datatype dpop_error =
    InvalidProof
  | DpopRequired
  | BindingRequired
  | ReplayUnavailable
  | UseNonce string
  | BadOption
  | Unexpected

datatype dpop_alg = ES256 | PS256 | RS256

datatype binding_mode = Optional | Required

record dpop_nonce_options =
  nonce_secret :: bytes
  nonce_lifetimeSeconds :: int

record dpop_policy =
  dp_mode :: binding_mode
  dp_algorithms :: "dpop_alg list"
  dp_proofMaxAgeSeconds :: int
  dp_clockSkewSeconds :: int
  dp_nonce :: "dpop_nonce_options option"
  dp_ignoreTargetFailure :: bool
  dp_ignoreFreshnessFailure :: bool
  dp_ignoreReplayFailure :: bool

definition isDpopAlgorithm :: "jsval \<Rightarrow> dpop_alg option" where
  "isDpopAlgorithm v =
     (if v = JStr ''ES256'' then Some ES256 else if v = JStr ''PS256'' then Some PS256
      else if v = JStr ''RS256'' then Some RS256 else None)"

definition alg_name :: "dpop_alg \<Rightarrow> string" where
  "alg_name a = (case a of ES256 \<Rightarrow> ''ES256'' | PS256 \<Rightarrow> ''PS256'' | RS256 \<Rightarrow> ''RS256'')"

definition resolveInteger :: "jsval \<Rightarrow> int \<Rightarrow> int \<Rightarrow> int \<Rightarrow> dpop_error + int" where
  "resolveInteger v fallback lo hi =
     (case as_safe (if v = JUndef then jint fallback else v) of
        None \<Rightarrow> Inl BadOption
      | Some n \<Rightarrow> if n < lo \<or> n > hi then Inl BadOption else Inr n)"

datatype dpop_check = TargetCheck | FreshnessCheck | ReplayCheck

definition check_env :: "dpop_check \<Rightarrow> string" where
  "check_env c = (case c of
       TargetCheck \<Rightarrow> ''OIDC_VAULT_DPOP_IGNORE_TARGET_FAILURE''
     | FreshnessCheck \<Rightarrow> ''OIDC_VAULT_DPOP_IGNORE_FRESHNESS_FAILURE''
     | ReplayCheck \<Rightarrow> ''OIDC_VAULT_DPOP_IGNORE_REPLAY_FAILURE'')"

definition resolveDpopFailureOption :: "(string \<Rightarrow> string option) \<Rightarrow> jsval \<Rightarrow> dpop_check \<Rightarrow> dpop_error + bool" where
  "resolveDpopFailureOption env v check =
     (case v of
        JUndef \<Rightarrow> Inr (env (check_env check) = Some ''true'')
      | JBool b \<Rightarrow> Inr b
      | _ \<Rightarrow> Inl BadOption)"

definition handleDpopCheckFailure :: "bool \<Rightarrow> dpop_error \<Rightarrow> dpop_error + unit" where
  "handleDpopCheckFailure ignore error = (if \<not> ignore then Inl error else Inr ())"

text \<open>The elements of \<open>new Set(xs)\<close>, in insertion order.\<close>

definition set_order :: "'a list \<Rightarrow> 'a list" where
  "set_order xs = rev (remdups (rev xs))"

definition resolve_algorithms :: "jsval \<Rightarrow> dpop_error + dpop_alg list" where
  "resolve_algorithms v =
     (case if v = JUndef then JArr [JStr ''ES256''] else v of
        JArr items \<Rightarrow>
          (if items = [] then Inl BadOption
           else if \<not> list_all (\<lambda>a. isDpopAlgorithm a \<noteq> None) items then Inl BadOption
           else Inr (set_order (map (\<lambda>a. the (isDpopAlgorithm a)) items)))
      | _ \<Rightarrow> Inl BadOption)"

definition resolve_nonce :: "jsval \<Rightarrow> dpop_error + dpop_nonce_options option" where
  "resolve_nonce v =
     (if v = JUndef \<or> v = JBool False then Inr None
      else if \<not> isRecord v then Inl BadOption
      else
        (case jprop v ''secret'' of
           JBytes secret \<Rightarrow>
             (if length secret < 32 then Inl BadOption
              else andthen (resolveInteger (jprop v ''lifetimeSeconds'') 60 1 300) (\<lambda>life.
                Inr (Some \<lparr>nonce_secret = secret, nonce_lifetimeSeconds = life\<rparr>)))
         | _ \<Rightarrow> Inl BadOption))"

definition resolve_mode :: "jsval \<Rightarrow> dpop_error + binding_mode" where
  "resolve_mode v =
     (if v = JUndef \<or> v = JStr ''optional'' then Inr Optional
      else if v = JStr ''required'' then Inr Required else Inl BadOption)"

definition resolveDeviceBindingOptions :: "(string \<Rightarrow> string option) \<Rightarrow> jsval \<Rightarrow> dpop_error + dpop_policy option" where
  "resolveDeviceBindingOptions env v =
     (if v = JUndef then Inr None
      else if \<not> isRecord v then Inl BadOption
      else
        andthen (resolve_mode (jprop v ''mode'')) (\<lambda>mode.
        andthen (resolve_algorithms (jprop v ''algorithms'')) (\<lambda>algorithms.
        andthen (resolve_nonce (jprop v ''nonce'')) (\<lambda>nonce.
        andthen (resolveInteger (jprop v ''proofMaxAgeSeconds'') 60 1 300) (\<lambda>age.
        andthen (resolveInteger (jprop v ''clockSkewSeconds'') 5 0 30) (\<lambda>skew.
        andthen (resolveDpopFailureOption env (jprop v ''ignoreTargetFailure'') TargetCheck) (\<lambda>target.
        andthen (resolveDpopFailureOption env (jprop v ''ignoreFreshnessFailure'') FreshnessCheck) (\<lambda>freshness.
        andthen (resolveDpopFailureOption env (jprop v ''ignoreReplayFailure'') ReplayCheck) (\<lambda>replay.
        Inr (Some \<lparr>dp_mode = mode, dp_algorithms = algorithms, dp_proofMaxAgeSeconds = age,
          dp_clockSkewSeconds = skew, dp_nonce = nonce, dp_ignoreTargetFailure = target,
          dp_ignoreFreshnessFailure = freshness, dp_ignoreReplayFailure = replay\<rparr>))))))))))"

text \<open>What the resolver promises.\<close>

definition policy_wf :: "dpop_policy \<Rightarrow> bool" where
  "policy_wf p \<longleftrightarrow> dp_algorithms p \<noteq> [] \<and> distinct (dp_algorithms p) \<and>
     1 \<le> dp_proofMaxAgeSeconds p \<and> dp_proofMaxAgeSeconds p \<le> 300 \<and>
     0 \<le> dp_clockSkewSeconds p \<and> dp_clockSkewSeconds p \<le> 30 \<and>
     (\<forall>n. dp_nonce p = Some n \<longrightarrow> 32 \<le> length (nonce_secret n) \<and>
        1 \<le> nonce_lifetimeSeconds n \<and> nonce_lifetimeSeconds n \<le> 300)"

lemma resolveInteger_Inr:
  "resolveInteger v fallback lo hi = Inr n \<longleftrightarrow> as_safe (if v = JUndef then jint fallback else v) = Some n \<and> lo \<le> n \<and> n \<le> hi"
  by (auto simp: resolveInteger_def split: option.splits if_splits)

lemma set_order_props [simp]: "distinct (set_order xs)" "set (set_order xs) = set xs"
  by (simp_all add: set_order_def)

lemma resolve_algorithms_Inr:
  "resolve_algorithms v = Inr as \<Longrightarrow> as \<noteq> [] \<and> distinct as"
  by (auto simp: resolve_algorithms_def split: jsval.splits if_splits)
     (metis list.set_intros(1) set_empty2 set_order_props(2) list.map_disc_iff list.distinct(1))+

lemma resolve_nonce_Inr:
  "resolve_nonce v = Inr (Some n) \<Longrightarrow>
     32 \<le> length (nonce_secret n) \<and> 1 \<le> nonce_lifetimeSeconds n \<and> nonce_lifetimeSeconds n \<le> 300"
  by (auto simp: resolve_nonce_def andthen_Inr resolveInteger_Inr split: jsval.splits if_splits)

lemma resolved_policy_wf: "resolveDeviceBindingOptions env v = Inr (Some p) \<Longrightarrow> policy_wf p"
  by (auto simp: resolveDeviceBindingOptions_def andthen_Inr resolveInteger_Inr policy_wf_def
      dest!: resolve_algorithms_Inr dest: resolve_nonce_Inr split: if_splits)

section \<open>Store capabilities\<close>

definition DEVICE_BINDING_STORE_CAPABILITIES :: "string list" where
  "DEVICE_BINDING_STORE_CAPABILITIES =
     [''getAuthorizationTransaction'', ''consumeAuthorizationTransactionIfMatches'', ''getExchangeCode'',
      ''consumeExchangeCodeIfMatches'', ''getSessionRevocationContext'', ''reserveDpopProof'']"

fun is_function :: "jsval \<Rightarrow> bool" where
  "is_function (JFun _) = True"
| "is_function _ = False"

definition assertDeviceBindingStoreCapabilities :: "jsval \<Rightarrow> dpop_error + unit" where
  "assertDeviceBindingStoreCapabilities store =
     guard BadOption (list_all (\<lambda>name. is_function (jprop store name)) DEVICE_BINDING_STORE_CAPABILITIES)"

section \<open>Stored and verified bindings\<close>

definition isCanonicalDpopJkt :: "jsval \<Rightarrow> bool" where
  "isCanonicalDpopJkt v \<longleftrightarrow>
     (case v of
        JStr s \<Rightarrow> length s = 43 \<and> list_all is_b64url (butlast s) \<and> last s \<in> set ''AEIMQUYcgkosw048''
      | _ \<Rightarrow> False)"

text \<open>The thumbprint of a stored binding; the type of a binding is always \<open>dpop\<close>.\<close>

definition snapshotDpopBinding :: "jsval \<Rightarrow> dpop_error + string option" where
  "snapshotDpopBinding v =
     (if v = JUndef then Inr None
      else if \<not> isRecord v then Inl InvalidProof
      else if jprop v ''type'' \<noteq> JStr ''dpop'' \<or> \<not> isCanonicalDpopJkt (jprop v ''jkt'') then Inl InvalidProof
      else (case jprop v ''jkt'' of JStr jkt \<Rightarrow> Inr (Some jkt) | _ \<Rightarrow> Inl InvalidProof))"

definition binding_val :: "string option \<Rightarrow> jsval" where
  "binding_val b = (case b of None \<Rightarrow> JUndef | Some jkt \<Rightarrow> JObj [(''type'', JStr ''dpop''), (''jkt'', JStr jkt)])"

definition assertDeviceBindingPolicy :: "dpop_policy option \<Rightarrow> jsval \<Rightarrow> dpop_error + unit" where
  "assertDeviceBindingPolicy policy binding =
     andthen (snapshotDpopBinding binding) (\<lambda>stored.
     if stored \<noteq> None \<and> policy = None then Inl DpopRequired
     else if stored = None \<and> (case policy of Some p \<Rightarrow> dp_mode p = Required | None \<Rightarrow> False) then Inl BindingRequired
     else Inr ())"

text \<open>A verified proof, as a value: its key and its algorithm.\<close>

type_synonym verified_key = "string \<times> dpop_alg"

definition verified_val :: "verified_key \<Rightarrow> jsval" where
  "verified_val k = JObj [(''type'', JStr ''dpop''), (''jkt'', JStr (fst k)), (''alg'', JStr (alg_name (snd k)))]"

definition resolveVerifiedDeviceBinding ::
  "dpop_policy option \<Rightarrow> jsval \<Rightarrow> jsval \<Rightarrow> dpop_error + verified_key option" where
  "resolveVerifiedDeviceBinding policy binding verified =
     andthen (snapshotDpopBinding binding) (\<lambda>stored.
     andthen (assertDeviceBindingPolicy policy (binding_val stored)) (\<lambda>_.
     if verified = JUndef then (if stored \<noteq> None then Inl DpopRequired else Inr None)
     else
       andthen (snapshotDpopBinding verified) (\<lambda>proofBinding.
       (case (proofBinding, isDpopAlgorithm (jprop verified ''alg''), policy) of
          (Some key, Some alg, Some p) \<Rightarrow>
            (if alg \<notin> set (dp_algorithms p) then Inl InvalidProof
             else (case stored of
                     None \<Rightarrow> Inr None
                   | Some jkt \<Rightarrow> if jkt \<noteq> key then Inl InvalidProof else Inr (Some (jkt, alg))))
        | _ \<Rightarrow> Inl InvalidProof))))"

definition withSessionDeviceBinding :: "jsval \<Rightarrow> jsval \<Rightarrow> dpop_error + jsval" where
  "withSessionDeviceBinding session binding =
     (case session of
        JObj ps \<Rightarrow>
          andthen (snapshotDpopBinding binding) (\<lambda>stored.
          Inr (JObj (filter (\<lambda>(k, v). k \<noteq> ''deviceBinding'') ps @
            (if stored = None then [] else [(''deviceBinding'', binding_val stored)]))))
      | _ \<Rightarrow> Inl Unexpected)"

lemma isDpopAlgorithm_name [simp]: "isDpopAlgorithm (JStr (alg_name a)) = Some a"
  by (cases a) (simp_all add: isDpopAlgorithm_def alg_name_def)

lemma isDpopAlgorithm_iff: "isDpopAlgorithm v = Some a \<longleftrightarrow> v = JStr (alg_name a)"
  by (cases a) (auto simp: isDpopAlgorithm_def alg_name_def)

lemma canonical_jkt_hash: "isCanonicalDpopJkt v \<longleftrightarrow> isHash v"
  by (simp add: isCanonicalDpopJkt_def isHash_def hash_text_def split: jsval.split)

lemma snapshot_Inr:
  "snapshotDpopBinding v = Inr b \<longleftrightarrow>
     (case b of None \<Rightarrow> v = JUndef
      | Some jkt \<Rightarrow> isRecord v \<and> jprop v ''type'' = JStr ''dpop'' \<and> jprop v ''jkt'' = JStr jkt \<and>
          isCanonicalDpopJkt (JStr jkt))"
  by (auto simp: snapshotDpopBinding_def isRecord_def isCanonicalDpopJkt_def split: option.splits jsval.splits if_splits)

lemma snapshot_binding_val:
  "isCanonicalDpopJkt (JStr jkt) \<Longrightarrow> snapshotDpopBinding (binding_val (Some jkt)) = Inr (Some jkt)"
  "snapshotDpopBinding (binding_val None) = Inr None"
  by (simp_all add: snapshot_Inr binding_val_def isRecord_def)

lemma snapshot_again: "snapshotDpopBinding v = Inr b \<Longrightarrow> snapshotDpopBinding (binding_val b) = Inr b"
  by (cases b) (simp_all add: snapshot_binding_val, simp add: snapshot_Inr snapshot_binding_val)

lemma snapshot_verified:
  "isCanonicalDpopJkt (JStr (fst k)) \<Longrightarrow> snapshotDpopBinding (verified_val k) = Inr (Some (fst k))"
  by (simp add: snapshot_Inr verified_val_def isRecord_def)

lemma verified_val_alg [simp]: "jprop (verified_val k) ''alg'' = JStr (alg_name (snd k))" "verified_val k \<noteq> JUndef"
  by (simp_all add: verified_val_def)

lemma three_Some_Inr:
  "(case (a, b, c) of (Some x, Some y, Some z) \<Rightarrow> f x y z | _ \<Rightarrow> Inl e) = Inr r \<longleftrightarrow>
     (\<exists>x y z. a = Some x \<and> b = Some y \<and> c = Some z \<and> f x y z = Inr r)"
  by (cases a; cases b; cases c) auto

text \<open>
  What the match returns: for an unbound record never a binding, whatever the proof; for a bound record the key of
  the record, and only when a proof of that key by an allowed algorithm was verified.
\<close>

lemma resolve_verified_iff:
  "resolveVerifiedDeviceBinding policy binding verified = Inr r \<longleftrightarrow>
     (\<exists>stored. snapshotDpopBinding binding = Inr stored \<and>
        assertDeviceBindingPolicy policy (binding_val stored) = Inr () \<and>
        (if verified = JUndef then stored = None \<and> r = None
         else \<exists>p key alg. policy = Some p \<and> snapshotDpopBinding verified = Inr (Some key) \<and>
           jprop verified ''alg'' = JStr (alg_name alg) \<and> alg \<in> set (dp_algorithms p) \<and>
           (case stored of None \<Rightarrow> r = None | Some jkt \<Rightarrow> jkt = key \<and> r = Some (jkt, alg))))"
proof -
  have m: "(case stored of None \<Rightarrow> Inr None | Some jkt \<Rightarrow> if jkt \<noteq> key then Inl InvalidProof else Inr (Some (jkt, alg))) = Inr r \<longleftrightarrow>
      (case stored of None \<Rightarrow> r = None | Some jkt \<Rightarrow> jkt = key \<and> r = Some (jkt, alg))" for stored key and alg :: dpop_alg
    by (cases stored) auto
  have u: "(if stored \<noteq> None then Inl DpopRequired else Inr None) = Inr r \<longleftrightarrow> stored = None \<and> r = None"
    for stored :: "string option" by auto
  show ?thesis
  proof (cases "verified = JUndef")
    case True
    then show ?thesis
      by (simp add: resolveVerifiedDeviceBinding_def andthen_Inr ex_unit u) blast
  next
    case False
    then show ?thesis
      unfolding resolveVerifiedDeviceBinding_def andthen_Inr ex_unit if_not_P [OF False] three_Some_Inr
        isDpopAlgorithm_iff if_Inl_Inr m not_not
      by blast
  qed
qed

end
