(* ===== verification/DpopTarget.thy ===== *)
theory DpopTarget
  imports DpopPolicy
begin

text \<open>
  The public URL that a proof has to name: dpop-target.ts of packages/express-oidc-vault, with
  \<open>resolveDeviceBindingOrigin\<close> of device-binding-policy.ts. The WHATWG URL parser is a parameter \<open>new_url\<close>; its
  result is the record \<open>web_url\<close>.
\<close>

record web_url = url +
  pathname :: string
  url_origin :: string

type_synonym url_parser = "string \<Rightarrow> web_url option"

text \<open>The prefix \<open>https?://\<close>, in any case; the text after it.\<close>

definition strip_scheme :: "string \<Rightarrow> string option" where
  "strip_scheme s =
     (if starts_with (map to_lower s) ''http://'' then Some (drop 7 s)
      else if starts_with (map to_lower s) ''https://'' then Some (drop 8 s) else None)"

definition authority_char :: "char \<Rightarrow> bool" where
  "authority_char c \<longleftrightarrow> c \<noteq> CHR ''/'' \<and> c \<noteq> CHR 0x5C \<and> c \<noteq> CHR ''?'' \<and> c \<noteq> CHR ''#''"

text \<open>\<open>isIP(s) === 4\<close>: four decimal octets without leading zeros.\<close>

definition ipv4_octet :: "string \<Rightarrow> bool" where
  "ipv4_octet s \<longleftrightarrow> s \<noteq> [] \<and> length s \<le> 3 \<and> list_all is_digit s \<and> decimal s \<le> 255 \<and>
     (length s = 1 \<or> hd s \<noteq> CHR ''0'')"

definition is_ipv4 :: "string \<Rightarrow> bool" where
  "is_ipv4 s \<longleftrightarrow> length (split_on CHR ''.'' s) = 4 \<and> list_all ipv4_octet (split_on CHR ''.'' s)"

text \<open>The pattern \<open>^https?://[^/\?#]+/?$\<close>.\<close>

definition bare_origin :: "string \<Rightarrow> bool" where
  "bare_origin raw \<longleftrightarrow>
     (case strip_scheme raw of
        None \<Rightarrow> False
      | Some rest \<Rightarrow> takeWhile authority_char rest \<noteq> [] \<and> dropWhile authority_char rest \<in> {[], ''/''})"

definition loopback_host :: "string \<Rightarrow> bool" where
  "loopback_host h \<longleftrightarrow> h = ''localhost'' \<or> h = ''[::1]'' \<or> (is_ipv4 h \<and> starts_with h ''127.'')"

definition resolveDeviceBindingOrigin :: "url_parser \<Rightarrow> jsval \<Rightarrow> dpop_error + string" where
  "resolveDeviceBindingOrigin new_url v =
     (case v of
        JStr value \<Rightarrow>
          (let raw = js_trim value
           in case new_url raw of
                None \<Rightarrow> Inl BadOption
              | Some u \<Rightarrow>
                  if \<not> bare_origin raw \<or> list_ex is_ws raw \<or> CHR ''@'' \<in> set raw \<or> username u \<noteq> [] \<or>
                     password u \<noteq> [] \<or> pathname u \<noteq> ''/'' \<or> url_origin u = ''null''
                  then Inl BadOption
                  else if protocol u \<noteq> ''https:'' \<and> \<not> (protocol u = ''http:'' \<and> loopback_host (hostname u))
                  then Inl BadOption
                  else Inr (url_origin u))
      | _ \<Rightarrow> Inl BadOption)"

definition hasControl :: "string \<Rightarrow> bool" where
  "hasControl s = list_ex (\<lambda>c. of_char c < (32::nat) \<or> of_char c = (127::nat)) s"

definition is_unreserved :: "char \<Rightarrow> bool" where
  "is_unreserved c \<longleftrightarrow> is_upper c \<or> is_lower c \<or> is_digit c \<or> c \<in> set ''._~-''"

text \<open>Each escape of an unreserved character is decoded, any other put in upper case.\<close>

fun decode_unreserved :: "string \<Rightarrow> string" where
  "decode_unreserved [] = []"
| "decode_unreserved (c # cs) =
     (case cs of
        a # b # r \<Rightarrow>
          (if c = CHR ''%'' \<and> is_hex a \<and> is_hex b
           then (let d = char_of (the (hex_value a) * 16 + the (hex_value b))
                 in if is_unreserved d then d # decode_unreserved r
                    else CHR ''%'' # to_upper a # to_upper b # decode_unreserved r)
           else c # decode_unreserved cs)
      | _ \<Rightarrow> c # decode_unreserved cs)"

definition normalizePath :: "url_parser \<Rightarrow> string \<Rightarrow> string \<Rightarrow> dpop_error + string" where
  "normalizePath new_url orig path =
     (if \<not> starts_with path ''/'' \<or> list_ex (\<lambda>c. is_ws c \<or> c = CHR 0x5C) path \<or> hasControl path \<or>
         \<not> valid_escapes path
      then Inl InvalidProof
      else (case new_url (orig @ decode_unreserved path) of None \<Rightarrow> Inl Unexpected | Some u \<Rightarrow> Inr (pathname u)))"

text \<open>\<open>s.split(/[?#]/, 1)[0]\<close>.\<close>

definition query_free :: "string \<Rightarrow> string" where
  "query_free s = takeWhile (\<lambda>c. c \<noteq> CHR ''?'' \<and> c \<noteq> CHR ''#'') s"

definition strip_slashes :: "string \<Rightarrow> string" where
  "strip_slashes s = rev (dropWhile (\<lambda>c. c = CHR ''/'') (rev s))"

text \<open>The construction of a resolver checks its options; the pair of origin and prefix is what it captures.\<close>

definition createDpopRequestTargetResolver :: "url_parser \<Rightarrow> jsval \<Rightarrow> jsval \<Rightarrow> dpop_error + string \<times> string" where
  "createDpopRequestTargetResolver new_url publicOrigin publicPathPrefix =
     andthen (resolveDeviceBindingOrigin new_url publicOrigin) (\<lambda>orig.
       (case publicPathPrefix of
          JUndef \<Rightarrow> Inr (orig, [])
        | JStr p \<Rightarrow>
            (if p = [] then Inr (orig, [])
             else if list_ex (\<lambda>c. c = CHR ''?'' \<or> c = CHR ''#'') p then Inl BadOption
             else (case normalizePath new_url orig p of
                     Inl _ \<Rightarrow> Inl BadOption
                   | Inr path \<Rightarrow> Inr (orig, strip_slashes path)))
        | _ \<Rightarrow> Inl BadOption))"

definition request_target :: "url_parser \<Rightarrow> string \<times> string \<Rightarrow> string \<Rightarrow> dpop_error + string" where
  "request_target new_url resolver originalUrl =
     (let path = query_free originalUrl
      in if \<not> starts_with path ''/'' then Inl InvalidProof
         else andthen (normalizePath new_url (fst resolver) (snd resolver @ path)) (\<lambda>p. Inr (fst resolver @ p)))"

definition normalizeDpopProofTarget :: "url_parser \<Rightarrow> jsval \<Rightarrow> dpop_error + string" where
  "normalizeDpopProofTarget new_url v =
     (case v of
        JStr value \<Rightarrow>
          (case strip_scheme value of
             None \<Rightarrow> Inl InvalidProof
           | Some rest \<Rightarrow>
               if list_ex (\<lambda>c. is_ws c \<or> c = CHR 0x5C) value \<or> hasControl value \<or> takeWhile authority_char rest = []
               then Inl InvalidProof
               else
                 (case new_url value of
                    None \<Rightarrow> Inl InvalidProof
                  | Some u \<Rightarrow>
                      (let after = query_free rest;
                           authority = takeWhile (\<lambda>c. c \<noteq> CHR ''/'') after;
                           tail = dropWhile (\<lambda>c. c \<noteq> CHR ''/'') after;
                           path = (if tail = [] then ''/'' else tail)
                       in if username u \<noteq> [] \<or> password u \<noteq> [] \<or> url_origin u = ''null'' \<or> CHR ''@'' \<in> set authority
                          then Inl InvalidProof
                          else andthen (normalizePath new_url (url_origin u) path) (\<lambda>p. Inr (url_origin u @ p)))))
      | _ \<Rightarrow> Inl InvalidProof)"

section \<open>Lemmas\<close>

text \<open>Neither the query nor the fragment of a request changes its target, and the origin is the configured one.\<close>

lemma query_free_append [simp]:
  "c = CHR ''?'' \<or> c = CHR ''#'' \<Longrightarrow> query_free (s @ c # q) = query_free s"
  unfolding query_free_def by (induction s) auto

lemma request_target_query:
  "c = CHR ''?'' \<or> c = CHR ''#'' \<Longrightarrow> request_target new_url r (s @ c # q) = request_target new_url r s"
  by (simp add: request_target_def)

lemma request_target_pinned: "request_target new_url r s = Inr t \<Longrightarrow> starts_with t (fst r)"
  by (auto simp: request_target_def andthen_Inr Let_def split: if_splits)

lemma resolved_origin_secure:
  "resolveDeviceBindingOrigin new_url v = Inr orig \<Longrightarrow>
     \<exists>value u. v = JStr value \<and> new_url (js_trim value) = Some u \<and> orig = url_origin u \<and> orig \<noteq> ''null'' \<and>
       (protocol u = ''https:'' \<or> protocol u = ''http:'' \<and> loopback_host (hostname u))"
  by (auto simp: resolveDeviceBindingOrigin_def Let_def split: jsval.splits option.splits if_splits)

end
