(* ===== verification/DpopNonce.thy ===== *)
theory DpopNonce
  imports DpopPolicy
begin

text \<open>
  The stateless DPoP nonces of packages/express-oidc-vault, dpop-nonce.ts: a nonce carries its own window, the digest of
  its protection space and the thumbprint of the key it was issued to, under an HMAC. SHA-256, HMAC-SHA-256 and the
  random bytes are parameters. The JSON that is decoded is read as a flat array (\<open>AttestCodec\<close>): every other text
  fails the checks that follow.
\<close>

definition NONCE_VERSION :: string where
  "NONCE_VERSION = ''v1''"

definition HMAC_DOMAIN :: string where
  "HMAC_DOMAIN = ''@web-ts-toolkit/express-oidc-vault/dpop-nonce/v1'' @ [CHR 0x00]"

definition DPOP_NONCE_MAX_BYTES :: nat where
  "DPOP_NONCE_MAX_BYTES = 512"

record nonce_policy =
  np_secret :: bytes
  np_lifetimeMs :: int
  np_namespaceDigest :: string

definition isEpochMs :: "int \<Rightarrow> bool" where
  "isEpochMs n \<longleftrightarrow> is_safe n \<and> n \<ge> 0"

text \<open>\<open>Buffer.from(s, 'base64url')\<close> for a text of the alphabet: the bits left over are dropped.\<close>

definition buffer_base64url :: "string \<Rightarrow> bytes" where
  "buffer_base64url s = fst (b64_loop (map (\<lambda>c. the (map_of BASE64URL_DECODE_TABLE c)) s) 0 0)"

definition nonce_decodeBase64url :: "string \<Rightarrow> nat option \<Rightarrow> bytes option" where
  "nonce_decodeBase64url v byteLength =
     (if v = [] \<or> \<not> list_all is_b64url v then None
      else (let bs = buffer_base64url v
            in if base64urlEncode bs \<noteq> v \<or> (case byteLength of None \<Rightarrow> False | Some n \<Rightarrow> length bs \<noteq> n) then None else Some bs))"

definition createDpopNoncePolicy :: "(bytes \<Rightarrow> bytes) \<Rightarrow> dpop_nonce_options \<Rightarrow> string \<Rightarrow> dpop_error + nonce_policy" where
  "createDpopNoncePolicy sha256 opts namespace =
     (if length (nonce_secret opts) < 32 then Inl BadOption
      else if nonce_lifetimeSeconds opts < 1 \<or> nonce_lifetimeSeconds opts > 300 then Inl BadOption
      else if namespace = [] then Inl BadOption
      else Inr \<lparr>np_secret = nonce_secret opts, np_lifetimeMs = nonce_lifetimeSeconds opts * 1000,
                np_namespaceDigest = base64urlEncode (sha256 (utf8Encode namespace))\<rparr>)"

definition nonce_sign :: "(bytes \<Rightarrow> bytes \<Rightarrow> bytes) \<Rightarrow> nonce_policy \<Rightarrow> string \<Rightarrow> bytes" where
  "nonce_sign hmac np encodedPayload =
     hmac (np_secret np) (utf8Encode HMAC_DOMAIN @ utf8Encode (NONCE_VERSION @ ''.'' @ encodedPayload))"

definition nonce_issue :: "(bytes \<Rightarrow> bytes \<Rightarrow> bytes) \<Rightarrow> nonce_policy \<Rightarrow> bytes \<Rightarrow> string \<Rightarrow> int \<Rightarrow> dpop_error + string" where
  "nonce_issue hmac np random jkt now =
     (let expiresAt = now + np_lifetimeMs np
      in if \<not> isCanonicalDpopJkt (JStr jkt) \<or> \<not> isEpochMs now \<or> \<not> isEpochMs expiresAt \<or> expiresAt \<le> now
         then Inl Unexpected
         else
           (let payload = json_array [JText (base64urlEncode random), JInt now, JInt expiresAt,
                  JText (np_namespaceDigest np), JText jkt];
                encodedPayload = base64urlEncode (utf8Encode payload);
                nonce = NONCE_VERSION @ ''.'' @ encodedPayload @ ''.'' @ base64urlEncode (nonce_sign hmac np encodedPayload)
            in if utf8ByteLength nonce > DPOP_NONCE_MAX_BYTES then Inl Unexpected else Inr nonce))"

text \<open>The checks on the decoded payload.\<close>

definition nonce_payload_ok :: "nonce_policy \<Rightarrow> bytes \<Rightarrow> string \<Rightarrow> int \<Rightarrow> bool" where
  "nonce_payload_ok np payload jkt now =
     (case utf8_decode_bytes payload of
        None \<Rightarrow> False
      | Some text \<Rightarrow>
          (case parse_array text of
             Some [JText random, JInt issuedAt, JInt expiresAt, JText ctxt, JText key] \<Rightarrow>
               payload = canonicalJsonBytes [JText random, JInt issuedAt, JInt expiresAt, JText ctxt, JText key] \<and>
               nonce_decodeBase64url random (Some 16) \<noteq> None \<and> isEpochMs issuedAt \<and> isEpochMs expiresAt \<and>
               ctxt = np_namespaceDigest np \<and> key = jkt \<and>
               (let declaredLifetime = expiresAt - issuedAt
                in declaredLifetime \<ge> 1000 \<and> declaredLifetime \<le> np_lifetimeMs np \<and> declaredLifetime mod 1000 = 0 \<and>
                   issuedAt \<le> now \<and> now < expiresAt)
           | _ \<Rightarrow> False))"

definition nonce_verify :: "(bytes \<Rightarrow> bytes \<Rightarrow> bytes) \<Rightarrow> nonce_policy \<Rightarrow> jsval \<Rightarrow> string \<Rightarrow> int \<Rightarrow> bool" where
  "nonce_verify hmac np v jkt now =
     (case v of
        JStr nonce \<Rightarrow>
          isCanonicalDpopJkt (JStr jkt) \<and> isEpochMs now \<and> length nonce \<le> DPOP_NONCE_MAX_BYTES \<and>
          utf8ByteLength nonce \<le> DPOP_NONCE_MAX_BYTES \<and>
          (case split_on CHR ''.'' nonce of
             [version, encodedPayload, encodedMac] \<Rightarrow>
               version = NONCE_VERSION \<and> encodedPayload \<noteq> [] \<and> encodedMac \<noteq> [] \<and>
               (case (nonce_decodeBase64url encodedMac (Some 32), nonce_decodeBase64url encodedPayload None) of
                  (Some mac, Some payload) \<Rightarrow>
                    mac = nonce_sign hmac np encodedPayload \<and> nonce_payload_ok np payload jkt now
                | _ \<Rightarrow> False)
           | _ \<Rightarrow> False)
      | _ \<Rightarrow> False)"

section \<open>What a nonce is\<close>

definition nonce_text :: "(bytes \<Rightarrow> bytes \<Rightarrow> bytes) \<Rightarrow> nonce_policy \<Rightarrow> bytes \<Rightarrow> int \<Rightarrow> int \<Rightarrow> string \<Rightarrow> string" where
  "nonce_text hmac np random issuedAt expiresAt jkt =
     (let encoded = base64urlEncode (canonicalJsonBytes [JText (base64urlEncode random), JInt issuedAt, JInt expiresAt,
            JText (np_namespaceDigest np), JText jkt])
      in ''v1.'' @ encoded @ ''.'' @ base64urlEncode (nonce_sign hmac np encoded))"

lemma buffer_encode [simp]: "buffer_base64url (base64urlEncode bs) = bs"
  using b64_loop_encode [of bs 0] by (auto simp: buffer_base64url_def)

lemma nonce_decode_iff:
  "nonce_decodeBase64url v n = Some bs \<longleftrightarrow> bs \<noteq> [] \<and> v = base64urlEncode bs \<and> (\<forall>k. n = Some k \<longrightarrow> length bs = k)"
proof
  assume a: "nonce_decodeBase64url v n = Some bs"
  then have v: "v \<noteq> []" "list_all is_b64url v" by (auto simp: nonce_decodeBase64url_def split: if_splits)
  with a have b: "base64urlEncode (buffer_base64url v) = v" "bs = buffer_base64url v" "\<forall>k. n = Some k \<longrightarrow> length bs = k"
    by (auto simp: nonce_decodeBase64url_def Let_def simp del: not_None_eq split: if_splits option.splits)
  with v(1) show "bs \<noteq> [] \<and> v = base64urlEncode bs \<and> (\<forall>k. n = Some k \<longrightarrow> length bs = k)"
    by (metis encode_eq_Nil)
next
  assume "bs \<noteq> [] \<and> v = base64urlEncode bs \<and> (\<forall>k. n = Some k \<longrightarrow> length bs = k)"
  then show "nonce_decodeBase64url v n = Some bs"
    by (cases n) (simp_all add: nonce_decodeBase64url_def Let_def base64url_chars)
qed

lemma b64url_ascii: "list_all is_b64url s \<Longrightarrow> list_all (\<lambda>c. of_char c < (128::nat)) s"
  using b64url_plain by (auto simp: list_all_iff ascii_plain_def)

lemma plain_ascii: "list_all ascii_plain s \<Longrightarrow> list_all (\<lambda>c. of_char c < (128::nat)) s"
  by (auto simp: list_all_iff ascii_plain_def)

lemma jkt_chars: "isCanonicalDpopJkt (JStr s) \<Longrightarrow> length s = 43 \<and> list_all is_b64url s"
proof -
  assume a: "isCanonicalDpopJkt (JStr s)"
  have "list_all is_b64url ''AEIMQUYcgkosw048''" by code_simp
  with a have "is_b64url (last s)" "list_all is_b64url (butlast s)" "s \<noteq> []"
    by (auto simp: isCanonicalDpopJkt_def list_all_iff)
  moreover from this have "s = butlast s @ [last s]" by simp
  ultimately have "list_all is_b64url s" by (metis list_all_append list.pred_inject)
  with a show ?thesis by (simp add: isCanonicalDpopJkt_def)
qed

lemma dot_not_b64: "list_all is_b64url s \<Longrightarrow> CHR ''.'' \<notin> set s"
proof -
  have "\<not> is_b64url CHR ''.''" by code_simp
  then show "list_all is_b64url s \<Longrightarrow> ?thesis" by (auto simp: list_all_iff)
qed

lemma split_on_plain: "c \<notin> set s \<Longrightarrow> split_on c (s @ c # t) = s # split_on c t"
  by (induction s) auto

lemma split_on_last: "c \<notin> set s \<Longrightarrow> split_on c s = [s]"
  by (induction s) auto

lemma split_nonce:
  "split_on CHR ''.'' n = [v, p, m] \<longleftrightarrow>
     n = v @ ''.'' @ p @ ''.'' @ m \<and> CHR ''.'' \<notin> set v \<and> CHR ''.'' \<notin> set p \<and> CHR ''.'' \<notin> set m"
proof
  assume s: "split_on CHR ''.'' n = [v, p, m]"
  with join_split [of "CHR ''.''" n] have "n = v @ ''.'' @ p @ ''.'' @ m" by simp
  with s show "n = v @ ''.'' @ p @ ''.'' @ m \<and> CHR ''.'' \<notin> set v \<and> CHR ''.'' \<notin> set p \<and> CHR ''.'' \<notin> set m"
    using split_on_notin [of _ "CHR ''.''" n] by simp
qed (simp add: split_on_plain split_on_last)

text \<open>The size of a nonce, and so the bound that an issued one never exceeds.\<close>

lemma nonce_fits:
  assumes "length random = 16" "length (np_namespaceDigest np) \<le> 43" "list_all is_b64url (np_namespaceDigest np)"
    "isCanonicalDpopJkt (JStr jkt)" "isEpochMs iss" "isEpochMs expi" "length (nonce_sign hmac np (base64urlEncode
       (canonicalJsonBytes [JText (base64urlEncode random), JInt iss, JInt expi, JText (np_namespaceDigest np), JText jkt]))) = 32"
  shows "utf8ByteLength (nonce_text hmac np random iss expi jkt) \<le> DPOP_NONCE_MAX_BYTES"
    "length (nonce_text hmac np random iss expi jkt) \<le> DPOP_NONCE_MAX_BYTES"
proof -
  let ?es = "[JText (base64urlEncode random), JInt iss, JInt expi, JText (np_namespaceDigest np), JText jkt]"
  let ?p = "base64urlEncode (canonicalJsonBytes ?es)"
  have dig: "length (json_int n) \<le> 16 \<and> list_all (\<lambda>c. of_char c < (128::nat)) (json_int n)" if "isEpochMs n" for n
  proof -
    have "nat n < 10 ^ 16" using that by (auto simp: isEpochMs_def is_safe_def MAX_SAFE_INTEGER_def)
    with that length_digits [of "nat n" 16] digits_all [of "nat n"] show ?thesis
      by (auto simp: json_int_def isEpochMs_def list_all_iff is_digit_def char_between_def)
  qed
  have plain: "list_all ascii_plain (base64urlEncode random)" "list_all ascii_plain (np_namespaceDigest np)"
      "list_all ascii_plain jkt"
    using base64url_chars [of random] assms(3) jkt_chars [OF assms(4)] by (auto simp: list_all_iff b64url_plain)
  have tx: "json_array ?es = ''['' @ [CHR 0x22] @ base64urlEncode random @ [CHR 0x22] @ '','' @ json_int iss @ '','' @
      json_int expi @ '','' @ [CHR 0x22] @ np_namespaceDigest np @ [CHR 0x22] @ '','' @ [CHR 0x22] @ jkt @ [CHR 0x22] @ '']''"
    using plain by (simp add: json_array_def json_quote_plain)
  have "list_all (\<lambda>c. of_char c < (128::nat)) (json_array ?es)"
    unfolding tx using plain dig [OF assms(5)] dig [OF assms(6)] by (simp add: plain_ascii)
  then have "length (canonicalJsonBytes ?es) = length (json_array ?es)"
    by (simp add: canonicalJsonBytes_def utf8Encode_ascii)
  also have "\<dots> \<le> 160"
    unfolding tx using assms(1,2) jkt_chars [OF assms(4)] dig [OF assms(5)] dig [OF assms(6)]
    by (simp add: length_base64url)
  finally have len: "length ?p \<le> 214" by (simp add: length_base64url)
  then show l: "length (nonce_text hmac np random iss expi jkt) \<le> DPOP_NONCE_MAX_BYTES"
    using assms(7) by (simp add: nonce_text_def Let_def length_base64url DPOP_NONCE_MAX_BYTES_def)
  have "list_all (\<lambda>c. of_char c < (128::nat)) (nonce_text hmac np random iss expi jkt)"
    by (simp add: nonce_text_def Let_def b64url_ascii base64url_chars)
  with l show "utf8ByteLength (nonce_text hmac np random iss expi jkt) \<le> DPOP_NONCE_MAX_BYTES"
    by (simp add: utf8ByteLength_def utf8Encode_ascii)
qed

text \<open>The payload that passes, and then the nonce that passes.\<close>

definition live_window :: "nonce_policy \<Rightarrow> int \<Rightarrow> int \<Rightarrow> int \<Rightarrow> bool" where
  "live_window np now iss expi \<longleftrightarrow> isEpochMs iss \<and> isEpochMs expi \<and> 1000 \<le> expi - iss \<and>
     expi - iss \<le> np_lifetimeMs np \<and> (expi - iss) mod 1000 = 0 \<and> iss \<le> now \<and> now < expi"

definition nonce_fields :: "nonce_policy \<Rightarrow> bytes \<Rightarrow> int \<Rightarrow> int \<Rightarrow> string \<Rightarrow> json_elem list" where
  "nonce_fields np random iss expi jkt =
     [JText (base64urlEncode random), JInt iss, JInt expi, JText (np_namespaceDigest np), JText jkt]"

lemma case_Cons_False: "(case xs of [] \<Rightarrow> False | y # ys \<Rightarrow> g y ys) \<longleftrightarrow> (\<exists>y ys. xs = y # ys \<and> g y ys)"
  by (simp split: list.split)

lemma case_Nil_False: "(case xs of [] \<Rightarrow> P | y # ys \<Rightarrow> False) \<longleftrightarrow> xs = [] \<and> P"
  by (simp split: list.split)

lemma case_JText_False: "(case e of JInt _ \<Rightarrow> False | JText a \<Rightarrow> g a) \<longleftrightarrow> (\<exists>a. e = JText a \<and> g a)"
  by (simp split: json_elem.split)

lemma case_JInt_False: "(case e of JInt a \<Rightarrow> g a | JText _ \<Rightarrow> False) \<longleftrightarrow> (\<exists>a. e = JInt a \<and> g a)"
  by (simp split: json_elem.split)

lemma five_fields:
  "(case es of [JText a, JInt b, JInt c, JText d, JText e] \<Rightarrow> f a b c d e | _ \<Rightarrow> False) \<Longrightarrow>
     \<exists>a b c d e. es = [JText a, JInt b, JInt c, JText d, JText e] \<and> f a b c d e"
  unfolding case_Cons_False case_Nil_False case_JText_False case_JInt_False by blast

lemma payload_okD:
  assumes "nonce_payload_ok np payload jkt now"
  shows "\<exists>random iss expi. length random = 16 \<and> live_window np now iss expi \<and>
           payload = canonicalJsonBytes (nonce_fields np random iss expi jkt)"
proof -
  from assms obtain tx where t: "utf8_decode_bytes payload = Some tx" by (auto simp: nonce_payload_ok_def split: option.splits)
  with assms obtain es where es: "parse_array tx = Some es" by (auto simp: nonce_payload_ok_def split: option.splits)
  from five_fields [OF assms [unfolded nonce_payload_ok_def t es option.case]]
  obtain rd iss expi c k where parts: "payload = canonicalJsonBytes [JText rd, JInt iss, JInt expi, JText c, JText k]"
      "nonce_decodeBase64url rd (Some 16) \<noteq> None" "c = np_namespaceDigest np" "k = jkt" "live_window np now iss expi"
    unfolding Let_def by (elim exE conjE) (rule that, simp_all add: live_window_def)
  from parts(2) obtain random where "nonce_decodeBase64url rd (Some 16) = Some random" by blast
  then have "length random = 16" "rd = base64urlEncode random" by (simp_all add: nonce_decode_iff)
  with parts show ?thesis unfolding nonce_fields_def by blast
qed

lemma payload_okI:
  assumes "length random = 16" "live_window np now iss expi"
  shows "nonce_payload_ok np (canonicalJsonBytes (nonce_fields np random iss expi jkt)) jkt now"
proof -
  let ?es = "nonce_fields np random iss expi jkt"
  from assms(2) have "list_all elem_safe ?es" by (simp add: nonce_fields_def live_window_def isEpochMs_def)
  then have "parse_array (json_array ?es) = Some ?es" by (rule parse_array_text)
  moreover have "utf8_decode_bytes (canonicalJsonBytes ?es) = Some (json_array ?es)"
    using utf8_roundtrip [of "json_array ?es"] by (simp add: canonicalJsonBytes_def utf8Decode_def split: option.splits)
  moreover have "nonce_decodeBase64url (base64urlEncode random) (Some 16) = Some random"
    using assms(1) by (auto simp: nonce_decode_iff)
  ultimately show ?thesis using assms(2) by (simp add: nonce_payload_ok_def nonce_fields_def live_window_def)
qed

definition nonce_platform :: "(bytes \<Rightarrow> bytes) \<Rightarrow> (bytes \<Rightarrow> bytes \<Rightarrow> bytes) \<Rightarrow> bool" where
  "nonce_platform sha256 hmac \<longleftrightarrow> (\<forall>m. length (sha256 m) = 32) \<and> (\<forall>k m. length (hmac k m) = 32)"

lemma created_digest:
  "nonce_platform sha256 hmac \<Longrightarrow> createDpopNoncePolicy sha256 opts ns = Inr np \<Longrightarrow>
     length (np_namespaceDigest np) = 43 \<and> list_all is_b64url (np_namespaceDigest np) \<and> 1000 \<le> np_lifetimeMs np \<and>
     np_lifetimeMs np mod 1000 = 0 \<and> np_secret np = nonce_secret opts"
  by (auto simp: nonce_platform_def createDpopNoncePolicy_def base64url_chars length_base64url split: if_splits)

lemma nonce_text_fields:
  "nonce_text hmac np random iss expi jkt =
     (let p = base64urlEncode (canonicalJsonBytes (nonce_fields np random iss expi jkt))
      in ''v1.'' @ p @ ''.'' @ base64urlEncode (nonce_sign hmac np p))"
  by (simp add: nonce_text_def nonce_fields_def)

text \<open>The three parts of a text, as the verifier takes them.\<close>

lemma three_parts:
  "(case xs of [a, b, c] \<Rightarrow> f a b c | _ \<Rightarrow> False) \<longleftrightarrow> (\<exists>a b c. xs = [a, b, c] \<and> f a b c)"
  by (simp split: list.split)

lemma nonce_verify_parts:
  "nonce_verify hmac np v jkt now \<longleftrightarrow>
     isCanonicalDpopJkt (JStr jkt) \<and> isEpochMs now \<and>
     (\<exists>n p payload. v = JStr n \<and> length n \<le> DPOP_NONCE_MAX_BYTES \<and> utf8ByteLength n \<le> DPOP_NONCE_MAX_BYTES \<and>
        n = ''v1.'' @ p @ ''.'' @ base64urlEncode (nonce_sign hmac np p) \<and> length (nonce_sign hmac np p) = 32 \<and>
        payload \<noteq> [] \<and> p = base64urlEncode payload \<and> nonce_payload_ok np payload jkt now)"
  (is "?l \<longleftrightarrow> ?r")
proof
  assume l: ?l
  then obtain n where v: "v = JStr n" by (auto simp: nonce_verify_def split: jsval.splits)
  from l [unfolded nonce_verify_def v jsval.case three_parts] obtain p m where
    pre: "isCanonicalDpopJkt (JStr jkt)" "isEpochMs now" "length n \<le> DPOP_NONCE_MAX_BYTES"
      "utf8ByteLength n \<le> DPOP_NONCE_MAX_BYTES"
    and s: "split_on CHR ''.'' n = [NONCE_VERSION, p, m]"
    and c: "case (nonce_decodeBase64url m (Some 32), nonce_decodeBase64url p None) of
              (Some mac, Some payload) \<Rightarrow> mac = nonce_sign hmac np p \<and> nonce_payload_ok np payload jkt now
            | _ \<Rightarrow> False"
    by blast
  from c obtain mac payload where d: "nonce_decodeBase64url m (Some 32) = Some mac"
      "nonce_decodeBase64url p None = Some payload" "mac = nonce_sign hmac np p" "nonce_payload_ok np payload jkt now"
    by (auto split: option.splits)
  from s d have "n = ''v1.'' @ p @ ''.'' @ base64urlEncode (nonce_sign hmac np p)" "length (nonce_sign hmac np p) = 32"
      "payload \<noteq> []" "p = base64urlEncode payload"
    by (simp_all add: split_nonce nonce_decode_iff NONCE_VERSION_def)
  with v pre d(4) show ?r by blast
next
  assume ?r
  then obtain n p payload where r: "isCanonicalDpopJkt (JStr jkt)" "isEpochMs now" "v = JStr n"
      "length n \<le> DPOP_NONCE_MAX_BYTES" "utf8ByteLength n \<le> DPOP_NONCE_MAX_BYTES"
      "n = ''v1.'' @ p @ ''.'' @ base64urlEncode (nonce_sign hmac np p)" "length (nonce_sign hmac np p) = 32"
      "payload \<noteq> []" "p = base64urlEncode payload" "nonce_payload_ok np payload jkt now"
    by (elim conjE exE) (rule that; assumption)
  let ?mac = "nonce_sign hmac np p"
  have s: "split_on CHR ''.'' n = [NONCE_VERSION, p, base64urlEncode ?mac]"
    unfolding split_nonce NONCE_VERSION_def r(6) by (simp add: r(9) dot_not_b64 base64url_chars)
  have ne: "p \<noteq> []" "base64urlEncode ?mac \<noteq> []" using r(7,8,9) by auto
  have dec: "nonce_decodeBase64url p None = Some payload" "nonce_decodeBase64url (base64urlEncode ?mac) (Some 32) = Some ?mac"
    using r(7,8,9) by (auto simp: nonce_decode_iff)
  show ?l
    unfolding nonce_verify_def r(3) jsval.case s list.case dec option.case prod.case
    using r(1,2,4,5,10) ne by (intro conjI refl)
qed

lemma nonce_verify_iff:
  assumes plat: "nonce_platform sha256 hmac" and np: "createDpopNoncePolicy sha256 opts ns = Inr np"
  shows "nonce_verify hmac np v jkt now \<longleftrightarrow>
     isCanonicalDpopJkt (JStr jkt) \<and> isEpochMs now \<and>
     (\<exists>random iss expi. length random = 16 \<and> live_window np now iss expi \<and>
        v = JStr (nonce_text hmac np random iss expi jkt))"
proof
  assume "nonce_verify hmac np v jkt now"
  then obtain p payload where a: "isCanonicalDpopJkt (JStr jkt)" "isEpochMs now"
      "v = JStr (''v1.'' @ p @ ''.'' @ base64urlEncode (nonce_sign hmac np p))" "p = base64urlEncode payload"
      "nonce_payload_ok np payload jkt now"
    unfolding nonce_verify_parts by blast
  from payload_okD [OF a(5)] obtain random iss expi where b: "length random = 16" "live_window np now iss expi"
      "payload = canonicalJsonBytes (nonce_fields np random iss expi jkt)"
    by blast
  from a(3,4) b(3) have "v = JStr (nonce_text hmac np random iss expi jkt)" by (simp add: nonce_text_fields Let_def)
  with a(1,2) b(1,2) show "isCanonicalDpopJkt (JStr jkt) \<and> isEpochMs now \<and>
     (\<exists>random iss expi. length random = 16 \<and> live_window np now iss expi \<and> v = JStr (nonce_text hmac np random iss expi jkt))"
    by blast
next
  assume "isCanonicalDpopJkt (JStr jkt) \<and> isEpochMs now \<and>
     (\<exists>random iss expi. length random = 16 \<and> live_window np now iss expi \<and> v = JStr (nonce_text hmac np random iss expi jkt))"
  then obtain random iss expi where a: "isCanonicalDpopJkt (JStr jkt)" "isEpochMs now" "length random = 16"
      "live_window np now iss expi" "v = JStr (nonce_text hmac np random iss expi jkt)"
    by blast
  let ?payload = "canonicalJsonBytes (nonce_fields np random iss expi jkt)"
  let ?p = "base64urlEncode ?payload"
  have mac: "length (nonce_sign hmac np q) = 32" for q using plat by (simp add: nonce_platform_def nonce_sign_def)
  have fits: "utf8ByteLength (nonce_text hmac np random iss expi jkt) \<le> DPOP_NONCE_MAX_BYTES"
      "length (nonce_text hmac np random iss expi jkt) \<le> DPOP_NONCE_MAX_BYTES"
    using nonce_fits [of random np jkt iss expi hmac] a(1,3,4) created_digest [OF plat np] mac
    by (simp_all add: live_window_def)
  have ne: "?payload \<noteq> []" by (simp add: canonicalJsonBytes_def utf8Encode_def json_array_def utf8_char_def Let_def)
  have eq: "nonce_text hmac np random iss expi jkt = ''v1.'' @ ?p @ ''.'' @ base64urlEncode (nonce_sign hmac np ?p)"
    by (simp add: nonce_text_fields Let_def)
  show "nonce_verify hmac np v jkt now"
    unfolding nonce_verify_parts
    using a(1,2,5) fits eq mac [of ?p] ne payload_okI [OF a(3,4)] by blast
qed

lemma nonce_issue_iff:
  assumes plat: "nonce_platform sha256 hmac" and np: "createDpopNoncePolicy sha256 opts ns = Inr np"
    and random: "length random = 16"
  shows "nonce_issue hmac np random jkt now = Inr n \<longleftrightarrow> isCanonicalDpopJkt (JStr jkt) \<and> isEpochMs now \<and>
     isEpochMs (now + np_lifetimeMs np) \<and> n = nonce_text hmac np random now (now + np_lifetimeMs np) jkt"
proof -
  let ?n = "nonce_text hmac np random now (now + np_lifetimeMs np) jkt"
  note dig = created_digest [OF plat np]
  have "utf8ByteLength ?n \<le> DPOP_NONCE_MAX_BYTES" if "isCanonicalDpopJkt (JStr jkt)" "isEpochMs now" "isEpochMs (now + np_lifetimeMs np)"
    using nonce_fits(1) [OF random, of np jkt now "now + np_lifetimeMs np" hmac] that dig plat
    by (simp add: nonce_platform_def nonce_sign_def)
  moreover have "nonce_issue hmac np random jkt now =
      (if \<not> isCanonicalDpopJkt (JStr jkt) \<or> \<not> isEpochMs now \<or> \<not> isEpochMs (now + np_lifetimeMs np) \<or> np_lifetimeMs np \<le> 0
       then Inl Unexpected else if utf8ByteLength ?n > DPOP_NONCE_MAX_BYTES then Inl Unexpected else Inr ?n)"
    by (simp add: nonce_issue_def nonce_text_def canonicalJsonBytes_def NONCE_VERSION_def Let_def)
  moreover have "\<not> np_lifetimeMs np \<le> 0" using dig by linarith
  ultimately show ?thesis by auto
qed

lemma nonce_text_inj:
  assumes "nonce_text hmac np random iss expi jkt = nonce_text hmac np random' iss' expi' jkt'"
    "isEpochMs iss" "isEpochMs expi" "isEpochMs iss'" "isEpochMs expi'"
  shows "iss = iss' \<and> expi = expi' \<and> jkt = jkt'"
proof -
  let ?es = "[JText (base64urlEncode random), JInt iss, JInt expi, JText (np_namespaceDigest np), JText jkt]"
  let ?es' = "[JText (base64urlEncode random'), JInt iss', JInt expi', JText (np_namespaceDigest np), JText jkt']"
  define p q where pq: "p = base64urlEncode (canonicalJsonBytes ?es)" "q = base64urlEncode (canonicalJsonBytes ?es')"
  have "split_on CHR ''.'' (p @ ''.'' @ x) = p # split_on CHR ''.'' x" "split_on CHR ''.'' (q @ ''.'' @ x) = q # split_on CHR ''.'' x" for x
    by (simp_all add: pq split_on_plain dot_not_b64 base64url_chars)
  moreover have "p @ ''.'' @ base64urlEncode (nonce_sign hmac np p) = q @ ''.'' @ base64urlEncode (nonce_sign hmac np q)"
    using assms(1) by (simp add: nonce_text_def Let_def pq)
  ultimately have "p = q" by (metis list.inject)
  then have "canonicalJsonBytes ?es = canonicalJsonBytes ?es'" unfolding pq by (metis buffer_encode)
  moreover have "list_all elem_safe ?es" "list_all elem_safe ?es'" using assms(2-5) by (simp_all add: isEpochMs_def)
  ultimately have "?es = ?es'" using canonicalJsonBytes_inj by blast
  then show ?thesis by simp
qed

text \<open>C12: An issued nonce is accepted for the key it was issued to while it lasts, and for no other key and at no
  other time; and whatever is accepted is a text of the issuer's form, under the MAC of the secret, that names the
  protection space and the key, with a window within the configured lifetime.\<close>

theorem nonce_accepted_exactly:
  assumes "nonce_platform sha256 hmac" "createDpopNoncePolicy sha256 opts ns = Inr np" "length random = 16"
    "nonce_issue hmac np random jkt now = Inr n"
  shows "(\<forall>key t. nonce_verify hmac np (JStr n) key t \<longleftrightarrow>
           key = jkt \<and> isEpochMs t \<and> now \<le> t \<and> t < now + nonce_lifetimeSeconds opts * 1000) \<and>
    (\<forall>v key t. nonce_verify hmac np v key t \<longrightarrow>
       (\<exists>random iss expi. v = JStr (nonce_text hmac np random iss expi key) \<and> length random = 16 \<and>
          iss \<le> t \<and> t < expi \<and> expi - iss \<le> nonce_lifetimeSeconds opts * 1000))"
proof -
  note dig = created_digest [OF assms(1,2)]
  have life: "np_lifetimeMs np = nonce_lifetimeSeconds opts * 1000"
    using assms(2) by (auto simp: createDpopNoncePolicy_def split: if_splits)
  from assms(4) have issued: "isCanonicalDpopJkt (JStr jkt)" "isEpochMs now" "isEpochMs (now + np_lifetimeMs np)"
      "n = nonce_text hmac np random now (now + np_lifetimeMs np) jkt"
    unfolding nonce_issue_iff [OF assms(1-3)] by blast+
  have "nonce_verify hmac np (JStr n) key t \<longleftrightarrow>
      key = jkt \<and> isEpochMs t \<and> now \<le> t \<and> t < now + nonce_lifetimeSeconds opts * 1000" for key t
  proof
    assume "nonce_verify hmac np (JStr n) key t"
    then obtain random' iss expi where a: "isEpochMs t" "live_window np t iss expi"
        "n = nonce_text hmac np random' iss expi key"
      unfolding nonce_verify_iff [OF assms(1,2)] by blast
    from nonce_text_inj [OF a(3) [unfolded issued(4)] issued(2,3)] a(1,2) life
    show "key = jkt \<and> isEpochMs t \<and> now \<le> t \<and> t < now + nonce_lifetimeSeconds opts * 1000"
      by (simp add: live_window_def)
  next
    assume t: "key = jkt \<and> isEpochMs t \<and> now \<le> t \<and> t < now + nonce_lifetimeSeconds opts * 1000"
    then have "live_window np t now (now + np_lifetimeMs np)"
      using issued(2,3) dig life by (simp add: live_window_def)
    with t assms(3) issued(1,4) show "nonce_verify hmac np (JStr n) key t"
      unfolding nonce_verify_iff [OF assms(1,2)] by blast
  qed
  moreover have "nonce_verify hmac np v key t \<Longrightarrow> \<exists>random iss expi. v = JStr (nonce_text hmac np random iss expi key) \<and>
      length random = 16 \<and> iss \<le> t \<and> t < expi \<and> expi - iss \<le> nonce_lifetimeSeconds opts * 1000" for v key t
    unfolding nonce_verify_iff [OF assms(1,2)] live_window_def life by blast
  ultimately show ?thesis by blast
qed

definition trial_hmac :: "bytes \<Rightarrow> bytes \<Rightarrow> bytes" where
  "trial_hmac k m = replicate 32 (fold (+) (k @ m) 0)"

definition trial_sha :: "bytes \<Rightarrow> bytes" where
  "trial_sha m = replicate 32 (fold (+) m 0)"

definition trial_nonce_options :: dpop_nonce_options where
  "trial_nonce_options = \<lparr>nonce_secret = replicate 32 7, nonce_lifetimeSeconds = 60\<rparr>"

definition trial_nonce_policy :: nonce_policy where
  "trial_nonce_policy = \<lparr>np_secret = replicate 32 7, np_lifetimeMs = 60000,
     np_namespaceDigest = base64urlEncode (trial_sha (utf8Encode ''space''))\<rparr>"

definition trial_jkt :: string where
  "trial_jkt = replicate 43 (CHR ''A'')"

lemma trial_nonce_created: "createDpopNoncePolicy trial_sha trial_nonce_options ''space'' = Inr trial_nonce_policy"
  by (simp add: createDpopNoncePolicy_def trial_nonce_options_def trial_nonce_policy_def)

lemma trial_platform_ok: "nonce_platform trial_sha trial_hmac"
  by (simp add: nonce_platform_def trial_sha_def trial_hmac_def)

lemma trial_jkt_canonical: "isCanonicalDpopJkt (JStr trial_jkt)"
  by code_simp

theorem nonce_accepted_exactly_witness:
  "let n = nonce_text trial_hmac trial_nonce_policy (replicate 16 0) 5000 65000 trial_jkt
   in nonce_verify trial_hmac trial_nonce_policy (JStr n) trial_jkt 64999 \<and>
      \<not> nonce_verify trial_hmac trial_nonce_policy (JStr n) trial_jkt 65000"
proof -
  have "nonce_issue trial_hmac trial_nonce_policy (replicate 16 0) trial_jkt 5000 =
      Inr (nonce_text trial_hmac trial_nonce_policy (replicate 16 0) 5000 65000 trial_jkt)"
    using nonce_issue_iff [OF trial_platform_ok trial_nonce_created, of "replicate 16 0"] trial_jkt_canonical
    by (simp add: trial_nonce_policy_def isEpochMs_def is_safe_def MAX_SAFE_INTEGER_def)
  from nonce_accepted_exactly [OF trial_platform_ok trial_nonce_created _ this]
  show ?thesis by (simp add: trial_nonce_options_def isEpochMs_def is_safe_def MAX_SAFE_INTEGER_def)
qed

end
