(* ===== verification/DpopProof.thy ===== *)
theory DpopProof
  imports DpopTarget DpopNonce
begin

text \<open>
  The verification of one DPoP proof, dpop-proof.ts of packages/express-oidc-vault. Key import, signature verification
  and thumbprints are those of the library jose, the URL parser and the hashes those of the platform: fields of
  \<open>dpop_env\<close>, with \<open>JSON.parse\<close> and the text of a number. The diagnostics that the code emits are not modelled.
\<close>

unbundle bit_operations_syntax

definition DPOP_PROOF_MAX_BYTES :: nat where
  "DPOP_PROOF_MAX_BYTES = 8192"

definition DPOP_PROTECTED_HEADER_MAX_BYTES :: nat where
  "DPOP_PROTECTED_HEADER_MAX_BYTES = 2048"

text \<open>
  \<open>de_compactVerify proof jwk alg algorithms\<close> is the signed payload, when the key can be imported and the signature
  of the proof verifies under it.
\<close>

record dpop_env =
  de_new_url :: url_parser
  de_parse_json :: "string \<Rightarrow> jsval option"
  de_number_text :: "rat \<Rightarrow> string"
  de_compactVerify :: "string \<Rightarrow> jsval \<Rightarrow> dpop_alg \<Rightarrow> dpop_alg list \<Rightarrow> bytes option"
  de_thumbprint :: "jsval \<Rightarrow> string"
  de_sha256 :: "bytes \<Rightarrow> bytes"
  de_hmac :: "bytes \<Rightarrow> bytes \<Rightarrow> bytes"

section \<open>The header field\<close>

text \<open>The raw headers are a flat list of names and values; the loop stops at the second match.\<close>

fun raw_header_loop :: "string \<Rightarrow> string list \<Rightarrow> nat \<Rightarrow> string option \<Rightarrow> nat \<times> string option" where
  "raw_header_loop name [] count v = (count, v)"
| "raw_header_loop name [n] count v =
     (if map to_lower n \<noteq> name then (count, v)
      else (count + 1, if count + 1 = 1 then None else v))"
| "raw_header_loop name (n # x # rest) count v =
     (if map to_lower n \<noteq> name then raw_header_loop name rest count v
      else (let count = count + 1; v = (if count = 1 then Some x else v)
            in if count = 2 then (count, v) else raw_header_loop name rest count v))"

definition readDpopRawHeader :: "string list \<Rightarrow> string \<Rightarrow> nat \<times> string option" where
  "readDpopRawHeader rawHeaders name = raw_header_loop (map to_lower name) rawHeaders 0 None"

text \<open>The pattern of a compact proof: three texts of the base64url alphabet, joined by dots.\<close>

definition compact_proof :: "string \<Rightarrow> bool" where
  "compact_proof s \<longleftrightarrow>
     (case split_on CHR ''.'' s of
        [a, b, c] \<Rightarrow> list_all (\<lambda>p. p \<noteq> [] \<and> list_all is_b64url p) [a, b, c]
      | _ \<Rightarrow> False)"

definition extractDpopProof :: "nat \<times> string option \<Rightarrow> dpop_error + string option" where
  "extractDpopProof header =
     (if fst header = 0 then Inr None
      else (case snd header of
              None \<Rightarrow> Inl InvalidProof
            | Some v \<Rightarrow>
                if fst header \<noteq> 1 \<or> v = [] \<or> length v > DPOP_PROOF_MAX_BYTES \<or> \<not> compact_proof v
                then Inl InvalidProof else Inr (Some v)))"

section \<open>Encoded parts\<close>

definition proof_decodeBase64url :: "string \<Rightarrow> nat \<Rightarrow> dpop_error + bytes" where
  "proof_decodeBase64url v maxBytes =
     (if v = [] \<or> length v > (maxBytes * 4 + 2) div 3 \<or> \<not> list_all is_b64url v then Inl InvalidProof
      else (let bs = buffer_base64url v
            in if length bs > maxBytes \<or> base64urlEncode bs \<noteq> v then Inl InvalidProof else Inr bs))"

text \<open>The rest of a string literal after its opening quote, with the closing one, and what follows it.\<close>

fun literal_end :: "string \<Rightarrow> string \<times> string" where
  "literal_end [] = ([], [])"
| "literal_end (c # cs) =
     (if c = CHR 0x5C then
        (case cs of
           [] \<Rightarrow> ([c], [])
         | d # r \<Rightarrow> apfst (\<lambda>lit. c # d # lit) (literal_end r))
      else if c = CHR 0x22 then ([c], cs)
      else apfst ((#) c) (literal_end cs))"

lemma literal_end_shorter: "length (snd (literal_end s)) \<le> length s"
proof (induction s rule: literal_end.induct)
  case (2 c cs)
  then show ?case
    by (subst literal_end.simps) (auto simp del: literal_end.simps simp: le_SucI split: list.split)
qed simp

text \<open>
  The scan for repeated member names. A container on the stack is the names seen so far, none for an array, and
  whether a name comes next.
\<close>

function scan_names :: "(string \<Rightarrow> jsval option) \<Rightarrow> string \<Rightarrow> (string list option \<times> bool) list \<Rightarrow> bool" where
  "scan_names parse_json json stack =
     (case json of
        [] \<Rightarrow> True
      | c # cs \<Rightarrow>
          if c = CHR ''{'' \<or> c = CHR ''['' then
            scan_names parse_json cs ((if c = CHR ''{'' then Some [] else None, c = CHR ''{'') # stack)
          else if c = CHR ''}'' \<or> c = CHR '']'' then scan_names parse_json cs (tl stack)
          else if c = CHR '','' then
            scan_names parse_json cs
              (case stack of (Some keys, _) # below \<Rightarrow> (Some keys, True) # below | _ \<Rightarrow> stack)
          else if c = CHR 0x22 then
            (case stack of
               (Some keys, True) # below \<Rightarrow>
                 (case parse_json (c # fst (literal_end cs)) of
                    Some (JStr key) \<Rightarrow>
                      (if key \<in> set keys then False
                       else scan_names parse_json (snd (literal_end cs)) ((Some (key # keys), False) # below))
                  | _ \<Rightarrow> False)
             | _ \<Rightarrow> scan_names parse_json (snd (literal_end cs)) stack)
          else scan_names parse_json cs stack)"
  by pat_completeness auto
termination
  by (relation "measure (\<lambda>(_, json, _). length json)") (auto simp: less_Suc_eq_le literal_end_shorter)

declare scan_names.simps [simp del]

definition parseObject :: "dpop_env \<Rightarrow> bytes \<Rightarrow> dpop_error + jsval" where
  "parseObject e bs =
     (case utf8_decode_bytes bs of
        None \<Rightarrow> Inl InvalidProof
      | Some json \<Rightarrow>
          (case de_parse_json e json of
             Some v \<Rightarrow> if isRecord v \<and> scan_names (de_parse_json e) json [] then Inr v else Inl InvalidProof
           | None \<Rightarrow> Inl InvalidProof))"

section \<open>The public key\<close>

text \<open>\<open>JSON.stringify\<close> of a value that \<open>JSON.parse\<close> returned.\<close>

fun json_text :: "(rat \<Rightarrow> string) \<Rightarrow> jsval \<Rightarrow> string" where
  "json_text num (JBool b) = (if b then ''true'' else ''false'')"
| "json_text num (JNum (Fin q)) = num q"
| "json_text num (JStr s) = json_quote s"
| "json_text num (JArr xs) = CHR ''['' # join_with CHR '','' (map (json_text num) xs) @ '']''"
| "json_text num (JObj ps) =
     CHR ''{'' # join_with CHR '','' (map (\<lambda>(k, v). json_quote k @ '':'' @ json_text num v) ps) @ ''}''"
| "json_text num _ = ''null''"

text \<open>\<open>Math.clz32\<close> of a byte.\<close>

fun bit_length :: "nat \<Rightarrow> nat" where
  "bit_length n = (if n = 0 then 0 else Suc (bit_length (n div 2)))"

declare bit_length.simps [simp del]

definition clz32 :: "8 word \<Rightarrow> nat" where
  "clz32 b = 32 - bit_length (unat b)"

text \<open>\<open>Buffer.compare\<close>, as the sign of its result.\<close>

fun buffer_compare :: "bytes \<Rightarrow> bytes \<Rightarrow> int" where
  "buffer_compare [] [] = 0"
| "buffer_compare [] (_ # _) = - 1"
| "buffer_compare (_ # _) [] = 1"
| "buffer_compare (a # as) (b # bs) = (if a < b then - 1 else if b < a then 1 else buffer_compare as bs)"

definition rsa_public_ok :: "bytes \<Rightarrow> bytes \<Rightarrow> bool" where
  "rsa_public_ok modulus exponent \<longleftrightarrow>
     (let bits = (length modulus - 1) * 8 + 32 - clz32 (hd modulus)
      in \<not> (hd modulus = 0 \<or> bits < 2048 \<or> bits > 4096 \<or> hd exponent = 0 \<or> last exponent AND 1 = 0 \<or>
            (length exponent = 1 \<and> hd exponent < 3) \<or> length exponent > length modulus \<or>
            (length exponent = length modulus \<and> buffer_compare exponent modulus \<ge> 0)))"

definition ec_coordinate :: "jsval \<Rightarrow> bool" where
  "ec_coordinate v \<longleftrightarrow>
     (case v of JStr s \<Rightarrow> (case proof_decodeBase64url s 32 of Inr bs \<Rightarrow> length bs = 32 | Inl _ \<Rightarrow> False) | _ \<Rightarrow> False)"

definition jwk_names :: "dpop_alg \<Rightarrow> string list" where
  "jwk_names alg =
     (if alg = ES256 then [''kty'', ''crv'', ''x'', ''y'', ''alg'', ''use'', ''key_ops'', ''kid'']
      else [''kty'', ''n'', ''e'', ''alg'', ''use'', ''key_ops'', ''kid''])"

definition publicJwk :: "dpop_env \<Rightarrow> jsval \<Rightarrow> dpop_alg \<Rightarrow> dpop_error + jsval" where
  "publicJwk e v alg =
     (if \<not> isRecord v \<or> utf8ByteLength (json_text (de_number_text e) v) > DPOP_PROTECTED_HEADER_MAX_BYTES
      then Inl InvalidProof
      else if \<not> list_all (\<lambda>k. k \<in> set (jwk_names alg)) (own_keys v) \<or>
              (jprop v ''alg'' \<noteq> JUndef \<and> jprop v ''alg'' \<noteq> JStr (alg_name alg)) \<or>
              (jprop v ''use'' \<noteq> JUndef \<and> jprop v ''use'' \<noteq> JStr ''sig'') \<or>
              (jprop v ''kid'' \<noteq> JUndef \<and> \<not> is_str (jprop v ''kid'')) \<or>
              (jprop v ''key_ops'' \<noteq> JUndef \<and> jprop v ''key_ops'' \<noteq> JArr [JStr ''verify''])
      then Inl InvalidProof
      else if alg = ES256 then
        (if jprop v ''kty'' \<noteq> JStr ''EC'' \<or> jprop v ''crv'' \<noteq> JStr ''P-256'' \<or>
            \<not> ec_coordinate (jprop v ''x'') \<or> \<not> ec_coordinate (jprop v ''y'')
         then Inl InvalidProof else Inr v)
      else
        (case (jprop v ''n'', jprop v ''e'') of
           (JStr n, JStr x) \<Rightarrow>
             (if jprop v ''kty'' \<noteq> JStr ''RSA'' then Inl InvalidProof
              else andthen (proof_decodeBase64url n 512) (\<lambda>modulus.
                   andthen (proof_decodeBase64url x 512) (\<lambda>exponent.
                   if rsa_public_ok modulus exponent then Inr v else Inl InvalidProof)))
         | _ \<Rightarrow> Inl InvalidProof))"

section \<open>The verification\<close>

definition FORBIDDEN_HEADERS :: "string list" where
  "FORBIDDEN_HEADERS = [''crit'', ''b64'', ''jku'', ''x5u'', ''x5c'', ''x5t'', ''x5t#S256'']"

definition header_alg :: "dpop_alg list \<Rightarrow> jsval \<Rightarrow> dpop_error + dpop_alg" where
  "header_alg algorithms header =
     (case isDpopAlgorithm (jprop header ''alg'') of
        None \<Rightarrow> Inl InvalidProof
      | Some alg \<Rightarrow>
          if jprop header ''typ'' \<noteq> JStr ''dpop+jwt'' \<or> alg \<notin> set algorithms \<or>
             list_ex (has_own header) FORBIDDEN_HEADERS
          then Inl InvalidProof else Inr alg)"

definition signature_bytes :: "dpop_alg \<Rightarrow> jsval \<Rightarrow> dpop_error + nat" where
  "signature_bytes alg jwk =
     (if alg = ES256 then Inr 64
      else (case jprop jwk ''n'' of
              JStr n \<Rightarrow> andthen (proof_decodeBase64url n 512) (\<lambda>bs. Inr (length bs))
            | _ \<Rightarrow> Inl InvalidProof))"

definition printable :: "string \<Rightarrow> bool" where
  "printable = list_all (char_between 32 126)"

record dpop_claims =
  cl_iat :: int
  cl_jti :: string
  cl_htm :: jsval
  cl_htu :: jsval
  cl_nonce :: jsval
  cl_ath :: jsval

definition proof_claims :: "dpop_env \<Rightarrow> bytes \<Rightarrow> dpop_error + dpop_claims" where
  "proof_claims e payload =
     andthen (parseObject e payload) (\<lambda>claims.
     (case (as_safe (jprop claims ''iat''), jprop claims ''jti'') of
        (Some iat, JStr jti) \<Rightarrow>
          (if iat < 0 \<or> length jti < 1 \<or> length jti > 128 \<or> \<not> printable jti then Inl InvalidProof
           else Inr \<lparr>cl_iat = iat, cl_jti = jti, cl_htm = jprop claims ''htm'', cl_htu = jprop claims ''htu'',
                     cl_nonce = jprop claims ''nonce'', cl_ath = jprop claims ''ath''\<rparr>)
      | _ \<Rightarrow> Inl InvalidProof))"

definition check_target :: "dpop_env \<Rightarrow> dpop_claims \<Rightarrow> string \<Rightarrow> dpop_error + string \<Rightarrow> dpop_error + unit" where
  "check_target e claims method targetUrl =
     andthen targetUrl (\<lambda>expectedTarget.
     if cl_htm claims \<noteq> JStr method \<or> method = [] then Inl InvalidProof
     else andthen (normalizeDpopProofTarget (de_new_url e) (cl_htu claims)) (\<lambda>t.
          if t \<noteq> expectedTarget then Inl InvalidProof else Inr ()))"

definition target_step :: "dpop_env \<Rightarrow> dpop_policy \<Rightarrow> dpop_claims \<Rightarrow> string \<Rightarrow> dpop_error + string \<Rightarrow> dpop_error + unit" where
  "target_step e p claims method targetUrl =
     (case check_target e claims method targetUrl of
        Inl err \<Rightarrow> handleDpopCheckFailure (dp_ignoreTargetFailure p) err
      | Inr _ \<Rightarrow> Inr ())"

definition nonce_too_long :: "jsval \<Rightarrow> bool" where
  "nonce_too_long v \<longleftrightarrow>
     (case v of JStr n \<Rightarrow> length n > DPOP_NONCE_MAX_BYTES \<or> utf8ByteLength n > DPOP_NONCE_MAX_BYTES | _ \<Rightarrow> False)"

definition token_hash_ok :: "dpop_env \<Rightarrow> dpop_claims \<Rightarrow> jsval \<Rightarrow> bool" where
  "token_hash_ok e claims accessToken \<longleftrightarrow>
     (case accessToken of
        JUndef \<Rightarrow> True
      | JStr t \<Rightarrow> t \<noteq> [] \<and> list_all (char_between 33 126) t \<and> isCanonicalDpopJkt (cl_ath claims) \<and>
          cl_ath claims = JStr (base64urlEncode (de_sha256 e (utf8Encode t)))
      | _ \<Rightarrow> False)"

record verified_proof =
  vp_binding :: jsval
  vp_iat :: jsval
  vp_jti :: jsval
  vp_nonce :: jsval

text \<open>The input of \<open>verifyDpopProof\<close>; the target may be an error of its resolver.\<close>

record proof_input =
  pi_proof :: string
  pi_method :: string
  pi_targetUrl :: "dpop_error + string"
  pi_expectedJkt :: "string option"
  pi_accessToken :: jsval

definition signed_claims :: "dpop_env \<Rightarrow> dpop_alg list \<Rightarrow> string \<Rightarrow> dpop_error + dpop_alg \<times> jsval \<times> dpop_claims" where
  "signed_claims e algorithms jws =
     andthen (extractDpopProof (1, Some jws)) (\<lambda>_.
     (case split_on CHR ''.'' jws of
        [encodedHeader, encodedPayload, encodedSignature] \<Rightarrow>
          andthen (proof_decodeBase64url encodedHeader DPOP_PROTECTED_HEADER_MAX_BYTES) (\<lambda>bs.
          andthen (parseObject e bs) (\<lambda>header.
          andthen (proof_decodeBase64url encodedPayload DPOP_PROOF_MAX_BYTES) (\<lambda>_.
          andthen (proof_decodeBase64url encodedSignature 512) (\<lambda>signature.
          andthen (header_alg algorithms header) (\<lambda>alg.
          andthen (publicJwk e (jprop header ''jwk'') alg) (\<lambda>jwk.
          andthen (signature_bytes alg jwk) (\<lambda>n.
          if length signature \<noteq> n then Inl InvalidProof
          else (case de_compactVerify e jws jwk alg algorithms of
                  None \<Rightarrow> Inl InvalidProof
                | Some payload \<Rightarrow>
                    andthen (proof_claims e payload) (\<lambda>claims. Inr (alg, jwk, claims))))))))))
      | _ \<Rightarrow> Inl InvalidProof))"

definition verifyDpopProof :: "dpop_env \<Rightarrow> dpop_policy \<Rightarrow> proof_input \<Rightarrow> dpop_error + verified_proof" where
  "verifyDpopProof e p i =
     andthen (signed_claims e (dp_algorithms p) (pi_proof i)) (\<lambda>(alg, jwk, claims).
     andthen (target_step e p claims (pi_method i) (pi_targetUrl i)) (\<lambda>_.
     if nonce_too_long (cl_nonce claims) then Inl InvalidProof
     else if \<not> token_hash_ok e claims (pi_accessToken i) then Inl InvalidProof
     else
       (let jkt = de_thumbprint e jwk
        in if (case pi_expectedJkt i of None \<Rightarrow> False | Some x \<Rightarrow> \<not> isCanonicalDpopJkt (JStr x) \<or> jkt \<noteq> x)
           then Inl InvalidProof
           else Inr \<lparr>vp_binding = verified_val (jkt, alg), vp_iat = jint (cl_iat claims), vp_jti = JStr (cl_jti claims),
                     vp_nonce = cl_nonce claims\<rparr>)))"

end
