(* ===== verification/DpopReplay.thy ===== *)
theory DpopReplay
  imports DpopProof VaultReplay
begin

text \<open>
  Time window, nonce and replay reservation of a verified proof: dpop-replay.ts of packages/express-oidc-vault. The
  replay store is a parameter, a function of its state. A request makes one store call; everything before it depends
  on the proof and on one reading of the clock, a reading that fails or is no number being \<open>NaN\<close>.
\<close>

section \<open>Protection spaces\<close>

datatype protection_space =
    VaultSpace jsval jsval jsval jsval
  | ApiSpace jsval jsval

definition DEFAULT_OIDC_VAULT_BASE_PATH :: string where
  "DEFAULT_OIDC_VAULT_BASE_PATH = ''/auth/oidc''"

definition isPrintableIdentifier :: "jsval \<Rightarrow> bool" where
  "isPrintableIdentifier v \<longleftrightarrow>
     (case v of JStr s \<Rightarrow> 1 \<le> length s \<and> length s \<le> 128 \<and> list_all (char_between 32 126) s | _ \<Rightarrow> False)"

definition normalizeNamespaceBasePath :: "url_parser \<Rightarrow> string \<Rightarrow> jsval \<Rightarrow> dpop_error + string" where
  "normalizeNamespaceBasePath new_url orig v =
     (if v \<noteq> JUndef \<and> \<not> is_str v then Inl BadOption
      else
        (let mounted = (case v of
               JStr s \<Rightarrow>
                 (if s = [] \<or> s = ''/'' then DEFAULT_OIDC_VAULT_BASE_PATH
                  else CHR ''/'' # strip_slashes (dropWhile (\<lambda>c. c = CHR ''/'') s))
             | _ \<Rightarrow> DEFAULT_OIDC_VAULT_BASE_PATH)
         in if list_ex (\<lambda>c. is_ws c \<or> c = CHR 0x5C \<or> c = CHR ''?'' \<or> c = CHR ''#'') mounted \<or> \<not> valid_escapes mounted
            then Inl BadOption
            else (case new_url (orig @ decode_unreserved mounted) of
                    None \<Rightarrow> Inl BadOption
                  | Some u \<Rightarrow>
                      (let path = strip_slashes (pathname u) in Inr (if path = [] then ''/'' else path)))))"

definition resolveDpopEffectiveNamespace :: "url_parser \<Rightarrow> protection_space \<Rightarrow> dpop_error + string list" where
  "resolveDpopEffectiveNamespace new_url space =
     (case space of
        VaultSpace backendOrigin basePath issuer clientId \<Rightarrow>
          andthen (resolveDeviceBindingOrigin new_url backendOrigin) (\<lambda>orig.
          (case (issuer, clientId) of
             (JStr i, JStr c) \<Rightarrow>
               (if i = [] \<or> c = [] then Inl BadOption
                else andthen (normalizeNamespaceBasePath new_url orig basePath) (\<lambda>path.
                     Inr [''vault'', orig, path, i, c]))
           | _ \<Rightarrow> Inl BadOption))
      | ApiSpace publicOrigin replayNamespace \<Rightarrow>
          (if \<not> isPrintableIdentifier replayNamespace then Inl BadOption
           else (case replayNamespace of
                   JStr n \<Rightarrow>
                     andthen (resolveDeviceBindingOrigin new_url publicOrigin) (\<lambda>orig. Inr [''api'', orig, n])
                 | _ \<Rightarrow> Inl BadOption)))"

definition namespace_text :: "string list \<Rightarrow> string" where
  "namespace_text ns = json_array (map JText ns)"

definition createDpopReplayKey :: "(bytes \<Rightarrow> bytes) \<Rightarrow> string list \<Rightarrow> string \<Rightarrow> string \<Rightarrow> dpop_error + string" where
  "createDpopReplayKey sha256 ns jkt jti =
     (if \<not> isCanonicalDpopJkt (JStr jkt) \<or> \<not> isPrintableIdentifier (JStr jti) then Inl Unexpected
      else Inr (''dpop:v1:'' @ base64urlEncode (sha256 (utf8Encode
             (''['' @ namespace_text ns @ '','' @ json_quote jkt @ '','' @ json_quote jti @ '']'')))))"

section \<open>The window\<close>

definition getDpopReplayExpiresAt :: "jsval \<Rightarrow> int \<Rightarrow> int \<Rightarrow> int \<Rightarrow> int option" where
  "getDpopReplayExpiresAt v now age skew =
     (case as_safe v of
        None \<Rightarrow> None
      | Some iat \<Rightarrow>
          if iat < 0 \<or> \<not> is_safe now \<or> now < 0 \<or> age < 1 \<or> age > 300 \<or> skew < 0 \<or> skew > 30 then None
          else
            (let issuedAt = iat * 1000; expiresAt = (iat + age + skew) * 1000
             in if \<not> is_safe issuedAt \<or> \<not> is_safe expiresAt \<or> issuedAt - now > skew * 1000 \<or> expiresAt \<le> now \<or>
                   expiresAt - now > 360000
                then None else Some expiresAt))"

section \<open>The policy\<close>

text \<open>A resolved policy is plain data again, and resolves to itself.\<close>

definition policy_options :: "dpop_policy \<Rightarrow> jsval" where
  "policy_options p = JObj
     [(''mode'', JStr (case dp_mode p of Optional \<Rightarrow> ''optional'' | Required \<Rightarrow> ''required'')),
      (''algorithms'', JArr (map (\<lambda>a. JStr (alg_name a)) (dp_algorithms p))),
      (''proofMaxAgeSeconds'', jint (dp_proofMaxAgeSeconds p)),
      (''clockSkewSeconds'', jint (dp_clockSkewSeconds p)),
      (''nonce'', (case dp_nonce p of
          None \<Rightarrow> JBool False
        | Some n \<Rightarrow> JObj [(''secret'', JBytes (nonce_secret n)), (''lifetimeSeconds'', jint (nonce_lifetimeSeconds n))])),
      (''ignoreTargetFailure'', JBool (dp_ignoreTargetFailure p)),
      (''ignoreFreshnessFailure'', JBool (dp_ignoreFreshnessFailure p)),
      (''ignoreReplayFailure'', JBool (dp_ignoreReplayFailure p))]"

record replay_policy =
  rp_policy :: dpop_policy
  rp_namespace :: "string list"
  rp_nonce :: "nonce_policy option"

definition createDpopReplayPolicy ::
  "(string \<Rightarrow> string option) \<Rightarrow> dpop_env \<Rightarrow> protection_space \<Rightarrow> jsval \<Rightarrow> jsval \<Rightarrow> dpop_error + replay_policy" where
  "createDpopReplayPolicy env e space proofOptions replayStore =
     andthen (resolveDeviceBindingOptions env proofOptions) (\<lambda>resolved.
     (case resolved of
        None \<Rightarrow> Inl BadOption
      | Some p \<Rightarrow>
          if \<not> is_function (jprop replayStore ''reserveDpopProof'') then Inl BadOption
          else andthen (resolveDpopEffectiveNamespace (de_new_url e) space) (\<lambda>ns.
            (case dp_nonce p of
               None \<Rightarrow> Inr \<lparr>rp_policy = p, rp_namespace = ns, rp_nonce = None\<rparr>
             | Some opts \<Rightarrow>
                 andthen (createDpopNoncePolicy (de_sha256 e) opts (namespace_text ns)) (\<lambda>np.
                 Inr \<lparr>rp_policy = p, rp_namespace = ns, rp_nonce = Some np\<rparr>)))))"

section \<open>Verify and reserve\<close>

text \<open>One reading of the configured clock, one of the system clock in case it fails, and the random bytes.\<close>

record instant =
  at_now :: jsnum
  at_fallback :: jsnum
  at_random :: bytes

datatype replay_stage =
    Challenge string
  | Reserve "string option" int verified_key

definition valid_clock :: "jsnum \<Rightarrow> int option" where
  "valid_clock x = (case safe_int x of Some n \<Rightarrow> if n < 0 then None else Some n | None \<Rightarrow> None)"

definition check_clock :: "dpop_policy \<Rightarrow> instant \<Rightarrow> dpop_error + int" where
  "check_clock p t =
     (case valid_clock (at_now t) of
        Some n \<Rightarrow> Inr n
      | None \<Rightarrow>
          andthen (handleDpopCheckFailure (dp_ignoreFreshnessFailure p) ReplayUnavailable) (\<lambda>_.
          (case valid_clock (at_fallback t) of Some n \<Rightarrow> Inr n | None \<Rightarrow> Inl ReplayUnavailable)))"

definition reservation_expiry :: "dpop_policy \<Rightarrow> jsval \<Rightarrow> int \<Rightarrow> dpop_error + int" where
  "reservation_expiry p iat checkedNow =
     (case getDpopReplayExpiresAt iat checkedNow (dp_proofMaxAgeSeconds p) (dp_clockSkewSeconds p) of
        Some t \<Rightarrow> Inr t
      | None \<Rightarrow>
          andthen (handleDpopCheckFailure (dp_ignoreFreshnessFailure p) InvalidProof) (\<lambda>_.
          Inr (checkedNow + (dp_proofMaxAgeSeconds p + dp_clockSkewSeconds p) * 1000)))"

definition verified_key_of :: "dpop_policy \<Rightarrow> verified_proof \<Rightarrow> dpop_error + verified_key \<times> string" where
  "verified_key_of p v =
     (if \<not> isRecord (vp_binding v) then Inl InvalidProof
      else
        (case (jprop (vp_binding v) ''jkt'', isDpopAlgorithm (jprop (vp_binding v) ''alg''), vp_jti v) of
           (JStr jkt, Some alg, JStr jti) \<Rightarrow>
             (if jprop (vp_binding v) ''type'' \<noteq> JStr ''dpop'' \<or> \<not> isCanonicalDpopJkt (JStr jkt) \<or>
                 alg \<notin> set (dp_algorithms p) \<or> \<not> isPrintableIdentifier (JStr jti) \<or>
                 (case as_safe (vp_iat v) of Some n \<Rightarrow> n < 0 | None \<Rightarrow> True)
              then Inl InvalidProof else Inr ((jkt, alg), jti))
         | _ \<Rightarrow> Inl InvalidProof))"

definition prepare_reservation :: "dpop_env \<Rightarrow> replay_policy \<Rightarrow> verified_proof \<Rightarrow> instant \<Rightarrow> dpop_error + replay_stage" where
  "prepare_reservation e rp v t =
     andthen (verified_key_of (rp_policy rp) v) (\<lambda>(key, jti).
     andthen (check_clock (rp_policy rp) t) (\<lambda>checkedNow.
     andthen (reservation_expiry (rp_policy rp) (vp_iat v) checkedNow) (\<lambda>expiresAt.
     let reserve = Inr (Reserve
           (case createDpopReplayKey (de_sha256 e) (rp_namespace rp) (fst key) jti of Inl _ \<Rightarrow> None | Inr k \<Rightarrow> Some k)
           expiresAt key)
     in (case rp_nonce rp of
           Some np \<Rightarrow>
             (if \<not> nonce_verify (de_hmac e) np (vp_nonce v) (fst key) checkedNow
              then andthen (nonce_issue (de_hmac e) np (at_random t) (fst key) checkedNow) (\<lambda>n. Inr (Challenge n))
              else reserve)
         | None \<Rightarrow>
             (if vp_nonce v \<noteq> JUndef \<and> (\<not> is_str (vp_nonce v) \<or> nonce_too_long (vp_nonce v)) then Inl InvalidProof
              else reserve)))))"

datatype replay_result =
    Accepted verified_key int
  | NonceChallenge string

text \<open>What the store answered: an exception, or a value.\<close>

definition reservation_verdict :: "dpop_policy \<Rightarrow> vault_error + jsval \<Rightarrow> dpop_error + unit" where
  "reservation_verdict p answer =
     (case answer of
        Inr (JBool True) \<Rightarrow> Inr ()
      | Inr (JBool False) \<Rightarrow> handleDpopCheckFailure (dp_ignoreReplayFailure p) InvalidProof
      | _ \<Rightarrow> handleDpopCheckFailure (dp_ignoreReplayFailure p) ReplayUnavailable)"

definition reservation_input :: "string \<Rightarrow> int \<Rightarrow> jsval" where
  "reservation_input key expiresAt = JObj [(''replayKey'', JStr key), (''expiresAt'', jint expiresAt)]"

type_synonym 's replay_store = "jsval \<Rightarrow> 's \<Rightarrow> 's \<times> (vault_error + jsval)"

definition verifyAndReserve ::
  "dpop_env \<Rightarrow> replay_policy \<Rightarrow> 's replay_store \<Rightarrow> dpop_error + verified_proof \<Rightarrow> instant \<Rightarrow> 's \<Rightarrow>
     's \<times> (dpop_error + replay_result)" where
  "verifyAndReserve e rp reserve verified t st =
     (case andthen verified (\<lambda>v. prepare_reservation e rp v t) of
        Inl err \<Rightarrow> (st, Inl err)
      | Inr (Challenge n) \<Rightarrow> (st, Inr (NonceChallenge n))
      | Inr (Reserve key expiresAt b) \<Rightarrow>
          (let (st', answer) = (case key of
                 None \<Rightarrow> (st, Inl TypeError)
               | Some k \<Rightarrow> reserve (reservation_input k expiresAt) st)
           in (st', andthen (reservation_verdict (rp_policy rp) answer) (\<lambda>_. Inr (Accepted b expiresAt)))))"

section \<open>Responses\<close>

record policy_response =
  pr_status :: nat
  pr_code :: string
  pr_message :: string
  pr_headers :: "(string \<times> string) list"

definition toErrorPayload :: "dpop_error \<Rightarrow> nat \<times> string \<times> string" where
  "toErrorPayload err = (case err of
       InvalidProof \<Rightarrow> (401, ''OIDC_VAULT_INVALID_DPOP_PROOF'', ''DPoP proof validation failed.'')
     | DpopRequired \<Rightarrow> (401, ''OIDC_VAULT_DPOP_REQUIRED'', ''DPoP authentication is required.'')
     | BindingRequired \<Rightarrow> (401, ''OIDC_VAULT_DEVICE_BINDING_REQUIRED'', ''A device-bound login is required.'')
     | ReplayUnavailable \<Rightarrow> (503, ''OIDC_VAULT_DPOP_REPLAY_UNAVAILABLE'', ''DPoP replay protection is unavailable.'')
     | UseNonce _ \<Rightarrow> (400, ''OIDC_VAULT_USE_DPOP_NONCE'', ''A fresh DPoP nonce is required.'')
     | BadOption \<Rightarrow> (500, ''OIDC_VAULT_INTERNAL_ERROR'', ''Unexpected OIDC vault error.'')
     | Unexpected \<Rightarrow> (500, ''OIDC_VAULT_INTERNAL_ERROR'', ''Unexpected OIDC vault error.''))"

definition dpop_challenge :: "string \<Rightarrow> dpop_alg list \<Rightarrow> dpop_error + string" where
  "dpop_challenge error algorithms =
     (if algorithms = [] then Inl Unexpected
      else Inr (''DPoP error='' @ [CHR 0x22] @ error @ [CHR 0x22] @ '', algs='' @ [CHR 0x22] @
             join_with CHR '' '' (map alg_name (set_order algorithms)) @ [CHR 0x22]))"

definition toDpopReplayErrorResponse :: "dpop_error \<Rightarrow> dpop_alg list \<Rightarrow> dpop_error + policy_response" where
  "toDpopReplayErrorResponse err algorithms =
     (let (status, code, message) = toErrorPayload err;
          respond = (\<lambda>extra. Inr \<lparr>pr_status = status, pr_code = code, pr_message = message,
            pr_headers = (''Cache-Control'', ''no-store'') # extra\<rparr>)
      in if status = 401 \<and> (code = ''OIDC_VAULT_INVALID_DPOP_PROOF'' \<or> code = ''OIDC_VAULT_DPOP_REQUIRED'')
         then andthen (dpop_challenge ''invalid_dpop_proof'' algorithms) (\<lambda>c. respond [(''WWW-Authenticate'', c)])
         else respond [])"

definition challenge_nonce :: "string \<Rightarrow> bool" where
  "challenge_nonce n \<longleftrightarrow> length n \<le> DPOP_NONCE_MAX_BYTES \<and>
     (case split_on CHR ''.'' n of
        [v, p, m] \<Rightarrow> v = ''v1'' \<and> p \<noteq> [] \<and> list_all is_b64url p \<and> length m = 43 \<and> list_all is_b64url m
      | _ \<Rightarrow> False)"

definition toDpopNonceChallengeResponse :: "string \<Rightarrow> bool \<Rightarrow> dpop_alg list \<Rightarrow> dpop_error + policy_response" where
  "toDpopNonceChallengeResponse nonce api algorithms =
     (if \<not> challenge_nonce nonce then Inl Unexpected
      else
        andthen (if api then andthen (dpop_challenge ''use_dpop_nonce'' algorithms) (\<lambda>c. Inr [(''WWW-Authenticate'', c)])
                 else Inr []) (\<lambda>extra.
        Inr \<lparr>pr_status = (if api then 401 else 400), pr_code = ''OIDC_VAULT_USE_DPOP_NONCE'',
             pr_message = ''A fresh DPoP nonce is required.'',
             pr_headers = [(''Cache-Control'', ''no-store''), (''DPoP-Nonce'', nonce)] @ extra\<rparr>))"

section \<open>Lemmas\<close>

lemma window_exact:
  "getDpopReplayExpiresAt v now age skew = Some t \<longleftrightarrow>
     (\<exists>iat. as_safe v = Some iat \<and> 0 \<le> iat \<and> is_safe now \<and> 0 \<le> now \<and> 1 \<le> age \<and> age \<le> 300 \<and> 0 \<le> skew \<and> skew \<le> 30 \<and>
        is_safe (iat * 1000) \<and> is_safe t \<and> t = (iat + age + skew) * 1000 \<and>
        iat * 1000 \<le> now + skew * 1000 \<and> now < t)"
proof -
  have "t - now \<le> 360000" if "t = (iat + age + skew) * 1000" "iat * 1000 \<le> now + skew * 1000" "age \<le> 300" "skew \<le> 30" for iat
    using that by (simp add: algebra_simps)
  then show ?thesis
    by (auto simp: getDpopReplayExpiresAt_def Let_def split: option.split if_splits)
qed

lemma set_order_distinct: "distinct xs \<Longrightarrow> set_order xs = xs"
  by (simp add: set_order_def distinct_remdups_id)

lemma policy_resolves:
  assumes "policy_wf p"
  shows "resolveDeviceBindingOptions env (policy_options p) = Inr (Some p)"
proof -
  have small: "is_safe n" if "0 \<le> n" "n \<le> 300" for n using that by (simp add: is_safe_def MAX_SAFE_INTEGER_def)
  have mode: "resolve_mode (jprop (policy_options p) ''mode'') = Inr (dp_mode p)"
    by (simp add: policy_options_def resolve_mode_def split: binding_mode.split)
  have algs: "resolve_algorithms (jprop (policy_options p) ''algorithms'') = Inr (dp_algorithms p)"
    using assms by (simp add: policy_options_def resolve_algorithms_def policy_wf_def list_all_iff set_order_distinct comp_def)
  have nonce: "resolve_nonce (jprop (policy_options p) ''nonce'') = Inr (dp_nonce p)"
    using assms by (auto simp: policy_options_def resolve_nonce_def policy_wf_def isRecord_def resolveInteger_def small
        split: option.split)
  have ints: "resolveInteger (jprop (policy_options p) ''proofMaxAgeSeconds'') 60 1 300 = Inr (dp_proofMaxAgeSeconds p)"
      "resolveInteger (jprop (policy_options p) ''clockSkewSeconds'') 5 0 30 = Inr (dp_clockSkewSeconds p)"
    using assms by (auto simp: policy_options_def resolveInteger_Inr policy_wf_def small)
  have flags: "resolveDpopFailureOption env (jprop (policy_options p) ''ignoreTargetFailure'') TargetCheck = Inr (dp_ignoreTargetFailure p)"
      "resolveDpopFailureOption env (jprop (policy_options p) ''ignoreFreshnessFailure'') FreshnessCheck = Inr (dp_ignoreFreshnessFailure p)"
      "resolveDpopFailureOption env (jprop (policy_options p) ''ignoreReplayFailure'') ReplayCheck = Inr (dp_ignoreReplayFailure p)"
    by (simp_all add: policy_options_def resolveDpopFailureOption_def)
  have "policy_options p \<noteq> JUndef" "isRecord (policy_options p)" by (simp_all add: policy_options_def isRecord_def)
  then show ?thesis
    by (simp add: resolveDeviceBindingOptions_def mode algs nonce ints flags)
qed

end
