(* ===== verification/DpopKeys.thy ===== *)
theory DpopKeys
  imports DpopProof
begin

text \<open>
  What the checks on a key mean for the numbers that its bytes encode: the tests of dpop-proof.ts on lengths and
  leading bytes are bounds on the modulus and the exponent of an RSA key.
\<close>

definition big_endian :: "bytes \<Rightarrow> nat" where
  "big_endian bs = foldl (\<lambda>n b. 256 * n + unat b) 0 bs"

lemma big_endian_snoc: "big_endian (bs @ [b]) = 256 * big_endian bs + unat b"
  by (simp add: big_endian_def)

lemma big_endian_Cons: "big_endian (b # bs) = unat b * 256 ^ length bs + big_endian bs"
proof (induction bs rule: rev_induct)
  case (snoc c cs)
  have "big_endian (b # cs @ [c]) = 256 * big_endian (b # cs) + unat c"
    using big_endian_snoc [of "b # cs" c] by simp
  with snoc show ?case by (simp add: big_endian_snoc algebra_simps)
qed (simp add: big_endian_def)

lemma big_endian_Nil [simp]: "big_endian [] = 0"
  by (simp add: big_endian_def)

lemma unat_byte_less: "unat (b :: 8 word) < 256"
  using unsigned_less [of b] by simp

lemma big_endian_less: "big_endian bs < 256 ^ length bs"
proof (induction bs)
  case (Cons b bs)
  have "unat b * 256 ^ length bs + big_endian bs < (unat b + 1) * 256 ^ length bs" using Cons by simp
  also have "\<dots> \<le> 256 * 256 ^ length bs" by (rule mult_le_mono1) (use unat_byte_less [of b] in simp)
  finally show ?case by (simp add: big_endian_Cons)
qed simp

lemma big_endian_parity: "bs \<noteq> [] \<Longrightarrow> odd (big_endian bs) \<longleftrightarrow> odd (unat (last bs))"
  using big_endian_snoc [of "butlast bs" "last bs"] by simp

lemma last_bit: "b AND 1 = 0 \<longleftrightarrow> even (unat b)" for b :: "8 word"
proof -
  have "b AND 1 = 0 \<longleftrightarrow> even b" by (simp add: and_one_eq even_iff_mod_2_eq_zero)
  also have "\<dots> \<longleftrightarrow> even (unat b)" using bit_unsigned_iff [where w = b and n = 0 and ?'a = nat] by (simp add: bit_0)
  finally show ?thesis .
qed

text \<open>Comparing bytes of one length is comparing the numbers.\<close>

lemma buffer_compare_less:
  "length as = length bs \<Longrightarrow> buffer_compare as bs < 0 \<longleftrightarrow> big_endian as < big_endian bs"
proof (induction as bs rule: buffer_compare.induct)
  case (4 a as b bs)
  have lead: "unat x * 256 ^ k + m < unat y * 256 ^ k + n" if "unat x < unat y" "m < 256 ^ k" for x y :: "8 word" and k m n :: nat
  proof -
    have "unat x * 256 ^ k + m < (unat x + 1) * 256 ^ k" using that(2) by simp
    also have "\<dots> \<le> unat y * 256 ^ k" by (rule mult_le_mono1) (use that(1) in simp)
    finally show ?thesis by simp
  qed
  consider "a < b" | "b < a" | "a = b" by fastforce
  then show ?case
  proof cases
    case 1
    with lead [of a b "big_endian as" "length as" "big_endian bs"] 4(2) big_endian_less [of as] show ?thesis
      by (simp add: big_endian_Cons word_less_nat_alt)
  next
    case 2
    with lead [of b a "big_endian bs" "length bs" "big_endian as"] 4(2) big_endian_less [of bs] show ?thesis
      by (simp add: big_endian_Cons word_less_nat_alt)
  next
    case 3
    with 4 show ?thesis by (simp add: big_endian_Cons)
  qed
qed simp_all

lemma bit_length_bounds: "0 < n \<Longrightarrow> 0 < bit_length n \<and> 2 ^ (bit_length n - 1) \<le> n \<and> n < 2 ^ bit_length n"
proof (induction n rule: bit_length.induct)
  case (1 n)
  show ?case
  proof (cases "n = 1")
    case True
    then show ?thesis by (simp add: bit_length.simps [of "Suc 0"] bit_length.simps [of 0])
  next
    case False
    with 1 have ih: "0 < bit_length (n div 2)" "2 ^ (bit_length (n div 2) - 1) \<le> n div 2" "n div 2 < 2 ^ bit_length (n div 2)"
      by simp_all
    obtain k where k: "bit_length (n div 2) = Suc k" using ih(1) by (cases "bit_length (n div 2)") simp_all
    from 1(2) have "bit_length n = Suc (Suc k)" by (subst bit_length.simps) (simp add: k)
    with ih k show ?thesis by simp linarith
  qed
qed

lemma modulus_bits:
  assumes "modulus \<noteq> []" "hd modulus \<noteq> 0"
  defines "bits \<equiv> (length modulus - 1) * 8 + 32 - clz32 (hd modulus)"
  shows "0 < bits" "2 ^ (bits - 1) \<le> big_endian modulus" "big_endian modulus < 2 ^ bits"
proof -
  obtain b bs where m: "modulus = b # bs" using assms(1) by (cases modulus) auto
  let ?k = "bit_length (unat b)"
  have "unat b \<noteq> 0" using assms(2) m by (simp add: unat_eq_0)
  then have k: "0 < ?k" "2 ^ (?k - 1) \<le> unat b" "unat b < 2 ^ ?k" using bit_length_bounds [of "unat b"] by simp_all
  have "(2 :: nat) ^ (?k - 1) < 2 ^ 8" using k(2) unat_byte_less [of b] by (simp add: le_less_trans)
  then have "?k - 1 < 8" by (simp only: power_strict_increasing_iff)
  then have bits: "bits = length bs * 8 + ?k" by (simp add: bits_def m clz32_def)
  have "(2 :: nat) ^ (8 * length bs) = (2 ^ 8) ^ length bs" by (rule power_mult)
  then have pow: "(256 :: nat) ^ length bs = 2 ^ (length bs * 8)" by (simp add: mult.commute)
  show "0 < bits" using bits k(1) by simp
  have "(2 :: nat) ^ (bits - 1) = 2 ^ (?k - 1) * 256 ^ length bs"
    unfolding bits pow using k(1) by (simp add: power_add [symmetric])
  also have "\<dots> \<le> unat b * 256 ^ length bs" using k(2) by simp
  also have "\<dots> \<le> big_endian modulus" by (simp add: m big_endian_Cons)
  finally show "2 ^ (bits - 1) \<le> big_endian modulus" .
  have "big_endian modulus < (unat b + 1) * 256 ^ length bs"
    using big_endian_less [of bs] by (simp add: m big_endian_Cons)
  also have "\<dots> \<le> 2 ^ ?k * 256 ^ length bs" by (rule mult_le_mono1) (use k(3) in simp)
  also have "\<dots> = 2 ^ bits" unfolding bits pow by (simp add: power_add)
  finally show "big_endian modulus < 2 ^ bits" .
qed

lemma bits_at_least: "0 < k \<Longrightarrow> 2 ^ (k - 1) \<le> n \<Longrightarrow> n < (2::nat) ^ k \<Longrightarrow> j < k \<longleftrightarrow> 2 ^ j \<le> n"
  by (metis (no_types, opaque_lifting) Suc_pred' leD le_less_trans less_Suc_eq_le linorder_not_less one_less_numeral_iff
      order_trans power_increasing power_increasing_iff semiring_norm(76) one_le_numeral less_eq_Suc_le)

text \<open>C13: An RSA key is accepted exactly when its modulus has between 2048 and 4096 bits and its exponent is odd, at
  least three and smaller than the modulus, both without leading zero bytes: the tests on bytes are these bounds.\<close>

theorem rsa_key_exact:
  assumes "modulus \<noteq> []" "exponent \<noteq> []"
  shows "rsa_public_ok modulus exponent \<longleftrightarrow> hd modulus \<noteq> 0 \<and> hd exponent \<noteq> 0 \<and>
     2 ^ 2047 \<le> big_endian modulus \<and> big_endian modulus < 2 ^ 4096 \<and>
     odd (big_endian exponent) \<and> 3 \<le> big_endian exponent \<and> big_endian exponent < big_endian modulus"
proof (cases "hd modulus = 0 \<or> hd exponent = 0")
  case False
  define bits where "bits = (length modulus - 1) * 8 + 32 - clz32 (hd modulus)"
  have "hd modulus \<noteq> 0" using False by simp
  note b = modulus_bits [OF assms(1) this, folded bits_def]
  have lo: "bits < 2048 \<longleftrightarrow> \<not> 2 ^ 2047 \<le> big_endian modulus"
    unfolding bits_at_least [OF b, of 2047, symmetric] by linarith
  have hi: "bits > 4096 \<longleftrightarrow> \<not> big_endian modulus < 2 ^ 4096"
    unfolding not_less by (rule bits_at_least [OF b])
  obtain x xs where x: "exponent = x # xs" using assms(2) by (cases exponent) auto
  have pos: "1 \<le> unat x" using False x unat_gt_0 [of x] by simp
  have low: "256 ^ length xs \<le> big_endian exponent"
    unfolding x big_endian_Cons using mult_le_mono1 [OF pos, of "256 ^ length xs"] by linarith
  have three: "length exponent = 1 \<and> hd exponent < 3 \<longleftrightarrow> big_endian exponent < 3"
  proof (cases xs)
    case Nil
    then show ?thesis by (simp add: x big_endian_Cons word_less_nat_alt)
  next
    case (Cons y ys)
    then have "(256 :: nat) ^ 1 \<le> 256 ^ length xs" by (intro power_increasing) simp_all
    from order_trans [OF this low] have "256 \<le> big_endian exponent" by (simp only: power_one_right)
    with Cons show ?thesis by (simp add: x)
  qed
  have order: "length exponent > length modulus \<or> length exponent = length modulus \<and> buffer_compare exponent modulus \<ge> 0
      \<longleftrightarrow> \<not> big_endian exponent < big_endian modulus"
  proof (cases "length exponent" "length modulus" rule: linorder_cases)
    case less
    then have "length exponent \<le> length modulus - 1" by simp
    then have "(256 :: nat) ^ length exponent \<le> 256 ^ (length modulus - 1)" by (intro power_increasing) simp_all
    moreover have "256 ^ (length modulus - 1) \<le> big_endian modulus"
    proof -
      obtain m ms where m: "modulus = m # ms" using assms(1) by (cases modulus) auto
      have "1 \<le> unat m" using False m unat_gt_0 [of m] by simp
      from mult_le_mono1 [OF this, of "256 ^ length ms"] have "256 ^ length ms \<le> big_endian (m # ms)"
        unfolding big_endian_Cons by linarith
      then show ?thesis by (simp add: m)
    qed
    ultimately have "big_endian exponent < big_endian modulus" using big_endian_less [of exponent] by linarith
    with less show ?thesis by simp
  next
    case equal
    with buffer_compare_less [OF equal] show ?thesis by auto
  next
    case greater
    then have "(256 :: nat) ^ length modulus \<le> 256 ^ length xs" by (intro power_increasing) (simp_all add: x)
    with low big_endian_less [of modulus] have "\<not> big_endian exponent < big_endian modulus" by linarith
    with greater show ?thesis by simp
  qed
  have odd: "last exponent AND 1 = 0 \<longleftrightarrow> even (big_endian exponent)"
    using big_endian_parity [OF assms(2)] last_bit [of "last exponent"] by blast
  show ?thesis
    unfolding rsa_public_ok_def Let_def bits_def [symmetric] odd three lo hi
    using order False by (simp only: not_less [of "big_endian exponent" 3] de_Morgan_disj) blast
qed (auto simp: rsa_public_ok_def Let_def)

theorem rsa_key_exact_witness:
  "\<not> rsa_public_ok (1 # replicate 255 0) [1, 0, 1]"
proof -
  have "big_endian (1 # replicate 255 0) < 2 ^ 2047"
  proof -
    have "big_endian (replicate n 0) = 0" for n by (induction n) (simp_all add: big_endian_Cons)
    then have "big_endian (1 # replicate 255 0) = 256 ^ 255" by (simp add: big_endian_Cons del: replicate.simps)
    also have "\<dots> = (2 ^ 8) ^ 255" by simp
    also have "\<dots> = 2 ^ (8 * 255)" by (simp only: power_mult)
    also have "\<dots> < (2 :: nat) ^ 2047" by (rule power_strict_increasing) simp_all
    finally show ?thesis .
  qed
  then show ?thesis using rsa_key_exact [of "1 # replicate 255 0" "[1, 0, 1]"] by simp
qed

end
