(* ===== verification/DpopRoute.thy ===== *)
theory DpopRoute
  imports DpopReplay DpopKeys
begin

text \<open>
  The proof check of the vault's POST routes: vault-route-proof.ts of packages/express-oidc-vault, over the memory
  store of \<open>VaultReplay\<close>. A login selects the key of its proof; every other route checks the proof against the
  binding of the record it uses.
\<close>

record route_request =
  rq_header :: "nat \<times> string option"
  rq_method :: string
  rq_originalUrl :: string

definition captureVaultRouteProof :: "string list \<Rightarrow> string \<Rightarrow> string \<Rightarrow> route_request" where
  "captureVaultRouteProof rawHeaders method originalUrl =
     \<lparr>rq_header = readDpopRawHeader rawHeaders ''dpop'', rq_method = method, rq_originalUrl = originalUrl\<rparr>"

record vault_route =
  vr_env :: dpop_env
  vr_policy :: dpop_policy
  vr_target :: "string \<times> string"
  vr_replay :: replay_policy

definition createVaultRouteProofVerifier ::
  "(string \<Rightarrow> string option) \<Rightarrow> dpop_env \<Rightarrow> dpop_policy option \<Rightarrow> jsval \<Rightarrow> jsval \<Rightarrow> jsval \<Rightarrow> jsval \<Rightarrow> jsval \<Rightarrow>
     dpop_error + vault_route option" where
  "createVaultRouteProofVerifier env e policy storeProvider issuer clientId backendOrigin basePath =
     (case policy of
        None \<Rightarrow> Inr None
      | Some p \<Rightarrow>
          andthen (assertDeviceBindingStoreCapabilities storeProvider) (\<lambda>_.
          andthen (createDpopRequestTargetResolver (de_new_url e) backendOrigin JUndef) (\<lambda>target.
          andthen (createDpopReplayPolicy env e (VaultSpace backendOrigin basePath issuer clientId) (policy_options p)
                     storeProvider) (\<lambda>replay.
          Inr (Some \<lparr>vr_env = e, vr_policy = p, vr_target = target, vr_replay = replay\<rparr>)))))"

text \<open>The private error that carries a challenge holds its response; \<open>UseNonce\<close> keeps the nonce.\<close>

definition route_admit ::
  "vault_route \<Rightarrow> 's replay_store \<Rightarrow> route_request \<Rightarrow> string \<Rightarrow> string option \<Rightarrow> instant \<Rightarrow> 's \<Rightarrow>
     's \<times> (dpop_error + verified_key)" where
  "route_admit r reserve request jws expectedJkt t st =
     (let verified = verifyDpopProof (vr_env r) (vr_policy r)
            \<lparr>pi_proof = jws, pi_method = rq_method request,
             pi_targetUrl = request_target (de_new_url (vr_env r)) (vr_target r) (rq_originalUrl request),
             pi_expectedJkt = expectedJkt, pi_accessToken = JUndef\<rparr>;
          (st', result) = verifyAndReserve (vr_env r) (vr_replay r) reserve verified t st
      in (st', andthen result (\<lambda>x.
           (case x of
              NonceChallenge n \<Rightarrow>
                andthen (toDpopNonceChallengeResponse n False (dp_algorithms (vr_policy r))) (\<lambda>_. Inl (UseNonce n))
            | Accepted key _ \<Rightarrow> Inr key))))"

definition route_initiate ::
  "vault_route \<Rightarrow> 's replay_store \<Rightarrow> route_request \<Rightarrow> instant \<Rightarrow> 's \<Rightarrow> 's \<times> (dpop_error + verified_key option)" where
  "route_initiate r reserve request t st =
     (case extractDpopProof (rq_header request) of
        Inl err \<Rightarrow> (st, Inl err)
      | Inr None \<Rightarrow> (st, andthen (assertDeviceBindingPolicy (Some (vr_policy r)) JUndef) (\<lambda>_. Inr None))
      | Inr (Some jws) \<Rightarrow>
          (let (st', key) = route_admit r reserve request jws None t st in (st', andthen key (\<lambda>k. Inr (Some k)))))"

definition route_verify ::
  "vault_route \<Rightarrow> 's replay_store \<Rightarrow> route_request \<Rightarrow> jsval \<Rightarrow> instant \<Rightarrow> 's \<Rightarrow>
     's \<times> (dpop_error + verified_key option)" where
  "route_verify r reserve request originalBinding t st =
     (case andthen (snapshotDpopBinding originalBinding) (\<lambda>binding.
           andthen (assertDeviceBindingPolicy (Some (vr_policy r)) (binding_val binding)) (\<lambda>_.
           andthen (extractDpopProof (rq_header request)) (\<lambda>jws. Inr (binding, jws)))) of
        Inl err \<Rightarrow> (st, Inl err)
      | Inr (binding, None) \<Rightarrow>
          (st, resolveVerifiedDeviceBinding (Some (vr_policy r)) (binding_val binding) JUndef)
      | Inr (binding, Some jws) \<Rightarrow>
          (let (st', key) = route_admit r reserve request jws binding t st
           in (st', andthen key (\<lambda>k.
                resolveVerifiedDeviceBinding (Some (vr_policy r)) (binding_val binding) (verified_val k)))))"

text \<open>
  The response to an error. A challenge was answered before the observers ran, from the algorithms of the policy.
\<close>

definition toVaultRouteErrorResponse :: "dpop_error \<Rightarrow> dpop_policy option \<Rightarrow> dpop_error + policy_response" where
  "toVaultRouteErrorResponse err policy =
     (let algorithms = (case policy of None \<Rightarrow> [ES256] | Some p \<Rightarrow> dp_algorithms p)
      in case err of
           UseNonce n \<Rightarrow> toDpopNonceChallengeResponse n False algorithms
         | _ \<Rightarrow> toDpopReplayErrorResponse err algorithms)"

section \<open>Runs over the memory store\<close>

text \<open>A call: a login, or the use of a record with its binding. The store reads its own clock.\<close>

record route_call =
  rc_request :: route_request
  rc_binding :: "jsval option"
  rc_instant :: instant
  rc_storeClock :: rat

definition memory_reserve :: "rat \<Rightarrow> dpop_store replay_store" where
  "memory_reserve clk input st =
     (let (st', answer) = reserveDpopProof input (Fin clk) st
      in (st', case answer of Inl err \<Rightarrow> Inl err | Inr b \<Rightarrow> Inr (JBool b)))"

definition route_step :: "vault_route \<Rightarrow> route_call \<Rightarrow> dpop_store \<Rightarrow> dpop_store \<times> (dpop_error + verified_key option)" where
  "route_step r c =
     (case rc_binding c of
        None \<Rightarrow> route_initiate r (memory_reserve (rc_storeClock c)) (rc_request c) (rc_instant c)
      | Some b \<Rightarrow> route_verify r (memory_reserve (rc_storeClock c)) (rc_request c) b (rc_instant c))"

definition presented :: "route_call \<Rightarrow> string option" where
  "presented c = (case extractDpopProof (rq_header (rc_request c)) of Inr p \<Rightarrow> p | Inl _ \<Rightarrow> None)"

section \<open>The one store call of a request\<close>

text \<open>
  What a request asks of the store: nothing, or one reservation. As a call of \<open>VaultReplay\<close> a request that asks
  nothing is a call whose clock fails.
\<close>

definition proof_stage :: "vault_route \<Rightarrow> route_call \<Rightarrow> string option \<Rightarrow> string \<Rightarrow> dpop_error + replay_stage" where
  "proof_stage r c expected jws =
     andthen (verifyDpopProof (vr_env r) (vr_policy r)
       \<lparr>pi_proof = jws, pi_method = rq_method (rc_request c),
        pi_targetUrl = request_target (de_new_url (vr_env r)) (vr_target r) (rq_originalUrl (rc_request c)),
        pi_expectedJkt = expected, pi_accessToken = JUndef\<rparr>)
       (\<lambda>v. prepare_reservation (vr_env r) (vr_replay r) v (rc_instant c))"

definition call_expected :: "vault_route \<Rightarrow> route_call \<Rightarrow> dpop_error + string option" where
  "call_expected r c =
     (case rc_binding c of
        None \<Rightarrow> Inr None
      | Some b \<Rightarrow> andthen (snapshotDpopBinding b) (\<lambda>binding.
          andthen (assertDeviceBindingPolicy (Some (vr_policy r)) (binding_val binding)) (\<lambda>_. Inr binding)))"

definition call_stage :: "vault_route \<Rightarrow> route_call \<Rightarrow> (dpop_error + replay_stage) option" where
  "call_stage r c =
     (case (call_expected r c, extractDpopProof (rq_header (rc_request c))) of
        (Inr expected, Inr (Some jws)) \<Rightarrow> Some (proof_stage r c expected jws)
      | _ \<Rightarrow> None)"

definition store_call :: "vault_route \<Rightarrow> route_call \<Rightarrow> dpop_call" where
  "store_call r c =
     (case call_stage r c of
        Some (Inr (Reserve (Some key) expiresAt _)) \<Rightarrow> (Fin (rc_storeClock c), reservation_input key expiresAt)
      | _ \<Rightarrow> (NaN, JUndef))"

text \<open>A proof through the replay policy, by its stage.\<close>

lemma route_admit_stage:
  "route_admit r reserve (rc_request c) jws expected (rc_instant c) st =
     (case proof_stage r c expected jws of
        Inl err \<Rightarrow> (st, Inl err)
      | Inr (Challenge n) \<Rightarrow> (st, andthen (toDpopNonceChallengeResponse n False (dp_algorithms (vr_policy r))) (\<lambda>_. Inl (UseNonce n)))
      | Inr (Reserve key expiresAt b) \<Rightarrow>
          (let (st', answer) = (case key of
                 None \<Rightarrow> (st, Inl TypeError)
               | Some k \<Rightarrow> reserve (reservation_input k expiresAt) st)
           in (st', andthen (reservation_verdict (rp_policy (vr_replay r)) answer) (\<lambda>_. Inr b))))"
  by (simp add: route_admit_def verifyAndReserve_def proof_stage_def andthen_def Let_def
      split: sum.split replay_stage.split prod.split)

lemma memory_reserve_step:
  "fst (memory_reserve clk input st) = fst (dpop_step (Fin clk, input) st)"
  "snd (memory_reserve clk input st) = Inr (JBool True) \<longleftrightarrow> snd (dpop_step (Fin clk, input) st) = Inr True"
  by (auto simp: memory_reserve_def dpop_step_def split: prod.splits sum.splits)

lemma no_store_call [simp]: "dpop_step (NaN, JUndef) st = (st, Inl StoreError)"
  by (simp add: dpop_step_def reserveDpopProof_def)

text \<open>The result of a request, from the verdict on its proof.\<close>

definition route_outcome :: "vault_route \<Rightarrow> route_call \<Rightarrow> string option \<Rightarrow> dpop_error + verified_key \<Rightarrow> dpop_error + verified_key option" where
  "route_outcome r c expected key =
     (case rc_binding c of
        None \<Rightarrow> andthen key (\<lambda>k. Inr (Some k))
      | Some _ \<Rightarrow> andthen key (\<lambda>k.
          resolveVerifiedDeviceBinding (Some (vr_policy r)) (binding_val expected) (verified_val k)))"

lemma route_step_proof:
  assumes "call_expected r c = Inr expected" "extractDpopProof (rq_header (rc_request c)) = Inr (Some jws)"
  shows "route_step r c st =
     apsnd (route_outcome r c expected)
       (route_admit r (memory_reserve (rc_storeClock c)) (rc_request c) jws expected (rc_instant c) st)"
proof (cases "rc_binding c")
  case None
  with assms show ?thesis
    by (simp add: call_expected_def route_step_def route_initiate_def route_outcome_def [abs_def] apsnd_def map_prod_def split: prod.split)
next
  case (Some b)
  with assms have "snapshotDpopBinding b = Inr expected" "assertDeviceBindingPolicy (Some (vr_policy r)) (binding_val expected) = Inr ()"
    by (auto simp: call_expected_def andthen_Inr)
  with Some assms(2) show ?thesis
    by (simp add: route_step_def route_verify_def route_outcome_def [abs_def] apsnd_def map_prod_def split: prod.split)
qed

lemma route_step_no_proof:
  assumes "call_stage r c = None"
  shows "fst (route_step r c st) = st"
    and "presented c \<noteq> None \<Longrightarrow> \<not> is_ok (snd (route_step r c st))"
  using assms
  by (auto simp: call_stage_def call_expected_def route_step_def route_initiate_def route_verify_def presented_def andthen_def
      split: option.splits sum.splits prod.splits)

lemma route_step_store: "fst (route_step r c st) = fst (dpop_step (store_call r c) st)"
proof (cases "call_stage r c")
  case None
  then show ?thesis using route_step_no_proof(1) by (simp add: store_call_def)
next
  case (Some stage)
  then obtain expected jws where c: "call_expected r c = Inr expected"
      "extractDpopProof (rq_header (rc_request c)) = Inr (Some jws)" "stage = proof_stage r c expected jws"
    by (auto simp: call_stage_def split: sum.splits option.splits)
  show ?thesis
    unfolding route_step_proof [OF c(1,2)] store_call_def Some option.case c(3)
    by (auto simp: route_admit_stage Let_def memory_reserve_step split: sum.split replay_stage.split option.split prod.split)
       (metis fst_conv memory_reserve_step(1))
qed

section \<open>No proof is accepted twice\<close>

lemma verifyDpopProof_Inr:
  "verifyDpopProof e p i = Inr v \<longleftrightarrow>
     (\<exists>alg jwk cl. signed_claims e (dp_algorithms p) (pi_proof i) = Inr (alg, jwk, cl) \<and>
        target_step e p cl (pi_method i) (pi_targetUrl i) = Inr () \<and> \<not> nonce_too_long (cl_nonce cl) \<and>
        token_hash_ok e cl (pi_accessToken i) \<and>
        (\<forall>x. pi_expectedJkt i = Some x \<longrightarrow> isCanonicalDpopJkt (JStr x) \<and> de_thumbprint e jwk = x) \<and>
        v = \<lparr>vp_binding = verified_val (de_thumbprint e jwk, alg), vp_iat = jint (cl_iat cl), vp_jti = JStr (cl_jti cl),
             vp_nonce = cl_nonce cl\<rparr>)"
proof -
  have e: "(case x of (a, b, c) \<Rightarrow> f a b c) = Inr v \<longleftrightarrow> (\<exists>a b c. x = (a, b, c) \<and> f a b c = Inr v)"
    for x :: "dpop_alg \<times> jsval \<times> dpop_claims" and f by (cases x) auto
  show ?thesis
    unfolding verifyDpopProof_def andthen_Inr Let_def e by (cases "pi_expectedJkt i") (auto split: if_splits)
qed

lemma prepare_ReserveD:
  assumes "prepare_reservation e rp v t = Inr (Reserve k expi b)"
  shows "\<exists>jti now. verified_key_of (rp_policy rp) v = Inr (b, jti) \<and> check_clock (rp_policy rp) t = Inr now \<and>
    reservation_expiry (rp_policy rp) (vp_iat v) now = Inr expi \<and>
    k = (case createDpopReplayKey (de_sha256 e) (rp_namespace rp) (fst b) jti of Inl _ \<Rightarrow> None | Inr k \<Rightarrow> Some k)"
  using assms
  by (auto simp: prepare_reservation_def andthen_Inr Let_def split: prod.splits option.splits if_splits)

text \<open>With the freshness check enforced the expiry is a function of the proof.\<close>

lemma strict_expiry:
  "\<not> dp_ignoreFreshnessFailure p \<Longrightarrow> reservation_expiry p v now = Inr expi \<Longrightarrow>
     is_safe expi \<and> now < expi \<and> (\<exists>iat. as_safe v = Some iat \<and> expi = (iat + dp_proofMaxAgeSeconds p + dp_clockSkewSeconds p) * 1000)"
  by (auto simp: reservation_expiry_def handleDpopCheckFailure_def window_exact split: option.splits)

lemma clock_nonneg: "check_clock p t = Inr now \<Longrightarrow> 0 \<le> now"
  by (auto simp: check_clock_def valid_clock_def andthen_Inr split: option.splits if_splits)

lemma accepted_reserves:
  assumes "\<not> dp_ignoreReplayFailure (rp_policy (vr_replay r))" "presented c = Some jws"
    "snd (route_step r c st) = Inr x"
  obtains expected k expi b where "call_stage r c = Some (Inr (Reserve (Some k) expi b))"
    "proof_stage r c expected jws = Inr (Reserve (Some k) expi b)" "snd (dpop_step (store_call r c) st) = Inr True"
    "call_expected r c = Inr expected" "route_outcome r c expected (Inr b) = Inr x"
proof -
  obtain stage where st: "call_stage r c = Some stage"
    using route_step_no_proof(2) [of r c st] assms(2,3) by (cases "call_stage r c") auto
  then obtain expected where c: "call_expected r c = Inr expected"
      "extractDpopProof (rq_header (rc_request c)) = Inr (Some jws)" "stage = proof_stage r c expected jws"
    using assms(2) by (auto simp: call_stage_def presented_def split: sum.splits option.splits)
  let ?a = "route_admit r (memory_reserve (rc_storeClock c)) (rc_request c) jws expected (rc_instant c) st"
  have out: "route_outcome r c expected (snd ?a) = Inr x"
    using assms(3) unfolding route_step_proof [OF c(1,2)] by simp
  then obtain b where b: "snd ?a = Inr b"
    by (cases "snd ?a") (auto simp: route_outcome_def split: option.splits)
  then obtain k expi where k: "proof_stage r c expected jws = Inr (Reserve (Some k) expi b)"
      and won: "snd (memory_reserve (rc_storeClock c) (reservation_input k expi) st) = Inr (JBool True)"
    using assms(1)
    by (auto simp: route_admit_stage reservation_verdict_def handleDpopCheckFailure_def andthen_def Let_def
        split: sum.splits replay_stage.splits option.splits prod.splits jsval.splits bool.splits)
  from st c(3) k have stage: "call_stage r c = Some (Inr (Reserve (Some k) expi b))" by simp
  then have "snd (dpop_step (store_call r c) st) = Inr True"
    using won by (simp add: store_call_def memory_reserve_step)
  with that [OF stage k _ c(1)] out b show thesis by simp
qed

text \<open>Whatever routes and records a proof is presented for, it asks for the same reservation.\<close>

lemma same_proof_same_reservation:
  assumes "\<not> dp_ignoreFreshnessFailure (rp_policy (vr_replay r))"
    and "proof_stage r c x jws = Inr (Reserve k expi b)" "proof_stage r d y jws = Inr (Reserve l expj b')"
  shows "k = l \<and> expi = expj \<and> b = b'"
proof -
  from assms(2) obtain v where v: "verifyDpopProof (vr_env r) (vr_policy r)
       \<lparr>pi_proof = jws, pi_method = rq_method (rc_request c),
        pi_targetUrl = request_target (de_new_url (vr_env r)) (vr_target r) (rq_originalUrl (rc_request c)),
        pi_expectedJkt = x, pi_accessToken = JUndef\<rparr> = Inr v"
      "prepare_reservation (vr_env r) (vr_replay r) v (rc_instant c) = Inr (Reserve k expi b)"
    unfolding proof_stage_def andthen_Inr by blast
  from assms(3) obtain w where w: "verifyDpopProof (vr_env r) (vr_policy r)
       \<lparr>pi_proof = jws, pi_method = rq_method (rc_request d),
        pi_targetUrl = request_target (de_new_url (vr_env r)) (vr_target r) (rq_originalUrl (rc_request d)),
        pi_expectedJkt = y, pi_accessToken = JUndef\<rparr> = Inr w"
      "prepare_reservation (vr_env r) (vr_replay r) w (rc_instant d) = Inr (Reserve l expj b')"
    unfolding proof_stage_def andthen_Inr by blast
  have "v = w" using v(1) w(1) unfolding verifyDpopProof_Inr by auto
  with prepare_ReserveD [OF v(2)] prepare_ReserveD [OF w(2)] show ?thesis
    by (auto dest!: strict_expiry [OF assms(1)])
qed

lemma run_calls_simulated:
  assumes "\<And>c s. fst (f c s) = fst (g (h c) s)"
  shows "fst (run_calls f cs s) = fst (run_calls g (map h cs) s)"
  using assms by (induction cs arbitrary: s) simp_all

lemma run_calls_nth:
  "i < length cs \<Longrightarrow> snd (run_calls f cs s) ! i = snd (f (cs ! i) (fst (run_calls f (take i cs) s)))"
proof (induction cs arbitrary: s i)
  case (Cons c cs)
  then show ?case by (cases i) simp_all
qed simp

lemma granted_in_time:
  "snd (dpop_step (Fin clk, input) st) = Inr True \<Longrightarrow> clk < dpop_until (Fin clk, input)"
  by (auto simp: dpop_step_def reserveDpopProof_def dpop_until_def dpop_input_def split: option.splits jsval.splits if_splits prod.splits)

lemma created_policy:
  assumes "policy_wf p" "createVaultRouteProofVerifier env e (Some p) store issuer clientId backendOrigin basePath = Inr (Some r)"
  shows "vr_policy r = p" "rp_policy (vr_replay r) = p" "vr_env r = e"
proof -
  from assms(2) obtain replay where r: "createDpopReplayPolicy env e (VaultSpace backendOrigin basePath issuer clientId)
      (policy_options p) store = Inr replay" "vr_policy r = p" "vr_replay r = replay" "vr_env r = e"
    by (auto simp: createVaultRouteProofVerifier_def andthen_Inr)
  then show "vr_policy r = p" "vr_env r = e" by simp_all
  from r(1) have "rp_policy replay = p"
    by (auto simp: createDpopReplayPolicy_def policy_resolves [OF assms(1)] andthen_Inr split: if_splits option.splits)
  with r(3) show "rp_policy (vr_replay r) = p" by simp
qed

section \<open>A concrete run\<close>

definition trial_new_url :: url_parser where
  "trial_new_url s =
     (if starts_with s ''https://v.example'' then
        Some \<lparr>protocol = ''https:'', username = [], password = [], host = ''v.example'', hostname = ''v.example'',
              pathname = (if length s = 17 then ''/'' else drop 17 s), url_origin = ''https://v.example''\<rparr>
      else None)"

definition trial_key_text :: string where
  "trial_key_text = replicate 43 (CHR ''A'')"

definition trial_parse_json :: "string \<Rightarrow> jsval option" where
  "trial_parse_json s =
     (if s = ''H'' then Some (JObj [(''typ'', JStr ''dpop+jwt''), (''alg'', JStr ''ES256''),
        (''jwk'', JObj [(''kty'', JStr ''EC''), (''crv'', JStr ''P-256''), (''x'', JStr trial_key_text),
                        (''y'', JStr trial_key_text)])])
      else if s = ''P'' then Some (JObj [(''htm'', JStr ''POST''), (''htu'', JStr ''https://v.example/refresh''),
        (''iat'', jint 100), (''jti'', JStr ''j1'')])
      else None)"

definition trial_env :: dpop_env where
  "trial_env = \<lparr>de_new_url = trial_new_url, de_parse_json = trial_parse_json, de_number_text = (\<lambda>_. ''0''),
     de_compactVerify = (\<lambda>_ _ _ _. Some (utf8Encode ''P'')), de_thumbprint = (\<lambda>_. trial_jkt),
     de_sha256 = trial_sha, de_hmac = trial_hmac\<rparr>"

definition trial_policy :: dpop_policy where
  "trial_policy = \<lparr>dp_mode = Required, dp_algorithms = [ES256], dp_proofMaxAgeSeconds = 60, dp_clockSkewSeconds = 5,
     dp_nonce = None, dp_ignoreTargetFailure = False, dp_ignoreFreshnessFailure = False, dp_ignoreReplayFailure = False\<rparr>"

definition trial_route :: vault_route where
  "trial_route = \<lparr>vr_env = trial_env, vr_policy = trial_policy, vr_target = (''https://v.example'', []),
     vr_replay = \<lparr>rp_policy = trial_policy,
       rp_namespace = [''vault'', ''https://v.example'', ''/auth/oidc'', ''issuer'', ''client''], rp_nonce = None\<rparr>\<rparr>"

definition trial_options :: jsval where
  "trial_options = JObj [(''mode'', JStr ''required'')]"

definition trial_provider :: jsval where
  "trial_provider = JObj (map (\<lambda>name. (name, JFun 0)) DEVICE_BINDING_STORE_CAPABILITIES)"

definition trial_proof :: string where
  "trial_proof = ''SA.UA.'' @ replicate 86 (CHR ''A'')"

definition trial_call :: "int \<Rightarrow> route_call" where
  "trial_call now = \<lparr>rc_request = captureVaultRouteProof [''Host'', ''v.example'', ''DPoP'', trial_proof] ''POST'' ''/refresh?x=1'',
     rc_binding = Some (JObj [(''type'', JStr ''dpop''), (''jkt'', JStr trial_jkt)]),
     rc_instant = \<lparr>at_now = of_integer now, at_fallback = NaN, at_random = []\<rparr>, rc_storeClock = of_int now\<rparr>"

lemma trial_policy_resolved: "resolveDeviceBindingOptions (\<lambda>_. None) trial_options = Inr (Some trial_policy)"
  by code_simp

lemma trial_route_created:
  "createVaultRouteProofVerifier (\<lambda>_. None) trial_env (Some trial_policy) trial_provider (JStr ''issuer'') (JStr ''client'')
     (JStr ''https://v.example'') JUndef = Inr (Some trial_route)"
proof -
  have "assertDeviceBindingStoreCapabilities trial_provider = Inr ()" by code_simp
  moreover have "createDpopRequestTargetResolver (de_new_url trial_env) (JStr ''https://v.example'') JUndef = Inr (''https://v.example'', [])"
    by code_simp
  moreover have "createDpopReplayPolicy (\<lambda>_. None) trial_env
      (VaultSpace (JStr ''https://v.example'') JUndef (JStr ''issuer'') (JStr ''client'')) (policy_options trial_policy) trial_provider =
      Inr (vr_replay trial_route)"
    by code_simp
  ultimately show ?thesis by (simp add: createVaultRouteProofVerifier_def trial_route_def)
qed

lemma trial_presented: "presented (trial_call now) = Some trial_proof"
  unfolding presented_def trial_call_def by code_simp




definition trial_jwk :: jsval where
  "trial_jwk = JObj [(''kty'', JStr ''EC''), (''crv'', JStr ''P-256''), (''x'', JStr trial_key_text), (''y'', JStr trial_key_text)]"

definition trial_header :: jsval where
  "trial_header = JObj [(''typ'', JStr ''dpop+jwt''), (''alg'', JStr ''ES256''), (''jwk'', trial_jwk)]"

definition trial_claims :: dpop_claims where
  "trial_claims = \<lparr>cl_iat = 100, cl_jti = ''j1'', cl_htm = JStr ''POST'', cl_htu = JStr ''https://v.example/refresh'',
     cl_nonce = JUndef, cl_ath = JUndef\<rparr>"

definition trial_verified :: verified_proof where
  "trial_verified = \<lparr>vp_binding = verified_val (trial_jkt, ES256), vp_iat = jint 100, vp_jti = JStr ''j1'', vp_nonce = JUndef\<rparr>"

lemma proof_decode_encode:
  assumes "bs \<noteq> []" "length bs \<le> n"
  shows "proof_decodeBase64url (base64urlEncode bs) n = Inr bs"
proof -
  have "(4 * length bs + 2) div 3 \<le> (n * 4 + 2) div 3" using assms(2) by (intro div_le_mono) simp
  with assms show ?thesis
    by (simp add: proof_decodeBase64url_def Let_def base64url_chars length_base64url)
qed

lemma zero_sextets: "sextet n (triplet 0 0 0) = CHR ''A''"
  by (simp add: sextet_def triplet_def b64_digit_def BASE64URL_ALPHABET_def)

lemma trial_encoded:
  "''SA'' = base64urlEncode [0x48]" "''UA'' = base64urlEncode [0x50]"
  "replicate 86 (CHR ''A'') = base64urlEncode (replicate 64 0)"
  "trial_key_text = base64urlEncode (replicate 32 0)"
  by (code_simp, code_simp, simp_all add: trial_key_text_def eval_nat_numeral zero_sextets Let_def)

lemma trial_parts:
  "extractDpopProof (1, Some trial_proof) = Inr (Some trial_proof)"
  "split_on CHR ''.'' trial_proof = [''SA'', ''UA'', replicate 86 (CHR ''A'')]"
  "parseObject trial_env [0x48] = Inr trial_header"
  "header_alg [ES256] trial_header = Inr ES256"
  "proof_claims trial_env (utf8Encode ''P'') = Inr trial_claims"
  "utf8ByteLength (json_text (de_number_text trial_env) trial_jwk) \<le> DPOP_PROTECTED_HEADER_MAX_BYTES"
  by code_simp+

lemma trial_public: "publicJwk trial_env (jprop trial_header ''jwk'') ES256 = Inr trial_jwk"
proof -
  have "ec_coordinate (JStr trial_key_text)"
    by (simp add: ec_coordinate_def trial_encoded(4) proof_decode_encode)
  then show ?thesis
    using trial_parts(6) by (simp add: publicJwk_def trial_header_def trial_jwk_def isRecord_def jwk_names_def own_keys_def)
qed

lemma trial_signed: "signed_claims trial_env [ES256] trial_proof = Inr (ES256, trial_jwk, trial_claims)"
proof -
  have "de_compactVerify trial_env trial_proof trial_jwk ES256 [ES256] = Some (utf8Encode ''P'')"
    by (simp add: trial_env_def)
  then show ?thesis
    unfolding signed_claims_def trial_parts(1,2) andthen_simps list.case trial_encoded(1-3)
    by (simp add: proof_decode_encode DPOP_PROTECTED_HEADER_MAX_BYTES_def DPOP_PROOF_MAX_BYTES_def trial_parts(3-5)
        trial_public signature_bytes_def del: base64urlEncode.simps)
qed

definition trial_replay_key :: string where
  "trial_replay_key = ''dpop:v1:'' @ base64urlEncode (replicate 32 42)"

lemma trial_checks:
  "target_step trial_env trial_policy trial_claims ''POST''
     (request_target (de_new_url trial_env) (''https://v.example'', []) ''/refresh?x=1'') = Inr ()"
  "prepare_reservation trial_env (vr_replay trial_route) trial_verified \<lparr>at_now = of_integer 100000, at_fallback = NaN, at_random = []\<rparr> =
     Inr (Reserve (Some trial_replay_key) 165000 (trial_jkt, ES256))"
  by code_simp+


lemma trial_stage:
  "proof_stage trial_route (trial_call 100000) (Some trial_jkt) trial_proof =
     Inr (Reserve (Some trial_replay_key) 165000 (trial_jkt, ES256))"
proof -
  have policy: "dp_algorithms trial_policy = [ES256]" "de_thumbprint trial_env x = trial_jkt" for x
    by (simp_all add: trial_policy_def trial_env_def)
  have "verifyDpopProof trial_env trial_policy \<lparr>pi_proof = trial_proof, pi_method = ''POST'',
      pi_targetUrl = request_target (de_new_url trial_env) (''https://v.example'', []) ''/refresh?x=1'',
      pi_expectedJkt = Some trial_jkt, pi_accessToken = JUndef\<rparr> = Inr trial_verified"
    unfolding verifyDpopProof_Inr
    using trial_signed trial_checks(1) trial_jkt_canonical policy
    by (intro exI [of _ ES256] exI [of _ trial_jwk] exI [of _ trial_claims])
       (simp add: nonce_too_long_def token_hash_ok_def trial_verified_def trial_claims_def)
  then show ?thesis
    using trial_checks(2) by (simp add: proof_stage_def trial_call_def captureVaultRouteProof_def) (simp add: trial_route_def)
qed

lemma trial_granted:
  "\<exists>st'. memory_reserve 100000 (reservation_input trial_replay_key 165000) dpop_demo =
     (st', Inr (JBool True))"
proof -
  have "snd (memory_reserve 100000 (reservation_input trial_replay_key 165000) dpop_demo) =
      Inr (JBool True)"
    by code_simp
  then show ?thesis by (metis prod.collapse)
qed

lemma trial_accepted: "snd (route_step trial_route (trial_call 100000) dpop_demo) = Inr (Some (trial_jkt, ES256))"
proof -
  let ?c = "trial_call 100000"
  have bound: "snapshotDpopBinding (JObj [(''type'', JStr ''dpop''), (''jkt'', JStr trial_jkt)]) = Inr (Some trial_jkt)"
    using snapshot_binding_val(1) [OF trial_jkt_canonical] by (simp add: binding_val_def)
  have assert: "assertDeviceBindingPolicy (Some trial_policy) (binding_val (Some trial_jkt)) = Inr ()"
    using snapshot_binding_val(1) [OF trial_jkt_canonical] by (simp add: assertDeviceBindingPolicy_def)
  have c: "call_expected trial_route ?c = Inr (Some trial_jkt)"
    using bound assert by (simp add: call_expected_def trial_call_def trial_route_def)
  have h: "extractDpopProof (rq_header (rc_request ?c)) = Inr (Some trial_proof)"
    using trial_presented [of 100000] by (auto simp: presented_def split: sum.splits)
  have match: "resolveVerifiedDeviceBinding (Some trial_policy) (binding_val (Some trial_jkt)) (verified_val (trial_jkt, ES256)) =
      Inr (Some (trial_jkt, ES256))"
    using snapshot_binding_val(1) [OF trial_jkt_canonical] snapshot_verified [of "(trial_jkt, ES256)"] trial_jkt_canonical assert
    by (simp add: resolveVerifiedDeviceBinding_def) (simp add: trial_policy_def)
  have rest: "vr_policy trial_route = trial_policy" "rp_policy (vr_replay trial_route) = trial_policy"
      "rc_storeClock ?c = 100000" "rc_binding ?c = Some (JObj [(''type'', JStr ''dpop''), (''jkt'', JStr trial_jkt)])"
    by (simp_all add: trial_route_def trial_call_def)
  obtain st' where g: "memory_reserve 100000 (reservation_input trial_replay_key 165000) dpop_demo = (st', Inr (JBool True))"
    using trial_granted by blast
  show ?thesis
    unfolding route_step_proof [OF c h] route_admit_stage trial_stage sum.case replay_stage.case option.case rest g Let_def
      prod.case snd_apsnd snd_conv route_outcome_def reservation_verdict_def jsval.case bool.case if_True andthen_simps match ..
qed

section \<open>The theorem\<close>

text \<open>C10: With the freshness and the replay check enforced no proof is accepted twice: in any run of the vault's POST
  routes over a fresh memory store whose clock does not go back, whatever the other requests are and whichever routes
  and records the two requests use, the second request that presents a proof fails when the first one succeeded.\<close>

theorem dpop_proof_accepted_once:
  assumes "resolveDeviceBindingOptions env opts = Inr (Some p)"
    and "createVaultRouteProofVerifier env e (Some p) store issuer clientId backendOrigin basePath = Inr (Some r)"
    and "\<not> dp_ignoreFreshnessFailure p" "\<not> dp_ignoreReplayFailure p"
    and "createDpopReplay vaultOptions = Inr st"
    and "\<forall>k l. k \<le> l \<and> l < length cs \<longrightarrow> rc_storeClock (cs ! k) \<le> rc_storeClock (cs ! l)"
    and "i < j" "j < length cs" "presented (cs ! i) = Some jws" "presented (cs ! j) = Some jws"
    and "is_ok (snd (run_calls (route_step r) cs st) ! i)"
  shows "\<not> is_ok (snd (run_calls (route_step r) cs st) ! j)"
proof
  assume ok: "is_ok (snd (run_calls (route_step r) cs st) ! j)"
  note pol = created_policy [OF resolved_policy_wf [OF assms(1)] assms(2)]
  have strict: "\<not> dp_ignoreReplayFailure (rp_policy (vr_replay r))" "\<not> dp_ignoreFreshnessFailure (rp_policy (vr_replay r))"
    using assms(3,4) pol by simp_all
  let ?ds = "map (store_call r) cs"
  have state: "fst (run_calls (route_step r) (take n cs) st) = fst (run_calls dpop_step (take n ?ds) st)" for n
    using run_calls_simulated [of "route_step r" dpop_step "store_call r" "take n cs" st] route_step_store
    by (simp add: take_map)
  have step: "\<exists>k expi b x. proof_stage r (cs ! n) x jws = Inr (Reserve (Some k) expi b) \<and>
      call_stage r (cs ! n) = Some (Inr (Reserve (Some k) expi b)) \<and> snd (run_calls dpop_step ?ds st) ! n = Inr True"
    if n: "n < length cs" "presented (cs ! n) = Some jws" "is_ok (snd (run_calls (route_step r) cs st) ! n)" for n
  proof -
    from n(3) obtain x where "snd (route_step r (cs ! n) (fst (run_calls (route_step r) (take n cs) st))) = Inr x"
      by (auto simp: run_calls_nth [OF n(1)] is_ok_def)
    then show ?thesis
      using accepted_reserves [OF strict(1) n(2)] n(1) by (metis length_map nth_map run_calls_nth state)
  qed
  obtain k expi b x where I: "proof_stage r (cs ! i) x jws = Inr (Reserve (Some k) expi b)"
      "call_stage r (cs ! i) = Some (Inr (Reserve (Some k) expi b))" "snd (run_calls dpop_step ?ds st) ! i = Inr True"
    using step [of i] assms(7,8,9,11) by auto
  obtain l expj b' y where J: "proof_stage r (cs ! j) y jws = Inr (Reserve (Some l) expj b')"
      "call_stage r (cs ! j) = Some (Inr (Reserve (Some l) expj b'))" "snd (run_calls dpop_step ?ds st) ! j = Inr True"
    using step [of j] assms(8,10) ok by auto
  have same: "l = k" "expj = expi" using same_proof_same_reservation [OF strict(2) I(1) J(1)] by simp_all
  obtain now where expi: "is_safe expi" "0 \<le> now" "now < expi"
    using I(1) strict_expiry [OF strict(2)] clock_nonneg
    by (auto simp: proof_stage_def andthen_Inr dest!: prepare_ReserveD) blast
  have calls: "store_call r (cs ! i) = (Fin (rc_storeClock (cs ! i)), reservation_input k expi)"
      "store_call r (cs ! j) = (Fin (rc_storeClock (cs ! j)), reservation_input k expi)"
    using I(2) J(2) same by (simp_all add: store_call_def)
  have until: "dpop_until (Fin clk, reservation_input k expi) = of_int expi" for clk
    using expi by (simp add: dpop_until_def reservation_input_def)
  have key: "dpop_key (?ds ! i) = dpop_key (?ds ! j)"
    using assms(7,8) by (simp add: calls dpop_key_def)
  obtain m where m: "i < m" "m \<le> j" "dpop_until (?ds ! i) \<le> dpop_clock (?ds ! m)"
    using dpop.at_most_once [OF createDpop_inv [OF assms(5)], of i j ?ds] assms(7,8) key I(3) J(3) by auto
  have "of_int expi \<le> dpop_clock (store_call r (cs ! m))"
    using m assms(7,8) by (simp add: calls until)
  moreover have "dpop_clock (store_call r (cs ! m)) = rc_storeClock (cs ! m) \<or> dpop_clock (store_call r (cs ! m)) = 0"
    by (simp add: store_call_def dpop_clock_def split: option.split sum.split replay_stage.split)
  moreover have "(0 :: rat) < of_int expi" using expi by simp
  ultimately have "of_int expi \<le> rc_storeClock (cs ! m)" by linarith
  also have "\<dots> \<le> rc_storeClock (cs ! j)" using assms(6) m(2) assms(8) by blast
  finally have late: "of_int expi \<le> rc_storeClock (cs ! j)" .
  have "snd (dpop_step (?ds ! j) (fst (run_calls dpop_step (take j ?ds) st))) = Inr True"
    using J(3) run_calls_nth [of j ?ds dpop_step st] assms(8) by simp
  then have "rc_storeClock (cs ! j) < of_int expi"
    using granted_in_time assms(8) calls(2) until by (metis nth_map)
  with late show False by simp
qed

text \<open>The same proof a second later, for the same record.\<close>

theorem dpop_proof_accepted_once_witness:
  "\<not> is_ok (snd (run_calls (route_step trial_route) [trial_call 100000, trial_call 101000] dpop_demo) ! 1)"
proof -
  have "rc_storeClock (trial_call n) = of_int n" for n by (simp add: trial_call_def)
  then have "\<forall>k l. k \<le> l \<and> l < length [trial_call 100000, trial_call 101000] \<longrightarrow>
      rc_storeClock ([trial_call 100000, trial_call 101000] ! k) \<le> rc_storeClock ([trial_call 100000, trial_call 101000] ! l)"
    by (auto simp: less_Suc_eq le_Suc_eq nth_Cons')
  from dpop_proof_accepted_once [OF trial_policy_resolved trial_route_created _ _ dpop_demo_created this, of 0 1 trial_proof]
  show ?thesis by (simp add: trial_presented trial_accepted trial_policy_def)
qed

end
