(* ===== verification/DpopAdmission.thy ===== *)
theory DpopAdmission
  imports DpopRoute
begin

text \<open>
  What an accepted proof proves. \<open>proof_admitted\<close> is the specification: a signature of the presented text by the key
  whose thumbprint is returned, over claims that name this request, a time within the window and an accepted nonce.
  With every check enforced the routes accept exactly such proofs, when the store grants the reservation.
\<close>

definition strict_policy :: "dpop_policy \<Rightarrow> bool" where
  "strict_policy p \<longleftrightarrow> \<not> dp_ignoreTargetFailure p \<and> \<not> dp_ignoreFreshnessFailure p \<and> \<not> dp_ignoreReplayFailure p"

definition nonce_claim_ok :: "dpop_env \<Rightarrow> replay_policy \<Rightarrow> jsval \<Rightarrow> string \<Rightarrow> int \<Rightarrow> bool" where
  "nonce_claim_ok e rp nonce jkt now \<longleftrightarrow>
     (case rp_nonce rp of
        None \<Rightarrow> nonce = JUndef \<or> is_str nonce
      | Some np \<Rightarrow> nonce_verify (de_hmac e) np nonce jkt now)"

definition proof_admitted :: "vault_route \<Rightarrow> route_request \<Rightarrow> string \<Rightarrow> instant \<Rightarrow> verified_key \<Rightarrow> string \<Rightarrow> int \<Rightarrow> bool" where
  "proof_admitted r q jws t key replayKey expiresAt \<longleftrightarrow>
     (\<exists>jwk cl target now.
        signed_claims (vr_env r) (dp_algorithms (vr_policy r)) jws = Inr (snd key, jwk, cl) \<and>
        de_thumbprint (vr_env r) jwk = fst key \<and> isCanonicalDpopJkt (JStr (fst key)) \<and>
        cl_htm cl = JStr (rq_method q) \<and> rq_method q \<noteq> [] \<and>
        request_target (de_new_url (vr_env r)) (vr_target r) (rq_originalUrl q) = Inr target \<and>
        normalizeDpopProofTarget (de_new_url (vr_env r)) (cl_htu cl) = Inr target \<and>
        valid_clock (at_now t) = Some now \<and> cl_iat cl * 1000 \<le> now + dp_clockSkewSeconds (vr_policy r) * 1000 \<and>
        now < expiresAt \<and> is_safe (cl_iat cl * 1000) \<and> is_safe expiresAt \<and>
        expiresAt = (cl_iat cl + dp_proofMaxAgeSeconds (vr_policy r) + dp_clockSkewSeconds (vr_policy r)) * 1000 \<and>
        \<not> nonce_too_long (cl_nonce cl) \<and> nonce_claim_ok (vr_env r) (vr_replay r) (cl_nonce cl) (fst key) now \<and>
        createDpopReplayKey (de_sha256 (vr_env r)) (rp_namespace (vr_replay r)) (fst key) (cl_jti cl) = Inr replayKey)"

lemma Some_JStr_Inr:
  "(case (a, b) of (Some i, JStr j) \<Rightarrow> f i j | _ \<Rightarrow> Inl e) = Inr x \<longleftrightarrow> (\<exists>i j. a = Some i \<and> b = JStr j \<and> f i j = Inr x)"
  by (cases a; cases b) auto

lemma proof_claims_Inr:
  "proof_claims e payload = Inr cl \<Longrightarrow> 0 \<le> cl_iat cl \<and> is_safe (cl_iat cl) \<and> 1 \<le> length (cl_jti cl) \<and>
     length (cl_jti cl) \<le> 128 \<and> printable (cl_jti cl)"
  unfolding proof_claims_def andthen_Inr Some_JStr_Inr by (auto simp: Suc_le_eq split: if_splits dest!: as_safe_SomeD)

lemma signed_claims_Inr:
  assumes "signed_claims e algs jws = Inr (alg, jwk, cl)"
  shows "alg \<in> set algs \<and> (\<exists>header payload. publicJwk e (jprop header ''jwk'') alg = Inr jwk \<and>
           de_compactVerify e jws jwk alg algs = Some payload \<and> proof_claims e payload = Inr cl)"
proof -
  from assms obtain h p s where "split_on CHR ''.'' jws = [h, p, s]"
    by (auto simp: signed_claims_def andthen_Inr split: list.splits)
  with assms show ?thesis
    by (auto simp: signed_claims_def andthen_Inr header_alg_def split: option.splits if_splits)
qed

text \<open>The checks of the replay policy on what the verifier returns.\<close>

lemma verified_key_claims:
  assumes "isCanonicalDpopJkt (JStr jkt)" "alg \<in> set (dp_algorithms p)" "0 \<le> cl_iat cl" "is_safe (cl_iat cl)"
    "1 \<le> length (cl_jti cl)" "length (cl_jti cl) \<le> 128" "printable (cl_jti cl)"
  shows "verified_key_of p \<lparr>vp_binding = verified_val (jkt, alg), vp_iat = jint (cl_iat cl), vp_jti = JStr (cl_jti cl),
           vp_nonce = n\<rparr> = Inr ((jkt, alg), cl_jti cl)"
  using assms by (simp add: verified_key_of_def verified_val_def isRecord_def isPrintableIdentifier_def printable_def)

lemma verified_key_of_Inr:
  "verified_key_of p \<lparr>vp_binding = verified_val k, vp_iat = i, vp_jti = JStr j, vp_nonce = n\<rparr> = Inr (key, jti) \<Longrightarrow>
     key = k \<and> jti = j \<and> isCanonicalDpopJkt (JStr (fst k))"
  by (cases k) (auto simp: verified_key_of_def verified_val_def isRecord_def split: if_splits)

lemma prepare_Reserve_iff:
  assumes "rp_policy rp = p" "\<not> dp_ignoreFreshnessFailure p" "policy_wf p" "0 \<le> cl_iat cl" "is_safe (cl_iat cl)"
    "1 \<le> length (cl_jti cl)" "length (cl_jti cl) \<le> 128" "printable (cl_jti cl)" "alg \<in> set (dp_algorithms p)"
    "\<not> nonce_too_long (cl_nonce cl)"
  shows "prepare_reservation e rp \<lparr>vp_binding = verified_val (jkt, alg), vp_iat = jint (cl_iat cl), vp_jti = JStr (cl_jti cl),
           vp_nonce = cl_nonce cl\<rparr> t = Inr (Reserve (Some k) expi key) \<longleftrightarrow>
     key = (jkt, alg) \<and> isCanonicalDpopJkt (JStr jkt) \<and> createDpopReplayKey (de_sha256 e) (rp_namespace rp) jkt (cl_jti cl) = Inr k \<and>
     (\<exists>now. valid_clock (at_now t) = Some now \<and> cl_iat cl * 1000 \<le> now + dp_clockSkewSeconds p * 1000 \<and> now < expi \<and>
        is_safe (cl_iat cl * 1000) \<and> is_safe expi \<and>
        expi = (cl_iat cl + dp_proofMaxAgeSeconds p + dp_clockSkewSeconds p) * 1000 \<and>
        nonce_claim_ok e rp (cl_nonce cl) jkt now)"
  (is "prepare_reservation e rp ?v t = ?r \<longleftrightarrow> ?rhs")
proof (cases "isCanonicalDpopJkt (JStr jkt)")
  case True
  have vk: "verified_key_of p ?v = Inr ((jkt, alg), cl_jti cl)" using verified_key_claims [OF True assms(9,4-8)] .
  have clk: "check_clock p t = Inr now \<longleftrightarrow> valid_clock (at_now t) = Some now" for now
    using assms(2) by (auto simp: check_clock_def handleDpopCheckFailure_def split: option.splits)
  have pos: "valid_clock x = Some now \<Longrightarrow> 0 \<le> now \<and> is_safe now" for x now
    by (auto simp: valid_clock_def split: option.splits if_splits dest: safe_int_SomeD)
  have expi: "reservation_expiry p (jint (cl_iat cl)) now = Inr x \<longleftrightarrow>
      cl_iat cl * 1000 \<le> now + dp_clockSkewSeconds p * 1000 \<and> now < x \<and> is_safe (cl_iat cl * 1000) \<and> is_safe x \<and>
      x = (cl_iat cl + dp_proofMaxAgeSeconds p + dp_clockSkewSeconds p) * 1000" if "0 \<le> now \<and> is_safe now" for now x
  proof -
    have "reservation_expiry p (jint (cl_iat cl)) now = Inr x \<longleftrightarrow>
        getDpopReplayExpiresAt (jint (cl_iat cl)) now (dp_proofMaxAgeSeconds p) (dp_clockSkewSeconds p) = Some x"
      using assms(2) by (auto simp: reservation_expiry_def handleDpopCheckFailure_def split: option.splits)
    also have "\<dots> \<longleftrightarrow> cl_iat cl * 1000 \<le> now + dp_clockSkewSeconds p * 1000 \<and> now < x \<and> is_safe (cl_iat cl * 1000) \<and>
        is_safe x \<and> x = (cl_iat cl + dp_proofMaxAgeSeconds p + dp_clockSkewSeconds p) * 1000"
      using assms(3-5) that by (auto simp: window_exact policy_wf_def)
    finally show ?thesis .
  qed
  have res: "(if \<not> c then andthen x (\<lambda>n. Inr (Challenge n)) else Inr (Reserve k' expi' key')) = Inr (Reserve (Some k) expi key) \<longleftrightarrow>
      c \<and> k' = Some k \<and> expi' = expi \<and> key' = key"
    "(if c then Inl InvalidProof else Inr (Reserve k' expi' key')) = Inr (Reserve (Some k) expi key) \<longleftrightarrow>
      \<not> c \<and> k' = Some k \<and> expi' = expi \<and> key' = key"
    for c k' expi' key' and x :: "dpop_error + string"
    by (auto simp: andthen_Inr)
  have some: "(case y of Inl _ \<Rightarrow> None | Inr k \<Rightarrow> Some k) = Some k \<longleftrightarrow> y = Inr k" for y :: "dpop_error + string"
    by (cases y) auto
  let ?key = "case createDpopReplayKey (de_sha256 e) (rp_namespace rp) jkt (cl_jti cl) of Inl _ \<Rightarrow> None | Inr k \<Rightarrow> Some k"
  define inner where "inner now x = (case rp_nonce rp of
       Some np \<Rightarrow>
         (if \<not> nonce_verify (de_hmac e) np (cl_nonce cl) jkt now
          then andthen (nonce_issue (de_hmac e) np (at_random t) jkt now) (\<lambda>n. Inr (Challenge n))
          else Inr (Reserve ?key x (jkt, alg)))
     | None \<Rightarrow>
         (if cl_nonce cl \<noteq> JUndef \<and> (\<not> is_str (cl_nonce cl) \<or> nonce_too_long (cl_nonce cl)) then Inl InvalidProof
          else Inr (Reserve ?key x (jkt, alg))))" for now x
  have inner: "inner now x = Inr (Reserve (Some k) expi key) \<longleftrightarrow>
      createDpopReplayKey (de_sha256 e) (rp_namespace rp) jkt (cl_jti cl) = Inr k \<and> x = expi \<and> key = (jkt, alg) \<and>
      nonce_claim_ok e rp (cl_nonce cl) jkt now" for now x
    unfolding inner_def nonce_claim_ok_def using assms(10) by (cases "rp_nonce rp") (simp_all only: option.case res some, auto)
  have "prepare_reservation e rp ?v t = ?r \<longleftrightarrow>
      (\<exists>now. check_clock p t = Inr now \<and> (\<exists>x. reservation_expiry p (jint (cl_iat cl)) now = Inr x \<and> inner now x = ?r))"
    unfolding prepare_reservation_def assms(1) vk andthen_simps prod.case fst_conv Let_def verified_proof.simps
      inner_def [symmetric] andthen_Inr ..
  also have "\<dots> \<longleftrightarrow> (\<exists>now. valid_clock (at_now t) = Some now \<and> reservation_expiry p (jint (cl_iat cl)) now = Inr expi \<and>
      createDpopReplayKey (de_sha256 e) (rp_namespace rp) jkt (cl_jti cl) = Inr k \<and> key = (jkt, alg) \<and>
      nonce_claim_ok e rp (cl_nonce cl) jkt now)"
    unfolding inner clk by blast
  also have "\<dots> \<longleftrightarrow> ?rhs"
    using True by (auto simp only: expi [OF pos])
  finally show ?thesis .
next
  case False
  have "prepare_reservation e rp ?v t \<noteq> ?r"
  proof
    assume "prepare_reservation e rp ?v t = ?r"
    from prepare_ReserveD [OF this] obtain jti where "verified_key_of (rp_policy rp) ?v = Inr (key, jti)" by auto
    from verified_key_of_Inr [OF this] False show False by simp
  qed
  with False show ?thesis by simp
qed

text \<open>The stage of a proof, and with it the verdict of the routes.\<close>

lemma stage_admitted:
  assumes "vr_policy r = p" "rp_policy (vr_replay r) = p" "policy_wf p" "strict_policy p"
  shows "proof_stage r c expected jws = Inr (Reserve (Some k) expi key) \<and> isCanonicalDpopJkt (JStr (fst key)) \<longleftrightarrow>
     proof_admitted r (rc_request c) jws (rc_instant c) key k expi \<and> (\<forall>x. expected = Some x \<longrightarrow> fst key = x)"
  (is "?stage \<and> _ \<longleftrightarrow> ?adm \<and> ?exp")
proof -
  let ?e = "vr_env r" and ?q = "rc_request c"
  let ?target = "request_target (de_new_url ?e) (vr_target r) (rq_originalUrl ?q)"
  let ?v = "\<lambda>jwk alg cl. \<lparr>vp_binding = verified_val (de_thumbprint ?e jwk, alg), vp_iat = jint (cl_iat cl),
    vp_jti = JStr (cl_jti cl), vp_nonce = cl_nonce cl\<rparr>"
  have target: "target_step ?e p cl (rq_method ?q) ?target = Inr () \<longleftrightarrow>
      cl_htm cl = JStr (rq_method ?q) \<and> rq_method ?q \<noteq> [] \<and>
      (\<exists>t. ?target = Inr t \<and> normalizeDpopProofTarget (de_new_url ?e) (cl_htu cl) = Inr t)" for cl
    using assms(4)
    by (auto simp: target_step_def check_target_def strict_policy_def handleDpopCheckFailure_def andthen_Inr
        split: sum.split if_splits)
  have prep: "prepare_reservation ?e (vr_replay r) (?v jwk alg cl) (rc_instant c) = Inr (Reserve (Some k) expi key) \<longleftrightarrow>
      key = (de_thumbprint ?e jwk, alg) \<and> isCanonicalDpopJkt (JStr (de_thumbprint ?e jwk)) \<and>
      createDpopReplayKey (de_sha256 ?e) (rp_namespace (vr_replay r)) (de_thumbprint ?e jwk) (cl_jti cl) = Inr k \<and>
      (\<exists>now. valid_clock (at_now (rc_instant c)) = Some now \<and> cl_iat cl * 1000 \<le> now + dp_clockSkewSeconds p * 1000 \<and>
         now < expi \<and> is_safe (cl_iat cl * 1000) \<and> is_safe expi \<and>
         expi = (cl_iat cl + dp_proofMaxAgeSeconds p + dp_clockSkewSeconds p) * 1000 \<and>
         nonce_claim_ok ?e (vr_replay r) (cl_nonce cl) (de_thumbprint ?e jwk) now)"
    if "signed_claims ?e (dp_algorithms p) jws = Inr (alg, jwk, cl)" "\<not> nonce_too_long (cl_nonce cl)" for alg jwk cl
  proof -
    from signed_claims_Inr [OF that(1)] proof_claims_Inr have "alg \<in> set (dp_algorithms p)" "0 \<le> cl_iat cl"
        "is_safe (cl_iat cl)" "1 \<le> length (cl_jti cl)" "length (cl_jti cl) \<le> 128" "printable (cl_jti cl)"
      by blast+
    with that(2) assms show ?thesis by (intro prepare_Reserve_iff) (simp_all add: strict_policy_def)
  qed
  have "?stage \<longleftrightarrow> (\<exists>alg jwk cl. signed_claims ?e (dp_algorithms p) jws = Inr (alg, jwk, cl) \<and>
      target_step ?e p cl (rq_method ?q) ?target = Inr () \<and> \<not> nonce_too_long (cl_nonce cl) \<and>
      (\<forall>x. expected = Some x \<longrightarrow> isCanonicalDpopJkt (JStr x) \<and> de_thumbprint ?e jwk = x) \<and>
      prepare_reservation ?e (vr_replay r) (?v jwk alg cl) (rc_instant c) = Inr (Reserve (Some k) expi key))"
    unfolding proof_stage_def andthen_Inr verifyDpopProof_Inr proof_input.simps assms(1)
    by (simp add: token_hash_ok_def) blast
  then have "?stage \<and> isCanonicalDpopJkt (JStr (fst key)) \<longleftrightarrow>
     (\<exists>alg jwk cl. signed_claims ?e (dp_algorithms p) jws = Inr (alg, jwk, cl) \<and>
      target_step ?e p cl (rq_method ?q) ?target = Inr () \<and> \<not> nonce_too_long (cl_nonce cl) \<and>
      (\<forall>x. expected = Some x \<longrightarrow> isCanonicalDpopJkt (JStr x) \<and> de_thumbprint ?e jwk = x) \<and>
      prepare_reservation ?e (vr_replay r) (?v jwk alg cl) (rc_instant c) = Inr (Reserve (Some k) expi key)) \<and>
     isCanonicalDpopJkt (JStr (fst key))"
    by blast
  also have "\<dots> \<longleftrightarrow> ?adm \<and> ?exp"
    unfolding proof_admitted_def assms(1) target
    using prep by (cases key) auto
  finally show ?thesis .
qed

lemma stage_canonical:
  assumes "proof_stage r c expected jws = Inr (Reserve (Some k) expi key)"
  shows "isCanonicalDpopJkt (JStr (fst key))"
proof -
  from assms obtain v where v: "verifyDpopProof (vr_env r) (vr_policy r)
       \<lparr>pi_proof = jws, pi_method = rq_method (rc_request c),
        pi_targetUrl = request_target (de_new_url (vr_env r)) (vr_target r) (rq_originalUrl (rc_request c)),
        pi_expectedJkt = expected, pi_accessToken = JUndef\<rparr> = Inr v"
      "prepare_reservation (vr_env r) (vr_replay r) v (rc_instant c) = Inr (Reserve (Some k) expi key)"
    unfolding proof_stage_def andthen_Inr by blast
  from v(1) obtain x i j n where "v = \<lparr>vp_binding = verified_val x, vp_iat = i, vp_jti = JStr j, vp_nonce = n\<rparr>"
    unfolding verifyDpopProof_Inr by blast
  with prepare_ReserveD [OF v(2)] show ?thesis by (auto dest: verified_key_of_Inr)
qed

lemma verdict_strict:
  "\<not> dp_ignoreReplayFailure p \<Longrightarrow> reservation_verdict p answer = Inr () \<longleftrightarrow> answer = Inr (JBool True)"
  by (auto simp: reservation_verdict_def handleDpopCheckFailure_def split: sum.split jsval.split bool.split)

lemma snd_case_sum:
  "snd (case x of Inl err \<Rightarrow> (st, Inl err) | Inr y \<Rightarrow> f y) = Inr z \<longleftrightarrow> (\<exists>y. x = Inr y \<and> snd (f y) = Inr z)"
  by (cases x) auto

lemma admit_accepts:
  assumes "vr_policy r = p" "rp_policy (vr_replay r) = p" "policy_wf p" "strict_policy p"
  shows "snd (route_admit r reserve q jws expected t st) = Inr key \<longleftrightarrow>
     (\<exists>k expi. proof_admitted r q jws t key k expi \<and> (\<forall>x. expected = Some x \<longrightarrow> fst key = x) \<and>
        snd (reserve (reservation_input k expi) st) = Inr (JBool True))"
proof -
  define c where "c = \<lparr>rc_request = q, rc_binding = None, rc_instant = t, rc_storeClock = 0\<rparr>"
  have verdict: "andthen (reservation_verdict p answer) (\<lambda>_. Inr b) = Inr key \<longleftrightarrow> answer = Inr (JBool True) \<and> b = key"
    for answer b using verdict_strict [of p answer] assms(4) by (auto simp: andthen_Inr strict_policy_def)
  note adm = route_admit_stage [of r reserve c jws expected st, unfolded c_def route_call.simps, folded c_def]
  have "snd (route_admit r reserve q jws expected t st) = Inr key \<longleftrightarrow>
      (\<exists>k expi. proof_stage r c expected jws = Inr (Reserve (Some k) expi key) \<and>
         snd (reserve (reservation_input k expi) st) = Inr (JBool True))"
  proof (cases "proof_stage r c expected jws")
    case (Inr stage)
    show ?thesis
    proof (cases stage)
      case (Challenge n)
      with Inr show ?thesis by (simp add: adm andthen_Inr)
    next
      case (Reserve k expi b)
      with Inr show ?thesis by (cases k) (auto simp: adm assms(2) Let_def split_def verdict)
    qed
  qed (simp add: adm)
  also have "\<dots> \<longleftrightarrow> (\<exists>k expi. proof_admitted r q jws t key k expi \<and> (\<forall>x. expected = Some x \<longrightarrow> fst key = x) \<and>
         snd (reserve (reservation_input k expi) st) = Inr (JBool True))"
    using stage_admitted [OF assms, of c expected jws _ _ key] stage_canonical [of r c expected jws _ _ key]
    by (simp add: c_def) blast
  finally show ?thesis .
qed

text \<open>C11: With every check enforced a route accepts exactly the proofs that prove possession for this request: one
  header, a signature by the key whose thumbprint is returned under an allowed algorithm, the method and the public URL
  of the request, a time within the window, an accepted nonce and a granted reservation. A stored record
  is used only with the key it is bound to, so that a record that is not bound never becomes bound.\<close>

theorem route_accepts_exactly:
  assumes "resolveDeviceBindingOptions env opts = Inr (Some p)" "strict_policy p"
    and "createVaultRouteProofVerifier env e (Some p) store issuer clientId backendOrigin basePath = Inr (Some r)"
  shows "(snd (route_verify r reserve q b t st) = Inr (Some key) \<longleftrightarrow>
            snapshotDpopBinding b = Inr (Some (fst key)) \<and>
            (\<exists>jws k expi. extractDpopProof (rq_header q) = Inr (Some jws) \<and> proof_admitted r q jws t key k expi \<and>
               snd (reserve (reservation_input k expi) st) = Inr (JBool True))) \<and>
         (snd (route_initiate r reserve q t st) = Inr (Some key) \<longleftrightarrow>
            (\<exists>jws k expi. extractDpopProof (rq_header q) = Inr (Some jws) \<and> proof_admitted r q jws t key k expi \<and>
               snd (reserve (reservation_input k expi) st) = Inr (JBool True)))"
proof -
  note wf = resolved_policy_wf [OF assms(1)]
  note pol = created_policy [OF wf assms(3)]
  note accepts = admit_accepts [OF pol(1,2) wf assms(2)]
  have login: "snd (route_initiate r reserve q t st) = Inr (Some key) \<longleftrightarrow>
      (\<exists>jws. extractDpopProof (rq_header q) = Inr (Some jws) \<and> snd (route_admit r reserve q jws None t st) = Inr key)"
    by (auto simp: route_initiate_def andthen_def split: sum.split option.split prod.split)
  have alg: "snd key \<in> set (dp_algorithms p)" if "proof_admitted r q jws t key k expi" for jws k expi
    using that signed_claims_Inr by (auto simp: proof_admitted_def pol)
  have bound: "resolveVerifiedDeviceBinding (Some p) (binding_val binding) (verified_val k) = Inr (Some key) \<longleftrightarrow>
      binding = Some (fst key) \<and> k = key" if "isCanonicalDpopJkt (JStr (fst k))" "snd k \<in> set (dp_algorithms p)"
        "snapshotDpopBinding b = Inr binding" for binding k
  proof -
    note again = snapshot_again [OF that(3)]
    have "assertDeviceBindingPolicy (Some p) (binding_val binding) = Inr () \<or> binding = None"
      by (simp add: assertDeviceBindingPolicy_def again)
    then show ?thesis
      using that(1,2) again
      by (cases key; cases k; cases binding)
         (auto simp: resolve_verified_iff snapshot_verified isDpopAlgorithm_iff [symmetric])
  qed
  have use: "snd (route_verify r reserve q b t st) = Inr (Some key) \<longleftrightarrow>
      (\<exists>binding jws k. snapshotDpopBinding b = Inr binding \<and> assertDeviceBindingPolicy (Some p) (binding_val binding) = Inr () \<and>
         extractDpopProof (rq_header q) = Inr (Some jws) \<and> snd (route_admit r reserve q jws binding t st) = Inr k \<and>
         resolveVerifiedDeviceBinding (Some p) (binding_val binding) (verified_val k) = Inr (Some key))"
  proof -
    have none: "resolveVerifiedDeviceBinding (Some p) v JUndef \<noteq> Inr (Some key)" for v
      by (simp add: resolve_verified_iff)
    have ex: "(case x of (binding, None) \<Rightarrow> (st, resolveVerifiedDeviceBinding (Some p) (binding_val binding) JUndef)
        | (binding, Some jws) \<Rightarrow> (let (st', k) = route_admit r reserve q jws binding t st in (st', andthen k (f binding)))) = y \<Longrightarrow>
       snd y = Inr (Some key) \<longleftrightarrow> (\<exists>binding jws k. x = (binding, Some jws) \<and>
         snd (route_admit r reserve q jws binding t st) = Inr k \<and> f binding k = Inr (Some key))" for x y f
      using none by (cases x; cases "snd x") (auto simp: split_def Let_def andthen_Inr)
    show ?thesis
      unfolding route_verify_def pol snd_case_sum ex [OF refl] andthen_Inr ex_unit by blast
  qed
  show ?thesis
  proof
    show "snd (route_initiate r reserve q t st) = Inr (Some key) \<longleftrightarrow>
            (\<exists>jws k expi. extractDpopProof (rq_header q) = Inr (Some jws) \<and> proof_admitted r q jws t key k expi \<and>
               snd (reserve (reservation_input k expi) st) = Inr (JBool True))"
      unfolding login accepts by blast
    have canonical: "isCanonicalDpopJkt (JStr (fst k))" if "proof_admitted r q jws t k x y" for jws k x y
      using that by (auto simp: proof_admitted_def)
    have algs: "snd k \<in> set (dp_algorithms p)" if "proof_admitted r q jws t k x y" for jws k x y
      using that signed_claims_Inr by (auto simp: proof_admitted_def pol)
    have ok: "assertDeviceBindingPolicy (Some p) (binding_val (Some jkt)) = Inr ()" if "isCanonicalDpopJkt (JStr jkt)" for jkt
      using snapshot_binding_val(1) [OF that] by (simp add: assertDeviceBindingPolicy_def)
    show "snd (route_verify r reserve q b t st) = Inr (Some key) \<longleftrightarrow>
            snapshotDpopBinding b = Inr (Some (fst key)) \<and>
            (\<exists>jws k expi. extractDpopProof (rq_header q) = Inr (Some jws) \<and> proof_admitted r q jws t key k expi \<and>
               snd (reserve (reservation_input k expi) st) = Inr (JBool True))" (is "?l \<longleftrightarrow> ?b \<and> ?r")
    proof
      assume ?l
      then obtain binding jws k x y where l: "snapshotDpopBinding b = Inr binding" "extractDpopProof (rq_header q) = Inr (Some jws)"
          "proof_admitted r q jws t k x y" "snd (reserve (reservation_input x y) st) = Inr (JBool True)"
          "resolveVerifiedDeviceBinding (Some p) (binding_val binding) (verified_val k) = Inr (Some key)"
        unfolding use accepts by blast
      from bound [OF canonical [OF l(3)] algs [OF l(3)] l(1)] l(5) have "binding = Some (fst key)" "k = key" by simp_all
      with l show "?b \<and> ?r" by blast
    next
      assume "?b \<and> ?r"
      then obtain jws x y where l: "snapshotDpopBinding b = Inr (Some (fst key))" "extractDpopProof (rq_header q) = Inr (Some jws)"
          "proof_admitted r q jws t key x y" "snd (reserve (reservation_input x y) st) = Inr (JBool True)"
        by blast
      from bound [OF canonical [OF l(3)] algs [OF l(3)] l(1)]
      have "resolveVerifiedDeviceBinding (Some p) (binding_val (Some (fst key))) (verified_val key) = Inr (Some key)" by simp
      moreover have "snd (route_admit r reserve q jws (Some (fst key)) t st) = Inr key"
        unfolding accepts using l(3,4) by blast
      ultimately show ?l unfolding use using l(1,2) ok [OF canonical [OF l(3)]] by blast
    qed
  qed
qed

theorem route_accepts_exactly_witness:
  "\<exists>k expi. proof_admitted trial_route (rc_request (trial_call 100000)) trial_proof (rc_instant (trial_call 100000))
     (trial_jkt, ES256) k expi \<and>
     snd (memory_reserve 100000 (reservation_input k expi) dpop_demo) = Inr (JBool True)"
proof -
  let ?c = "trial_call 100000"
  have "strict_policy trial_policy" by (simp add: strict_policy_def trial_policy_def)
  note iff = route_accepts_exactly [OF trial_policy_resolved this trial_route_created, of "memory_reserve 100000"
      "rc_request ?c" "JObj [(''type'', JStr ''dpop''), (''jkt'', JStr trial_jkt)]" "rc_instant ?c" dpop_demo "(trial_jkt, ES256)"]
  have "snd (route_verify trial_route (memory_reserve 100000) (rc_request ?c)
      (JObj [(''type'', JStr ''dpop''), (''jkt'', JStr trial_jkt)]) (rc_instant ?c) dpop_demo) = Inr (Some (trial_jkt, ES256))"
    using trial_accepted by (simp add: route_step_def trial_call_def)
  moreover have "extractDpopProof (rq_header (rc_request ?c)) = Inr (Some trial_proof)"
    using trial_presented [of 100000] by (auto simp: presented_def split: sum.splits)
  ultimately show ?thesis using iff by auto
qed

end
