(* ===== verification/Spec2Isabelle.thy ===== *)
theory Spec2Isabelle
  imports AttestGuard VaultSpec VaultTickets AccessComplexity OperationAccess FilterPolicy AccessQuery FieldRules HookGate RxExclude FrameApi DpopAdmission
begin

text \<open>
  A verification development of the web-ts-toolkit repository, a monorepo of TypeScript packages for Express and
  MongoDB applications. Paths below are relative to \<open>src/packages\<close>. The development follows the code of six
  packages, the ones that carry decisions of their own: what a proof admits, what a store hands out once, what a
  request may see, what a query matches, what a payload keeps.

  \<^bold>\<open>The parts.\<close>

  \<^item> \<open>Prelude\<close>, \<open>JsText\<close>, \<open>JsValue\<close>: the run time of JavaScript as far as the modelled code uses it. Numbers are a
    finite rational, an infinity or NaN; an untyped value is a \<open>jsval\<close> (JSON shaped) or a \<open>jsany\<close> (anything);
    a \<open>Map\<close> is an association list with its insertion order; a string is a list of code units below 256. An
    operation that may throw returns \<open>Inl error\<close> or \<open>Inr value\<close>; \<open>andthen\<close> is sequencing.

  \<^item> \<open>express-request-attestation\<close>. A client signs each request; the guard verifies the MAC and asks a store to
    reserve the nonce of the proof. \<open>AttestTypes\<close> (shared/types.ts, server-types.ts) has the data, \<open>AttestTime\<close>
    (shared/time-policy.ts) the time window, \<open>AttestCodec\<close> (shared/canonical.ts, shared/codec.ts) the wire format,
    \<open>AttestKeys\<close> (keys.ts) the key providers, \<open>AttestStore\<close> (stores/memory.ts) the replay store, \<open>AttestVerify\<close>
    (verify.ts) the verification, \<open>AttestGuard\<close> (middleware.ts) the middleware as the interleaved stages of many
    requests over one store.

  \<^item> \<open>express-oidc-vault-memory-store\<close>. A store of login transactions, exchange codes, sessions with rotation
    aliases, logout tickets and DPoP proofs. \<open>VaultBinding\<close> (binding.ts), \<open>VaultStore\<close> (index.ts), \<open>VaultReplay\<close>
    (dpop-replay.ts), \<open>VaultTickets\<close> (logout-tickets.ts, logout-ticket-validation.ts) are the operations,
    \<open>VaultSpec\<close> what they promise.

  \<^item> \<open>express-oidc-vault\<close>. The POST routes of the vault bind a session to the key of the client that proves to hold it.
    \<open>DpopPolicy\<close> (device-binding-policy.ts, dpop-failure-policy.ts) resolves the options and matches bindings,
    \<open>DpopTarget\<close> (dpop-target.ts) is the public URL a proof has to name, \<open>DpopNonce\<close> (dpop-nonce.ts) the stateless
    nonces, \<open>DpopProof\<close> (dpop-proof.ts) the checks on a proof, \<open>DpopReplay\<close> (dpop-replay.ts) time window and reservation,
    \<open>DpopRoute\<close> (vault-route-proof.ts) the check of a route over the memory store; \<open>DpopKeys\<close> and \<open>DpopAdmission\<close> say
    what the checks mean.

  \<^item> The expiry heap that three of these stores carry, each with its own copy of the code: \<open>ExpiryHeap\<close> models it with
    its shared, position-carrying rows; \<open>ReplayLedger\<close> is the admission that two stores share, with the contract
    \<open>replay_ledger\<close>; \<open>OneTime\<close> is the contract of records that may be consumed once.

  \<^item> \<open>access-router\<close>. A router that checks each operation on a model against its access rules. \<open>AccessComplexity\<close>
    (request-complexity.ts) bounds a request body, \<open>OperationAccess\<close> (operation-access.ts) selects the guard of an
    operation, \<open>FilterPolicy\<close> (core-shared.ts) composes the row filter of an access, \<open>FieldRules\<close> (permission.ts,
    acl, parts of core-shared.ts) decides which fields a request may see, \<open>SortPolicy\<close> and \<open>AccessQuery\<close> (helpers)
    normalise sort arguments, pages and selections, \<open>Admission\<close> (helpers/concurrency.ts) is the pool of
    permits and the bounded map, \<open>HookGate\<close> the shared gate of hook chains over such pools.

  \<^item> \<open>mongoose-rxdb\<close>, query-compiler.ts. \<open>RxFilter\<close> sanitises a MongoDB filter and translates it to a selector;
    \<open>RxProjection\<close>, \<open>RxInclude\<close>, \<open>RxExclude\<close> are the projection of a stored record and what it shows.

  \<^item> \<open>json-frame\<close>. \<open>FrameJson\<close> (json.ts) copies and checks JSON values, \<open>FrameParse\<close> (parse/parse.ts) reads a table
    in any of six orientations, \<open>FrameState\<close> (frame/column.ts) stores its columns, \<open>FrameExport\<close>
    (export/payload.ts) writes payloads, \<open>FrameTransform\<close> (frame/DataFrame.ts, frame/create.ts) selects, filters,
    sorts, renames and re-indexes, \<open>FrameSchema\<close> says what the transforms keep of rows and of the schema,
    \<open>FrameTable\<close> is the export with a schema and its way back, \<open>FrameApi\<close> (options.ts, api.ts) the options and the
    entry points.

  \<^bold>\<open>How state and steps correspond to the code.\<close> A class is a record of its fields; a method is a function from the
  record and its arguments to the new record and its result, with the branches in the order of the code. Code that awaits is
  cut at each await: \<open>guard_step\<close> is one stage of one request, \<open>work_step\<close> one event of the permit pool, \<open>map_step\<close>
  one event of a bounded map, \<open>deleteSession\<close> is a begin and an end; theorems quantify over every sequence of steps. Clock
  readings are arguments of the steps, in any order the theorem states. Mutable rows that a map and an array share are an
  explicit store in \<open>ExpiryHeap\<close>. Objects that the code copies defensively are values.

  \<^bold>\<open>What the groups of lemmas show.\<close>

  \<^item> Attestation: a request is handled at most once whatever the interleaving and the abandoned store calls, as long
    as the providers and the clocks are what the README demands (the state records what they did, so that the theorem
    can say so); what is accepted carries a MAC of a served key over the canonical fields of that request; an honest request is
    accepted; the MAC input is injective; a rotation never remaps a retained key; the store keeps every live
    reservation and its bound. Errors are exactly the coded ones.
  \<^item> Vault: transactions, codes, tickets, logout tokens and proofs are given out once; rotation and revocation touch
    exactly the sessions they name; the indexes agree after any run.
  \<^item> Proofs of possession: a route accepts exactly the proofs that are signed by the bound key for this method, URL and
    time; no proof is accepted twice; a nonce is accepted exactly for its key, its space and its window; the byte tests on an
    RSA key are bounds on its numbers.
  \<^item> Router: the traversal with counters accepts exactly the values within the limits; the guard chosen is the
    first defined candidate; the composed filter matches the conjunction of its parts, cached or not, and nothing else
    unless two conditions on a field differ only in the order of nested keys, which the code takes for equal;
    a selection never exceeds the rules; the early decision on a field rule agrees with the late one; sort and page
    arguments are normalised without loss; the permit pool is bounded, first come first served and live; the bounded
    map ends and refines \<open>map\<close>; through the hook gate at most its limit of branches run, none deeper than 64, and
    a call that was made never waits for a later one.
  \<^item> Queries: sanitising accepts exactly the well-shaped filters within its limits, whose count is compared with the
    documented one, and changes nothing but dates; the selector matches what the filter matches but for arrays as
    conditions on \<open>_id\<close>; a projection shows what it includes and nothing it excludes.
  \<^item> Frames: the traversal with an explicit stack is the recursive copy; exported payloads parse back to the frame
    they came from, with columns packed into 32-bit words restored exactly, with or without a schema, where the payload
    has room for it (labels and columns that are keys have to be in the order of keys, and empty payloads lose them); every transform
    is, on the rows, the list operation it is named after, and keeps the declared fields of the columns; what an entry
    point returns is well formed.

  \<^bold>\<open>Bounds and termination.\<close> No function runs on fuel. Loops that the type of the data does not bound have a
  measure: the rows left in a sweep, the distance to the root or to the leaves in the heap, the nodes left below the
  frames of a traversal. Limits of the code (depth 1000 and the node budget of a frame, depth and nodes of a
  filter, 64 rows of a sweep, 2 to the 53rd for safe integers) are constants of the model with the code's values.

  \<^bold>\<open>Parameters.\<close> The WHATWG URL parser, HMAC-SHA-256 and SHA-256, the text of a number that is not an integer,
  \<open>JSON.parse\<close>, the signatures and thumbprints of the library jose, the functions of the application (access functions, hooks, comparators), and the database's matching of one field
  against a condition (\<open>leaf\<close>). No law is assumed of the first six but the length of a digest and that different
  numbers have different texts; a theorem that needs one of the last names it as a hypothesis.

  \<^bold>\<open>Simplifications.\<close> Code units above 255 are left out, so that UTF-16 surrogates do not occur. Values are finite
  trees: the checks for cyclic inputs have no counterpart, and the identity of objects is not
  observable. The sign of zero is not kept. Arithmetic is exact where the code's operands are safe integers or where
  the theorem bounds them. The message of an error is its constructor; the paths that messages quote are not kept
  except where a property is about them. Getters, proxies and non-enumerable properties are not modelled.

  \<^bold>\<open>Not modelled.\<close> Stores whose atomicity is that of Redis scripts or MongoDB commands, the browser clients
  (WebCrypto, workers, fetch), the OIDC flows over a provider with their cookies and tokens, the React hooks, the HTTP client, the process
  start-up and the command line, the message queue, the inliners and PDF readers over their libraries: their
  behaviour is that of services or libraries that are not in the repository. Of the modelled packages: of
  core-shared.ts the request permissions and hook chains, of
  query-compiler.ts \<open>applyUpdate\<close>, of json-frame the text that
  \<open>toJSONString\<close> prints and the diagnostics attached to errors.
\<close>

end
